(* ===== verification/Prelude.thy ===== *)
theory Prelude
  imports Main "HOL-Library.Word"
begin

text \<open>
  Shared vocabulary of the development: machine words and byte strings, the constants of
  \<open>src/src/crypto.h\<close> and \<open>src/src/fs.h\<close>, the error values the C functions return, little-endian
  encodings, and the two list operations every buffer manipulation of the program reduces to
  (\<open>slice\<close>, a read of \<open>n\<close> bytes at an offset, and \<open>overwrite\<close>, a \<open>memcpy\<close> into a buffer).
\<close>

unbundle bit_operations_syntax

section \<open>Types and constants\<close>

type_synonym u8 = "8 word"
type_synonym u32 = "32 word"
type_synonym u64 = "64 word"
type_synonym bytes = "u8 list"

definition SECTOR_SIZE :: nat where "SECTOR_SIZE = 4096"
definition HEADER_SIZE :: nat where "HEADER_SIZE = 4096"
definition LONG_MAX :: nat where "LONG_MAX = 2 ^ 63 - 1"
definition INT_MAX :: nat where "INT_MAX = 2 ^ 31 - 1"
definition UINT32_MAX :: nat where "UINT32_MAX = 2 ^ 32 - 1"

definition DENYFS_MAX_INODES :: nat where "DENYFS_MAX_INODES = 64"
definition DENYFS_MAX_NAME_LEN :: nat where "DENYFS_MAX_NAME_LEN = 251"
definition DENYFS_INODE_SIZE :: nat where "DENYFS_INODE_SIZE = 128"
definition DENYFS_DIRENT_SIZE :: nat where "DENYFS_DIRENT_SIZE = 256"
definition DENYFS_DIRECT_BLOCKS :: nat where "DENYFS_DIRECT_BLOCKS = 20"
definition DENYFS_POINTERS_PER_BLOCK :: nat where
  "DENYFS_POINTERS_PER_BLOCK = SECTOR_SIZE div 4"
definition DENYFS_MAX_FILE_BLOCKS :: nat where
  "DENYFS_MAX_FILE_BLOCKS = DENYFS_DIRECT_BLOCKS + DENYFS_POINTERS_PER_BLOCK +
     DENYFS_POINTERS_PER_BLOCK * DENYFS_POINTERS_PER_BLOCK"
definition DENYFS_MAX_FILE_SIZE :: nat where "DENYFS_MAX_FILE_SIZE = 4 * 1024 * 1024 * 1024"
definition DENYFS_DIRENTS_PER_BLOCK :: nat where
  "DENYFS_DIRENTS_PER_BLOCK = SECTOR_SIZE div DENYFS_DIRENT_SIZE"
definition DENYFS_SB_MAGIC :: u64 where "DENYFS_SB_MAGIC = 0x44656e7946533033"
definition DENYFS_HEADER_MAGIC :: u64 where "DENYFS_HEADER_MAGIC = 0x44656e7946533031"
definition DENYFS_HMAC_SIZE :: nat where "DENYFS_HMAC_SIZE = 32"
definition DENYFS_INVALID_INO :: u32 where "DENYFS_INVALID_INO = 0xFFFFFFFF"
definition DENYFS_INVALID_BLOCK :: u32 where "DENYFS_INVALID_BLOCK = 0xFFFFFFFF"
definition DENYFS_ITYPE_FREE :: u32 where "DENYFS_ITYPE_FREE = 0"
definition DENYFS_ITYPE_FILE :: u32 where "DENYFS_ITYPE_FILE = 1"
definition DENYFS_ITYPE_DIR :: u32 where "DENYFS_ITYPE_DIR = 2"
definition DENYFS_HIDDEN_HEADER_OFFSET_FROM_EOF :: nat where
  "DENYFS_HIDDEN_HEADER_OFFSET_FROM_EOF = 32768"

section \<open>Results\<close>

text \<open>
  The negative return values of the C functions. \<open>EFAIL\<close> is the bare \<open>-1\<close> of the helpers; the
  others are the negated \<open>errno\<close> constants. A call that can fail returns \<open>err + 'a\<close>.
\<close>

datatype err = EFAIL | EIO | ENOSPC | EINVAL | EEXIST | ENOENT | ENAMETOOLONG | EISDIR
  | EACCES | ENOMEM

type_synonym 'a res = "err + 'a"

definition errno :: "err \<Rightarrow> int" where
  "errno e = (case e of EFAIL \<Rightarrow> - 1 | EIO \<Rightarrow> - 5 | ENOSPC \<Rightarrow> - 28 | EINVAL \<Rightarrow> - 22 | EEXIST \<Rightarrow> - 17
     | ENOENT \<Rightarrow> - 2 | ENAMETOOLONG \<Rightarrow> - 36 | EISDIR \<Rightarrow> - 21 | EACCES \<Rightarrow> - 13 | ENOMEM \<Rightarrow> - 12)"

lemma errno_neg [simp]: "errno e < 0"
  by (cases e) (simp_all add: errno_def)

lemma errno_inj [simp]: "errno a = errno b \<longleftrightarrow> a = b"
  by (cases a; cases b) (simp_all add: errno_def)

section \<open>Buffers\<close>

definition slice :: "nat \<Rightarrow> nat \<Rightarrow> 'a list \<Rightarrow> 'a list" where
  "slice off n xs = take n (drop off xs)"

text \<open>Bytes \<open>off ..< off + length new\<close> are replaced; a gap before \<open>off\<close> is filled with zeros.\<close>

definition overwrite :: "nat \<Rightarrow> bytes \<Rightarrow> bytes \<Rightarrow> bytes" where
  "overwrite off new old =
     take off (old @ replicate (off - length old) 0) @ new @ drop (off + length new) old"

lemma length_slice [simp]: "length (slice off n xs) = min n (length xs - off)"
  by (simp add: slice_def min.commute)

lemma slice_nth [simp]:
  "i < n \<Longrightarrow> off + i < length xs \<Longrightarrow> slice off n xs ! i = xs ! (off + i)"
  by (simp add: slice_def)

lemma slice_all [simp]: "slice 0 (length xs) xs = xs"
  by (simp add: slice_def)

lemma slice_full [simp]: "length xs = n \<Longrightarrow> slice 0 n xs = xs"
  by (simp add: slice_def)

lemma slice_Cons [simp]: "slice (Suc off) n (x # xs) = slice off n xs"
  by (simp add: slice_def)

lemma slice_append_left [simp]:
  "off + n \<le> length xs \<Longrightarrow> slice off n (xs @ ys) = slice off n xs"
  by (simp add: slice_def)

lemma slice_append_right:
  "length xs \<le> off \<Longrightarrow> slice off n (xs @ ys) = slice (off - length xs) n ys"
  by (simp add: slice_def)

lemma slice_prefix: "length xs = n \<Longrightarrow> slice 0 n (xs @ ys) = xs"
  by (simp add: slice_def)

lemma length_overwrite [simp]:
  "length (overwrite off new old) = max (length old) (off + length new)"
  by (auto simp: overwrite_def max_def min_def)

lemma overwrite_inside:
  "off + length new \<le> length old \<Longrightarrow>
   overwrite off new old = take off old @ new @ drop (off + length new) old"
  by (simp add: overwrite_def)

lemma nth_overwrite:
  assumes "i < length old" "off + length new \<le> length old"
  shows "overwrite off new old ! i =
    (if off \<le> i \<and> i < off + length new then new ! (i - off) else old ! i)"
  using assms by (auto simp: overwrite_inside nth_append min_def)

lemma nth_overwrite_outside:
  assumes "i < length old" "i < off \<or> off + length new \<le> i"
  shows "overwrite off new old ! i = old ! i"
  using assms by (auto simp: overwrite_def nth_append min_def)

lemma slice_overwrite_same [simp]:
  "length new = n \<Longrightarrow> slice off n (overwrite off new old) = new"
  by (auto simp: slice_def overwrite_def min_def)

lemma slice_overwrite_disjoint:
  assumes "a + n \<le> length old" "off + length new \<le> length old"
    and "a + n \<le> off \<or> off + length new \<le> a"
  shows "slice a n (overwrite off new old) = slice a n old"
  using assms by (intro nth_equalityI) (auto simp: nth_overwrite)

section \<open>Little-endian integers\<close>

text \<open>
  The on-disk structures are packed C structs written by a little-endian machine (the code
  copies them as raw memory), so a field of \<open>n\<close> bytes is its \<open>n\<close> bytes from the lowest.
\<close>

fun le_enc :: "nat \<Rightarrow> 'a::len word \<Rightarrow> bytes" where
  "le_enc 0 w = []"
| "le_enc (Suc n) w = ucast w # le_enc n (drop_bit 8 w)"

fun le_dec :: "bytes \<Rightarrow> 'a::len word" where
  "le_dec [] = 0"
| "le_dec (b # bs) = ucast b OR push_bit 8 (le_dec bs)"

lemma length_le_enc [simp]: "length (le_enc n w) = n"
  by (induction n arbitrary: w) simp_all

lemma le_dec_enc_take:
  "le_dec (le_enc n (w :: 'a::len word)) = take_bit (8 * n) w"
proof (induction n arbitrary: w)
  case (Suc n)
  have "ucast (ucast w :: u8) OR push_bit 8 (take_bit (8 * n) (drop_bit 8 w)) = take_bit (8 * Suc n) w"
    by (rule bit_word_eqI)
      (auto simp: bit_simps not_le less_diff_conv2 dest: bit_imp_le_length)
  with Suc show ?case by simp
qed simp

lemma le_dec_enc [simp]:
  "LENGTH('a) \<le> 8 * n \<Longrightarrow> le_dec (le_enc n (w :: 'a::len word)) = w"
  by (simp add: le_dec_enc_take take_bit_word_eq_self)

lemma le_enc_dec [simp]:
  assumes "8 * n \<le> LENGTH('a)" "length bs = n"
  shows "le_enc n (le_dec bs :: 'a::len word) = bs"
  using assms
proof (induction bs arbitrary: n)
  case (Cons b bs)
  then obtain m where n: "n = Suc m" and m: "length bs = m" by auto
  let ?w = "le_dec bs :: 'a word"
  have len8: "8 \<le> LENGTH('a)" using Cons.prems(1) n by simp
  have b: "(ucast (ucast b OR push_bit 8 ?w :: 'a word) :: u8) = b"
    using len8 by (intro bit_word_eqI) (auto simp: bit_simps)
  have "le_enc m (drop_bit 8 (ucast b OR push_bit 8 ?w :: 'a word)) = le_enc m ?w"
  proof -
    have enc_cong: "le_enc k x = le_enc k y"
      if "\<And>i. i < 8 * k \<Longrightarrow> bit x i = bit y i" for k and x y :: "'a word"
      using that
    proof (induction k arbitrary: x y)
      case (Suc k)
      have "(ucast x :: u8) = ucast y"
        using Suc.prems by (intro bit_word_eqI) (auto simp: bit_simps)
      moreover have "le_enc k (drop_bit 8 x) = le_enc k (drop_bit 8 y)"
        using Suc.prems by (intro Suc.IH) (auto simp: bit_simps)
      ultimately show ?case by simp
    qed simp
    show ?thesis
      using Cons.prems(1) n m
      by (intro enc_cong) (auto simp: bit_simps dest: bit_imp_le_length)
  qed
  moreover have "le_enc m ?w = bs"
    using Cons.IH [of m] Cons.prems n m by simp
  ultimately show ?case using n b by simp
qed simp

lemma le_enc_inj:
  "LENGTH('a) \<le> 8 * n \<Longrightarrow> le_enc n x = le_enc n y \<longleftrightarrow> x = (y :: 'a::len word)"
  by (metis le_dec_enc)

section \<open>Words\<close>

lemma unat_ucast_up:
  "LENGTH('a) \<le> LENGTH('b) \<Longrightarrow> unat (ucast (w :: 'a::len word) :: 'b::len word) = unat w"
  by (simp add: unsigned_ucast_eq take_bit_nat_eq_self order_less_le_trans [OF unsigned_less])

lemma unat_less_2p: "unat (w :: 'a::len word) < 2 ^ LENGTH('a)"
  by (rule unsigned_less)

lemma unat_ucast_32_64 [simp]: "unat (ucast (w :: u32) :: u64) = unat w"
  by (simp add: unat_ucast_up)

section \<open>Rounding up\<close>

lemma ceil_div_ge: "0 < k \<Longrightarrow> n \<le> (n + k - 1) div k * (k :: nat)"
  using div_mult_mod_eq [of "n + k - 1" k] mod_less_divisor [of k "n + k - 1"] by linarith

end
