(* ===== verification/Crypto.thy ===== *)
theory Crypto
  imports Prelude
begin

text \<open>
  The crypto core, \<open>src/src/crypto.c\<close> and \<open>src/src/crypto.h\<close>. libsodium and OpenSSL are not part
  of the repository: their entry points are the fields of the record \<open>env\<close>, an argument of
  every definition that reaches them. What the code builds around them (the tweak of a sector, the
  HKDF input, the header layout, the checks on lengths and return codes) is translated.
\<close>

section \<open>The libraries\<close>

text \<open>
  \<open>e_xts key iv encrypt data\<close> is the EVP pipeline of AES-256-XTS, \<open>e_gcm_encrypt key iv pt\<close> and
  \<open>e_gcm_decrypt key iv ct tag\<close> those of AES-256-GCM, \<open>e_hmac key data\<close> is \<open>HMAC(EVP_sha256(), ...)\<close>
  and \<open>e_pwhash password salt\<close> is Argon2id with the program's fixed limits. \<open>None\<close> is a failing
  call (a NULL context or a return code other than 1). GCM decryption returns the plaintext it
  has produced together with the verdict of \<open>EVP_DecryptFinal_ex\<close>, because the code writes the
  output buffer before it knows the verdict. \<open>e_alloc s\<close> says whether the allocation at site \<open>s\<close> gets
  memory; the sites are the calls of \<open>malloc\<close>, \<open>calloc\<close> and \<open>denyfs_secure_alloc\<close> in \<open>src/src/fs.c\<close>,
  where a group of allocations is tested as a whole.
\<close>

datatype alloc_site = Claimed_buffer | Format_bitmap | Fill_chunk | Create_keys | Hidden_keys
  | Open_keys | Volume_struct | Volume_keys | Protect_keys | Bitmap_buffer | Dirty_buffer

record env =
  e_xts :: "bytes \<Rightarrow> bytes \<Rightarrow> bool \<Rightarrow> bytes \<Rightarrow> bytes option"
  e_gcm_encrypt :: "bytes \<Rightarrow> bytes \<Rightarrow> bytes \<Rightarrow> (bytes \<times> bytes) option"
  e_gcm_decrypt :: "bytes \<Rightarrow> bytes \<Rightarrow> bytes \<Rightarrow> bytes \<Rightarrow> (bytes \<times> bool) option"
  e_hmac :: "bytes \<Rightarrow> bytes \<Rightarrow> bytes option"
  e_pwhash :: "bytes \<Rightarrow> bytes \<Rightarrow> bytes option"
  e_alloc :: "alloc_site \<Rightarrow> bool"

section \<open>Sizes and header structures\<close>

definition SALT_SIZE :: nat where "SALT_SIZE = 16"
definition IV_SIZE :: nat where "IV_SIZE = 12"
definition TAG_SIZE :: nat where "TAG_SIZE = 16"
definition CIPHERTEXT_SIZE :: nat where
  "CIPHERTEXT_SIZE = HEADER_SIZE - SALT_SIZE - IV_SIZE - TAG_SIZE"
definition KEY_SIZE_XTS :: nat where "KEY_SIZE_XTS = 64"
definition KEY_SIZE_HMAC :: nat where "KEY_SIZE_HMAC = 32"
definition KEY_SIZE_GCM :: nat where "KEY_SIZE_GCM = 32"

lemmas crypto_sizes = SALT_SIZE_def IV_SIZE_def TAG_SIZE_def CIPHERTEXT_SIZE_def HEADER_SIZE_def
  KEY_SIZE_XTS_def KEY_SIZE_HMAC_def KEY_SIZE_GCM_def

record header_payload =
  hp_magic :: u64
  hp_volume_size :: u64
  hp_bitmap_offset :: u64
  hp_bitmap_size :: u64
  hp_volume_key :: bytes
  hp_hmac_key :: bytes
  hp_reserved :: bytes

record header_disk =
  hd_salt :: bytes
  hd_iv :: bytes
  hd_tag :: bytes
  hd_ciphertext :: bytes

text \<open>
  The packed payload struct has four 8-byte fields, two keys and the reserved bytes. The header
  file sizes \<open>reserved\<close> as if the four integers took 24 bytes, so the struct is 8 bytes longer than
  the \<open>CIPHERTEXT_SIZE\<close> bytes that are encrypted (theorem \<open>payload_size\<close>).
\<close>

definition payload_enc :: "header_payload \<Rightarrow> bytes" where
  "payload_enc p = le_enc 8 (hp_magic p) @ le_enc 8 (hp_volume_size p) @
     le_enc 8 (hp_bitmap_offset p) @ le_enc 8 (hp_bitmap_size p) @
     hp_volume_key p @ hp_hmac_key p @ hp_reserved p"

definition payload_dec :: "bytes \<Rightarrow> header_payload" where
  "payload_dec bs =
     \<lparr>hp_magic = le_dec (slice 0 8 bs), hp_volume_size = le_dec (slice 8 8 bs),
      hp_bitmap_offset = le_dec (slice 16 8 bs), hp_bitmap_size = le_dec (slice 24 8 bs),
      hp_volume_key = slice 32 64 bs, hp_hmac_key = slice 96 32 bs,
      hp_reserved = slice 128 3932 bs\<rparr>"

definition payload_ok :: "header_payload \<Rightarrow> bool" where
  "payload_ok p \<longleftrightarrow> length (hp_volume_key p) = KEY_SIZE_XTS \<and>
     length (hp_hmac_key p) = KEY_SIZE_HMAC \<and>
     length (hp_reserved p) = CIPHERTEXT_SIZE - 24 - KEY_SIZE_XTS - KEY_SIZE_HMAC"

definition header_enc :: "header_disk \<Rightarrow> bytes" where
  "header_enc h = hd_salt h @ hd_iv h @ hd_tag h @ hd_ciphertext h"

definition header_dec :: "bytes \<Rightarrow> header_disk" where
  "header_dec bs = \<lparr>hd_salt = slice 0 16 bs, hd_iv = slice 16 12 bs, hd_tag = slice 28 16 bs,
     hd_ciphertext = slice 44 4052 bs\<rparr>"

definition header_ok :: "header_disk \<Rightarrow> bool" where
  "header_ok h \<longleftrightarrow> length (hd_salt h) = SALT_SIZE \<and> length (hd_iv h) = IV_SIZE \<and>
     length (hd_tag h) = TAG_SIZE \<and> length (hd_ciphertext h) = CIPHERTEXT_SIZE"

section \<open>Keys\<close>

text \<open>\<open>"DenyFS Header Key V1"\<close> followed by the HKDF block counter.\<close>

definition header_key_info :: bytes where
  "header_key_info = map of_char ''DenyFS Header Key V1''"

definition derive_master_key :: "env \<Rightarrow> bytes \<Rightarrow> bytes \<Rightarrow> bytes option" where
  "derive_master_key E password salt = e_pwhash E password salt"

definition derive_header_key :: "env \<Rightarrow> bytes \<Rightarrow> bytes option" where
  "derive_header_key E master =
     (if 256 < length header_key_info + 1 then None
      else case e_hmac E master (header_key_info @ [1]) of
        None \<Rightarrow> None
      | Some out \<Rightarrow> if length out \<noteq> KEY_SIZE_GCM then None else Some out)"

definition compute_hmac :: "env \<Rightarrow> bytes \<Rightarrow> bytes \<Rightarrow> bytes option" where
  "compute_hmac E key data =
     (case e_hmac E key data of
        None \<Rightarrow> None
      | Some out \<Rightarrow> if length out = 32 then Some out else None)"

section \<open>Headers\<close>

text \<open>
  \<open>iv\<close> is what \<open>randombytes_buf\<close> delivered. The salt of the output header is the caller's; the
  cipher reads the first \<open>CIPHERTEXT_SIZE\<close> bytes of the struct.
\<close>

definition encrypt_header ::
  "env \<Rightarrow> bytes \<Rightarrow> header_payload \<Rightarrow> bytes \<Rightarrow> header_disk \<Rightarrow> header_disk option" where
  "encrypt_header E iv payload header_key out =
     (case e_gcm_encrypt E header_key iv (take CIPHERTEXT_SIZE (payload_enc payload)) of
        None \<Rightarrow> None
      | Some (ct, tag) \<Rightarrow> Some (out\<lparr>hd_iv := iv, hd_tag := tag, hd_ciphertext := ct\<rparr>))"

text \<open>
  The result is the return code (\<open>True\<close> for 0) and the contents of \<open>out_payload\<close>, which the
  decrypted bytes overwrite whether or not the tag verifies.
\<close>

definition decrypt_header ::
  "env \<Rightarrow> header_disk \<Rightarrow> bytes \<Rightarrow> header_payload \<Rightarrow> bool \<times> header_payload" where
  "decrypt_header E disk header_key out =
     (case e_gcm_decrypt E header_key (hd_iv disk) (hd_ciphertext disk) (hd_tag disk) of
        None \<Rightarrow> (False, out)
      | Some (pt, ok) \<Rightarrow> (ok, payload_dec (overwrite 0 pt (payload_enc out))))"

definition zero_payload :: header_payload where
  "zero_payload = \<lparr>hp_magic = 0, hp_volume_size = 0, hp_bitmap_offset = 0, hp_bitmap_size = 0,
     hp_volume_key = replicate 64 0, hp_hmac_key = replicate 32 0, hp_reserved = replicate 3932 0\<rparr>"

section \<open>Sectors\<close>

definition lba_iv :: "u64 \<Rightarrow> bytes" where
  "lba_iv lba = map (\<lambda>i. ucast (drop_bit (8 * i) lba AND 0xFF)) [0..<8] @ replicate 8 0"

definition crypt_sector :: "env \<Rightarrow> bytes \<Rightarrow> u64 \<Rightarrow> bytes \<Rightarrow> bool \<Rightarrow> bytes option" where
  "crypt_sector E in_sector lba key encrypt = e_xts E key (lba_iv lba) encrypt in_sector"

section \<open>Documented behaviour of the libraries\<close>

text \<open>
  AES-XTS with a 64-byte key and a 16-byte tweak is a length-preserving permutation of a
  4096-byte sector, and decryption inverts encryption (OpenSSL also refuses keys of two equal halves, which
  a random key has with probability \<open>2 ^ -256\<close>; that case is left out). GCM keeps the length of the text, makes a
  16-byte tag and decrypts and accepts what it has encrypted under the same key and nonce.
\<close>

definition xts_correct :: "env \<Rightarrow> bool" where
  "xts_correct E \<longleftrightarrow> (\<forall>key iv x. length key = KEY_SIZE_XTS \<longrightarrow> length iv = 16 \<longrightarrow>
     length x = SECTOR_SIZE \<longrightarrow>
     (\<exists>y z. e_xts E key iv True x = Some y \<and> length y = SECTOR_SIZE \<and> e_xts E key iv False y = Some x
          \<and> e_xts E key iv False x = Some z \<and> length z = SECTOR_SIZE))"

definition gcm_correct :: "env \<Rightarrow> bool" where
  "gcm_correct E \<longleftrightarrow> (\<forall>key iv pt. length key = KEY_SIZE_GCM \<longrightarrow> length iv = IV_SIZE \<longrightarrow>
     length pt = CIPHERTEXT_SIZE \<longrightarrow>
     (\<exists>ct tag. e_gcm_encrypt E key iv pt = Some (ct, tag) \<and> length ct = CIPHERTEXT_SIZE \<and>
        length tag = TAG_SIZE \<and> e_gcm_decrypt E key iv ct tag = Some (pt, True)))"

section \<open>Lemmas\<close>

lemma payload_enc_length:
  "payload_ok p \<Longrightarrow> length (payload_enc p) = 4060"
  by (simp add: payload_enc_def payload_ok_def crypto_sizes)

lemma payload_dec_enc: "payload_ok p \<Longrightarrow> payload_dec (payload_enc p) = p"
  by (cases p) (simp add: payload_enc_def payload_dec_def payload_ok_def crypto_sizes
      slice_append_right slice_prefix)

lemma header_dec_enc: "header_ok h \<Longrightarrow> header_dec (header_enc h) = h"
  by (cases h) (simp add: header_enc_def header_dec_def header_ok_def crypto_sizes
      slice_append_right slice_prefix)

lemma length_header_enc: "header_ok h \<Longrightarrow> length (header_enc h) = HEADER_SIZE"
  by (simp add: header_enc_def header_ok_def crypto_sizes)

lemma length_lba_iv [simp]: "length (lba_iv lba) = 16"
  by (simp add: lba_iv_def)

lemma lba_iv_le: "lba_iv lba = le_enc 8 lba @ replicate 8 0"
proof -
  have m: "(ucast (w AND 0xFF) :: u8) = ucast w" for w :: u64
  proof -
    have "w AND 0xFF = take_bit 8 w"
      by (simp add: take_bit_eq_mask mask_eq_exp_minus_1)
    then show ?thesis by (auto intro: bit_word_eqI simp: bit_simps)
  qed
  have "map (\<lambda>i. ucast (drop_bit (8 * i) lba AND 0xFF)) [0..<8] = le_enc 8 lba"
    by (simp add: m upt_rec eval_nat_numeral(3) numeral_eq_Suc)
  then show ?thesis by (simp add: lba_iv_def)
qed

lemma lba_iv_inj: "lba_iv a = lba_iv b \<longleftrightarrow> a = b"
  by (simp add: lba_iv_le le_enc_inj)

lemma crypt_sector_enc:
  assumes "xts_correct E" "length key = KEY_SIZE_XTS" "length x = SECTOR_SIZE"
  obtains y where "crypt_sector E x lba key True = Some y" "length y = SECTOR_SIZE"
    "crypt_sector E y lba key False = Some x"
  using assms unfolding xts_correct_def crypt_sector_def by (metis length_lba_iv)

lemma crypt_sector_dec:
  assumes "xts_correct E" "length key = KEY_SIZE_XTS" "length x = SECTOR_SIZE"
  obtains z where "crypt_sector E x lba key False = Some z" "length z = SECTOR_SIZE"
  using assms unfolding xts_correct_def crypt_sector_def by (metis length_lba_iv)

section \<open>A concrete instance of the libraries\<close>

text \<open>
  The witnesses evaluate the model with ciphers that leave the text as it is; keys, hashes and tags are
  the padded password or key, so that a wrong password is rejected. Nothing fails, and the documented
  behaviour holds.
\<close>

definition pad :: "nat \<Rightarrow> bytes \<Rightarrow> bytes" where
  "pad n bs = take n (bs @ replicate n 0)"

definition plain_env :: env where
  "plain_env = \<lparr>e_xts = (\<lambda>key iv enc x. Some x),
     e_gcm_encrypt = (\<lambda>key iv pt. Some (pt, pad TAG_SIZE key)),
     e_gcm_decrypt = (\<lambda>key iv ct tag. Some (ct, tag = pad TAG_SIZE key)),
     e_hmac = (\<lambda>key d. Some (pad 32 key)),
     e_pwhash = (\<lambda>pw salt. Some (pad KEY_SIZE_GCM pw)),
     e_alloc = (\<lambda>s. True)\<rparr>"

lemma length_pad [simp]: "length (pad n bs) = n"
  by (simp add: pad_def)

lemma pad_zeros [simp]: "pad n (replicate m 0) = replicate n 0"
  by (simp add: pad_def min_def flip: replicate_add)

lemma plain_env_simps [simp]:
  "e_xts plain_env key iv enc x = Some x"
  "e_gcm_encrypt plain_env key iv x = Some (x, pad TAG_SIZE key)"
  "e_gcm_decrypt plain_env key iv x t = Some (x, t = pad TAG_SIZE key)"
  "e_hmac plain_env key x = Some (pad 32 key)"
  "e_pwhash plain_env x y = Some (pad KEY_SIZE_GCM x)"
  "e_alloc plain_env s"
  by (simp_all add: plain_env_def)

lemma plain_env_correct: "xts_correct plain_env" "gcm_correct plain_env"
  by (simp_all add: xts_correct_def gcm_correct_def)

lemma plain_crypt_sector [simp]: "crypt_sector plain_env x lba key enc = Some x"
  by (simp add: crypt_sector_def)

end
