(* ===== verification/Layout.thy ===== *)
theory Layout
  imports Prelude
begin

text \<open>
  The on-disk structures of \<open>src/src/fs.h\<close>: superblock, inode and directory entry, each with its
  packed byte image, and the arrays of them that fill a block. The program copies structs to and
  from buffers as raw memory; \<open>*_enc\<close> is the memory image and \<open>*_dec\<close> reads it back.
\<close>

section \<open>Structures\<close>

record superblock =
  sb_magic :: u64
  sb_block_size :: u32
  sb_total_blocks :: u32
  sb_inode_count :: u32
  sb_bitmap_start :: u32
  sb_bitmap_blocks :: u32
  sb_inode_start :: u32
  sb_inode_blocks :: u32
  sb_data_start :: u32
  sb_free_blocks :: u32
  sb_free_inodes :: u32
  sb_bitmap_hmac :: bytes
  sb_reserved :: bytes

record inode =
  i_type :: u32
  i_size :: u64
  i_block_count :: u32
  i_direct :: "u32 list"
  i_indirect :: u32
  i_double :: u32
  i_mtime :: u64
  i_reserved :: bytes

record dirent =
  de_inode :: u32
  de_name_len :: u8
  de_name :: bytes

definition sb_ok :: "superblock \<Rightarrow> bool" where
  "sb_ok sb \<longleftrightarrow> length (sb_bitmap_hmac sb) = DENYFS_HMAC_SIZE \<and>
     length (sb_reserved sb) = SECTOR_SIZE - 80"

definition inode_ok :: "inode \<Rightarrow> bool" where
  "inode_ok nd \<longleftrightarrow> length (i_direct nd) = DENYFS_DIRECT_BLOCKS \<and> length (i_reserved nd) = 16"

definition dirent_ok :: "dirent \<Rightarrow> bool" where
  "dirent_ok e \<longleftrightarrow> length (de_name e) = DENYFS_MAX_NAME_LEN"

section \<open>Arrays of fixed-size items\<close>

definition chunks :: "nat \<Rightarrow> nat \<Rightarrow> (bytes \<Rightarrow> 'b) \<Rightarrow> bytes \<Rightarrow> 'b list" where
  "chunks n k f bs = map (\<lambda>i. f (slice (n * i) n bs)) [0..<k]"

lemma length_chunks [simp]: "length (chunks n k f bs) = k"
  by (simp add: chunks_def)

lemma nth_chunks [simp]: "i < k \<Longrightarrow> chunks n k f bs ! i = f (slice (n * i) n bs)"
  by (simp add: chunks_def)

lemma length_concat_map_const:
  "\<forall>x \<in> set xs. length (f x) = n \<Longrightarrow> length (concat (map f xs)) = n * length xs"
  by (induction xs) auto

lemma slice_concat_map:
  "\<forall>x \<in> set xs. length (f x) = n \<Longrightarrow> i < length xs \<Longrightarrow>
   slice (n * i) n (concat (map f xs)) = f (xs ! i)"
proof (induction xs arbitrary: i)
  case (Cons x xs)
  show ?case
  proof (cases i)
    case 0
    with Cons.prems show ?thesis by (simp add: slice_prefix)
  next
    case (Suc j)
    with Cons show ?thesis by (simp add: slice_append_right)
  qed
qed simp

lemma chunks_concat_map:
  assumes "\<forall>x \<in> set xs. length (f x) = n \<and> g (f x) = x" "length xs = k"
  shows "chunks n k g (concat (map f xs)) = xs"
  using assms by (intro nth_equalityI) (auto simp: slice_concat_map)

lemma item_within: "i < k \<Longrightarrow> n * i + n \<le> n * (k :: nat)"
  by (metis Suc_leI mult_Suc_right mult_le_mono2 add.commute)

lemma concat_slices: "length bs = n * k \<Longrightarrow> concat (map (\<lambda>i. slice (n * i) n bs) [0..<k]) = bs"
proof (induction k arbitrary: bs)
  case (Suc k)
  have "length (take (n * k) bs) = n * k" using Suc.prems by simp
  then have "concat (map (\<lambda>i. slice (n * i) n (take (n * k) bs)) [0..<k]) = take (n * k) bs"
    by (rule Suc.IH)
  moreover have "map (\<lambda>i. slice (n * i) n (take (n * k) bs)) [0..<k] =
      map (\<lambda>i. slice (n * i) n bs) [0..<k]"
    by (rule map_cong) (auto simp: slice_def take_drop min_def dest: item_within [of _ k n])
  moreover have "slice (n * k) n bs = drop (n * k) bs"
    using Suc.prems by (simp add: slice_def)
  ultimately show ?case by simp
qed simp

lemma concat_map_chunks:
  assumes "\<And>x. length x = n \<Longrightarrow> f (g x) = x" "length bs = n * k"
  shows "concat (map f (chunks n k g bs)) = bs"
proof -
  have "map (\<lambda>i. f (g (slice (n * i) n bs))) [0..<k] = map (\<lambda>i. slice (n * i) n bs) [0..<k]"
    using assms by (intro map_cong) (auto dest: item_within [of _ k n])
  then show ?thesis using concat_slices [OF assms(2)]
    by (simp only: chunks_def map_map comp_def)
qed

section \<open>Byte images\<close>

definition sb_enc :: "superblock \<Rightarrow> bytes" where
  "sb_enc sb = le_enc 8 (sb_magic sb) @ le_enc 4 (sb_block_size sb) @ le_enc 4 (sb_total_blocks sb) @
     le_enc 4 (sb_inode_count sb) @ le_enc 4 (sb_bitmap_start sb) @ le_enc 4 (sb_bitmap_blocks sb) @
     le_enc 4 (sb_inode_start sb) @ le_enc 4 (sb_inode_blocks sb) @ le_enc 4 (sb_data_start sb) @
     le_enc 4 (sb_free_blocks sb) @ le_enc 4 (sb_free_inodes sb) @ sb_bitmap_hmac sb @ sb_reserved sb"

definition sb_dec :: "bytes \<Rightarrow> superblock" where
  "sb_dec bs =
     \<lparr>sb_magic = le_dec (slice 0 8 bs), sb_block_size = le_dec (slice 8 4 bs),
      sb_total_blocks = le_dec (slice 12 4 bs), sb_inode_count = le_dec (slice 16 4 bs),
      sb_bitmap_start = le_dec (slice 20 4 bs), sb_bitmap_blocks = le_dec (slice 24 4 bs),
      sb_inode_start = le_dec (slice 28 4 bs), sb_inode_blocks = le_dec (slice 32 4 bs),
      sb_data_start = le_dec (slice 36 4 bs), sb_free_blocks = le_dec (slice 40 4 bs),
      sb_free_inodes = le_dec (slice 44 4 bs), sb_bitmap_hmac = slice 48 32 bs,
      sb_reserved = slice 80 4016 bs\<rparr>"

definition words_enc :: "u32 list \<Rightarrow> bytes" where
  "words_enc ws = concat (map (le_enc 4) ws)"

definition words_dec :: "nat \<Rightarrow> bytes \<Rightarrow> u32 list" where
  "words_dec k bs = chunks 4 k le_dec bs"

definition inode_enc :: "inode \<Rightarrow> bytes" where
  "inode_enc nd = le_enc 4 (i_type nd) @ le_enc 8 (i_size nd) @ le_enc 4 (i_block_count nd) @
     words_enc (i_direct nd) @ le_enc 4 (i_indirect nd) @ le_enc 4 (i_double nd) @
     le_enc 8 (i_mtime nd) @ i_reserved nd"

definition inode_dec :: "bytes \<Rightarrow> inode" where
  "inode_dec bs =
     \<lparr>i_type = le_dec (slice 0 4 bs), i_size = le_dec (slice 4 8 bs),
      i_block_count = le_dec (slice 12 4 bs), i_direct = words_dec 20 (slice 16 80 bs),
      i_indirect = le_dec (slice 96 4 bs), i_double = le_dec (slice 100 4 bs),
      i_mtime = le_dec (slice 104 8 bs), i_reserved = slice 112 16 bs\<rparr>"

definition dirent_enc :: "dirent \<Rightarrow> bytes" where
  "dirent_enc e = le_enc 4 (de_inode e) @ [de_name_len e] @ de_name e"

definition dirent_dec :: "bytes \<Rightarrow> dirent" where
  "dirent_dec bs = \<lparr>de_inode = le_dec (slice 0 4 bs), de_name_len = bs ! 4, de_name = slice 5 251 bs\<rparr>"

text \<open>The whole inode table, a directory block, a pointer table.\<close>

definition inodes_enc :: "inode list \<Rightarrow> bytes" where
  "inodes_enc nds = concat (map inode_enc nds)"

definition inodes_dec :: "bytes \<Rightarrow> inode list" where
  "inodes_dec bs = chunks DENYFS_INODE_SIZE DENYFS_MAX_INODES inode_dec bs"

definition dirents_enc :: "dirent list \<Rightarrow> bytes" where
  "dirents_enc es = concat (map dirent_enc es)"

definition dirents_dec :: "bytes \<Rightarrow> dirent list" where
  "dirents_dec bs = chunks DENYFS_DIRENT_SIZE DENYFS_DIRENTS_PER_BLOCK dirent_dec bs"

definition ptrs_enc :: "u32 list \<Rightarrow> bytes" where
  "ptrs_enc ps = words_enc ps"

definition ptrs_dec :: "bytes \<Rightarrow> u32 list" where
  "ptrs_dec bs = words_dec DENYFS_POINTERS_PER_BLOCK bs"

section \<open>Encoding lemmas\<close>

lemmas layout_sizes = DENYFS_HMAC_SIZE_def SECTOR_SIZE_def DENYFS_DIRECT_BLOCKS_def
  DENYFS_MAX_NAME_LEN_def DENYFS_POINTERS_PER_BLOCK_def DENYFS_DIRENTS_PER_BLOCK_def
  DENYFS_DIRENT_SIZE_def DENYFS_INODE_SIZE_def DENYFS_MAX_INODES_def

lemma length_words_enc [simp]: "length (words_enc ws) = 4 * length ws"
  by (simp add: words_enc_def length_concat_map_const)

lemma words_dec_enc [simp]: "length ws = k \<Longrightarrow> words_dec k (words_enc ws) = ws"
  by (simp add: words_dec_def words_enc_def chunks_concat_map)

lemma words_enc_dec [simp]: "length bs = 4 * k \<Longrightarrow> words_enc (words_dec k bs) = bs"
  by (simp add: words_dec_def words_enc_def concat_map_chunks)

lemma length_words_dec [simp]: "length (words_dec k bs) = k"
  by (simp add: words_dec_def)

lemma length_sb_enc: "sb_ok sb \<Longrightarrow> length (sb_enc sb) = SECTOR_SIZE"
  by (simp add: sb_enc_def sb_ok_def layout_sizes)

lemma sb_dec_enc: "sb_ok sb \<Longrightarrow> sb_dec (sb_enc sb) = sb"
  by (cases sb) (simp add: sb_enc_def sb_dec_def sb_ok_def layout_sizes
      slice_append_right slice_prefix)

lemma length_inode_enc: "inode_ok nd \<Longrightarrow> length (inode_enc nd) = DENYFS_INODE_SIZE"
  by (simp add: inode_enc_def inode_ok_def layout_sizes)

lemma inode_dec_enc: "inode_ok nd \<Longrightarrow> inode_dec (inode_enc nd) = nd"
  by (cases nd) (simp add: inode_enc_def inode_dec_def inode_ok_def layout_sizes
      slice_append_right slice_prefix)

lemma length_dirent_enc: "dirent_ok e \<Longrightarrow> length (dirent_enc e) = DENYFS_DIRENT_SIZE"
  by (simp add: dirent_enc_def dirent_ok_def layout_sizes)

lemma dirent_dec_enc: "dirent_ok e \<Longrightarrow> dirent_dec (dirent_enc e) = e"
  by (cases e) (simp add: dirent_enc_def dirent_dec_def dirent_ok_def layout_sizes
      slice_append_right slice_prefix nth_append)

text \<open>The converse direction: a block that was read is written back unchanged.\<close>

lemma slice_slice_append: "slice a m xs @ slice (a + m) n xs = slice a (m + n) xs"
  by (simp add: slice_def take_add add.commute)

lemma dirent_enc_dec:
  assumes "length bs = DENYFS_DIRENT_SIZE"
  shows "dirent_enc (dirent_dec bs) = bs"
proof -
  have "[bs ! 4] = slice 4 1 bs"
    using assms by (intro nth_equalityI) (auto simp: layout_sizes)
  moreover have "slice 0 4 bs @ slice 4 1 bs @ slice 5 251 bs = bs"
  proof -
    have "take 4 bs @ take 1 (drop 4 bs) = take 5 bs" using take_add [of 4 1 bs] by simp
    then have "take 4 bs @ take 1 (drop 4 bs) @ drop 5 bs = bs"
      by (metis append_assoc append_take_drop_id)
    then show ?thesis using assms by (simp add: slice_def layout_sizes)
  qed
  ultimately show ?thesis using assms
    by (simp add: dirent_enc_def dirent_dec_def layout_sizes)
qed

lemma inodes_dec_enc:
  assumes "\<forall>nd \<in> set nds. inode_ok nd" "length nds = DENYFS_MAX_INODES"
  shows "inodes_dec (inodes_enc nds) = nds"
  using assms by (simp add: inodes_dec_def inodes_enc_def chunks_concat_map length_inode_enc
      inode_dec_enc)

lemma dirents_dec_enc:
  assumes "\<forall>e \<in> set es. dirent_ok e" "length es = DENYFS_DIRENTS_PER_BLOCK"
  shows "dirents_dec (dirents_enc es) = es"
  using assms by (simp add: dirents_dec_def dirents_enc_def chunks_concat_map length_dirent_enc
      dirent_dec_enc)

lemma dirents_enc_dec: "length bs = SECTOR_SIZE \<Longrightarrow> dirents_enc (dirents_dec bs) = bs"
  unfolding dirents_dec_def dirents_enc_def
  by (rule concat_map_chunks) (simp_all add: dirent_enc_dec layout_sizes)

lemma length_dirents_enc:
  "\<forall>e \<in> set es. dirent_ok e \<Longrightarrow> length (dirents_enc es) = DENYFS_DIRENT_SIZE * length es"
  by (simp add: dirents_enc_def length_concat_map_const length_dirent_enc)

lemma length_inodes_enc:
  "\<forall>nd \<in> set nds. inode_ok nd \<Longrightarrow> length (inodes_enc nds) = DENYFS_INODE_SIZE * length nds"
  by (simp add: inodes_enc_def length_concat_map_const length_inode_enc)

lemma length_dirents_dec [simp]: "length (dirents_dec bs) = DENYFS_DIRENTS_PER_BLOCK"
  by (simp add: dirents_dec_def)

lemma length_inodes_dec [simp]: "length (inodes_dec bs) = DENYFS_MAX_INODES"
  by (simp add: inodes_dec_def)

lemma dirents_dec_ok:
  "length bs = SECTOR_SIZE \<Longrightarrow> e \<in> set (dirents_dec bs) \<Longrightarrow> dirent_ok e"
  using item_within [of _ 16 256]
  by (fastforce simp: dirents_dec_def chunks_def dirent_dec_def dirent_ok_def layout_sizes)

lemma inodes_dec_ok:
  "length bs = DENYFS_INODE_SIZE * DENYFS_MAX_INODES \<Longrightarrow> nd \<in> set (inodes_dec bs) \<Longrightarrow> inode_ok nd"
  using item_within [of _ 64 128]
  by (fastforce simp: inodes_dec_def chunks_def inode_dec_def inode_ok_def layout_sizes)

lemma ptrs_dec_enc [simp]:
  "length ps = DENYFS_POINTERS_PER_BLOCK \<Longrightarrow> ptrs_dec (ptrs_enc ps) = ps"
  by (simp add: ptrs_dec_def ptrs_enc_def)

lemma ptrs_enc_dec: "length bs = SECTOR_SIZE \<Longrightarrow> ptrs_enc (ptrs_dec bs) = bs"
  by (simp add: ptrs_dec_def ptrs_enc_def layout_sizes)

lemma length_ptrs_dec [simp]: "length (ptrs_dec bs) = DENYFS_POINTERS_PER_BLOCK"
  by (simp add: ptrs_dec_def)

lemma length_ptrs_enc [simp]:
  "length ps = DENYFS_POINTERS_PER_BLOCK \<Longrightarrow> length (ptrs_enc ps) = SECTOR_SIZE"
  by (simp add: ptrs_enc_def layout_sizes)

end
