(* ===== verification/Volume.thy ===== *)
theory Volume
  imports Crypto Layout
begin

text \<open>
  The container file, the in-memory volume \<open>denyfs_volume_t\<close> (\<open>src/src/fs.h\<close>) and the block-level
  I/O of \<open>src/src/fs.c\<close>: \<open>read_block\<close>, \<open>write_block\<close>, \<open>write_block_raw\<close> and
  \<open>valid_volume_range\<close>. The locale \<open>block_store\<close> is the contract the layers above rely on.
\<close>

section \<open>The container file\<close>

text \<open>
  A stdio stream over a regular file: its bytes and a schedule of injected faults. Each call of
  \<open>fseek\<close>, \<open>fread\<close>, \<open>fwrite\<close> and \<open>fflush\<close> consumes one entry (an exhausted schedule injects
  nothing): \<open>None\<close> lets the call complete, \<open>Some j\<close> makes a seek or flush fail and stops a transfer
  after at most \<open>j\<close> bytes. Every transfer of the program directly follows a seek (or continues a
  sequential fill), so the stream position is passed as a value. A transfer takes effect on
  the file when it is made; what the C library still buffers is not modelled.
\<close>

record cfile =
  f_bytes :: bytes
  f_faults :: "nat option list"

definition take_fault :: "cfile \<Rightarrow> nat option \<times> cfile" where
  "take_fault f = (case f_faults f of [] \<Rightarrow> (None, f) | x # xs \<Rightarrow> (x, f\<lparr>f_faults := xs\<rparr>))"

definition fseek :: "cfile \<Rightarrow> bool \<times> cfile" where
  "fseek f = (case take_fault f of (flt, g) \<Rightarrow> (flt = None, g))"

definition fflush :: "cfile \<Rightarrow> bool \<times> cfile" where
  "fflush f = (case take_fault f of (flt, g) \<Rightarrow> (flt = None, g))"

definition fread :: "cfile \<Rightarrow> nat \<Rightarrow> nat \<Rightarrow> bytes \<times> cfile" where
  "fread f pos n =
     (case take_fault f of (flt, g) \<Rightarrow>
        (slice pos (case flt of None \<Rightarrow> n | Some j \<Rightarrow> min j n) (f_bytes g), g))"

definition fwrite :: "cfile \<Rightarrow> nat \<Rightarrow> nat \<Rightarrow> bytes \<Rightarrow> nat \<times> cfile" where
  "fwrite f pos n bs =
     (case take_fault f of (flt, g) \<Rightarrow>
        let out = take (case flt of None \<Rightarrow> n | Some j \<Rightarrow> min j n) bs in
        (length out,
         if out = [] then g else g\<lparr>f_bytes := overwrite pos out (f_bytes g)\<rparr>))"

section \<open>The volume\<close>

text \<open>
  The fields of \<open>denyfs_volume_t\<close>. \<open>bitmap_bytes\<close> and \<open>bitmap_dirty_count\<close> are the lengths of the
  two lists; the dirty flags are bytes as in the code.
\<close>

record volume =
  v_file :: cfile
  v_key :: bytes
  v_hkey :: bytes
  v_size :: u64
  v_sb :: superblock
  v_bitmap :: bytes
  v_dirty :: bytes
  v_inodes :: "inode list"
  v_start :: u64
  v_hidden :: bool
  v_protect :: bool
  v_pstart :: u64
  v_pend :: u64

abbreviation "data_start v \<equiv> unat (sb_data_start (v_sb v))"
abbreviation "total_blocks v \<equiv> unat (sb_total_blocks (v_sb v))"

definition vol_blocks :: "volume \<Rightarrow> nat" where
  "vol_blocks v = unat (v_size v) div SECTOR_SIZE"

definition block_offset :: "u64 \<Rightarrow> u32 \<Rightarrow> u64" where
  "block_offset start b = start + ucast b * of_nat SECTOR_SIZE"

definition blocked :: "volume \<Rightarrow> u32 \<Rightarrow> bool" where
  "blocked v b \<longleftrightarrow> v_protect v \<and>
     (let absolute_sector = unat (v_start v) div SECTOR_SIZE + unat b in
      unat (v_pstart v) \<le> absolute_sector \<and> absolute_sector \<le> unat (v_pend v))"

section \<open>Block I/O\<close>

definition read_block :: "env \<Rightarrow> volume \<Rightarrow> u32 \<Rightarrow> bytes res \<times> volume" where
  "read_block E v b =
     (if vol_blocks v \<le> unat b then (Inl EFAIL, v)
      else let offset = block_offset (v_start v) b in
      if LONG_MAX < unat offset then (Inl EFAIL, v)
      else case fseek (v_file v) of (ok, f1) \<Rightarrow>
      if \<not> ok then (Inl EFAIL, v\<lparr>v_file := f1\<rparr>)
      else case fread f1 (unat offset) SECTOR_SIZE of (cipher, f2) \<Rightarrow>
      if length cipher \<noteq> SECTOR_SIZE then (Inl EFAIL, v\<lparr>v_file := f2\<rparr>)
      else case crypt_sector E cipher (ucast b) (v_key v) False of
        None \<Rightarrow> (Inl EFAIL, v\<lparr>v_file := f2\<rparr>)
      | Some plain \<Rightarrow> (Inr plain, v\<lparr>v_file := f2\<rparr>))"

definition write_block :: "env \<Rightarrow> volume \<Rightarrow> u32 \<Rightarrow> bytes \<Rightarrow> unit res \<times> volume" where
  "write_block E v b data =
     (if vol_blocks v \<le> unat b then (Inl EFAIL, v)
      else if blocked v b then (Inl ENOSPC, v)
      else case crypt_sector E data (ucast b) (v_key v) True of
        None \<Rightarrow> (Inl EFAIL, v)
      | Some cipher \<Rightarrow>
      let offset = block_offset (v_start v) b in
      if LONG_MAX < unat offset then (Inl EFAIL, v)
      else case fseek (v_file v) of (ok, f1) \<Rightarrow>
      if \<not> ok then (Inl EFAIL, v\<lparr>v_file := f1\<rparr>)
      else case fwrite f1 (unat offset) SECTOR_SIZE cipher of (n, f2) \<Rightarrow>
      if n \<noteq> SECTOR_SIZE then (Inl EFAIL, v\<lparr>v_file := f2\<rparr>)
      else (Inr (), v\<lparr>v_file := f2\<rparr>))"

definition write_block_raw :: "env \<Rightarrow> cfile \<Rightarrow> bytes \<Rightarrow> u64 \<Rightarrow> u32 \<Rightarrow> bytes \<Rightarrow> bool \<times> cfile" where
  "write_block_raw E f key start b data =
     (case crypt_sector E data (ucast b) key True of
        None \<Rightarrow> (False, f)
      | Some cipher \<Rightarrow>
      let offset = block_offset start b in
      if LONG_MAX < unat offset then (False, f)
      else case fseek f of (ok, f1) \<Rightarrow>
      if \<not> ok then (False, f1)
      else case fwrite f1 (unat offset) SECTOR_SIZE cipher of (n, f2) \<Rightarrow>
      if n \<noteq> SECTOR_SIZE then (False, f2)
      else fflush f2)"

definition valid_volume_range :: "u64 \<Rightarrow> u64 \<Rightarrow> u64 \<Rightarrow> bool" where
  "valid_volume_range start sz container_size \<longleftrightarrow>
     sz \<noteq> 0 \<and> unat sz mod SECTOR_SIZE = 0 \<and> unat start mod SECTOR_SIZE = 0 \<and>
     start \<le> container_size \<and> sz \<le> container_size - start \<and> unat start \<le> LONG_MAX \<and>
     unat sz \<le> LONG_MAX - unat start"

section \<open>Fault-free streams\<close>

lemma take_fault_none [simp]: "f_faults f = [] \<Longrightarrow> take_fault f = (None, f)"
  by (simp add: take_fault_def)

lemma fseek_none [simp]: "f_faults f = [] \<Longrightarrow> fseek f = (True, f)"
  by (simp add: fseek_def)

lemma fflush_none [simp]: "f_faults f = [] \<Longrightarrow> fflush f = (True, f)"
  by (simp add: fflush_def)

lemma fread_none [simp]: "f_faults f = [] \<Longrightarrow> fread f pos n = (slice pos n (f_bytes f), f)"
  by (simp add: fread_def)

lemma fwrite_none:
  "f_faults f = [] \<Longrightarrow> length bs = n \<Longrightarrow> 0 < n \<Longrightarrow>
   fwrite f pos n bs = (n, f\<lparr>f_bytes := overwrite pos bs (f_bytes f)\<rparr>)"
  by (auto simp: fwrite_def)

lemma take_fault_bytes: "take_fault f = (x, g) \<Longrightarrow> f_bytes g = f_bytes f"
  by (auto simp: take_fault_def split: list.splits)

lemma fseek_bytes: "fseek f = (ok, g) \<Longrightarrow> f_bytes g = f_bytes f"
  by (auto simp: fseek_def take_fault_bytes split: prod.splits)

lemma fflush_bytes: "fflush f = (ok, g) \<Longrightarrow> f_bytes g = f_bytes f"
  by (auto simp: fflush_def take_fault_bytes split: prod.splits)

lemma fread_bytes: "fread f pos n = (bs, g) \<Longrightarrow> f_bytes g = f_bytes f"
  by (auto simp: fread_def take_fault_bytes split: prod.splits)

text \<open>A call that does not write leaves the bytes and uses up a prefix of the schedule.\<close>

definition consumes :: "cfile \<Rightarrow> cfile \<Rightarrow> bool" where
  "consumes f g \<longleftrightarrow> f_bytes g = f_bytes f \<and> (\<exists>k. f_faults g = drop k (f_faults f))"

lemma consumes_refl [simp]: "consumes f f"
  unfolding consumes_def by (auto intro: exI [of _ 0])

lemma consumes_trans: "consumes f g \<Longrightarrow> consumes g h \<Longrightarrow> consumes f h"
  unfolding consumes_def by (auto simp: drop_drop)

lemma consumes_bytes: "consumes f g \<Longrightarrow> f_bytes g = f_bytes f"
  by (simp add: consumes_def)

lemma take_fault_consumes: "take_fault f = (x, g) \<Longrightarrow> consumes f g"
  unfolding consumes_def take_fault_def
  by (cases "f_faults f") (auto intro: exI [of _ 0] exI [of _ "Suc 0"])

lemma fseek_consumes: "fseek f = (ok, g) \<Longrightarrow> consumes f g"
  by (auto simp: fseek_def take_fault_consumes split: prod.splits)

lemma fflush_consumes: "fflush f = (ok, g) \<Longrightarrow> consumes f g"
  by (auto simp: fflush_def take_fault_consumes split: prod.splits)

lemma fread_consumes: "fread f pos n = (bs, g) \<Longrightarrow> consumes f g"
  by (auto simp: fread_def take_fault_consumes split: prod.splits)

text \<open>A transfer that is not short is exact, whatever the schedule.\<close>

lemma fread_full: "fread f pos n = (bs, g) \<Longrightarrow> length bs = n \<Longrightarrow> bs = slice pos n (f_bytes f)"
  by (auto simp: fread_def take_fault_bytes split: prod.splits option.splits)
    (auto simp: slice_def take_fault_bytes min_def split: if_splits)

lemma SECTOR_SIZE_pos [simp]: "0 < SECTOR_SIZE"
  by (simp add: SECTOR_SIZE_def)

section \<open>Geometry\<close>

text \<open>The volume lies inside the range of file offsets and is sector aligned.\<close>

definition vol_geom :: "volume \<Rightarrow> bool" where
  "vol_geom v \<longleftrightarrow> unat (v_start v) + unat (v_size v) \<le> LONG_MAX \<and>
     unat (v_start v) mod SECTOR_SIZE = 0 \<and> unat (v_size v) mod SECTOR_SIZE = 0"

lemma valid_volume_range_iff:
  "valid_volume_range start sz c \<longleftrightarrow> sz \<noteq> 0 \<and> unat sz mod SECTOR_SIZE = 0 \<and>
     unat start mod SECTOR_SIZE = 0 \<and> unat start + unat sz \<le> unat c \<and>
     unat start + unat sz \<le> LONG_MAX"
proof -
  have "start \<le> c \<Longrightarrow> sz \<le> c - start \<longleftrightarrow> unat start + unat sz \<le> unat c"
    by (simp add: word_le_nat_alt unat_sub) arith
  moreover have "unat start + unat sz \<le> unat c \<Longrightarrow> start \<le> c"
    by (simp add: word_le_nat_alt)
  ultimately show ?thesis
    unfolding valid_volume_range_def by (auto simp: word_le_nat_alt)
qed

lemma vol_blocks_bound: "vol_geom v \<Longrightarrow> unat b < vol_blocks v \<Longrightarrow>
    unat b * SECTOR_SIZE + SECTOR_SIZE \<le> unat (v_size v)"
  by (simp add: vol_blocks_def SECTOR_SIZE_def)

lemma unat_block_offset:
  assumes "vol_geom v" "unat b < vol_blocks v"
  shows "unat (block_offset (v_start v) b) = unat (v_start v) + unat b * SECTOR_SIZE"
proof -
  have le: "unat (v_start v) + unat b * SECTOR_SIZE < 2 ^ 64"
    using assms vol_blocks_bound [OF assms] by (simp add: vol_geom_def LONG_MAX_def)
  have "unat (ucast b * of_nat SECTOR_SIZE :: u64) = unat b * SECTOR_SIZE"
    using le by (simp add: unat_word_ariths SECTOR_SIZE_def)
  with le show ?thesis
    by (simp add: block_offset_def unat_word_ariths)
qed

lemma block_offset_le_LONG_MAX:
  "vol_geom v \<Longrightarrow> unat b < vol_blocks v \<Longrightarrow> unat (block_offset (v_start v) b) \<le> LONG_MAX"
  using vol_blocks_bound [of v b] by (simp add: unat_block_offset vol_geom_def)

section \<open>What a write may touch\<close>

text \<open>
  A volume may write its own region (\<open>volume_region\<close>), less the region that outer-mount protection locks
  (\<open>protected_region\<close>). \<open>keeps v v'\<close> relates a state to a later one of the same mount.
\<close>

definition protected_region :: "volume \<Rightarrow> nat set" where
  "protected_region v = (if v_protect v
     then {unat (v_pstart v) * SECTOR_SIZE ..< (unat (v_pend v) + 1) * SECTOR_SIZE} else {})"

lemma protected_region_iff:
  "i \<in> protected_region v \<longleftrightarrow> v_protect v \<and> unat (v_pstart v) \<le> i div SECTOR_SIZE \<and>
     i div SECTOR_SIZE \<le> unat (v_pend v)"
proof -
  have "i div SECTOR_SIZE \<le> unat (v_pend v) \<longleftrightarrow> i < (unat (v_pend v) + 1) * SECTOR_SIZE"
    using div_less_iff_less_mult [OF SECTOR_SIZE_pos, of i "unat (v_pend v) + 1"]
    by (simp add: less_Suc_eq_le)
  then show ?thesis
    using less_eq_div_iff_mult_less_eq [OF SECTOR_SIZE_pos, of "unat (v_pstart v)" i]
    by (auto simp: protected_region_def)
qed

definition volume_region :: "volume \<Rightarrow> nat set" where
  "volume_region v = {unat (v_start v) ..< unat (v_start v) + unat (v_size v)}"

definition same_config :: "volume \<Rightarrow> volume \<Rightarrow> bool" where
  "same_config v w \<longleftrightarrow> v_key w = v_key v \<and> v_hkey w = v_hkey v \<and> v_size w = v_size v \<and>
     v_start w = v_start v \<and> v_hidden w = v_hidden v \<and> v_protect w = v_protect v \<and>
     v_pstart w = v_pstart v \<and> v_pend w = v_pend v"

text \<open>The container never shrinks, and does not grow when the volume lies inside it.\<close>

definition extends :: "volume \<Rightarrow> volume \<Rightarrow> bool" where
  "extends v w \<longleftrightarrow> length (f_bytes (v_file v)) \<le> length (f_bytes (v_file w)) \<and>
     (unat (v_start v) + unat (v_size v) \<le> length (f_bytes (v_file v)) \<longrightarrow>
        length (f_bytes (v_file w)) = length (f_bytes (v_file v)))"

definition keeps :: "volume \<Rightarrow> volume \<Rightarrow> bool" where
  "keeps v w \<longleftrightarrow> same_config v w \<and>
     (vol_geom v \<longrightarrow> extends v w \<and>
        (\<forall>i < length (f_bytes (v_file v)). i \<notin> volume_region v \<or> i \<in> protected_region v \<longrightarrow>
           f_bytes (v_file w) ! i = f_bytes (v_file v) ! i))"

lemma same_config_geom: "same_config v w \<Longrightarrow> vol_geom w \<longleftrightarrow> vol_geom v"
  by (simp add: same_config_def vol_geom_def)

lemma same_config_regions:
  "same_config v w \<Longrightarrow> volume_region w = volume_region v \<and> protected_region w = protected_region v"
  by (simp add: same_config_def volume_region_def protected_region_def)

lemma keeps_refl [simp, intro]: "keeps v v"
  by (simp add: keeps_def same_config_def extends_def)

lemma keeps_trans:
  assumes uv: "keeps u v" and vw: "keeps v w"
  shows "keeps u w"
proof -
  have sc: "same_config u v" "same_config v w" using assms by (simp_all add: keeps_def)
  then have uw: "same_config u w" by (simp add: same_config_def)
  have "extends u w \<and>
      (\<forall>i < length (f_bytes (v_file u)). i \<notin> volume_region u \<or> i \<in> protected_region u \<longrightarrow>
         f_bytes (v_file w) ! i = f_bytes (v_file u) ! i)" if g: "vol_geom u"
  proof -
    have 1: "extends u v"
      "\<And>i. i < length (f_bytes (v_file u)) \<Longrightarrow> i \<notin> volume_region u \<or> i \<in> protected_region u \<Longrightarrow>
         f_bytes (v_file v) ! i = f_bytes (v_file u) ! i"
      using uv g unfolding keeps_def by blast+
    have 2: "extends v w"
      "\<And>i. i < length (f_bytes (v_file v)) \<Longrightarrow> i \<notin> volume_region u \<or> i \<in> protected_region u \<Longrightarrow>
         f_bytes (v_file w) ! i = f_bytes (v_file v) ! i"
      using vw g sc(1) unfolding keeps_def by (metis same_config_geom same_config_regions)+
    show ?thesis
    proof (intro conjI allI impI)
      show "extends u w"
        using 1(1) 2(1) sc(1) by (auto simp: extends_def same_config_def)
      fix i assume i: "i < length (f_bytes (v_file u))" "i \<notin> volume_region u \<or> i \<in> protected_region u"
      then show "f_bytes (v_file w) ! i = f_bytes (v_file u) ! i"
        using 1(2) [OF i] 2(2) [OF _ i(2)] 1(1) by (simp add: extends_def)
    qed
  qed
  with uw show ?thesis by (simp add: keeps_def)
qed

lemma keeps_bytes:
  "f_bytes g = f_bytes (v_file v) \<Longrightarrow> keeps v (v\<lparr>v_file := g\<rparr>)"
  by (simp add: keeps_def same_config_def extends_def)

lemma read_block_file:
  "\<exists>g. snd (read_block E v b) = v\<lparr>v_file := g\<rparr> \<and> consumes (v_file v) g"
proof -
  obtain ok f1 where 1: "fseek (v_file v) = (ok, f1)" by (cases "fseek (v_file v)")
  obtain c f2 where 2: "fread f1 (unat (block_offset (v_start v) b)) SECTOR_SIZE = (c, f2)"
    by (cases "fread f1 (unat (block_offset (v_start v) b)) SECTOR_SIZE")
  have self: "\<exists>g. v = v\<lparr>v_file := g\<rparr> \<and> consumes (v_file v) g"
    by (rule exI [of _ "v_file v"]) simp
  have "consumes (v_file v) f1" "consumes (v_file v) f2"
    using fseek_consumes [OF 1] fread_consumes [OF 2] consumes_trans by blast+
  then show ?thesis
    using self by (simp add: read_block_def 1 2 Let_def split: option.split)
      (metis volume.surjective volume.update_convs(1))
qed

lemma read_block_keeps: "keeps v (snd (read_block E v b))"
  using read_block_file [of E v b] by (auto intro: keeps_bytes [OF consumes_bytes])

text \<open>The interesting step: every byte a block write changes lies inside the block it names.\<close>

lemma fwrite_frame:
  assumes "fwrite f pos n bs = (m, g)"
  shows "length (f_bytes f) \<le> length (f_bytes g) \<and>
    length (f_bytes g) \<le> max (length (f_bytes f)) (pos + n) \<and>
    (\<forall>i < length (f_bytes f). i < pos \<or> pos + n \<le> i \<longrightarrow> f_bytes g ! i = f_bytes f ! i)"
proof -
  obtain flt h where t: "take_fault f = (flt, h)" by (cases "take_fault f")
  define out where "out = take (case flt of None \<Rightarrow> n | Some j \<Rightarrow> min j n) bs"
  have len: "length out \<le> n" by (auto simp: out_def split: option.splits)
  have g: "g = (if out = [] then h else h\<lparr>f_bytes := overwrite pos out (f_bytes h)\<rparr>)"
    using assms by (simp only: fwrite_def t out_def Let_def prod.case prod.inject)
  have h: "f_bytes h = f_bytes f" using t by (rule take_fault_bytes)
  show ?thesis
    using len by (auto simp: g h nth_overwrite_outside max_def)
qed

lemma block_sector_bytes:
  assumes "vol_geom v" "unat b < vol_blocks v" "\<not> blocked v b"
    and "unat (v_start v) + unat b * SECTOR_SIZE \<le> i"
    and "i < unat (v_start v) + unat b * SECTOR_SIZE + SECTOR_SIZE"
  shows "i \<in> volume_region v \<and> i \<notin> protected_region v"
proof -
  define s where "s = unat (v_start v) div SECTOR_SIZE + unat b"
  have "unat (v_start v) = unat (v_start v) div SECTOR_SIZE * SECTOR_SIZE"
    using assms(1) by (simp add: vol_geom_def mod_0_imp_dvd)
  then have s: "s * SECTOR_SIZE \<le> i" "i < (s + 1) * SECTOR_SIZE"
    using assms(4,5) by (simp_all add: s_def add_mult_distrib)
  have "i \<notin> protected_region v"
  proof
    assume "i \<in> protected_region v"
    then have p: "v_protect v" "unat (v_pstart v) * SECTOR_SIZE \<le> i"
      "i < (unat (v_pend v) + 1) * SECTOR_SIZE"
      by (auto simp: protected_region_def split: if_splits)
    have "unat (v_pstart v) * SECTOR_SIZE < (s + 1) * SECTOR_SIZE"
      "s * SECTOR_SIZE < (unat (v_pend v) + 1) * SECTOR_SIZE"
      using p s by linarith+
    then have "unat (v_pstart v) \<le> s" "s \<le> unat (v_pend v)"
      by (simp_all only: mult_less_cancel2) auto
    with p(1) assms(3) show False by (simp add: blocked_def s_def Let_def)
  qed
  moreover have "i \<in> volume_region v"
    using assms(4,5) vol_blocks_bound [OF assms(1,2)] by (simp add: volume_region_def)
  ultimately show ?thesis by simp
qed

lemma write_block_keeps: "keeps v (snd (write_block E v b d))"
proof (cases "vol_blocks v \<le> unat b \<or> blocked v b")
  case True
  then show ?thesis by (auto simp: write_block_def)
next
  case False
  obtain ok f1 where 1: "fseek (v_file v) = (ok, f1)" by (cases "fseek (v_file v)")
  have frame: "keeps v (v\<lparr>v_file := g\<rparr>)"
    if 2: "fwrite f1 (unat (block_offset (v_start v) b)) SECTOR_SIZE c = (n, g)" for c n g
  proof -
    have fr: "i < unat (v_start v) + unat b * SECTOR_SIZE \<or>
        unat (v_start v) + unat b * SECTOR_SIZE + SECTOR_SIZE \<le> i"
      if "vol_geom v" "i \<notin> volume_region v \<or> i \<in> protected_region v" for i
      using False that block_sector_bytes [of v b i] by fastforce
    show ?thesis
      unfolding keeps_def
    proof (intro conjI impI allI)
      show "same_config v (v\<lparr>v_file := g\<rparr>)" by (simp add: same_config_def)
      show "extends v (v\<lparr>v_file := g\<rparr>)" if "vol_geom v"
        using fwrite_frame [OF 2] vol_blocks_bound [OF that, of b] unat_block_offset [OF that, of b] False
        by (auto simp: fseek_bytes [OF 1] extends_def not_le)
      fix i assume "vol_geom v" "i < length (f_bytes (v_file v))"
        "i \<notin> volume_region v \<or> i \<in> protected_region v"
      with fr [of i] fwrite_frame [OF 2] False
      show "f_bytes (v_file (v\<lparr>v_file := g\<rparr>)) ! i = f_bytes (v_file v) ! i"
        by (auto simp: fseek_bytes [OF 1] unat_block_offset not_le)
    qed
  qed
  show ?thesis
    using False frame fseek_bytes [OF 1]
    by (auto simp: write_block_def 1 Let_def keeps_bytes split: option.split prod.split)
qed

section \<open>The contract of the block layer\<close>

text \<open>
  The layers above see an array of plaintext cells. \<open>ready\<close> is the state in which the contract
  holds, \<open>blocks\<close> the number of cells and \<open>meta\<close> everything a block write leaves alone.
\<close>

locale block_store =
  fixes rd :: "'v \<Rightarrow> u32 \<Rightarrow> bytes res \<times> 'v"
    and wr :: "'v \<Rightarrow> u32 \<Rightarrow> bytes \<Rightarrow> unit res \<times> 'v"
    and ready :: "'v \<Rightarrow> bool"
    and cells :: "'v \<Rightarrow> u32 \<Rightarrow> bytes"
    and blocks :: "'v \<Rightarrow> nat"
    and meta :: "'v \<Rightarrow> 'm"
  assumes rd_ok: "ready v \<Longrightarrow> unat b < blocks v \<Longrightarrow> rd v b = (Inr (cells v b), v)"
    and cells_length: "ready v \<Longrightarrow> unat b < blocks v \<Longrightarrow> length (cells v b) = SECTOR_SIZE"
    and wr_ok: "ready v \<Longrightarrow> unat b < blocks v \<Longrightarrow> length d = SECTOR_SIZE \<Longrightarrow>
      \<exists>w. wr v b d = (Inr (), w) \<and> ready w \<and> meta w = meta v \<and>
        (\<forall>c. unat c < blocks v \<longrightarrow> cells w c = (if c = b then d else cells v c))"
    and blocks_meta: "meta w = meta v \<Longrightarrow> blocks w = blocks v"
begin

lemma write_then_read:
  assumes "ready v" "unat b < blocks v" "length d = SECTOR_SIZE" "wr v b d = (r, w)"
  shows "r = Inr () \<and> rd w b = (Inr d, w)"
  using wr_ok [OF assms(1-3)] assms(2,4) by (auto dest: blocks_meta intro!: rd_ok [THEN trans])

lemma write_then_read_other:
  assumes "ready v" "unat b < blocks v" "length d = SECTOR_SIZE" "wr v b d = (r, w)"
    and "unat c < blocks v" "c \<noteq> b"
  shows "rd w c = (fst (rd v c), w)"
  using wr_ok [OF assms(1-3)] assms by (auto dest: blocks_meta simp: rd_ok)

lemma read_modify_write:
  assumes "ready v" "unat b < blocks v" "off + length new \<le> SECTOR_SIZE"
    and "rd v b = (Inr old, u)" "wr u b (overwrite off new old) = (r, w)"
  shows "r = Inr () \<and> ready w \<and> meta w = meta v \<and>
    cells w b = overwrite off new (cells v b) \<and>
    (\<forall>c. unat c < blocks v \<and> c \<noteq> b \<longrightarrow> cells w c = cells v c)"
proof -
  have u: "u = v" "old = cells v b" using rd_ok [OF assms(1,2)] assms(4) by auto
  have "length (overwrite off new (cells v b)) = SECTOR_SIZE"
    using cells_length [OF assms(1,2)] assms(3) by (simp add: max_def)
  from wr_ok [OF assms(1,2) this] assms(2,5) show ?thesis by (auto simp: u)
qed

end

definition ready :: "env \<Rightarrow> volume \<Rightarrow> bool" where
  "ready E v \<longleftrightarrow> xts_correct E \<and> length (v_key v) = KEY_SIZE_XTS \<and> f_faults (v_file v) = [] \<and>
     vol_geom v \<and> unat (v_start v) + unat (v_size v) \<le> length (f_bytes (v_file v)) \<and>
     (\<forall>b. unat b < vol_blocks v \<longrightarrow> \<not> blocked v b)"

definition cells :: "env \<Rightarrow> volume \<Rightarrow> u32 \<Rightarrow> bytes" where
  "cells E v b =
     (case crypt_sector E (slice (unat (v_start v) + unat b * SECTOR_SIZE) SECTOR_SIZE
        (f_bytes (v_file v))) (ucast b) (v_key v) False of None \<Rightarrow> [] | Some p \<Rightarrow> p)"

definition meta :: "volume \<Rightarrow> volume" where
  "meta v = v\<lparr>v_file := \<lparr>f_bytes = [], f_faults = []\<rparr>\<rparr>"

lemma meta_eqD: "meta w = meta v \<Longrightarrow> w = v\<lparr>v_file := v_file w\<rparr>"
  by (cases v; cases w) (simp add: meta_def)

lemma meta_fields:
  "meta w = meta v \<Longrightarrow> v_key w = v_key v \<and> v_hkey w = v_hkey v \<and> v_size w = v_size v \<and>
     v_sb w = v_sb v \<and> v_bitmap w = v_bitmap v \<and> v_dirty w = v_dirty v \<and>
     v_inodes w = v_inodes v \<and> v_start w = v_start v"
  by (cases v; cases w) (simp add: meta_def)

lemma meta_file [simp]: "meta (v\<lparr>v_file := f\<rparr>) = meta v"
  by (simp add: meta_def)

lemma sector_in_file:
  "ready E v \<Longrightarrow> unat b < vol_blocks v \<Longrightarrow>
   unat (v_start v) + unat b * SECTOR_SIZE + SECTOR_SIZE \<le> length (f_bytes (v_file v))"
  using vol_blocks_bound [of v b] by (simp add: ready_def)

lemma sectors_disjoint:
  "a \<noteq> b \<Longrightarrow> unat (a :: u32) * SECTOR_SIZE + SECTOR_SIZE \<le> unat b * SECTOR_SIZE \<or>
     unat b * SECTOR_SIZE + SECTOR_SIZE \<le> unat a * SECTOR_SIZE"
  by (auto simp: SECTOR_SIZE_def word_unat_eq_iff nat_neq_iff)

interpretation bs: block_store "read_block E" "write_block E" "ready E" "cells E" vol_blocks meta
  for E
proof
  fix v :: volume and b :: u32
  assume v: "ready E v" and b: "unat b < vol_blocks v"
  have len: "length (slice (unat (v_start v) + unat b * SECTOR_SIZE) SECTOR_SIZE
      (f_bytes (v_file v))) = SECTOR_SIZE"
    using sector_in_file [OF v b] by simp
  have facts: "xts_correct E" "length (v_key v) = KEY_SIZE_XTS" "f_faults (v_file v) = []" "vol_geom v"
    using v by (simp_all add: ready_def)
  obtain z where z: "crypt_sector E (slice (unat (v_start v) + unat b * SECTOR_SIZE) SECTOR_SIZE
      (f_bytes (v_file v))) (ucast b) (v_key v) False = Some z" "length z = SECTOR_SIZE"
    using crypt_sector_dec [OF facts(1,2) len] by blast
  show "length (cells E v b) = SECTOR_SIZE" using z by (simp add: cells_def)
  show "read_block E v b = (Inr (cells E v b), v)"
    using z facts b len block_offset_le_LONG_MAX [of v b]
    by (simp add: read_block_def cells_def unat_block_offset Let_def)
  fix d :: bytes assume d: "length d = SECTOR_SIZE"
  obtain y where y: "crypt_sector E d (ucast b) (v_key v) True = Some y" "length y = SECTOR_SIZE"
    "crypt_sector E y (ucast b) (v_key v) False = Some d"
    using crypt_sector_enc [OF facts(1,2) d] by blast
  let ?f = "(v_file v)\<lparr>f_bytes := overwrite (unat (v_start v) + unat b * SECTOR_SIZE) y
    (f_bytes (v_file v))\<rparr>"
  let ?w = "v\<lparr>v_file := ?f\<rparr>"
  have "write_block E v b d = (Inr (), ?w)"
    using y facts b v block_offset_le_LONG_MAX [of v b]
    by (simp add: write_block_def unat_block_offset Let_def fwrite_none ready_def)
  moreover have "ready E ?w"
    using v by (auto simp: ready_def vol_geom_def vol_blocks_def blocked_def)
  moreover have "cells E ?w c = (if c = b then d else cells E v c)" if "unat c < vol_blocks v" for c
  proof (cases "c = b")
    case True
    then show ?thesis using y by (simp add: cells_def)
  next
    case False
    have "slice (unat (v_start v) + unat c * SECTOR_SIZE) SECTOR_SIZE (f_bytes ?f) =
        slice (unat (v_start v) + unat c * SECTOR_SIZE) SECTOR_SIZE (f_bytes (v_file v))"
      using sector_in_file [OF v b] sector_in_file [OF v that] sectors_disjoint [OF False] y(2)
      by (simp add: slice_overwrite_disjoint)
    with False show ?thesis by (simp add: cells_def)
  qed
  ultimately show "\<exists>w. write_block E v b d = (Inr (), w) \<and> ready E w \<and> meta w = meta v \<and>
      (\<forall>c. unat c < vol_blocks v \<longrightarrow> cells E w c = (if c = b then d else cells E v c))"
    by (intro exI [of _ ?w]) simp
next
  fix v w assume "meta w = meta v"
  then show "vol_blocks w = vol_blocks v" using meta_fields [of w v] by (simp add: vol_blocks_def)
qed

end
