(* ===== verification/Bitmap.thy ===== *)
theory Bitmap
  imports Volume
begin

text \<open>
  The allocation bitmap of \<open>src/src/fs.c\<close>: \<open>alloc_block\<close> and \<open>free_block\<close>, the invariant that ties
  the free-block counter of the superblock to the bitmap, and the contract \<open>block_allocator\<close> that the
  layers above use.
\<close>

section \<open>Bits\<close>

definition bitmap_test :: "bytes \<Rightarrow> nat \<Rightarrow> bool" where
  "bitmap_test bm i \<longleftrightarrow> bm ! (i div 8) AND push_bit (i mod 8) 1 \<noteq> 0"

definition bitmap_set :: "bytes \<Rightarrow> nat \<Rightarrow> bytes" where
  "bitmap_set bm i = bm[i div 8 := bm ! (i div 8) OR push_bit (i mod 8) 1]"

definition bitmap_clear :: "bytes \<Rightarrow> nat \<Rightarrow> bytes" where
  "bitmap_clear bm i = bm[i div 8 := bm ! (i div 8) AND NOT (push_bit (i mod 8) 1)]"

definition mark_dirty :: "volume \<Rightarrow> nat \<Rightarrow> volume" where
  "mark_dirty v i =
     (let bitmap_sector = i div 8 div SECTOR_SIZE in
      if bitmap_sector < length (v_dirty v) then v\<lparr>v_dirty := (v_dirty v)[bitmap_sector := 1]\<rparr> else v)"

section \<open>Operations\<close>

text \<open>
  The scan starts at \<open>data_start\<close> and takes the first clear bit. The result is the C \<open>int\<close>: the block
  number converted from \<open>uint32_t\<close>, or \<open>-1\<close>.
\<close>

definition alloc_block :: "volume \<Rightarrow> int \<times> volume" where
  "alloc_block v =
     (case List.find (\<lambda>i. \<not> bitmap_test (v_bitmap v) i) [data_start v..<total_blocks v] of
        None \<Rightarrow> (- 1, v)
      | Some i \<Rightarrow>
          (sint (of_nat i :: u32),
           mark_dirty (v\<lparr>v_bitmap := bitmap_set (v_bitmap v) i,
             v_sb := (v_sb v)\<lparr>sb_free_blocks := sb_free_blocks (v_sb v) - 1\<rparr>\<rparr>) i))"

definition free_block :: "volume \<Rightarrow> u32 \<Rightarrow> volume" where
  "free_block v block_num =
     (if sb_data_start (v_sb v) \<le> block_num \<and> block_num < sb_total_blocks (v_sb v) then
        if bitmap_test (v_bitmap v) (unat block_num) then
          mark_dirty (v\<lparr>v_bitmap := bitmap_clear (v_bitmap v) (unat block_num),
             v_sb := (v_sb v)\<lparr>sb_free_blocks := sb_free_blocks (v_sb v) + 1\<rparr>\<rparr>) (unat block_num)
        else v
      else v)"

section \<open>Bit lemmas\<close>

lemma bitmap_test_bit: "bitmap_test bm i \<longleftrightarrow> bit (bm ! (i div 8)) (i mod 8)"
  by (simp add: bitmap_test_def and_exp_eq_0_iff_not_bit push_bit_of_1)

lemma length_bitmap_set [simp]: "length (bitmap_set bm i) = length bm"
  by (simp add: bitmap_set_def)

lemma length_bitmap_clear [simp]: "length (bitmap_clear bm i) = length bm"
  by (simp add: bitmap_clear_def)

lemma div_mod_8_eq: "i div 8 = j div 8 \<Longrightarrow> i mod 8 = j mod 8 \<longleftrightarrow> i = (j :: nat)"
  by (metis div_mult_mod_eq)

lemma bitmap_test_set:
  "i < 8 * length bm \<Longrightarrow> bitmap_test (bitmap_set bm i) j \<longleftrightarrow> j = i \<or> bitmap_test bm j"
  by (cases "i div 8 = j div 8")
    (auto simp: bitmap_test_bit bitmap_set_def bit_simps div_mod_8_eq less_mult_imp_div_less mult.commute)

lemma bitmap_test_clear:
  "i < 8 * length bm \<Longrightarrow> bitmap_test (bitmap_clear bm i) j \<longleftrightarrow> j \<noteq> i \<and> bitmap_test bm j"
  by (cases "i div 8 = j div 8")
    (auto simp: bitmap_test_bit bitmap_clear_def bit_simps div_mod_8_eq less_mult_imp_div_less mult.commute)

section \<open>The allocator invariant\<close>

definition pool :: "volume \<Rightarrow> nat set" where
  "pool v = {data_start v ..< total_blocks v}"

definition used :: "volume \<Rightarrow> nat set" where
  "used v = {i \<in> pool v. bitmap_test (v_bitmap v) i}"

text \<open>
  Every block has a bit and the free counter of the superblock is the number of clear bits of the
  data region. \<open>small_volume\<close> excludes volumes of 8 TiB and more (see \<open>alloc_block_int_cast\<close>).
\<close>

definition small_volume :: "volume \<Rightarrow> bool" where
  "small_volume v \<longleftrightarrow> total_blocks v \<le> 2 ^ 31"

definition bitmap_inv :: "volume \<Rightarrow> bool" where
  "bitmap_inv v \<longleftrightarrow> total_blocks v \<le> 8 * length (v_bitmap v) \<and>
     unat (sb_free_blocks (v_sb v)) = card (pool v - used v)"

lemma mark_dirty_simps [simp]:
  "v_file (mark_dirty v i) = v_file v" "v_key (mark_dirty v i) = v_key v"
  "v_hkey (mark_dirty v i) = v_hkey v" "v_size (mark_dirty v i) = v_size v"
  "v_sb (mark_dirty v i) = v_sb v" "v_bitmap (mark_dirty v i) = v_bitmap v"
  "v_inodes (mark_dirty v i) = v_inodes v" "v_start (mark_dirty v i) = v_start v"
  "v_hidden (mark_dirty v i) = v_hidden v" "v_protect (mark_dirty v i) = v_protect v"
  "v_pstart (mark_dirty v i) = v_pstart v" "v_pend (mark_dirty v i) = v_pend v"
  "length (v_dirty (mark_dirty v i)) = length (v_dirty v)"
  by (simp_all add: mark_dirty_def Let_def)

lemma pool_mark_dirty [simp]: "pool (mark_dirty v i) = pool v"
  by (simp add: pool_def)

lemma used_mark_dirty [simp]: "used (mark_dirty v i) = used v"
  by (simp add: used_def)

lemma finite_pool [simp]: "finite (pool v)"
  by (simp add: pool_def)

lemma used_subset_pool: "used v \<subseteq> pool v"
  by (auto simp: used_def)

lemma finite_used [simp]: "finite (used v)"
  using finite_subset [OF used_subset_pool] by simp

lemma pool_bound: "i \<in> pool v \<Longrightarrow> i < 2 ^ 32"
  using unat_less_2p [of "sb_total_blocks (v_sb v)"] by (simp add: pool_def)

text \<open>What the scan finds.\<close>

lemma find_upt_Some:
  assumes "List.find P [a..<b] = Some i"
  shows "a \<le> i \<and> i < b \<and> P i \<and> (\<forall>j. a \<le> j \<and> j < i \<longrightarrow> \<not> P j)"
proof -
  obtain k where k: "k < length [a..<b]" "P ([a..<b] ! k)" "i = [a..<b] ! k"
    "\<forall>j < k. \<not> P ([a..<b] ! j)"
    using assms by (auto simp: find_Some_iff)
  have "\<not> P j" if "a \<le> j" "j < i" for j
    using k that by (auto dest!: spec [of _ "j - a"])
  with k show ?thesis by auto
qed

lemma alloc_block_cases:
  obtains (full) "alloc_block v = (- 1, v)" "used v = pool v"
  | (found) i where "i \<in> pool v" "i \<notin> used v" "\<And>j. j \<in> pool v \<Longrightarrow> j < i \<Longrightarrow> j \<in> used v"
      "alloc_block v = (sint (of_nat i :: u32),
         mark_dirty (v\<lparr>v_bitmap := bitmap_set (v_bitmap v) i,
           v_sb := (v_sb v)\<lparr>sb_free_blocks := sb_free_blocks (v_sb v) - 1\<rparr>\<rparr>) i)"
proof (cases "List.find (\<lambda>i. \<not> bitmap_test (v_bitmap v) i) [data_start v..<total_blocks v]")
  case None
  then have "alloc_block v = (- 1, v)" by (simp add: alloc_block_def)
  moreover have "used v = pool v" using None by (auto simp: find_None_iff used_def pool_def)
  ultimately show ?thesis by (rule full)
next
  case (Some i)
  from find_upt_Some [OF this] Some show ?thesis
    by (intro found [of i]) (auto simp: alloc_block_def used_def pool_def)
qed

lemma lowest_free:
  assumes "i \<in> pool v" "i \<notin> used v" "\<And>j. j \<in> pool v \<Longrightarrow> j < i \<Longrightarrow> j \<in> used v"
  shows "Min (pool v - used v) = i"
proof (rule Min_eqI)
  fix y assume "y \<in> pool v - used v"
  then show "i \<le> y" using assms(3) [of y] by (auto simp: not_less [symmetric])
qed (use assms in auto)

lemma sint_of_nat_u32: "i < 2 ^ 31 \<Longrightarrow> sint (of_nat i :: u32) = int i"
  by (simp add: sint_uint unsigned_of_nat take_bit_nat_eq_self signed_take_bit_int_eq_self_iff
      take_bit_int_eq_self_iff uint_word_of_int_eq of_nat_take_bit flip: take_bit_of_nat)

lemma pool_sb [simp]:
  "pool (v\<lparr>v_bitmap := bm\<rparr>) = pool v"
  "pool (v\<lparr>v_bitmap := bm, v_sb := (v_sb v)\<lparr>sb_free_blocks := n\<rparr>\<rparr>) = pool v"
  by (simp_all add: pool_def)

lemma used_set:
  assumes "bitmap_inv v" "i \<in> pool v"
  shows "used (v\<lparr>v_bitmap := bitmap_set (v_bitmap v) i, v_sb := (v_sb v)\<lparr>sb_free_blocks := n\<rparr>\<rparr>)
    = insert i (used v)"
  using assms by (auto simp: used_def bitmap_inv_def bitmap_test_set pool_def)

lemma used_clear:
  assumes "bitmap_inv v" "i \<in> pool v"
  shows "used (v\<lparr>v_bitmap := bitmap_clear (v_bitmap v) i, v_sb := (v_sb v)\<lparr>sb_free_blocks := n\<rparr>\<rparr>)
    = used v - {i}"
  using assms by (auto simp: used_def bitmap_inv_def bitmap_test_clear pool_def)

lemma unat_minus_one_u32: "0 < unat (w :: u32) \<Longrightarrow> unat (w - 1) = unat w - 1"
  by (rule unat_minus_one) auto

lemma unat_plus_one_u32: "unat (w :: u32) < 2 ^ 32 - 1 \<Longrightarrow> unat (w + 1) = unat w + 1"
  by (simp add: unat_word_ariths)

lemma mark_dirty_inv [simp]: "bitmap_inv (mark_dirty v i) = bitmap_inv v"
  by (simp add: bitmap_inv_def)

lemma alloc_set_inv:
  assumes "bitmap_inv v" "i \<in> pool v" "i \<notin> used v"
  shows "bitmap_inv (v\<lparr>v_bitmap := bitmap_set (v_bitmap v) i,
    v_sb := (v_sb v)\<lparr>sb_free_blocks := sb_free_blocks (v_sb v) - 1\<rparr>\<rparr>)"
proof -
  have "pool v - insert i (used v) = (pool v - used v) - {i}" by auto
  then have "card (pool v - insert i (used v)) = card (pool v - used v) - 1"
    using assms(2,3) by simp
  moreover have "0 < card (pool v - used v)"
    using assms(2,3) by (auto simp: card_gt_0_iff)
  moreover have "total_blocks v \<le> 8 * length (v_bitmap v)"
    "unat (sb_free_blocks (v_sb v)) = card (pool v - used v)"
    using assms(1) by (simp_all add: bitmap_inv_def)
  ultimately show ?thesis
    unfolding bitmap_inv_def used_set [OF assms(1,2)] pool_sb by (simp add: unat_minus_one_u32)
qed

lemma free_clear_inv:
  assumes "bitmap_inv v" "i \<in> used v"
  shows "bitmap_inv (v\<lparr>v_bitmap := bitmap_clear (v_bitmap v) i,
    v_sb := (v_sb v)\<lparr>sb_free_blocks := sb_free_blocks (v_sb v) + 1\<rparr>\<rparr>)"
proof -
  have i: "i \<in> pool v" using assms(2) used_subset_pool by auto
  have split: "pool v - (used v - {i}) = insert i (pool v - used v)" using i by auto
  have card: "card (pool v - (used v - {i})) = card (pool v - used v) + 1"
    unfolding split using assms(2) by simp
  have "card (pool v - (used v - {i})) \<le> card (pool v)" by (rule card_mono) auto
  also have "\<dots> \<le> total_blocks v" by (simp add: pool_def)
  also have "\<dots> \<le> 2 ^ 32 - 1" using unat_less_2p [of "sb_total_blocks (v_sb v)"] by simp
  finally have "unat (sb_free_blocks (v_sb v)) < 2 ^ 32 - 1"
    using assms(1) card by (simp add: bitmap_inv_def)
  moreover have "total_blocks v \<le> 8 * length (v_bitmap v)"
    "unat (sb_free_blocks (v_sb v)) = card (pool v - used v)"
    using assms(1) by (simp_all add: bitmap_inv_def)
  ultimately show ?thesis
    unfolding bitmap_inv_def used_clear [OF assms(1) i] pool_sb card by (simp add: unat_plus_one_u32)
qed

section \<open>The contract of the allocator\<close>

locale block_allocator =
  fixes alloc :: "'v \<Rightarrow> int \<times> 'v"
    and free :: "'v \<Rightarrow> u32 \<Rightarrow> 'v"
    and used :: "'v \<Rightarrow> nat set"
    and pool :: "'v \<Rightarrow> nat set"
    and inv :: "'v \<Rightarrow> bool"
  assumes alloc_free_block: "inv v \<Longrightarrow> used v \<noteq> pool v \<Longrightarrow> \<exists>i w. alloc v = (int i, w) \<and>
      i \<in> pool v - used v \<and> i < 2 ^ 31 \<and> used w = insert i (used v) \<and> pool w = pool v \<and> inv w"
    and alloc_full: "inv v \<Longrightarrow> used v = pool v \<Longrightarrow> alloc v = (- 1, v)"
    and free_used: "inv v \<Longrightarrow> unat b \<in> used v \<Longrightarrow>
      used (free v b) = used v - {unat b} \<and> pool (free v b) = pool v \<and> inv (free v b)"
    and free_unused: "inv v \<Longrightarrow> unat b \<notin> used v \<Longrightarrow> free v b = v"
    and used_pool: "used v \<subseteq> pool v"
    and pool_finite: "finite (pool v)"
begin

lemma alloc_fails_iff: "inv v \<Longrightarrow> fst (alloc v) < 0 \<longleftrightarrow> used v = pool v"
  using alloc_free_block [of v] alloc_full [of v] by force

lemma alloc_fresh:
  assumes "inv v" "alloc v = (r, w)" "0 \<le> r"
  shows "nat r \<in> pool v \<and> nat r \<notin> used v \<and> used w = insert (nat r) (used v) \<and>
    pool w = pool v \<and> inv w \<and> unat (of_int r :: u32) = nat r"
proof -
  have "used v \<noteq> pool v" using alloc_full assms by fastforce
  from alloc_free_block [OF assms(1) this] assms(2) obtain i where
    i: "r = int i" "i \<in> pool v - used v" "i < 2 ^ 31" "used w = insert i (used v)" "pool w = pool v"
    "inv w" by auto
  then have "unat (of_int r :: u32) = nat r"
    by (simp add: unsigned_of_nat take_bit_nat_eq_self)
  with i show ?thesis by simp
qed

lemma alloc_then_free:
  assumes "inv v" "alloc v = (r, w)" "0 \<le> r"
  shows "used (free w (of_int r)) = used v \<and> pool (free w (of_int r)) = pool v \<and>
    inv (free w (of_int r))"
  using alloc_fresh [OF assms] free_used [of w "of_int r"] by auto

lemma alloc_card:
  assumes "inv v" "alloc v = (r, w)" "0 \<le> r"
  shows "card (pool w - used w) + 1 = card (pool v - used v)"
proof -
  note f = alloc_fresh [OF assms]
  have "card (pool v - used v) = Suc (card (pool v - used v - {nat r}))"
    using f pool_finite by (intro card.remove) auto
  moreover have "pool w - used w = pool v - used v - {nat r}" using f by auto
  ultimately show ?thesis by simp
qed

lemma double_free: "inv v \<Longrightarrow> free (free v b) b = free v b"
  using free_used [of v b] free_unused [of v b] free_unused [of "free v b" b] by (cases "unat b \<in> used v") auto

end

interpretation ba: block_allocator alloc_block free_block used pool
  "\<lambda>v. bitmap_inv v \<and> small_volume v"
proof
  fix v assume v: "bitmap_inv v \<and> small_volume v"
  have small: "i < 2 ^ 31" if "i \<in> pool v" for i
    using v that by (simp add: pool_def small_volume_def)
  { assume "used v \<noteq> pool v"
    then obtain i where i: "i \<in> pool v" "i \<notin> used v"
      "alloc_block v = (sint (of_nat i :: u32),
         mark_dirty (v\<lparr>v_bitmap := bitmap_set (v_bitmap v) i,
           v_sb := (v_sb v)\<lparr>sb_free_blocks := sb_free_blocks (v_sb v) - 1\<rparr>\<rparr>) i)"
      by (cases v rule: alloc_block_cases) auto
    with v small [OF i(1)] show "\<exists>i w. alloc_block v = (int i, w) \<and> i \<in> pool v - used v \<and>
        i < 2 ^ 31 \<and> used w = insert i (used v) \<and> pool w = pool v \<and>
        bitmap_inv w \<and> small_volume w"
      by (simp add: sint_of_nat_u32 used_set alloc_set_inv) (simp add: small_volume_def) }
  { assume "used v = pool v"
    then show "alloc_block v = (- 1, v)" by (cases v rule: alloc_block_cases) auto }
  fix b :: u32
  { assume b: "unat b \<in> used v"
    then have p: "unat b \<in> pool v" using used_subset_pool by auto
    then have "sb_data_start (v_sb v) \<le> b \<and> b < sb_total_blocks (v_sb v)"
      by (simp add: pool_def word_le_nat_alt word_less_nat_alt)
    with b have "free_block v b =
      mark_dirty (v\<lparr>v_bitmap := bitmap_clear (v_bitmap v) (unat b),
        v_sb := (v_sb v)\<lparr>sb_free_blocks := sb_free_blocks (v_sb v) + 1\<rparr>\<rparr>) (unat b)"
      by (simp add: free_block_def used_def)
    with v p b show "used (free_block v b) = used v - {unat b} \<and> pool (free_block v b) = pool v \<and>
        bitmap_inv (free_block v b) \<and> small_volume (free_block v b)"
      by (simp add: used_clear free_clear_inv) (simp add: small_volume_def) }
  { assume "unat b \<notin> used v"
    then show "free_block v b = v"
      by (auto simp: free_block_def used_def pool_def word_le_nat_alt word_less_nat_alt) }
next
  fix v show "used v \<subseteq> pool v" by (rule used_subset_pool)
  show "finite (pool v)" by simp
qed

end
