(* ===== verification/Frame.thy ===== *)
theory Frame
  imports Bitmap
begin

text \<open>
  Relations between a mounted volume and a later state of it that every operation respects. The
  locale \<open>read_frame\<close> is for operations that only read blocks, \<open>vol_frame\<close> extends it by the primitive
  state changes of \<open>src/src/fs.c\<close>; each component proves inside them that its operations are built from
  these. The interpretations below instantiate the locales with the relations that matter:
  \<open>unchanged\<close> (only the stream's fault schedule advances), \<open>keeps\<close> (which container bytes may change),
  \<open>same_shape\<close> (the sizes of the in-memory tables and the geometry), \<open>counts_blocks\<close> (the free
  counter) and \<open>stays_ready\<close> (a working stream stays usable).
\<close>

definition inode_at :: "volume \<Rightarrow> nat \<Rightarrow> inode" where
  "inode_at v ino = v_inodes v ! ino"

definition upd_inode :: "volume \<Rightarrow> nat \<Rightarrow> (inode \<Rightarrow> inode) \<Rightarrow> volume" where
  "upd_inode v ino f = v\<lparr>v_inodes := (v_inodes v)[ino := f (v_inodes v ! ino)]\<rparr>"

lemma upd_inode_simps [simp]:
  "v_file (upd_inode v ino f) = v_file v" "v_key (upd_inode v ino f) = v_key v"
  "v_hkey (upd_inode v ino f) = v_hkey v" "v_size (upd_inode v ino f) = v_size v"
  "v_sb (upd_inode v ino f) = v_sb v" "v_bitmap (upd_inode v ino f) = v_bitmap v"
  "v_dirty (upd_inode v ino f) = v_dirty v" "v_start (upd_inode v ino f) = v_start v"
  "v_hidden (upd_inode v ino f) = v_hidden v" "v_protect (upd_inode v ino f) = v_protect v"
  "v_pstart (upd_inode v ino f) = v_pstart v" "v_pend (upd_inode v ino f) = v_pend v"
  "length (v_inodes (upd_inode v ino f)) = length (v_inodes v)"
  by (simp_all add: upd_inode_def)

lemma inode_at_upd:
  "ino < length (v_inodes v) \<Longrightarrow>
   inode_at (upd_inode v ino f) j = (if j = ino then f (inode_at v ino) else inode_at v j)"
  by (simp add: inode_at_def upd_inode_def)

locale read_frame =
  fixes E :: env
    and R :: "volume \<Rightarrow> volume \<Rightarrow> bool"
  assumes R_refl: "R v v"
    and R_trans: "R u v \<Longrightarrow> R v w \<Longrightarrow> R u w"
    and R_read: "R v (snd (read_block E v b))"
begin

lemma chain_read: "read_block E v b = (r, w) \<Longrightarrow> R u v \<Longrightarrow> R u w"
  using R_trans [of u v w] R_read [of v b] by simp

end

locale vol_frame = read_frame +
  assumes R_write: "R v (snd (write_block E v b d))"
    and R_alloc: "R v (snd (alloc_block v))"
    and R_free: "R v (free_block v b)"
    and R_inode: "(\<And>nd. inode_ok nd \<Longrightarrow> inode_ok (f nd)) \<Longrightarrow> R v (upd_inode v i f)"
    and R_free_inodes: "R v (v\<lparr>v_sb := (v_sb v)\<lparr>sb_free_inodes := n\<rparr>\<rparr>)"
    and R_hmac: "length h = DENYFS_HMAC_SIZE \<Longrightarrow> R v (v\<lparr>v_sb := (v_sb v)\<lparr>sb_bitmap_hmac := h\<rparr>\<rparr>)"
    and R_fflush: "R v (v\<lparr>v_file := snd (fflush (v_file v))\<rparr>)"
    and R_clean: "R v (v\<lparr>v_dirty := replicate (length (v_dirty v)) 0\<rparr>)"
begin

lemma chain_write: "write_block E v b d = (r, w) \<Longrightarrow> R u v \<Longrightarrow> R u w"
  using R_trans [of u v w] R_write [of v b d] by simp

lemma chain_alloc: "alloc_block v = (r, w) \<Longrightarrow> R u v \<Longrightarrow> R u w"
  using R_trans [of u v w] R_alloc [of v] by simp

lemma chain_free: "R u v \<Longrightarrow> R u (free_block v b)"
  using R_trans R_free by blast

lemma chain_inode: "(\<And>nd. inode_ok nd \<Longrightarrow> inode_ok (f nd)) \<Longrightarrow> R u v \<Longrightarrow> R u (upd_inode v i f)"
  using R_trans R_inode by blast

lemma chain_free_inodes: "R u v \<Longrightarrow> R u (v\<lparr>v_sb := (v_sb v)\<lparr>sb_free_inodes := n\<rparr>\<rparr>)"
  using R_trans R_free_inodes by blast

lemmas chain = R_refl chain_read chain_write chain_alloc chain_free chain_inode chain_free_inodes

end

section \<open>Primitive steps\<close>

lemma write_block_file: "\<exists>g. snd (write_block E v b d) = v\<lparr>v_file := g\<rparr>"
  by (auto simp: write_block_def Let_def split: option.split prod.split)
    (metis volume.surjective volume.update_convs(1))+

lemma alloc_block_form:
  "\<exists>i n. snd (alloc_block v) = v \<or> i \<in> pool v - used v \<and> n = sb_free_blocks (v_sb v) - 1 \<and>
     snd (alloc_block v) = mark_dirty (v\<lparr>v_bitmap := bitmap_set (v_bitmap v) i,
       v_sb := (v_sb v)\<lparr>sb_free_blocks := n\<rparr>\<rparr>) i"
  by (cases v rule: alloc_block_cases) auto

lemma free_block_form:
  "free_block v b = v \<or> unat b \<in> used v \<and>
     free_block v b = mark_dirty (v\<lparr>v_bitmap := bitmap_clear (v_bitmap v) (unat b),
       v_sb := (v_sb v)\<lparr>sb_free_blocks := sb_free_blocks (v_sb v) + 1\<rparr>\<rparr>) (unat b)"
  by (auto simp: free_block_def used_def pool_def word_le_nat_alt word_less_nat_alt)

lemma alloc_block_fields [simp]:
  "v_file (snd (alloc_block v)) = v_file v" "v_inodes (snd (alloc_block v)) = v_inodes v"
  "v_size (snd (alloc_block v)) = v_size v" "v_start (snd (alloc_block v)) = v_start v"
  "same_config v (snd (alloc_block v))"
  using alloc_block_form [of v] by (auto simp: same_config_def)

lemma free_block_fields [simp]:
  "v_file (free_block v b) = v_file v" "v_inodes (free_block v b) = v_inodes v"
  "v_size (free_block v b) = v_size v" "v_start (free_block v b) = v_start v"
  "same_config v (free_block v b)"
  using free_block_form [of v b] by (auto simp: same_config_def)

section \<open>Read-only operations\<close>

definition unchanged :: "volume \<Rightarrow> volume \<Rightarrow> bool" where
  "unchanged v w \<longleftrightarrow> (\<exists>g. w = v\<lparr>v_file := g\<rparr> \<and> consumes (v_file v) g)"

lemma unchangedI: "consumes (v_file v) g \<Longrightarrow> unchanged v (v\<lparr>v_file := g\<rparr>)"
  unfolding unchanged_def by blast

lemma unchanged_refl [simp]: "unchanged v v"
  unfolding unchanged_def by (rule exI [of _ "v_file v"]) simp

lemma unchanged_fields:
  "unchanged v w \<Longrightarrow> f_bytes (v_file w) = f_bytes (v_file v) \<and> meta w = meta v"
  by (auto simp: unchanged_def consumes_bytes)

interpretation ro: read_frame E unchanged for E
proof
  fix u v w show "unchanged u v \<Longrightarrow> unchanged v w \<Longrightarrow> unchanged u w"
    unfolding unchanged_def [of u v] unchanged_def [of v w]
    by (auto intro!: unchangedI elim: consumes_trans)
next
  fix v b show "unchanged v (snd (read_block E v b))"
    using read_block_file unfolding unchanged_def by blast
qed simp

section \<open>Bytes of the container\<close>

lemma same_config_upd [simp]:
  "same_config v (upd_inode v i f)" "same_config v (v\<lparr>v_sb := s\<rparr>)" "same_config v (v\<lparr>v_dirty := d\<rparr>)"
  by (simp_all add: same_config_def)

lemma keeps_memory:
  "same_config v w \<Longrightarrow> v_file w = v_file v \<Longrightarrow> keeps v w"
  by (simp add: keeps_def extends_def)

interpretation kp: vol_frame E keeps for E
proof
  fix v show "keeps v (v\<lparr>v_file := snd (fflush (v_file v))\<rparr>)"
    by (rule keeps_bytes) (metis fflush_bytes prod.collapse)
next
  fix u v w show "keeps u v \<Longrightarrow> keeps v w \<Longrightarrow> keeps u w" by (rule keeps_trans)
next
  fix v b d show "keeps v (snd (read_block E v b))" by (rule read_block_keeps)
  show "keeps v (snd (write_block E v b d))" by (rule write_block_keeps)
qed (auto intro!: keeps_memory)

section \<open>Sizes and geometry\<close>

text \<open>Everything in the superblock but the counters and the HMAC is constant during a mount.\<close>

definition sb_const :: "superblock \<Rightarrow> superblock" where
  "sb_const sb = sb\<lparr>sb_free_blocks := 0, sb_free_inodes := 0, sb_bitmap_hmac := []\<rparr>"

definition inodes_ok :: "volume \<Rightarrow> bool" where
  "inodes_ok v \<longleftrightarrow> (\<forall>nd \<in> set (v_inodes v). inode_ok nd)"

definition same_shape :: "volume \<Rightarrow> volume \<Rightarrow> bool" where
  "same_shape v w \<longleftrightarrow> length (v_bitmap w) = length (v_bitmap v) \<and>
     length (v_dirty w) = length (v_dirty v) \<and> length (v_inodes w) = length (v_inodes v) \<and>
     sb_const (v_sb w) = sb_const (v_sb v) \<and> (sb_ok (v_sb v) \<longrightarrow> sb_ok (v_sb w)) \<and>
     (inodes_ok v \<longrightarrow> inodes_ok w)"

lemma sb_const_upd [simp]:
  "sb_const (sb\<lparr>sb_free_blocks := n\<rparr>) = sb_const sb"
  "sb_const (sb\<lparr>sb_free_inodes := n\<rparr>) = sb_const sb"
  "sb_const (sb\<lparr>sb_bitmap_hmac := h\<rparr>) = sb_const sb"
  by (simp_all add: sb_const_def)

lemma sb_const_fields:
  assumes "sb_const s = sb_const t"
  shows "sb_magic s = sb_magic t \<and> sb_block_size s = sb_block_size t \<and>
    sb_total_blocks s = sb_total_blocks t \<and> sb_inode_count s = sb_inode_count t \<and>
    sb_bitmap_start s = sb_bitmap_start t \<and> sb_bitmap_blocks s = sb_bitmap_blocks t \<and>
    sb_inode_start s = sb_inode_start t \<and> sb_inode_blocks s = sb_inode_blocks t \<and>
    sb_data_start s = sb_data_start t \<and> sb_reserved s = sb_reserved t"
  using assms by (cases s; cases t) (simp add: sb_const_def)

lemma sb_ok_upd [simp]:
  "sb_ok (sb\<lparr>sb_free_blocks := n\<rparr>) = sb_ok sb"
  "sb_ok (sb\<lparr>sb_free_inodes := n\<rparr>) = sb_ok sb"
  by (simp_all add: sb_ok_def)

lemma inodes_ok_upd:
  "(\<And>nd. inode_ok nd \<Longrightarrow> inode_ok (f nd)) \<Longrightarrow> inodes_ok v \<Longrightarrow> inodes_ok (upd_inode v i f)"
  by (cases "i < length (v_inodes v)")
    (auto simp: inodes_ok_def upd_inode_def list_update_beyond
      dest!: set_update_subset_insert [THEN subsetD])

interpretation sh: vol_frame E same_shape for E
proof
  fix v b d
  show "same_shape v (snd (read_block E v b))"
    using read_block_file [of E v b] by (auto simp: same_shape_def inodes_ok_def)
  show "same_shape v (snd (write_block E v b d))"
    using write_block_file [of E v b d] by (auto simp: same_shape_def inodes_ok_def)
next
  fix v show "same_shape v (snd (alloc_block v))"
    using alloc_block_form [of v] by (auto simp: same_shape_def inodes_ok_def)
next
  fix v b show "same_shape v (free_block v b)"
    using free_block_form [of v b] by (auto simp: same_shape_def inodes_ok_def)
next
  fix f :: "inode \<Rightarrow> inode" and v i
  assume "\<And>nd. inode_ok nd \<Longrightarrow> inode_ok (f nd)"
  then show "same_shape v (upd_inode v i f)" by (simp add: same_shape_def inodes_ok_upd)
next
  fix u v w show "same_shape u v \<Longrightarrow> same_shape v w \<Longrightarrow> same_shape u w"
    unfolding same_shape_def by simp
qed (simp_all add: same_shape_def inodes_ok_def sb_ok_def)

section \<open>The free counter\<close>

definition counts_blocks :: "volume \<Rightarrow> volume \<Rightarrow> bool" where
  "counts_blocks v w \<longleftrightarrow> pool w = pool v \<and> (bitmap_inv v \<longrightarrow> bitmap_inv w)"

lemma counts_same:
  "v_bitmap w = v_bitmap v \<Longrightarrow> sb_free_blocks (v_sb w) = sb_free_blocks (v_sb v) \<Longrightarrow>
   sb_data_start (v_sb w) = sb_data_start (v_sb v) \<Longrightarrow>
   sb_total_blocks (v_sb w) = sb_total_blocks (v_sb v) \<Longrightarrow> counts_blocks v w"
  by (simp add: counts_blocks_def bitmap_inv_def pool_def used_def)

interpretation cb: vol_frame E counts_blocks for E
proof
  fix u v w show "counts_blocks u v \<Longrightarrow> counts_blocks v w \<Longrightarrow> counts_blocks u w"
    by (simp add: counts_blocks_def)
next
  fix v b d
  show "counts_blocks v (snd (read_block E v b))"
    using read_block_file [of E v b] by (auto intro: counts_same)
  show "counts_blocks v (snd (write_block E v b d))"
    using write_block_file [of E v b d] by (auto intro: counts_same)
next
  fix v show "counts_blocks v (snd (alloc_block v))"
    using alloc_block_form [of v] by (auto simp: counts_blocks_def alloc_set_inv)
next
  fix v b show "counts_blocks v (free_block v b)"
    using free_block_form [of v b] by (auto simp: counts_blocks_def free_clear_inv)
qed (auto intro: counts_same)

section \<open>A working stream\<close>

definition stays_ready :: "env \<Rightarrow> volume \<Rightarrow> volume \<Rightarrow> bool" where
  "stays_ready E v w \<longleftrightarrow> (ready E v \<longrightarrow> ready E w)"

lemma stays_same:
  assumes "same_config v w" "v_file w = v_file v"
  shows "stays_ready E v w"
proof -
  have "vol_geom w = vol_geom v" using assms same_config_geom by blast
  with assms show ?thesis
    by (simp add: stays_ready_def ready_def same_config_def vol_blocks_def blocked_def)
qed

lemma ready_meta:
  assumes "ready E v" "meta w = meta v" "f_faults (v_file w) = []"
    "length (f_bytes (v_file v)) \<le> length (f_bytes (v_file w))"
  shows "ready E w"
proof -
  obtain f where "w = v\<lparr>v_file := f\<rparr>" using meta_eqD [OF assms(2)] by blast
  with assms show ?thesis
    by (auto simp: ready_def vol_geom_def vol_blocks_def blocked_def)
qed

lemma write_block_length:
  "ready E v \<Longrightarrow> ready E (snd (write_block E v b d))"
  unfolding write_block_def
  by (auto simp: Let_def fwrite_def ready_def vol_geom_def vol_blocks_def blocked_def
      split: option.split)

interpretation sr: vol_frame E "stays_ready E" for E
proof
  fix v w u show "stays_ready E u v \<Longrightarrow> stays_ready E v w \<Longrightarrow> stays_ready E u w"
    by (simp add: stays_ready_def)
next
  fix v b d show "stays_ready E v (snd (write_block E v b d))"
    by (simp add: stays_ready_def write_block_length)
  show "stays_ready E v (snd (read_block E v b))"
  proof (cases "unat b < vol_blocks v")
    case True
    then show ?thesis by (simp add: stays_ready_def bs.rd_ok)
  next
    case False
    then show ?thesis by (simp add: stays_ready_def read_block_def)
  qed
next
  fix v show "stays_ready E v (v\<lparr>v_file := snd (fflush (v_file v))\<rparr>)"
    by (auto simp: stays_ready_def ready_def)
qed (auto intro!: stays_same simp: stays_ready_def [of E v v for v])

end
