(* ===== verification/BlockMap.thy ===== *)
theory BlockMap
  imports Frame
begin

text \<open>
  The mapping from a file's logical blocks to volume blocks (\<open>src/src/fs.c\<close>): 20 direct pointers, one
  single-indirect table and one double-indirect tree. An operation on \<open>inode\<close>, a C pointer into
  \<open>vol->inodes\<close>, takes the inode number. Every failure path returns the state the code leaves, with its
  rollbacks. What the operations do to the contents of the files is proved in \<open>Slots\<close> and \<open>FileMap\<close>.
\<close>

section \<open>Operations\<close>

definition read_pointer_table :: "env \<Rightarrow> volume \<Rightarrow> u32 \<Rightarrow> u32 list res \<times> volume" where
  "read_pointer_table E v table_block =
     (if unat table_block < data_start v \<or> total_blocks v \<le> unat table_block \<or>
         \<not> bitmap_test (v_bitmap v) (unat table_block) then (Inl EFAIL, v)
      else case read_block E v table_block of
        (Inl e, w) \<Rightarrow> (Inl e, w)
      | (Inr d, w) \<Rightarrow> (Inr (ptrs_dec d), w))"

definition empty_table :: "u32 list" where
  "empty_table = replicate DENYFS_POINTERS_PER_BLOCK DENYFS_INVALID_BLOCK"

definition allocate_pointer_table :: "env \<Rightarrow> volume \<Rightarrow> u32 res \<times> volume" where
  "allocate_pointer_table E v =
     (case alloc_block v of (block, w) \<Rightarrow>
      if block < 0 then (Inl ENOSPC, w)
      else case write_block E w (of_int block) (ptrs_enc empty_table) of
        (Inl e, x) \<Rightarrow> (Inl EIO, free_block x (of_int block))
      | (Inr _, x) \<Rightarrow> (Inr (of_int block), x))"

definition allocate_zeroed_data_block :: "env \<Rightarrow> volume \<Rightarrow> u32 res \<times> volume" where
  "allocate_zeroed_data_block E v =
     (case alloc_block v of (block, w) \<Rightarrow>
      if block < 0 then (Inl ENOSPC, w)
      else case write_block E w (of_int block) (replicate SECTOR_SIZE 0) of
        (Inl e, x) \<Rightarrow> (Inl EIO, free_block x (of_int block))
      | (Inr _, x) \<Rightarrow> (Inr (of_int block), x))"

text \<open>The final check of \<open>get_file_data_block\<close>: a mapped block must be an allocated data block.\<close>

definition check_mapped :: "u32 \<Rightarrow> volume \<Rightarrow> u32 res \<times> volume" where
  "check_mapped b v =
     (if b \<noteq> DENYFS_INVALID_BLOCK \<and> (unat b < data_start v \<or> total_blocks v \<le> unat b \<or>
         \<not> bitmap_test (v_bitmap v) (unat b)) then (Inl EIO, v) else (Inr b, v))"

definition get_file_data_block :: "env \<Rightarrow> volume \<Rightarrow> nat \<Rightarrow> nat \<Rightarrow> u32 res \<times> volume" where
  "get_file_data_block E v ino logical_block =
     (let inode = inode_at v ino in
      if DENYFS_MAX_FILE_BLOCKS \<le> logical_block then (Inl EINVAL, v)
      else if logical_block < DENYFS_DIRECT_BLOCKS then check_mapped (i_direct inode ! logical_block) v
      else let logical_block = logical_block - DENYFS_DIRECT_BLOCKS in
      if logical_block < DENYFS_POINTERS_PER_BLOCK then
        if i_indirect inode = DENYFS_INVALID_BLOCK then (Inr DENYFS_INVALID_BLOCK, v)
        else case read_pointer_table E v (i_indirect inode) of
          (Inl e, w) \<Rightarrow> (Inl EIO, w)
        | (Inr pointers, w) \<Rightarrow> check_mapped (pointers ! logical_block) w
      else let logical_block = logical_block - DENYFS_POINTERS_PER_BLOCK;
               outer = logical_block div DENYFS_POINTERS_PER_BLOCK;
               inner = logical_block mod DENYFS_POINTERS_PER_BLOCK in
        if i_double inode = DENYFS_INVALID_BLOCK then (Inr DENYFS_INVALID_BLOCK, v)
        else case read_pointer_table E v (i_double inode) of
          (Inl e, w) \<Rightarrow> (Inl EIO, w)
        | (Inr roots, w) \<Rightarrow>
            if roots ! outer = DENYFS_INVALID_BLOCK then (Inr DENYFS_INVALID_BLOCK, w)
            else case read_pointer_table E w (roots ! outer) of
              (Inl e, x) \<Rightarrow> (Inl EIO, x)
            | (Inr pointers, x) \<Rightarrow> check_mapped (pointers ! inner) x)"

text \<open>
  \<open>allocate_file_data_block\<close> in its three branches. Each stores \<open>data_block\<close>, already allocated, and on
  failure frees what was allocated so far.
\<close>

definition free_if :: "bool \<Rightarrow> u32 \<Rightarrow> volume \<Rightarrow> volume" where
  "free_if c b v = (if c then free_block v b else v)"

definition store_single ::
  "env \<Rightarrow> volume \<Rightarrow> nat \<Rightarrow> bool \<Rightarrow> u32 \<Rightarrow> u32 list \<Rightarrow> nat \<Rightarrow> u32 \<Rightarrow> unit res \<times> volume" where
  "store_single E v ino new_table table_block pointers idx data_block =
     (case write_block E v table_block (ptrs_enc (pointers[idx := data_block])) of
        (Inl e, w) \<Rightarrow> (Inl EIO, free_if new_table table_block (free_block w data_block))
      | (Inr _, w) \<Rightarrow>
          (Inr (), if new_table then upd_inode w ino (\<lambda>nd. nd\<lparr>i_indirect := table_block\<rparr>) else w))"

definition allocate_single ::
  "env \<Rightarrow> volume \<Rightarrow> nat \<Rightarrow> nat \<Rightarrow> u32 \<Rightarrow> unit res \<times> volume" where
  "allocate_single E v ino idx data_block =
     (let table_block = i_indirect (inode_at v ino) in
      if table_block = DENYFS_INVALID_BLOCK then
        (case allocate_pointer_table E v of
           (Inl e, w) \<Rightarrow> (Inl e, free_block w data_block)
         | (Inr t, w) \<Rightarrow> store_single E w ino True t empty_table idx data_block)
      else
        (case read_pointer_table E v table_block of
           (Inl e, w) \<Rightarrow> (Inl EIO, free_block w data_block)
         | (Inr pointers, w) \<Rightarrow> store_single E w ino False table_block pointers idx data_block))"

definition store_double ::
  "env \<Rightarrow> volume \<Rightarrow> nat \<Rightarrow> bool \<Rightarrow> u32 \<Rightarrow> u32 list \<Rightarrow> nat \<Rightarrow> bool \<Rightarrow> u32 \<Rightarrow> u32 list \<Rightarrow> nat \<Rightarrow> u32
    \<Rightarrow> unit res \<times> volume" where
  "store_double E v ino new_root root_block roots outer new_child child_block pointers inner data_block =
     (let finish = (\<lambda>w. if new_root then upd_inode w ino (\<lambda>nd. nd\<lparr>i_double := root_block\<rparr>) else w) in
      case write_block E v child_block (ptrs_enc (pointers[inner := data_block])) of
        (Inl e, w) \<Rightarrow>
          (Inl EIO, free_if new_root root_block (free_if new_child child_block (free_block w data_block)))
      | (Inr _, w) \<Rightarrow>
          if new_child then
            (case write_block E w root_block (ptrs_enc (roots[outer := child_block])) of
               (Inl e, x) \<Rightarrow>
                 (Inl EIO, free_if new_root root_block (free_block (free_block x data_block) child_block))
             | (Inr _, x) \<Rightarrow> (Inr (), finish x))
          else (Inr (), finish w))"

definition allocate_child ::
  "env \<Rightarrow> volume \<Rightarrow> nat \<Rightarrow> bool \<Rightarrow> u32 \<Rightarrow> u32 list \<Rightarrow> nat \<Rightarrow> nat \<Rightarrow> u32 \<Rightarrow> unit res \<times> volume" where
  "allocate_child E v ino new_root root_block roots outer inner data_block =
     (if roots ! outer = DENYFS_INVALID_BLOCK then
        (case allocate_pointer_table E v of
           (Inl e, w) \<Rightarrow> (Inl e, free_if new_root root_block (free_block w data_block))
         | (Inr c, w) \<Rightarrow>
             store_double E w ino new_root root_block roots outer True c empty_table inner data_block)
      else
        (case read_pointer_table E v (roots ! outer) of
           (Inl e, w) \<Rightarrow> (Inl EIO, free_if new_root root_block (free_block w data_block))
         | (Inr pointers, w) \<Rightarrow>
             store_double E w ino new_root root_block roots outer False (roots ! outer) pointers inner
               data_block))"

definition allocate_double ::
  "env \<Rightarrow> volume \<Rightarrow> nat \<Rightarrow> nat \<Rightarrow> u32 \<Rightarrow> unit res \<times> volume" where
  "allocate_double E v ino idx data_block =
     (let outer = idx div DENYFS_POINTERS_PER_BLOCK;
          inner = idx mod DENYFS_POINTERS_PER_BLOCK;
          root_block = i_double (inode_at v ino) in
      if root_block = DENYFS_INVALID_BLOCK then
        (case allocate_pointer_table E v of
           (Inl e, w) \<Rightarrow> (Inl e, free_block w data_block)
         | (Inr r, w) \<Rightarrow> allocate_child E w ino True r empty_table outer inner data_block)
      else
        (case read_pointer_table E v root_block of
           (Inl e, w) \<Rightarrow> (Inl EIO, free_block w data_block)
         | (Inr roots, w) \<Rightarrow> allocate_child E w ino False root_block roots outer inner data_block))"

definition place_block :: "env \<Rightarrow> volume \<Rightarrow> nat \<Rightarrow> nat \<Rightarrow> u32 \<Rightarrow> unit res \<times> volume" where
  "place_block E v ino logical_block data_block =
     (if logical_block < DENYFS_DIRECT_BLOCKS then
        (Inr (), upd_inode v ino (\<lambda>nd. nd\<lparr>i_direct := (i_direct nd)[logical_block := data_block]\<rparr>))
      else if logical_block - DENYFS_DIRECT_BLOCKS < DENYFS_POINTERS_PER_BLOCK then
        allocate_single E v ino (logical_block - DENYFS_DIRECT_BLOCKS) data_block
      else
        allocate_double E v ino (logical_block - DENYFS_DIRECT_BLOCKS - DENYFS_POINTERS_PER_BLOCK)
          data_block)"

definition allocate_file_data_block :: "env \<Rightarrow> volume \<Rightarrow> nat \<Rightarrow> nat \<Rightarrow> u32 res \<times> volume" where
  "allocate_file_data_block E v ino logical_block =
     (case get_file_data_block E v ino logical_block of
        (Inl e, w) \<Rightarrow> (Inl e, w)
      | (Inr existing, w) \<Rightarrow>
          if existing \<noteq> DENYFS_INVALID_BLOCK then (Inr existing, w)
          else case allocate_zeroed_data_block E w of
            (Inl e, x) \<Rightarrow> (Inl e, x)
          | (Inr data_block, x) \<Rightarrow>
              (case place_block E x ino logical_block data_block of
                 (Inl e, y) \<Rightarrow> (Inl e, y)
               | (Inr _, y) \<Rightarrow>
                   (Inr data_block,
                    upd_inode y ino (\<lambda>nd. nd\<lparr>i_block_count := i_block_count nd + 1\<rparr>))))"

section \<open>Every operation is built from the primitive steps\<close>

lemma inode_ok_upd [simp]:
  "inode_ok nd \<Longrightarrow> inode_ok (nd\<lparr>i_indirect := t\<rparr>)"
  "inode_ok nd \<Longrightarrow> inode_ok (nd\<lparr>i_double := t\<rparr>)"
  "inode_ok nd \<Longrightarrow> inode_ok (nd\<lparr>i_block_count := n\<rparr>)"
  "inode_ok nd \<Longrightarrow> inode_ok (nd\<lparr>i_size := s\<rparr>)"
  "inode_ok nd \<Longrightarrow> inode_ok (nd\<lparr>i_mtime := m\<rparr>)"
  "inode_ok nd \<Longrightarrow> inode_ok (nd\<lparr>i_type := y\<rparr>)"
  "inode_ok nd \<Longrightarrow> inode_ok (nd\<lparr>i_direct := (i_direct nd)[k := b]\<rparr>)"
  by (simp_all add: inode_ok_def)

context read_frame
begin

lemma chain_table: "read_pointer_table E v t = (r, w) \<Longrightarrow> R u v \<Longrightarrow> R u w"
  by (auto simp: read_pointer_table_def split: if_splits prod.splits sum.splits intro: chain_read)

lemma chain_check: "check_mapped b v = (r, w) \<Longrightarrow> R u v \<Longrightarrow> R u w"
  by (auto simp: check_mapped_def split: if_splits)

lemma chain_get: "get_file_data_block E v ino lb = (r, w) \<Longrightarrow> R u v \<Longrightarrow> R u w"
  by (auto simp: get_file_data_block_def Let_def split: if_splits prod.splits sum.splits;
      blast intro: chain_check chain_table)

end

context vol_frame
begin

lemma chain_free_if: "R u v \<Longrightarrow> R u (free_if c b v)"
  by (simp add: free_if_def chain_free)

lemma chain_alloc_table: "allocate_pointer_table E v = (r, w) \<Longrightarrow> R u v \<Longrightarrow> R u w"
  by (auto simp: allocate_pointer_table_def split: if_splits prod.splits sum.splits intro: chain)

lemma chain_alloc_zeroed: "allocate_zeroed_data_block E v = (r, w) \<Longrightarrow> R u v \<Longrightarrow> R u w"
  by (auto simp: allocate_zeroed_data_block_def split: if_splits prod.splits sum.splits intro: chain)

lemma chain_store_single:
  "store_single E v ino n t ps i d = (r, w) \<Longrightarrow> R u v \<Longrightarrow> R u w"
  by (auto simp: store_single_def split: if_splits prod.splits sum.splits intro!: chain_free_if chain_free chain_inode
      intro: chain_write)

lemma chain_single: "allocate_single E v ino i d = (r, w) \<Longrightarrow> R u v \<Longrightarrow> R u w"
  by (auto simp: allocate_single_def Let_def split: if_splits prod.splits sum.splits
      intro!: chain_free intro: chain_alloc_table chain_table chain_store_single)

lemma chain_store_double:
  "store_double E v ino n t rs outer nc c ps i d = (r, w) \<Longrightarrow> R u v \<Longrightarrow> R u w"
  by (auto simp: store_double_def Let_def split: if_splits prod.splits sum.splits
      intro!: chain_free_if chain_free chain_inode intro: chain_write)

lemma chain_child:
  "allocate_child E v ino n t rs outer inner d = (r, w) \<Longrightarrow> R u v \<Longrightarrow> R u w"
  by (auto simp: allocate_child_def split: if_splits prod.splits sum.splits
      intro!: chain_free_if chain_free intro: chain_alloc_table chain_table chain_store_double)

lemma chain_double: "allocate_double E v ino i d = (r, w) \<Longrightarrow> R u v \<Longrightarrow> R u w"
  by (auto simp: allocate_double_def Let_def split: if_splits prod.splits sum.splits
      intro!: chain_free intro: chain_alloc_table chain_table chain_child)

lemma chain_place: "place_block E v ino i d = (r, w) \<Longrightarrow> R u v \<Longrightarrow> R u w"
  by (auto simp: place_block_def split: if_splits intro!: chain_inode intro: chain_single chain_double)

lemma chain_allocate: "allocate_file_data_block E v ino lb = (r, w) \<Longrightarrow> R u v \<Longrightarrow> R u w"
  by (auto simp: allocate_file_data_block_def split: if_splits prod.splits sum.splits
        intro!: chain_inode;
      blast intro: chain_get chain_alloc_zeroed chain_place)

end

end
