(* ===== verification/Directory.thy ===== *)
theory Directory
  imports BlockMap
begin

text \<open>
  The flat root directory of \<open>src/src/fs.c\<close>: \<open>valid_dirent\<close>, \<open>add_dirent\<close>, \<open>remove_dirent\<close>,
  \<open>denyfs_vol_lookup\<close> and \<open>denyfs_vol_readdir\<close>. A C string is the list of the bytes before its
  terminator. The loops over the directory blocks recurse over the direct pointers of inode 0, those
  over a block's 16 entries over the decoded entries.
\<close>

section \<open>Entries\<close>

definition valid_dirent :: "dirent \<Rightarrow> bool" where
  "valid_dirent e =
     (if de_inode e = DENYFS_INVALID_INO then de_name_len e = 0
      else if de_inode e = 0 \<or> DENYFS_MAX_INODES \<le> unat (de_inode e) \<or> de_name_len e = 0 \<or>
        DENYFS_MAX_NAME_LEN \<le> unat (de_name_len e) \<or> de_name e ! unat (de_name_len e) \<noteq> 0 then False
      else if list_ex (\<lambda>i. de_name e ! i = 0 \<or> de_name e ! i = of_char CHR ''/'')
        [0..<unat (de_name_len e)] then False
      else \<not> (de_name_len e = 1 \<and> de_name e ! 0 = of_char CHR ''.'' \<or>
        de_name_len e = 2 \<and> de_name e ! 0 = of_char CHR ''.'' \<and> de_name e ! 1 = of_char CHR ''.''))"

definition free_entry :: dirent where
  "free_entry = \<lparr>de_inode = DENYFS_INVALID_INO, de_name_len = 0,
     de_name = replicate DENYFS_MAX_NAME_LEN 0\<rparr>"

definition new_entry :: "bytes \<Rightarrow> u32 \<Rightarrow> dirent" where
  "new_entry name ino = \<lparr>de_inode = ino, de_name_len = of_nat (length name),
     de_name = overwrite 0 name (replicate DENYFS_MAX_NAME_LEN 0)\<rparr>"

text \<open>
  The common shape of the entry loops: an invalid entry is \<open>-EIO\<close>, the first entry with \<open>P\<close> stops
  the scan.
\<close>

fun scan_entries :: "(dirent \<Rightarrow> bool) \<Rightarrow> dirent list \<Rightarrow> nat \<Rightarrow> nat option res" where
  "scan_entries P [] i = Inr None"
| "scan_entries P (e # es) i =
     (if \<not> valid_dirent e then Inl EIO
      else if P e then Inr (Some i)
      else scan_entries P es (Suc i))"

definition entry_free :: "dirent \<Rightarrow> bool" where
  "entry_free e \<longleftrightarrow> de_inode e = DENYFS_INVALID_INO"

text \<open>\<open>memcmp\<close> over the name bytes; \<open>lookup\<close> compares the length as \<open>uint8_t\<close>, \<open>remove\<close> as \<open>size_t\<close>.\<close>

definition lookup_match :: "bytes \<Rightarrow> dirent \<Rightarrow> bool" where
  "lookup_match name e \<longleftrightarrow> de_inode e \<noteq> DENYFS_INVALID_INO \<and> de_name_len e = of_nat (length name) \<and>
     take (length name) (de_name e) = name"

definition remove_match :: "bytes \<Rightarrow> dirent \<Rightarrow> bool" where
  "remove_match name e \<longleftrightarrow> de_inode e \<noteq> DENYFS_INVALID_INO \<and> unat (de_name_len e) = length name \<and>
     take (length name) (de_name e) = name"

section \<open>Lookup\<close>

fun lookup_blocks :: "env \<Rightarrow> volume \<Rightarrow> bytes \<Rightarrow> u32 list \<Rightarrow> u32 res \<times> volume" where
  "lookup_blocks E v name [] = (Inl ENOENT, v)"
| "lookup_blocks E v name (b # bs) =
     (if b = DENYFS_INVALID_BLOCK then lookup_blocks E v name bs
      else case read_block E v b of
        (Inl e, w) \<Rightarrow> (Inl EIO, w)
      | (Inr d, w) \<Rightarrow>
          (case scan_entries (lookup_match name) (dirents_dec d) 0 of
             Inl e \<Rightarrow> (Inl e, w)
           | Inr (Some i) \<Rightarrow> (Inr (de_inode (dirents_dec d ! i)), w)
           | Inr None \<Rightarrow> lookup_blocks E w name bs))"

definition vol_lookup :: "env \<Rightarrow> volume \<Rightarrow> bytes \<Rightarrow> u32 res \<times> volume" where
  "vol_lookup E v name =
     (if name = [] \<or> DENYFS_MAX_NAME_LEN \<le> length name then (Inl EINVAL, v)
      else lookup_blocks E v name (i_direct (inode_at v 0)))"

section \<open>Adding an entry\<close>

text \<open>\<open>None\<close> when no existing block has a free slot.\<close>

fun add_blocks :: "env \<Rightarrow> volume \<Rightarrow> bytes \<Rightarrow> u32 \<Rightarrow> u32 list \<Rightarrow> unit res option \<times> volume" where
  "add_blocks E v name ino [] = (None, v)"
| "add_blocks E v name ino (b # bs) =
     (if b = DENYFS_INVALID_BLOCK then (None, v)
      else case read_block E v b of
        (Inl e, w) \<Rightarrow> (Some (Inl EIO), w)
      | (Inr d, w) \<Rightarrow>
          (case scan_entries entry_free (dirents_dec d) 0 of
             Inl e \<Rightarrow> (Some (Inl e), w)
           | Inr (Some i) \<Rightarrow>
               (case write_block E w b (dirents_enc ((dirents_dec d)[i := new_entry name ino])) of
                  (r, x) \<Rightarrow> (Some r, x))
           | Inr None \<Rightarrow> add_blocks E w name ino bs))"

definition add_dirent :: "env \<Rightarrow> volume \<Rightarrow> bytes \<Rightarrow> u32 \<Rightarrow> unit res \<times> volume" where
  "add_dirent E v name ino =
     (if length name = 0 \<or> DENYFS_MAX_NAME_LEN \<le> length name then (Inl ENAMETOOLONG, v)
      else case add_blocks E v name ino (i_direct (inode_at v 0)) of
        (Some r, w) \<Rightarrow> (r, w)
      | (None, w) \<Rightarrow>
          if DENYFS_DIRECT_BLOCKS \<le> unat (i_block_count (inode_at w 0)) then (Inl ENOSPC, w)
          else case alloc_block w of (new_blk, x) \<Rightarrow>
          if new_blk < 0 then (Inl ENOSPC, x)
          else
            let b = of_int new_blk;
                block_data = dirents_enc
                  ((replicate DENYFS_DIRENTS_PER_BLOCK free_entry)[0 := new_entry name ino]);
                y = upd_inode x 0 (\<lambda>root. root\<lparr>
                      i_direct := (i_direct root)[unat (i_block_count root) := b],
                      i_block_count := i_block_count root + 1\<rparr>)
            in write_block E y b block_data)"

section \<open>Removing an entry\<close>

fun remove_blocks :: "env \<Rightarrow> volume \<Rightarrow> bytes \<Rightarrow> u32 list \<Rightarrow> unit res \<times> volume" where
  "remove_blocks E v name [] = (Inl ENOENT, v)"
| "remove_blocks E v name (b # bs) =
     (if b = DENYFS_INVALID_BLOCK then remove_blocks E v name bs
      else case read_block E v b of
        (Inl e, w) \<Rightarrow> (Inl EIO, w)
      | (Inr d, w) \<Rightarrow>
          (case scan_entries (remove_match name) (dirents_dec d) 0 of
             Inl e \<Rightarrow> (Inl e, w)
           | Inr (Some i) \<Rightarrow> write_block E w b (dirents_enc ((dirents_dec d)[i := free_entry]))
           | Inr None \<Rightarrow> remove_blocks E w name bs))"

definition remove_dirent :: "env \<Rightarrow> volume \<Rightarrow> bytes \<Rightarrow> unit res \<times> volume" where
  "remove_dirent E v name = remove_blocks E v name (i_direct (inode_at v 0))"

section \<open>Listing\<close>

text \<open>
  The callback receives the name up to its terminator, the inode number and its own state, and
  says whether to stop.
\<close>

type_synonym 's readdir_cb = "bytes \<Rightarrow> u32 \<Rightarrow> 's \<Rightarrow> bool \<times> 's"

fun readdir_entries :: "'s readdir_cb \<Rightarrow> dirent list \<Rightarrow> 's \<Rightarrow> bool res \<times> 's" where
  "readdir_entries cb [] s = (Inr False, s)"
| "readdir_entries cb (e # es) s =
     (if \<not> valid_dirent e then (Inl EIO, s)
      else if de_inode e \<noteq> DENYFS_INVALID_INO then
        (case cb (takeWhile (\<lambda>c. c \<noteq> 0) (de_name e)) (de_inode e) s of (stop, t) \<Rightarrow>
         if stop then (Inr True, t) else readdir_entries cb es t)
      else readdir_entries cb es s)"

fun readdir_blocks ::
  "env \<Rightarrow> volume \<Rightarrow> 's readdir_cb \<Rightarrow> u32 list \<Rightarrow> 's \<Rightarrow> (unit res \<times> 's) \<times> volume" where
  "readdir_blocks E v cb [] s = ((Inr (), s), v)"
| "readdir_blocks E v cb (b # bs) s =
     (if b = DENYFS_INVALID_BLOCK then readdir_blocks E v cb bs s
      else case read_block E v b of
        (Inl e, w) \<Rightarrow> ((Inl EIO, s), w)
      | (Inr d, w) \<Rightarrow>
          (case readdir_entries cb (dirents_dec d) s of
             (Inl e, t) \<Rightarrow> ((Inl e, t), w)
           | (Inr True, t) \<Rightarrow> ((Inr (), t), w)
           | (Inr False, t) \<Rightarrow> readdir_blocks E w cb bs t))"

definition vol_readdir :: "env \<Rightarrow> volume \<Rightarrow> 's readdir_cb \<Rightarrow> 's \<Rightarrow> (unit res \<times> 's) \<times> volume" where
  "vol_readdir E v cb s = readdir_blocks E v cb (i_direct (inode_at v 0)) s"

section \<open>Frames\<close>

context read_frame
begin

lemma chain_lookup_blocks: "lookup_blocks E v name bs = (r, w) \<Longrightarrow> R u v \<Longrightarrow> R u w"
  by (induction bs arbitrary: v)
    (auto split: if_splits prod.splits sum.splits option.splits intro: chain_read)

lemma chain_lookup: "vol_lookup E v name = (r, w) \<Longrightarrow> R u v \<Longrightarrow> R u w"
  by (auto simp: vol_lookup_def split: if_splits intro: chain_lookup_blocks)

lemma chain_readdir_blocks: "readdir_blocks E v cb bs s = (r, w) \<Longrightarrow> R u v \<Longrightarrow> R u w"
  by (induction bs arbitrary: v s)
    (auto split: if_splits prod.splits sum.splits bool.splits intro: chain_read)

lemma chain_readdir: "vol_readdir E v cb s = (r, w) \<Longrightarrow> R u v \<Longrightarrow> R u w"
  by (auto simp: vol_readdir_def intro: chain_readdir_blocks)

end

context vol_frame
begin

lemma chain_add_blocks: "add_blocks E v name ino bs = (r, w) \<Longrightarrow> R u v \<Longrightarrow> R u w"
  by (induction bs arbitrary: v)
    (auto split: if_splits prod.splits sum.splits option.splits intro: chain_read chain_write)

lemma chain_add: "add_dirent E v name ino = (r, w) \<Longrightarrow> R u v \<Longrightarrow> R u w"
  by (auto simp: add_dirent_def Let_def split: if_splits prod.splits option.splits
        elim!: chain_write intro!: chain_inode;
      (simp add: inode_ok_def | blast intro: chain_alloc chain_add_blocks))

lemma chain_remove_blocks: "remove_blocks E v name bs = (r, w) \<Longrightarrow> R u v \<Longrightarrow> R u w"
  by (induction bs arbitrary: v)
    (auto split: if_splits prod.splits sum.splits option.splits intro: chain_read chain_write)

lemma chain_remove: "remove_dirent E v name = (r, w) \<Longrightarrow> R u v \<Longrightarrow> R u w"
  by (auto simp: remove_dirent_def intro: chain_remove_blocks)

end

end
