(* ===== verification/Inodes.thy ===== *)
theory Inodes
  imports Directory
begin

text \<open>
  The inode table of \<open>src/src/fs.c\<close>: \<open>alloc_inode\<close>, \<open>free_inode\<close>, the truncation of a file's block
  tree, and \<open>denyfs_vol_flush\<close>, which writes the in-memory metadata back.
\<close>

section \<open>Allocating an inode\<close>

definition alloc_inode :: "volume \<Rightarrow> nat option \<times> volume" where
  "alloc_inode v =
     (case List.find (\<lambda>i. i_type (inode_at v i) = DENYFS_ITYPE_FREE) [1..<DENYFS_MAX_INODES] of
        None \<Rightarrow> (None, v)
      | Some i \<Rightarrow>
          (Some i, v\<lparr>v_sb := (v_sb v)\<lparr>sb_free_inodes := sb_free_inodes (v_sb v) - 1\<rparr>\<rparr>))"

section \<open>Freeing an inode\<close>

fun free_direct :: "volume \<Rightarrow> nat \<Rightarrow> nat list \<Rightarrow> volume" where
  "free_direct v ino [] = v"
| "free_direct v ino (i # is) =
     (let b = i_direct (inode_at v ino) ! i in
      if b \<noteq> DENYFS_INVALID_BLOCK then
        free_direct (upd_inode (free_block v b) ino
          (\<lambda>nd. nd\<lparr>i_direct := (i_direct nd)[i := DENYFS_INVALID_BLOCK]\<rparr>)) ino is
      else free_direct v ino is)"

fun free_pointers :: "volume \<Rightarrow> u32 list \<Rightarrow> volume" where
  "free_pointers v [] = v"
| "free_pointers v (p # ps) =
     free_pointers (if p \<noteq> DENYFS_INVALID_BLOCK then free_block v p else v) ps"

fun free_children :: "env \<Rightarrow> volume \<Rightarrow> u32 list \<Rightarrow> unit res \<times> volume" where
  "free_children E v [] = (Inr (), v)"
| "free_children E v (c # cs) =
     (if c = DENYFS_INVALID_BLOCK then free_children E v cs
      else case read_pointer_table E v c of
        (Inl e, w) \<Rightarrow> (Inl EIO, w)
      | (Inr pointers, w) \<Rightarrow> free_children E (free_block (free_pointers w pointers) c) cs)"

definition release_inode :: "volume \<Rightarrow> nat \<Rightarrow> volume" where
  "release_inode v ino =
     (let w = upd_inode v ino (\<lambda>nd. nd\<lparr>i_type := DENYFS_ITYPE_FREE, i_size := 0, i_block_count := 0,
        i_mtime := 0\<rparr>) in
      w\<lparr>v_sb := (v_sb w)\<lparr>sb_free_inodes := sb_free_inodes (v_sb w) + 1\<rparr>\<rparr>)"

definition free_double :: "env \<Rightarrow> volume \<Rightarrow> nat \<Rightarrow> unit res \<times> volume" where
  "free_double E v ino =
     (let root_block = i_double (inode_at v ino) in
      if root_block = DENYFS_INVALID_BLOCK then (Inr (), release_inode v ino)
      else case read_pointer_table E v root_block of
        (Inl e, w) \<Rightarrow> (Inl EIO, w)
      | (Inr roots, w) \<Rightarrow>
          (case free_children E w roots of
             (Inl e, x) \<Rightarrow> (Inl e, x)
           | (Inr _, x) \<Rightarrow>
               (Inr (), release_inode (upd_inode (free_block x root_block) ino
                  (\<lambda>nd. nd\<lparr>i_double := DENYFS_INVALID_BLOCK\<rparr>)) ino)))"

definition free_inode :: "env \<Rightarrow> volume \<Rightarrow> nat \<Rightarrow> unit res \<times> volume" where
  "free_inode E v ino =
     (let v1 = free_direct v ino [0..<DENYFS_DIRECT_BLOCKS];
          table_block = i_indirect (inode_at v1 ino) in
      if table_block = DENYFS_INVALID_BLOCK then free_double E v1 ino
      else case read_pointer_table E v1 table_block of
        (Inl e, w) \<Rightarrow> (Inl EIO, w)
      | (Inr pointers, w) \<Rightarrow>
          free_double E (upd_inode (free_block (free_pointers w pointers) table_block) ino
            (\<lambda>nd. nd\<lparr>i_indirect := DENYFS_INVALID_BLOCK\<rparr>)) ino)"

section \<open>Truncating the block tree\<close>

definition drop_block :: "volume \<Rightarrow> nat \<Rightarrow> u32 \<Rightarrow> volume" where
  "drop_block v ino b =
     upd_inode (free_block v b) ino (\<lambda>nd. nd\<lparr>i_block_count := i_block_count nd - 1\<rparr>)"

fun truncate_direct :: "volume \<Rightarrow> nat \<Rightarrow> nat \<Rightarrow> nat list \<Rightarrow> volume" where
  "truncate_direct v ino new_block_count [] = v"
| "truncate_direct v ino new_block_count (i # is) =
     (let b = i_direct (inode_at v ino) ! i in
      truncate_direct
        (if new_block_count \<le> i \<and> b \<noteq> DENYFS_INVALID_BLOCK then
           upd_inode (drop_block v ino b) ino
             (\<lambda>nd. nd\<lparr>i_direct := (i_direct nd)[i := DENYFS_INVALID_BLOCK]\<rparr>)
         else v) ino new_block_count is)"

fun truncate_entries :: "volume \<Rightarrow> nat \<Rightarrow> nat \<Rightarrow> nat \<Rightarrow> u32 list \<Rightarrow> u32 list \<times> volume" where
  "truncate_entries v ino new_block_count logical [] = ([], v)"
| "truncate_entries v ino new_block_count logical (p # ps) =
     (if new_block_count \<le> logical \<and> p \<noteq> DENYFS_INVALID_BLOCK then
        (case truncate_entries (drop_block v ino p) ino new_block_count (Suc logical) ps of
           (qs, w) \<Rightarrow> (DENYFS_INVALID_BLOCK # qs, w))
      else
        (case truncate_entries v ino new_block_count (Suc logical) ps of (qs, w) \<Rightarrow> (p # qs, w)))"

definition all_invalid :: "u32 list \<Rightarrow> bool" where
  "all_invalid ps \<longleftrightarrow> list_all (\<lambda>p. p = DENYFS_INVALID_BLOCK) ps"

fun truncate_roots :: "env \<Rightarrow> volume \<Rightarrow> nat \<Rightarrow> nat \<Rightarrow> nat \<Rightarrow> u32 list \<Rightarrow> u32 list res \<times> volume" where
  "truncate_roots E v ino new_block_count outer [] = (Inr [], v)"
| "truncate_roots E v ino new_block_count outer (c # cs) =
     (let continue = (\<lambda>r w. case truncate_roots E w ino new_block_count (Suc outer) cs of
            (Inl e, x) \<Rightarrow> (Inl e, x)
          | (Inr rs, x) \<Rightarrow> (Inr (r # rs), x)) in
      if c = DENYFS_INVALID_BLOCK then continue c v
      else case read_pointer_table E v c of
        (Inl e, w) \<Rightarrow> (Inl EIO, w)
      | (Inr pointers, w) \<Rightarrow>
          (case truncate_entries w ino new_block_count
             (DENYFS_DIRECT_BLOCKS + DENYFS_POINTERS_PER_BLOCK + outer * DENYFS_POINTERS_PER_BLOCK)
             pointers of
           (qs, x) \<Rightarrow>
             if all_invalid qs then continue DENYFS_INVALID_BLOCK (free_block x c)
             else case write_block E x c (ptrs_enc qs) of
               (Inl e, y) \<Rightarrow> (Inl EIO, y)
             | (Inr _, y) \<Rightarrow> continue c y))"

definition truncate_single :: "env \<Rightarrow> volume \<Rightarrow> nat \<Rightarrow> nat \<Rightarrow> unit res \<times> volume" where
  "truncate_single E v ino new_block_count =
     (let table_block = i_indirect (inode_at v ino) in
      if table_block = DENYFS_INVALID_BLOCK then (Inr (), v)
      else case read_pointer_table E v table_block of
        (Inl e, w) \<Rightarrow> (Inl EIO, w)
      | (Inr pointers, w) \<Rightarrow>
          (case truncate_entries w ino new_block_count DENYFS_DIRECT_BLOCKS pointers of
           (qs, x) \<Rightarrow>
             if all_invalid qs then
               (Inr (), upd_inode (free_block x table_block) ino
                  (\<lambda>nd. nd\<lparr>i_indirect := DENYFS_INVALID_BLOCK\<rparr>))
             else case write_block E x table_block (ptrs_enc qs) of
               (Inl e, y) \<Rightarrow> (Inl EIO, y)
             | (Inr _, y) \<Rightarrow> (Inr (), y)))"

definition truncate_double :: "env \<Rightarrow> volume \<Rightarrow> nat \<Rightarrow> nat \<Rightarrow> unit res \<times> volume" where
  "truncate_double E v ino new_block_count =
     (let root_block = i_double (inode_at v ino) in
      if root_block = DENYFS_INVALID_BLOCK then (Inr (), v)
      else case read_pointer_table E v root_block of
        (Inl e, w) \<Rightarrow> (Inl EIO, w)
      | (Inr roots, w) \<Rightarrow>
          (case truncate_roots E w ino new_block_count 0 roots of
             (Inl e, x) \<Rightarrow> (Inl e, x)
           | (Inr rs, x) \<Rightarrow>
               if all_invalid rs then
                 (Inr (), upd_inode (free_block x root_block) ino
                    (\<lambda>nd. nd\<lparr>i_double := DENYFS_INVALID_BLOCK\<rparr>))
               else case write_block E x root_block (ptrs_enc rs) of
                 (Inl e, y) \<Rightarrow> (Inl EIO, y)
               | (Inr _, y) \<Rightarrow> (Inr (), y)))"

definition truncate_file_blocks :: "env \<Rightarrow> volume \<Rightarrow> nat \<Rightarrow> nat \<Rightarrow> unit res \<times> volume" where
  "truncate_file_blocks E v ino new_block_count =
     (case truncate_single E (truncate_direct v ino new_block_count [0..<DENYFS_DIRECT_BLOCKS]) ino
         new_block_count of
        (Inl e, w) \<Rightarrow> (Inl e, w)
      | (Inr _, w) \<Rightarrow> truncate_double E w ino new_block_count)"

section \<open>Flush\<close>

text \<open>\<open>i * SECTOR_SIZE\<close> is computed in 32 bits (theorem \<open>sector_offset_exact\<close>: it never wraps).\<close>

definition sector_off :: "nat \<Rightarrow> nat" where
  "sector_off i = unat (of_nat i * of_nat SECTOR_SIZE :: u32)"

fun flush_bitmap :: "env \<Rightarrow> volume \<Rightarrow> nat list \<Rightarrow> unit res \<times> volume" where
  "flush_bitmap E v [] = (Inr (), v)"
| "flush_bitmap E v (i # is) =
     (if v_dirty v ! i \<noteq> 0 then
        (case write_block E v (sb_bitmap_start (v_sb v) + of_nat i)
            (slice (sector_off i) SECTOR_SIZE (v_bitmap v)) of
           (Inl e, w) \<Rightarrow> (Inl EFAIL, w)
         | (Inr _, w) \<Rightarrow> flush_bitmap E w is)
      else flush_bitmap E v is)"

fun flush_inodes :: "env \<Rightarrow> volume \<Rightarrow> nat list \<Rightarrow> unit res \<times> volume" where
  "flush_inodes E v [] = (Inr (), v)"
| "flush_inodes E v (i # is) =
     (case write_block E v (sb_inode_start (v_sb v) + of_nat i)
         (slice (sector_off i) SECTOR_SIZE (inodes_enc (v_inodes v))) of
        (Inl e, w) \<Rightarrow> (Inl EFAIL, w)
      | (Inr _, w) \<Rightarrow> flush_inodes E w is)"

definition vol_flush :: "env \<Rightarrow> volume \<Rightarrow> unit res \<times> volume" where
  "vol_flush E v =
     (case compute_hmac E (v_hkey v) (v_bitmap v) of
        None \<Rightarrow> (Inl EFAIL, v)
      | Some h \<Rightarrow>
      let v1 = v\<lparr>v_sb := (v_sb v)\<lparr>sb_bitmap_hmac := h\<rparr>\<rparr> in
      case write_block E v1 0 (sb_enc (v_sb v1)) of
        (Inl e, v2) \<Rightarrow> (Inl EFAIL, v2)
      | (Inr _, v2) \<Rightarrow>
      case flush_bitmap E v2 [0..<unat (sb_bitmap_blocks (v_sb v2))] of
        (Inl e, v3) \<Rightarrow> (Inl EFAIL, v3)
      | (Inr _, v3) \<Rightarrow>
      case flush_inodes E v3 [0..<unat (sb_inode_blocks (v_sb v3))] of
        (Inl e, v4) \<Rightarrow> (Inl EFAIL, v4)
      | (Inr _, v4) \<Rightarrow>
      case fflush (v_file v4) of (ok, f) \<Rightarrow>
      let v5 = v4\<lparr>v_file := f\<rparr> in
      if \<not> ok then (Inl EFAIL, v5)
      else (Inr (), v5\<lparr>v_dirty := replicate (length (v_dirty v5)) 0\<rparr>))"

section \<open>Frames\<close>

context vol_frame
begin

lemma chain_alloc_inode: "alloc_inode v = (r, w) \<Longrightarrow> R u v \<Longrightarrow> R u w"
  by (auto simp: alloc_inode_def split: option.splits intro: chain_free_inodes)

lemma chain_free_direct: "R u v \<Longrightarrow> R u (free_direct v ino is)"
proof (induction "is" arbitrary: v)
  case (Cons i "is")
  from Cons.prems show ?case by (auto simp: Let_def intro!: Cons.IH chain_inode chain_free)
qed simp

lemma chain_free_pointers: "R u v \<Longrightarrow> R u (free_pointers v ps)"
proof (induction ps arbitrary: v)
  case (Cons p ps)
  from Cons.prems show ?case by (auto intro!: Cons.IH chain_free)
qed simp

lemma chain_free_children: "free_children E v cs = (r, w) \<Longrightarrow> R u v \<Longrightarrow> R u w"
proof (induction cs arbitrary: v)
  case (Cons c cs)
  then show ?case
    by (auto split: if_splits prod.splits sum.splits;
        blast intro: chain_table chain_free chain_free_pointers)
qed simp

lemma chain_inode_count:
  "(\<And>nd. inode_ok nd \<Longrightarrow> inode_ok (f nd)) \<Longrightarrow> R u v \<Longrightarrow>
   R u (upd_inode v i f\<lparr>v_sb := (v_sb v)\<lparr>sb_free_inodes := n\<rparr>\<rparr>)"
  using chain_free_inodes [of u "upd_inode v i f" n] chain_inode by simp

lemma chain_release: "R u v \<Longrightarrow> R u (release_inode v ino)"
  unfolding release_inode_def Let_def by (intro chain_free_inodes chain_inode) (auto simp: inode_ok_def)

lemma chain_free_double: "free_double E v ino = (r, w) \<Longrightarrow> R u v \<Longrightarrow> R u w"
  by (auto simp: free_double_def Let_def split: if_splits prod.splits sum.splits
      intro!: chain_release chain_inode chain_free intro: chain_table chain_free_children)

lemma chain_free_inode: "free_inode E v ino = (r, w) \<Longrightarrow> R u v \<Longrightarrow> R u w"
  by (auto simp: free_inode_def Let_def split: if_splits prod.splits sum.splits
        elim!: chain_free_double intro!: chain_inode chain_free chain_free_pointers chain_free_direct;
      blast intro: chain_table chain_free_direct)

lemma chain_drop: "R u v \<Longrightarrow> R u (drop_block v ino b)"
  by (auto simp: drop_block_def intro!: chain_inode chain_free)

lemma chain_truncate_direct: "R u v \<Longrightarrow> R u (truncate_direct v ino n is)"
proof (induction "is" arbitrary: v)
  case (Cons i "is")
  from Cons.prems show ?case by (auto simp: Let_def intro!: Cons.IH chain_inode chain_drop)
qed simp

lemma chain_truncate_entries: "truncate_entries v ino n l ps = (qs, w) \<Longrightarrow> R u v \<Longrightarrow> R u w"
  by (induction v ino n l ps arbitrary: qs rule: truncate_entries.induct)
    (auto split: if_splits prod.splits intro: chain_drop)

lemma chain_truncate_roots: "truncate_roots E v ino n outer cs = (r, w) \<Longrightarrow> R u v \<Longrightarrow> R u w"
proof (induction cs arbitrary: v outer r)
  case (Cons c cs)
  have continue: "R u w" if "(case truncate_roots E y ino n (Suc outer) cs of
      (Inl e, x) \<Rightarrow> (Inl e, x) | (Inr rs, x) \<Rightarrow> (Inr (d # rs), x)) = (r, w)" "R u y" for y d
    using that Cons.IH [of y "Suc outer"] by (auto split: prod.splits sum.splits)
  show ?case
  proof (cases "c = DENYFS_INVALID_BLOCK")
    case True
    with Cons.prems show ?thesis by (auto simp: Let_def intro: continue)
  next
    case False
    obtain t x where t: "read_pointer_table E v c = (t, x)" by (cases "read_pointer_table E v c")
    have x: "R u x" using t Cons.prems(2) by (rule chain_table)
    show ?thesis
    proof (cases t)
      case (Inl e)
      with Cons.prems False t x show ?thesis by (simp add: Let_def)
    next
      case (Inr ps)
      let ?base = "DENYFS_DIRECT_BLOCKS + DENYFS_POINTERS_PER_BLOCK + outer * DENYFS_POINTERS_PER_BLOCK"
      obtain qs y where q: "truncate_entries x ino n ?base ps = (qs, y)"
        by (cases "truncate_entries x ino n ?base ps")
      have y: "R u y" using q x by (rule chain_truncate_entries)
      show ?thesis
      proof (cases "all_invalid qs")
        case True
        with Cons.prems(1) False t Inr q show ?thesis
          by (intro continue [OF _ chain_free [OF y]]) (simp add: Let_def)
      next
        case False
        obtain r2 z where 2: "write_block E y c (ptrs_enc qs) = (r2, z)"
          by (cases "write_block E y c (ptrs_enc qs)")
        have z: "R u z" using 2 y by (rule chain_write)
        show ?thesis
        proof (cases r2)
          case (Inl e)
          with Cons.prems(1) \<open>c \<noteq> _\<close> \<open>t = Inr ps\<close> False t q 2 z show ?thesis by (simp add: Let_def)
        next
          case (Inr _)
          with Cons.prems(1) \<open>c \<noteq> _\<close> \<open>t = Inr ps\<close> False t q 2 show ?thesis
            by (intro continue [OF _ z]) (simp add: Let_def)
        qed
      qed
    qed
  qed
qed simp

lemma chain_truncate_single: "truncate_single E v ino n = (r, w) \<Longrightarrow> R u v \<Longrightarrow> R u w"
  by (auto simp: truncate_single_def Let_def split: if_splits prod.splits sum.splits
        intro!: chain_inode chain_free;
      blast intro: chain_table chain_truncate_entries chain_write)

lemma chain_truncate_double: "truncate_double E v ino n = (r, w) \<Longrightarrow> R u v \<Longrightarrow> R u w"
  by (auto simp: truncate_double_def Let_def split: if_splits prod.splits sum.splits
        intro!: chain_inode chain_free;
      blast intro: chain_table chain_truncate_roots chain_write)

lemma chain_truncate_file: "truncate_file_blocks E v ino n = (r, w) \<Longrightarrow> R u v \<Longrightarrow> R u w"
  by (auto simp: truncate_file_blocks_def split: prod.splits sum.splits;
      blast intro: chain_truncate_single chain_truncate_double chain_truncate_direct)

lemma chain_flush_bitmap: "flush_bitmap E v is = (r, w) \<Longrightarrow> R u v \<Longrightarrow> R u w"
  by (induction "is" arbitrary: v) (auto split: if_splits prod.splits sum.splits intro: chain_write)

lemma chain_flush_inodes: "flush_inodes E v is = (r, w) \<Longrightarrow> R u v \<Longrightarrow> R u w"
  by (induction "is" arbitrary: v) (auto split: prod.splits sum.splits intro: chain_write)

lemma chain_fflush: "fflush (v_file v) = (ok, f) \<Longrightarrow> R u v \<Longrightarrow> R u (v\<lparr>v_file := f\<rparr>)"
  using R_trans [of u v] R_fflush [of v] by simp

lemma chain_clean: "R u v \<Longrightarrow> R u (v\<lparr>v_dirty := replicate (length (v_dirty v)) 0\<rparr>)"
  using R_trans R_clean by blast

lemma chain_hmac: "compute_hmac E k d = Some h \<Longrightarrow> R u v \<Longrightarrow>
    R u (v\<lparr>v_sb := (v_sb v)\<lparr>sb_bitmap_hmac := h\<rparr>\<rparr>)"
  by (rule R_trans, assumption, rule R_hmac)
    (auto simp: compute_hmac_def DENYFS_HMAC_SIZE_def split: option.splits if_splits)

lemma chain_flush:
  assumes "vol_flush E v = (r, w)" "R u v"
  shows "R u w"
proof (cases "compute_hmac E (v_hkey v) (v_bitmap v)")
  case None
  with assms show ?thesis by (simp add: vol_flush_def)
next
  case (Some h)
  let ?v1 = "v\<lparr>v_sb := (v_sb v)\<lparr>sb_bitmap_hmac := h\<rparr>\<rparr>"
  have "R u ?v1" using Some assms(2) by (rule chain_hmac)
  moreover obtain r2 v2 where 2: "write_block E ?v1 0 (sb_enc (v_sb ?v1)) = (r2, v2)"
    by (cases "write_block E ?v1 0 (sb_enc (v_sb ?v1))")
  moreover obtain r3 v3 where 3: "flush_bitmap E v2 [0..<unat (sb_bitmap_blocks (v_sb v2))] = (r3, v3)"
    by (cases "flush_bitmap E v2 [0..<unat (sb_bitmap_blocks (v_sb v2))]")
  moreover obtain r4 v4 where 4: "flush_inodes E v3 [0..<unat (sb_inode_blocks (v_sb v3))] = (r4, v4)"
    by (cases "flush_inodes E v3 [0..<unat (sb_inode_blocks (v_sb v3))]")
  moreover obtain ok f where 5: "fflush (v_file v4) = (ok, f)" by (cases "fflush (v_file v4)")
  ultimately have "R u v2" "R u v3" "R u v4" "R u (v4\<lparr>v_file := f\<rparr>)"
    by (blast intro: chain_write chain_flush_bitmap chain_flush_inodes chain_fflush)+
  moreover from this have "R u (v4\<lparr>v_file := f, v_dirty := replicate (length (v_dirty v4)) 0\<rparr>)"
    using chain_clean [of u "v4\<lparr>v_file := f\<rparr>"] by simp
  ultimately show ?thesis
    using assms(1) Some 2 3 4 5
    by (auto simp: vol_flush_def Let_def split: sum.splits if_splits)
qed

end

end
