(* ===== verification/FileOps.thy ===== *)
theory FileOps
  imports Inodes
begin

text \<open>
  The public file operations of \<open>src/src/fs.c\<close>: create, unlink, read, write and truncate. Each returns
  its C result (an error or the value) and the volume as it leaves it, on every path. \<open>now\<close> is the
  value of \<open>time(NULL)\<close>. File positions are natural numbers where the guards before them exclude
  wrap-around; sizes stored in an inode are 64-bit words.
\<close>

section \<open>Create and unlink\<close>

definition init_inode :: "u64 \<Rightarrow> inode \<Rightarrow> inode" where
  "init_inode now nd = nd\<lparr>i_type := DENYFS_ITYPE_FILE, i_size := 0, i_block_count := 0,
     i_direct := replicate DENYFS_DIRECT_BLOCKS DENYFS_INVALID_BLOCK,
     i_indirect := DENYFS_INVALID_BLOCK, i_double := DENYFS_INVALID_BLOCK, i_mtime := now\<rparr>"

definition vol_create :: "env \<Rightarrow> u64 \<Rightarrow> volume \<Rightarrow> bytes \<Rightarrow> u32 res \<times> volume" where
  "vol_create E now v name =
     (if name = [] \<or> DENYFS_MAX_NAME_LEN \<le> length name \<or> of_char CHR ''/'' \<in> set name \<or>
         name = map of_char ''.'' \<or> name = map of_char ''..'' then (Inl EINVAL, v)
      else case vol_lookup E v name of
        (Inr _, w) \<Rightarrow> (Inl EEXIST, w)
      | (Inl e, w) \<Rightarrow>
      if e \<noteq> ENOENT then (Inl e, w)
      else case alloc_inode w of
        (None, x) \<Rightarrow> (Inl ENOSPC, x)
      | (Some ino, x) \<Rightarrow>
      case add_dirent E (upd_inode x ino (init_inode now)) name (of_nat ino) of
        (Inl e, y) \<Rightarrow>
          (Inl e, let z = upd_inode y ino (\<lambda>nd. nd\<lparr>i_type := DENYFS_ITYPE_FREE\<rparr>) in
             z\<lparr>v_sb := (v_sb z)\<lparr>sb_free_inodes := sb_free_inodes (v_sb z) + 1\<rparr>\<rparr>)
      | (Inr _, y) \<Rightarrow>
      case vol_flush E y of
        (Inl e, z) \<Rightarrow> (Inl EIO, z)
      | (Inr _, z) \<Rightarrow> (Inr (of_nat ino), z))"

definition vol_unlink :: "env \<Rightarrow> volume \<Rightarrow> bytes \<Rightarrow> unit res \<times> volume" where
  "vol_unlink E v name =
     (case vol_lookup E v name of
        (Inl e, w) \<Rightarrow> (Inl ENOENT, w)
      | (Inr ino, w) \<Rightarrow>
      case remove_dirent E w name of
        (Inl e, x) \<Rightarrow> (Inl e, x)
      | (Inr _, x) \<Rightarrow>
      case free_inode E x (unat ino) of
        (Inl e, y) \<Rightarrow> (Inl EIO, y)
      | (Inr _, y) \<Rightarrow>
      case vol_flush E y of
        (Inl e, z) \<Rightarrow> (Inl EIO, z)
      | (Inr _, z) \<Rightarrow> (Inr (), z))"

section \<open>Read\<close>

definition chunk_len :: "nat \<Rightarrow> nat \<Rightarrow> nat" where
  "chunk_len pos left = min (SECTOR_SIZE - pos mod SECTOR_SIZE) left"

lemma chunk_len_pos [simp]: "0 < left \<Longrightarrow> 0 < chunk_len pos left"
  by (simp add: chunk_len_def)

text \<open>\<open>left\<close> is \<open>size - bytes_read\<close>.\<close>

function read_loop :: "env \<Rightarrow> volume \<Rightarrow> nat \<Rightarrow> nat \<Rightarrow> nat \<Rightarrow> bytes res \<times> volume" where
  "read_loop E v ino pos left =
     (if left = 0 then (Inr [], v)
      else let chunk = chunk_len pos left in
      case get_file_data_block E v ino (pos div SECTOR_SIZE) of
        (Inl e, w) \<Rightarrow> (Inl e, w)
      | (Inr b, w) \<Rightarrow>
      case (if b = DENYFS_INVALID_BLOCK then (Inr (replicate SECTOR_SIZE 0), w) else read_block E w b) of
        (Inl e, x) \<Rightarrow> (Inl EIO, x)
      | (Inr d, x) \<Rightarrow>
      case read_loop E x ino (pos + chunk) (left - chunk) of
        (Inl e, y) \<Rightarrow> (Inl e, y)
      | (Inr rest, y) \<Rightarrow> (Inr (slice (pos mod SECTOR_SIZE) chunk d @ rest), y))"
  by pat_completeness auto
termination
  by (relation "measure (\<lambda>(E, v, ino, pos, left). left)") (auto intro: diff_less)

declare read_loop.simps [simp del]

definition vol_read :: "env \<Rightarrow> volume \<Rightarrow> nat \<Rightarrow> nat \<Rightarrow> u64 \<Rightarrow> bytes res \<times> volume" where
  "vol_read E v ino sz offset =
     (if DENYFS_MAX_INODES \<le> ino then (Inl EINVAL, v)
      else if INT_MAX < sz then (Inl EINVAL, v)
      else if i_type (inode_at v ino) \<noteq> DENYFS_ITYPE_FILE then (Inl EISDIR, v)
      else if i_size (inode_at v ino) \<le> offset then (Inr [], v)
      else read_loop E v ino (unat offset) (min sz (unat (i_size (inode_at v ino) - offset))))"

section \<open>Write\<close>

text \<open>The body of the loop: find or allocate the block, then read, modify and write it.\<close>

definition map_for_write :: "env \<Rightarrow> volume \<Rightarrow> nat \<Rightarrow> nat \<Rightarrow> u32 res \<times> volume" where
  "map_for_write E v ino blk_idx =
     (case get_file_data_block E v ino blk_idx of
        (Inl e, w) \<Rightarrow> (Inl e, w)
      | (Inr b, w) \<Rightarrow>
          if b = DENYFS_INVALID_BLOCK then allocate_file_data_block E w ino blk_idx else (Inr b, w))"

definition modify_block :: "env \<Rightarrow> volume \<Rightarrow> u32 \<Rightarrow> nat \<Rightarrow> bytes \<Rightarrow> unit res \<times> volume" where
  "modify_block E v b off new =
     (case read_block E v b of
        (Inl e, w) \<Rightarrow> (Inl EIO, w)
      | (Inr d, w) \<Rightarrow> write_block E w b (overwrite off new d))"

function write_loop :: "env \<Rightarrow> volume \<Rightarrow> nat \<Rightarrow> nat \<Rightarrow> bytes \<Rightarrow> unit res \<times> volume" where
  "write_loop E v ino pos src =
     (if src = [] then (Inr (), v)
      else let chunk = chunk_len pos (length src) in
      case map_for_write E v ino (pos div SECTOR_SIZE) of
        (Inl e, w) \<Rightarrow> (Inl e, w)
      | (Inr physical_block, w) \<Rightarrow>
      case modify_block E w physical_block (pos mod SECTOR_SIZE) (take chunk src) of
        (Inl e, x) \<Rightarrow> (Inl e, x)
      | (Inr _, x) \<Rightarrow> write_loop E x ino (pos + chunk) (drop chunk src))"
  by pat_completeness auto
termination
  by (relation "measure (\<lambda>(E, v, ino, pos, src). length src)") (auto intro: diff_less)

declare write_loop.simps [simp del]

definition vol_write :: "env \<Rightarrow> u64 \<Rightarrow> volume \<Rightarrow> nat \<Rightarrow> bytes \<Rightarrow> u64 \<Rightarrow> nat res \<times> volume" where
  "vol_write E now v ino buf offset =
     (if DENYFS_MAX_INODES \<le> ino then (Inl EINVAL, v)
      else if INT_MAX < length buf then (Inl EINVAL, v)
      else if i_type (inode_at v ino) \<noteq> DENYFS_ITYPE_FILE then (Inl EISDIR, v)
      else if DENYFS_MAX_FILE_SIZE < unat offset \<or>
        DENYFS_MAX_FILE_SIZE - unat offset < length buf then (Inl ENOSPC, v)
      else case write_loop E v ino (unat offset) buf of
        (Inl e, w) \<Rightarrow> (Inl e, w)
      | (Inr _, w) \<Rightarrow>
      let new_end = offset + of_nat (length buf);
          x = upd_inode w ino (\<lambda>nd. nd\<lparr>i_size := (if i_size nd < new_end then new_end else i_size nd),
                i_mtime := now\<rparr>) in
      case vol_flush E x of
        (Inl e, y) \<Rightarrow> (Inl EIO, y)
      | (Inr _, y) \<Rightarrow> (Inr (length buf), y))"

section \<open>Truncate\<close>

text \<open>The part of the last kept block that lies beyond the new end is zeroed.\<close>

definition zero_tail :: "env \<Rightarrow> volume \<Rightarrow> nat \<Rightarrow> nat \<Rightarrow> unit res \<times> volume" where
  "zero_tail E v ino new_size =
     (if new_size mod SECTOR_SIZE = 0 then (Inr (), v)
      else case get_file_data_block E v ino (new_size div SECTOR_SIZE) of
        (Inl e, w) \<Rightarrow> (Inl e, w)
      | (Inr b, w) \<Rightarrow>
      if b = DENYFS_INVALID_BLOCK then (Inr (), w)
      else case modify_block E w b (new_size mod SECTOR_SIZE)
          (replicate (SECTOR_SIZE - new_size mod SECTOR_SIZE) 0) of
        (Inl e, x) \<Rightarrow> (Inl EIO, x)
      | (Inr _, x) \<Rightarrow> (Inr (), x))"

definition shrink_file :: "env \<Rightarrow> volume \<Rightarrow> nat \<Rightarrow> nat \<Rightarrow> unit res \<times> volume" where
  "shrink_file E v ino new_size =
     (case zero_tail E v ino new_size of
        (Inl e, w) \<Rightarrow> (Inl e, w)
      | (Inr _, w) \<Rightarrow>
      case truncate_file_blocks E w ino ((new_size + SECTOR_SIZE - 1) div SECTOR_SIZE) of
        (Inl e, x) \<Rightarrow> (Inl EIO, x)
      | (Inr _, x) \<Rightarrow> (Inr (), x))"

definition vol_truncate :: "env \<Rightarrow> u64 \<Rightarrow> volume \<Rightarrow> nat \<Rightarrow> u64 \<Rightarrow> unit res \<times> volume" where
  "vol_truncate E now v ino new_size =
     (if DENYFS_MAX_INODES \<le> ino then (Inl EINVAL, v)
      else if i_type (inode_at v ino) \<noteq> DENYFS_ITYPE_FILE then (Inl EISDIR, v)
      else if DENYFS_MAX_FILE_SIZE < unat new_size then (Inl ENOSPC, v)
      else if new_size = i_size (inode_at v ino) then (Inr (), v)
      else case (if new_size < i_size (inode_at v ino) then shrink_file E v ino (unat new_size)
                 else (Inr (), v)) of
        (Inl e, w) \<Rightarrow> (Inl e, w)
      | (Inr _, w) \<Rightarrow>
      case vol_flush E (upd_inode w ino (\<lambda>nd. nd\<lparr>i_size := new_size, i_mtime := now\<rparr>)) of
        (Inl e, x) \<Rightarrow> (Inl EIO, x)
      | (Inr _, x) \<Rightarrow> (Inr (), x))"

section \<open>Frames\<close>

context read_frame
begin

lemma chain_read_loop: "read_loop E v ino pos left = (r, w) \<Longrightarrow> R u v \<Longrightarrow> R u w"
proof (induction left arbitrary: v pos r rule: less_induct)
  case (less left)
  show ?case
  proof (cases "left = 0")
    case True
    with less.prems show ?thesis by (simp add: read_loop.simps)
  next
    case False
    then have lt: "left - chunk_len pos left < left" by (simp add: diff_less)
    from less.prems False show ?thesis
      by (subst (asm) read_loop.simps)
        (auto simp: Let_def split: prod.splits sum.splits if_splits;
         blast intro: chain_get chain_read less.IH [OF lt])
  qed
qed

lemma chain_vol_read: "vol_read E v ino sz off = (r, w) \<Longrightarrow> R u v \<Longrightarrow> R u w"
  by (auto simp: vol_read_def split: if_splits intro: chain_read_loop)

end

context vol_frame
begin

lemma chain_create: "vol_create E now v name = (r, w) \<Longrightarrow> R u v \<Longrightarrow> R u w"
proof -
  have init: "R u y \<Longrightarrow> R u (upd_inode y ino (init_inode now))" for y ino
    by (rule chain_inode) (simp_all add: init_inode_def inode_ok_def)
  show "vol_create E now v name = (r, w) \<Longrightarrow> R u v \<Longrightarrow> R u w"
    by (auto simp: vol_create_def Let_def split: if_splits prod.splits sum.splits option.splits
          intro!: chain_inode_count;
        blast intro: chain_lookup chain_alloc_inode chain_add chain_flush init)
qed

lemma chain_unlink: "vol_unlink E v name = (r, w) \<Longrightarrow> R u v \<Longrightarrow> R u w"
  by (auto simp: vol_unlink_def split: prod.splits sum.splits;
      blast intro: chain_lookup chain_remove chain_free_inode chain_flush)

lemma chain_map_for_write: "map_for_write E v ino i = (r, w) \<Longrightarrow> R u v \<Longrightarrow> R u w"
  by (auto simp: map_for_write_def split: prod.splits sum.splits if_splits
      intro: chain_get chain_allocate)

lemma chain_modify: "modify_block E v b off new = (r, w) \<Longrightarrow> R u v \<Longrightarrow> R u w"
  by (auto simp: modify_block_def split: prod.splits sum.splits intro: chain_read chain_write)

lemma chain_write_loop: "write_loop E v ino pos src = (r, w) \<Longrightarrow> R u v \<Longrightarrow> R u w"
proof (induction "length src" arbitrary: v pos src r rule: less_induct)
  case less
  show ?case
  proof (cases "src = []")
    case True
    with less.prems show ?thesis by (simp add: write_loop.simps)
  next
    case False
    then have lt: "length (drop (chunk_len pos (length src)) src) < length src" by simp
    from less.prems False show ?thesis
      by (subst (asm) write_loop.simps)
        (auto simp: Let_def split: prod.splits sum.splits if_splits;
         blast intro: chain_map_for_write chain_modify less.hyps [OF lt])
  qed
qed

lemma chain_vol_write: "vol_write E now v ino buf off = (r, w) \<Longrightarrow> R u v \<Longrightarrow> R u w"
proof -
  have upd: "R u y \<Longrightarrow> R u (upd_inode y i (\<lambda>nd. nd\<lparr>i_size := g nd, i_mtime := now\<rparr>))" for y i g
    by (rule chain_inode) (simp_all add: inode_ok_def)
  show "vol_write E now v ino buf off = (r, w) \<Longrightarrow> R u v \<Longrightarrow> R u w"
    by (auto simp: vol_write_def Let_def split: if_splits prod.splits sum.splits
        elim!: chain_flush chain_write_loop intro!: upd)
qed

lemma chain_zero_tail: "zero_tail E v ino n = (r, w) \<Longrightarrow> R u v \<Longrightarrow> R u w"
  by (auto simp: zero_tail_def split: if_splits prod.splits sum.splits;
      blast intro: chain_get chain_modify)

lemma chain_shrink: "shrink_file E v ino n = (r, w) \<Longrightarrow> R u v \<Longrightarrow> R u w"
  by (auto simp: shrink_file_def split: prod.splits sum.splits;
      blast intro: chain_zero_tail chain_truncate_file)

lemma chain_vol_truncate: "vol_truncate E now v ino n = (r, w) \<Longrightarrow> R u v \<Longrightarrow> R u w"
proof -
  have upd: "R u y \<Longrightarrow> R u (upd_inode y i (\<lambda>nd. nd\<lparr>i_size := m, i_mtime := now\<rparr>))" for y i m
    by (rule chain_inode) (simp_all add: inode_ok_def)
  show "vol_truncate E now v ino n = (r, w) \<Longrightarrow> R u v \<Longrightarrow> R u w"
    by (auto simp: vol_truncate_def split: if_splits prod.splits sum.splits;
        blast intro: chain_shrink chain_flush upd)
qed

end

end
