(* ===== verification/Metadata.thy ===== *)
theory Metadata
  imports FileOps
begin

text \<open>
  The checks a volume must pass when it is opened (\<open>src/src/fs.c\<close>): \<open>validate_superblock\<close>,
  \<open>claim_metadata_block\<close> and \<open>validate_loaded_metadata\<close>. The latter is one C function; its loops are
  the recursive functions below, in the order the code runs them, and \<open>None\<close> is its \<open>goto invalid\<close>.
\<close>

section \<open>Superblock\<close>

definition inode_table_blocks :: nat where
  "inode_table_blocks = (DENYFS_MAX_INODES * DENYFS_INODE_SIZE + SECTOR_SIZE - 1) div SECTOR_SIZE"

definition validate_superblock :: "superblock \<Rightarrow> u64 \<Rightarrow> bool" where
  "validate_superblock sb volume_size =
     (if unat volume_size = 0 \<or> unat volume_size mod SECTOR_SIZE \<noteq> 0 then False
      else let expected_blocks = unat volume_size div SECTOR_SIZE in
      if UINT32_MAX < expected_blocks \<or> expected_blocks < 4 \<or>
        sb_magic sb \<noteq> DENYFS_SB_MAGIC \<or> unat (sb_block_size sb) \<noteq> SECTOR_SIZE \<or>
        unat (sb_total_blocks sb) \<noteq> expected_blocks \<or> unat (sb_inode_count sb) \<noteq> DENYFS_MAX_INODES \<or>
        sb_bitmap_start sb \<noteq> 1 \<or> unat (sb_inode_blocks sb) \<noteq> inode_table_blocks then False
      else let bitmap_bytes = (expected_blocks + 7) div 8;
               expected_bitmap_blocks = (bitmap_bytes + SECTOR_SIZE - 1) div SECTOR_SIZE;
               expected_inode_start = 1 + expected_bitmap_blocks;
               expected_data_start = expected_inode_start + unat (sb_inode_blocks sb) in
      \<not> (UINT32_MAX < expected_bitmap_blocks \<or>
         unat (sb_bitmap_blocks sb) \<noteq> expected_bitmap_blocks \<or>
         unat (sb_inode_start sb) \<noteq> expected_inode_start \<or>
         unat (sb_data_start sb) \<noteq> expected_data_start \<or>
         sb_total_blocks sb \<le> sb_data_start sb \<or>
         sb_total_blocks sb - sb_data_start sb < sb_free_blocks sb \<or>
         DENYFS_MAX_INODES \<le> unat (sb_free_inodes sb)))"

section \<open>Claiming blocks\<close>

text \<open>The \<open>claimed\<close> bitmap and \<open>claimed_count\<close>.\<close>

type_synonym claims = "bytes \<times> nat"

definition claim_metadata_block :: "volume \<Rightarrow> claims \<Rightarrow> u32 \<Rightarrow> claims option" where
  "claim_metadata_block v c block =
     (if unat block < data_start v \<or> total_blocks v \<le> unat block \<or>
         length (v_bitmap v) \<le> unat block div 8 \<or> \<not> bitmap_test (v_bitmap v) (unat block) \<or>
         bitmap_test (fst c) (unat block) then None
      else Some (bitmap_set (fst c) (unat block), snd c + 1))"

text \<open>The direct pointers; the second counter is \<open>actual_file_blocks\<close>.\<close>

fun claim_direct :: "volume \<Rightarrow> nat \<Rightarrow> nat \<Rightarrow> nat \<Rightarrow> u32 list \<Rightarrow> claims \<times> nat \<Rightarrow> (claims \<times> nat) option" where
  "claim_direct v ino file_blocks i [] st = Some st"
| "claim_direct v ino file_blocks i (block # bs) (c, actual) =
     (if (if ino = 0 then (i < unat (i_block_count (inode_at v 0))) \<noteq> (block \<noteq> DENYFS_INVALID_BLOCK)
          else block \<noteq> DENYFS_INVALID_BLOCK \<and> file_blocks \<le> i) then None
      else if block \<noteq> DENYFS_INVALID_BLOCK then
        (case claim_metadata_block v c block of
           None \<Rightarrow> None
         | Some d \<Rightarrow> claim_direct v ino file_blocks (Suc i) bs
             (d, if ino \<noteq> 0 then actual + 1 else actual))
      else claim_direct v ino file_blocks (Suc i) bs (c, actual))"

text \<open>The entries of a pointer table from logical block \<open>logical\<close> on, with the count of entries.\<close>

fun claim_pointers :: "volume \<Rightarrow> nat \<Rightarrow> nat \<Rightarrow> u32 list \<Rightarrow> claims \<times> nat \<Rightarrow> (claims \<times> nat) option" where
  "claim_pointers v file_blocks logical [] st = Some st"
| "claim_pointers v file_blocks logical (block # bs) (c, entries) =
     (if block = DENYFS_INVALID_BLOCK then claim_pointers v file_blocks (Suc logical) bs (c, entries)
      else if file_blocks \<le> logical then None
      else case claim_metadata_block v c block of
        None \<Rightarrow> None
      | Some d \<Rightarrow> claim_pointers v file_blocks (Suc logical) bs (d, entries + 1))"

text \<open>A table block with its entries; a table without entries is invalid.\<close>

definition claim_table ::
  "env \<Rightarrow> volume \<Rightarrow> nat \<Rightarrow> nat \<Rightarrow> u32 \<Rightarrow> claims \<Rightarrow> (claims \<times> nat) option \<times> volume" where
  "claim_table E v file_blocks logical table_block c =
     (case claim_metadata_block v c table_block of
        None \<Rightarrow> (None, v)
      | Some d \<Rightarrow>
      case read_pointer_table E v table_block of
        (Inl e, w) \<Rightarrow> (None, w)
      | (Inr pointers, w) \<Rightarrow>
      case claim_pointers w file_blocks logical pointers (d, 0) of
        None \<Rightarrow> (None, w)
      | Some (d', entries) \<Rightarrow> if entries = 0 then (None, w) else (Some (d', entries), w))"

text \<open>
  The children of the double-indirect root: claims, file blocks so far, and \<open>root_entries\<close>.
\<close>

fun claim_children ::
  "env \<Rightarrow> volume \<Rightarrow> nat \<Rightarrow> nat \<Rightarrow> u32 list \<Rightarrow> claims \<times> nat \<times> nat \<Rightarrow> (claims \<times> nat \<times> nat) option \<times> volume"
where
  "claim_children E v file_blocks outer [] st = (Some st, v)"
| "claim_children E v file_blocks outer (child # cs) (c, actual, roots) =
     (if child = DENYFS_INVALID_BLOCK then claim_children E v file_blocks (Suc outer) cs (c, actual, roots)
      else let logical_start = DENYFS_DIRECT_BLOCKS + DENYFS_POINTERS_PER_BLOCK +
             outer * DENYFS_POINTERS_PER_BLOCK in
      if file_blocks \<le> logical_start then (None, v)
      else case claim_table E v file_blocks logical_start child c of
        (None, w) \<Rightarrow> (None, w)
      | (Some (d, entries), w) \<Rightarrow>
          claim_children E w file_blocks (Suc outer) cs (d, actual + entries, roots + 1))"

section \<open>Inodes\<close>

definition free_inode_ok :: "nat \<Rightarrow> inode \<Rightarrow> bool" where
  "free_inode_ok ino nd \<longleftrightarrow> ino \<noteq> 0 \<and> i_size nd = 0 \<and> i_block_count nd = 0 \<and>
     list_all (\<lambda>b. b = DENYFS_INVALID_BLOCK) (i_direct nd) \<and>
     i_indirect nd = DENYFS_INVALID_BLOCK \<and> i_double nd = DENYFS_INVALID_BLOCK"

definition claim_single ::
  "env \<Rightarrow> volume \<Rightarrow> nat \<Rightarrow> nat \<Rightarrow> claims \<times> nat \<Rightarrow> (claims \<times> nat) option \<times> volume" where
  "claim_single E v ino file_blocks st =
     (case st of (c, actual) \<Rightarrow>
      let table_block = i_indirect (inode_at v ino) in
      if table_block = DENYFS_INVALID_BLOCK then (Some (c, actual), v)
      else case claim_table E v file_blocks DENYFS_DIRECT_BLOCKS table_block c of
        (None, w) \<Rightarrow> (None, w)
      | (Some (d, entries), w) \<Rightarrow> (Some (d, actual + entries), w))"

definition claim_double ::
  "env \<Rightarrow> volume \<Rightarrow> nat \<Rightarrow> nat \<Rightarrow> claims \<times> nat \<Rightarrow> (claims \<times> nat) option \<times> volume" where
  "claim_double E v ino file_blocks st =
     (case st of (c, actual) \<Rightarrow>
      let root_block = i_double (inode_at v ino) in
      if root_block = DENYFS_INVALID_BLOCK then (Some (c, actual), v)
      else case claim_metadata_block v c root_block of
        None \<Rightarrow> (None, v)
      | Some d \<Rightarrow>
      case read_pointer_table E v root_block of
        (Inl e, w) \<Rightarrow> (None, w)
      | (Inr roots, w) \<Rightarrow>
      case claim_children E w file_blocks 0 roots (d, actual, 0) of
        (None, x) \<Rightarrow> (None, x)
      | (Some (d', actual', root_entries), x) \<Rightarrow>
          if root_entries = 0 then (None, x) else (Some (d', actual'), x))"

definition validate_inode :: "env \<Rightarrow> volume \<Rightarrow> nat \<Rightarrow> claims \<Rightarrow> claims option \<times> volume" where
  "validate_inode E v ino c =
     (let nd = inode_at v ino;
          file_blocks = (unat (i_size nd) + SECTOR_SIZE - 1) div SECTOR_SIZE in
      if i_type nd \<noteq> (if ino = 0 then DENYFS_ITYPE_DIR else DENYFS_ITYPE_FILE) \<or>
        DENYFS_MAX_FILE_SIZE < unat (i_size nd) \<or>
        DENYFS_MAX_FILE_BLOCKS < unat (i_block_count nd) then (None, v)
      else case claim_direct v ino file_blocks 0 (i_direct nd) (c, 0) of
        None \<Rightarrow> (None, v)
      | Some (d, actual) \<Rightarrow>
      if ino = 0 then (Some d, v)
      else case claim_single E v ino file_blocks (d, actual) of
        (None, w) \<Rightarrow> (None, w)
      | (Some st, w) \<Rightarrow>
      case claim_double E w ino file_blocks st of
        (None, x) \<Rightarrow> (None, x)
      | (Some (d', actual'), x) \<Rightarrow>
          if actual' \<noteq> unat (i_block_count nd) then (None, x) else (Some d', x))"

text \<open>All inodes, with \<open>allocated_inodes\<close>.\<close>

fun validate_inodes :: "env \<Rightarrow> volume \<Rightarrow> nat list \<Rightarrow> claims \<times> nat \<Rightarrow> (claims \<times> nat) option \<times> volume" where
  "validate_inodes E v [] st = (Some st, v)"
| "validate_inodes E v (ino # is) (c, allocated) =
     (if i_type (inode_at v ino) = DENYFS_ITYPE_FREE then
        (if free_inode_ok ino (inode_at v ino) then validate_inodes E v is (c, allocated) else (None, v))
      else case validate_inode E v ino c of
        (None, w) \<Rightarrow> (None, w)
      | (Some d, w) \<Rightarrow> validate_inodes E w is (d, allocated + 1))"

section \<open>Counters and directory\<close>

definition counters_ok :: "volume \<Rightarrow> nat \<Rightarrow> nat \<Rightarrow> bool" where
  "counters_ok v claimed_count allocated_inodes \<longleftrightarrow>
     allocated_inodes \<noteq> 0 \<and> unat (sb_free_inodes (v_sb v)) = DENYFS_MAX_INODES - allocated_inodes \<and>
     list_all (bitmap_test (v_bitmap v)) [0..<data_start v] \<and>
     (let allocated_data_blocks =
        length (filter (bitmap_test (v_bitmap v)) [data_start v..<total_blocks v]) in
      allocated_data_blocks = claimed_count \<and>
      unat (sb_free_blocks (v_sb v)) = total_blocks v - data_start v - allocated_data_blocks)"

text \<open>The inodes referenced so far and the names seen so far.\<close>

type_synonym dir_seen = "nat list \<times> bytes list"

fun check_entries :: "volume \<Rightarrow> dirent list \<Rightarrow> dir_seen \<Rightarrow> dir_seen option" where
  "check_entries v [] st = Some st"
| "check_entries v (e # es) (referenced, names) =
     (if de_inode e = DENYFS_INVALID_INO then
        (if valid_dirent e then check_entries v es (referenced, names) else None)
      else if \<not> valid_dirent e \<or>
        i_type (inode_at v (unat (de_inode e))) \<noteq> DENYFS_ITYPE_FILE \<or>
        unat (de_inode e) \<in> set referenced \<or> DENYFS_MAX_INODES - 1 \<le> length names then None
      else let name = take (unat (de_name_len e)) (de_name e) in
      if name \<in> set names then None
      else check_entries v es (unat (de_inode e) # referenced, names @ [name]))"

fun check_dir_blocks :: "env \<Rightarrow> volume \<Rightarrow> u32 list \<Rightarrow> dir_seen \<Rightarrow> dir_seen option \<times> volume" where
  "check_dir_blocks E v [] st = (Some st, v)"
| "check_dir_blocks E v (b # bs) st =
     (case read_block E v b of
        (Inl e, w) \<Rightarrow> (None, w)
      | (Inr d, w) \<Rightarrow>
      case check_entries w (dirents_dec d) st of
        None \<Rightarrow> (None, w)
      | Some st' \<Rightarrow> check_dir_blocks E w bs st')"

definition root_inode_ok :: "inode \<Rightarrow> bool" where
  "root_inode_ok root \<longleftrightarrow> i_type root = DENYFS_ITYPE_DIR \<and> i_size root = 0 \<and>
     i_block_count root \<noteq> 0 \<and> unat (i_block_count root) \<le> DENYFS_DIRECT_BLOCKS \<and>
     i_indirect root = DENYFS_INVALID_BLOCK \<and> i_double root = DENYFS_INVALID_BLOCK"

definition validate_loaded_metadata :: "env \<Rightarrow> volume \<Rightarrow> bool \<times> volume" where
  "validate_loaded_metadata E v =
     (let root = inode_at v 0 in
      if length (v_bitmap v) = 0 then (False, v)
      else if \<not> root_inode_ok root then (False, v)
      else if \<not> e_alloc E Claimed_buffer then (False, v)
      else case validate_inodes E v [0..<DENYFS_MAX_INODES] ((replicate (length (v_bitmap v)) 0, 0), 0) of
        (None, w) \<Rightarrow> (False, w)
      | (Some ((claimed, claimed_count), allocated_inodes), w) \<Rightarrow>
      if \<not> counters_ok w claimed_count allocated_inodes then (False, w)
      else case check_dir_blocks E w (take (unat (i_block_count root)) (i_direct root)) ([], []) of
        (None, x) \<Rightarrow> (False, x)
      | (Some (referenced, names), x) \<Rightarrow>
          (list_all (\<lambda>ino. (i_type (inode_at x ino) = DENYFS_ITYPE_FILE) = (ino \<in> set referenced))
             [1..<DENYFS_MAX_INODES], x))"

section \<open>Frames\<close>

context read_frame
begin

lemma chain_claim_table: "claim_table E v n l t c = (r, w) \<Longrightarrow> R u v \<Longrightarrow> R u w"
  by (auto simp: claim_table_def split: option.splits prod.splits sum.splits if_splits
      intro: chain_table)

lemma chain_claim_children: "claim_children E v n outer cs st = (r, w) \<Longrightarrow> R u v \<Longrightarrow> R u w"
proof (induction cs arbitrary: v outer st)
  case (Cons c cs)
  obtain a b d where st: "st = (a, b, d)" by (cases st)
  from Cons show ?case unfolding st
    by (auto simp: Let_def split: if_splits option.splits prod.splits; blast intro: chain_claim_table)
qed simp

lemma chain_claim_single: "claim_single E v ino n st = (r, w) \<Longrightarrow> R u v \<Longrightarrow> R u w"
  by (auto simp: claim_single_def Let_def split: if_splits option.splits prod.splits
      intro: chain_claim_table)

lemma chain_claim_double: "claim_double E v ino n st = (r, w) \<Longrightarrow> R u v \<Longrightarrow> R u w"
  by (auto simp: claim_double_def Let_def split: if_splits option.splits prod.splits sum.splits;
      blast intro: chain_table chain_claim_children)

lemma chain_validate_inode: "validate_inode E v ino c = (r, w) \<Longrightarrow> R u v \<Longrightarrow> R u w"
  unfolding validate_inode_def Let_def
  by (auto split: if_splits option.splits prod.splits;
      blast intro: chain_claim_single chain_claim_double)

lemma chain_validate_inodes: "validate_inodes E v is st = (r, w) \<Longrightarrow> R u v \<Longrightarrow> R u w"
proof (induction "is" arbitrary: v st)
  case (Cons i "is")
  obtain a b where st: "st = (a, b)" by (cases st)
  from Cons show ?case unfolding st
    by (auto split: if_splits option.splits prod.splits; blast intro: chain_validate_inode)
qed simp

lemma chain_check_dir_blocks: "check_dir_blocks E v bs st = (r, w) \<Longrightarrow> R u v \<Longrightarrow> R u w"
proof (induction bs arbitrary: v st)
  case (Cons b bs)
  then show ?case
    by (auto split: option.splits prod.splits sum.splits; blast intro: chain_read)
qed simp

lemma chain_validate: "validate_loaded_metadata E v = (r, w) \<Longrightarrow> R u v \<Longrightarrow> R u w"
  unfolding validate_loaded_metadata_def Let_def
  by (auto split: if_splits option.splits prod.splits;
      blast intro: chain_validate_inodes chain_check_dir_blocks)

end

end
