(* ===== verification/Container.thy ===== *)
theory Container
  imports Metadata
begin

text \<open>
  Whole containers (\<open>src/src/fs.c\<close>): \<open>format_volume\<close>, \<open>denyfs_container_create\<close>,
  \<open>denyfs_container_create_hidden\<close> and \<open>denyfs_vol_open\<close>. The path is represented by the stream that
  \<open>open\<close> and \<open>fdopen\<close> deliver, \<open>None\<close> when they fail.
\<close>

section \<open>Formatting a volume\<close>

text \<open>The geometry is computed in \<open>uint32_t\<close>.\<close>

definition fmt_total_blocks :: "u64 \<Rightarrow> u32" where
  "fmt_total_blocks volume_size = of_nat (unat volume_size div SECTOR_SIZE)"

definition fmt_bitmap_blocks :: "u32 \<Rightarrow> u32" where
  "fmt_bitmap_blocks blocks =
     (let bitmap_bytes_needed = (blocks + 7) div 8 in
      (bitmap_bytes_needed + of_nat SECTOR_SIZE - 1) div of_nat SECTOR_SIZE)"

definition fmt_data_start :: "u32 \<Rightarrow> u32" where
  "fmt_data_start blocks = 1 + fmt_bitmap_blocks blocks + of_nat inode_table_blocks"

text \<open>\<open>i * SECTOR_SIZE\<close> with a \<open>uint32_t\<close> index, as in the flush.\<close>

definition fmt_bitmap :: "u32 \<Rightarrow> bytes" where
  "fmt_bitmap blocks =
     (let data_start = fmt_data_start blocks;
          bitmap = replicate (unat (fmt_bitmap_blocks blocks) * SECTOR_SIZE) 0 in
      bitmap_set (foldl bitmap_set bitmap [0..<unat data_start]) (unat data_start))"

definition fmt_superblock :: "u32 \<Rightarrow> bytes \<Rightarrow> superblock" where
  "fmt_superblock blocks hmac =
     \<lparr>sb_magic = DENYFS_SB_MAGIC, sb_block_size = of_nat SECTOR_SIZE, sb_total_blocks = blocks,
      sb_inode_count = of_nat DENYFS_MAX_INODES, sb_bitmap_start = 1,
      sb_bitmap_blocks = fmt_bitmap_blocks blocks,
      sb_inode_start = 1 + fmt_bitmap_blocks blocks,
      sb_inode_blocks = of_nat inode_table_blocks, sb_data_start = fmt_data_start blocks,
      sb_free_blocks = blocks - fmt_data_start blocks - 1,
      sb_free_inodes = of_nat (DENYFS_MAX_INODES - 1), sb_bitmap_hmac = hmac,
      sb_reserved = replicate (SECTOR_SIZE - 80) 0\<rparr>"

definition blank_inode :: inode where
  "blank_inode = \<lparr>i_type = DENYFS_ITYPE_FREE, i_size = 0, i_block_count = 0,
     i_direct = replicate DENYFS_DIRECT_BLOCKS DENYFS_INVALID_BLOCK,
     i_indirect = DENYFS_INVALID_BLOCK, i_double = DENYFS_INVALID_BLOCK, i_mtime = 0,
     i_reserved = replicate 16 0\<rparr>"

definition fmt_inodes :: "u32 \<Rightarrow> u64 \<Rightarrow> inode list" where
  "fmt_inodes root_block now = (replicate DENYFS_MAX_INODES blank_inode)[0 := blank_inode
     \<lparr>i_type := DENYFS_ITYPE_DIR, i_size := 0, i_block_count := 1,
      i_direct := (replicate DENYFS_DIRECT_BLOCKS DENYFS_INVALID_BLOCK)[0 := root_block],
      i_mtime := now\<rparr>]"

fun write_sectors ::
  "env \<Rightarrow> cfile \<Rightarrow> bytes \<Rightarrow> u64 \<Rightarrow> u32 \<Rightarrow> bytes \<Rightarrow> nat list \<Rightarrow> bool \<times> cfile" where
  "write_sectors E f key start base buf [] = (True, f)"
| "write_sectors E f key start base buf (i # is) =
     (case write_block_raw E f key start (base + of_nat i) (slice (sector_off i) SECTOR_SIZE buf) of
        (ok, g) \<Rightarrow> if ok then write_sectors E g key start base buf is else (False, g))"

definition format_volume ::
  "env \<Rightarrow> cfile \<Rightarrow> bytes \<Rightarrow> bytes \<Rightarrow> u64 \<Rightarrow> u64 \<Rightarrow> u64 \<Rightarrow> bool \<times> cfile" where
  "format_volume E f volume_key hmac_key volume_size start now =
     (if volume_size = 0 \<or> unat volume_size mod SECTOR_SIZE \<noteq> 0 \<or> LONG_MAX < unat start \<or>
        LONG_MAX - unat start < unat volume_size \<or>
        UINT32_MAX - 8 < unat volume_size div SECTOR_SIZE then (False, f)
      else let blocks = fmt_total_blocks volume_size; root = fmt_data_start blocks in
      if blocks \<le> fmt_data_start blocks then (False, f)
      else if \<not> e_alloc E Format_bitmap then (False, f)
      else let bitmap = fmt_bitmap blocks in
      case compute_hmac E hmac_key bitmap of
        None \<Rightarrow> (False, f)
      | Some hmac \<Rightarrow>
      let sb = fmt_superblock blocks hmac in
      case write_block_raw E f volume_key start 0 (sb_enc sb) of (ok1, f1) \<Rightarrow>
      if \<not> ok1 then (False, f1) else
      case write_sectors E f1 volume_key start 1 bitmap [0..<unat (sb_bitmap_blocks sb)] of (ok2, f2) \<Rightarrow>
      if \<not> ok2 then (False, f2) else
      case write_sectors E f2 volume_key start (sb_inode_start sb) (inodes_enc (fmt_inodes root now))
        [0..<unat (sb_inode_blocks sb)] of (ok3, f3) \<Rightarrow>
      if \<not> ok3 then (False, f3) else
      write_block_raw E f3 volume_key start root
        (dirents_enc (replicate DENYFS_DIRENTS_PER_BLOCK free_entry)))"

section \<open>Creating a container\<close>

text \<open>
  What \<open>randombytes_buf\<close> delivers: the byte at each position of the fill, the salt and keys, the
  reserved bytes of the payload and the header's nonce.
\<close>

record entropy =
  en_fill :: "nat \<Rightarrow> u8"
  en_salt :: bytes
  en_volume_key :: bytes
  en_hmac_key :: bytes
  en_reserved :: bytes
  en_iv :: bytes

definition entropy_ok :: "entropy \<Rightarrow> bool" where
  "entropy_ok en \<longleftrightarrow> length (en_salt en) = SALT_SIZE \<and> length (en_volume_key en) = KEY_SIZE_XTS \<and>
     length (en_hmac_key en) = KEY_SIZE_HMAC \<and>
     length (en_reserved en) = CIPHERTEXT_SIZE - 24 - KEY_SIZE_XTS - KEY_SIZE_HMAC \<and>
     length (en_iv en) = IV_SIZE"

definition FILL_CHUNK :: nat where "FILL_CHUNK = 65536"

function fill_loop :: "cfile \<Rightarrow> (nat \<Rightarrow> u8) \<Rightarrow> nat \<Rightarrow> nat \<Rightarrow> bool \<times> cfile" where
  "fill_loop f rnd written total_bytes =
     (if total_bytes \<le> written then (True, f)
      else let to_write = min (total_bytes - written) FILL_CHUNK in
      case fwrite f written to_write (map rnd [written..<written + to_write]) of (n, g) \<Rightarrow>
      if n \<noteq> to_write then (False, g) else fill_loop g rnd (written + to_write) total_bytes)"
  by pat_completeness auto
termination
  by (relation "measure (\<lambda>(f, rnd, written, blocks). blocks - written)") (auto simp: FILL_CHUNK_def)

declare fill_loop.simps [simp del]

text \<open>The payload and the encrypted header of a new volume.\<close>

definition new_payload :: "entropy \<Rightarrow> u64 \<Rightarrow> header_payload" where
  "new_payload en volume_size =
     \<lparr>hp_magic = DENYFS_HEADER_MAGIC, hp_volume_size = volume_size,
      hp_bitmap_offset = of_nat SECTOR_SIZE,
      hp_bitmap_size = (volume_size div of_nat SECTOR_SIZE + 7) div 8,
      hp_volume_key = en_volume_key en, hp_hmac_key = en_hmac_key en, hp_reserved = en_reserved en\<rparr>"

definition password_key :: "env \<Rightarrow> bytes \<Rightarrow> bytes \<Rightarrow> bytes option" where
  "password_key E password salt =
     (case derive_master_key E password salt of
        None \<Rightarrow> None
      | Some master \<Rightarrow> derive_header_key E master)"

definition zero_header :: header_disk where
  "zero_header = \<lparr>hd_salt = replicate 16 0, hd_iv = replicate 12 0, hd_tag = replicate 16 0,
     hd_ciphertext = replicate 4052 0\<rparr>"

definition new_header :: "env \<Rightarrow> entropy \<Rightarrow> bytes \<Rightarrow> u64 \<Rightarrow> header_disk option" where
  "new_header E en password volume_size =
     (case password_key E password (en_salt en) of
        None \<Rightarrow> None
      | Some header_key \<Rightarrow>
          encrypt_header E (en_iv en) (new_payload en volume_size) header_key
            (zero_header\<lparr>hd_salt := en_salt en\<rparr>))"

text \<open>
  Seeks to the header's place, writes it, then formats the volume at \<open>start\<close>: the common end of the
  two creation functions.
\<close>

definition install_volume ::
  "env \<Rightarrow> entropy \<Rightarrow> cfile \<Rightarrow> bytes \<Rightarrow> nat \<Rightarrow> u64 \<Rightarrow> u64 \<Rightarrow> u64 \<Rightarrow> bool \<times> cfile" where
  "install_volume E en f password header_pos volume_size start now =
     (case new_header E en password volume_size of
        None \<Rightarrow> (False, f)
      | Some h \<Rightarrow>
      case fseek f of (ok, f1) \<Rightarrow>
      if \<not> ok then (False, f1)
      else case fwrite f1 header_pos HEADER_SIZE (header_enc h) of (n, f2) \<Rightarrow>
      if n \<noteq> HEADER_SIZE then (False, f2)
      else format_volume E f2 (en_volume_key en) (en_hmac_key en) volume_size start now)"

text \<open>The result: success, and the file that is left at the path (\<open>None\<close> when it is unlinked).\<close>

definition container_create ::
  "env \<Rightarrow> entropy \<Rightarrow> cfile option \<Rightarrow> u64 \<Rightarrow> bytes \<Rightarrow> u64 \<Rightarrow> bool \<times> cfile option" where
  "container_create E en opened size_mb password now =
     (if password = [] \<or> size_mb = 0 \<or> (2 ^ 64 - 1) div (1024 * 1024) < unat size_mb then (False, None)
      else let total_bytes = size_mb * 1024 * 1024 in
      if LONG_MAX < unat total_bytes \<or> unat total_bytes < 1024 * 1024 \<or>
        UINT32_MAX - 8 < unat total_bytes div 2 div SECTOR_SIZE then (False, None)
      else case opened of
        None \<Rightarrow> (False, None)
      | Some f \<Rightarrow>
      if \<not> e_alloc E Fill_chunk then (False, None)
      else case fill_loop f (en_fill en) 0 (unat total_bytes) of (filled, f1) \<Rightarrow>
      if \<not> filled \<or> \<not> e_alloc E Create_keys then (False, None)
      else case install_volume E en f1 password 0 (total_bytes div 2) (of_nat HEADER_SIZE) now of
        (ok, f2) \<Rightarrow> if ok then (True, Some f2) else (False, None))"

section \<open>Opening a volume\<close>

text \<open>A key that could not be derived stays zero; decryption is attempted all the same.\<close>

definition trial_key :: "env \<Rightarrow> bytes \<Rightarrow> bytes \<Rightarrow> bytes" where
  "trial_key E password salt =
     (let zero = replicate KEY_SIZE_GCM 0;
          master = (case derive_master_key E password salt of None \<Rightarrow> zero | Some m \<Rightarrow> m) in
      case derive_header_key E master of None \<Rightarrow> zero | Some k \<Rightarrow> k)"

definition try_header :: "env \<Rightarrow> header_disk \<Rightarrow> bytes \<Rightarrow> header_payload option" where
  "try_header E disk header_key =
     (case decrypt_header E disk header_key zero_payload of
        (ok, p) \<Rightarrow> if ok \<and> hp_magic p = DENYFS_HEADER_MAGIC then Some p else None)"

definition hidden_header_pos :: "nat \<Rightarrow> u64" where
  "hidden_header_pos container_size =
     of_nat container_size - of_nat DENYFS_HIDDEN_HEADER_OFFSET_FROM_EOF"

definition blank_volume :: "cfile \<Rightarrow> header_payload \<Rightarrow> bool \<Rightarrow> u64 \<Rightarrow> volume" where
  "blank_volume f p hidden start =
     \<lparr>v_file = f, v_key = hp_volume_key p, v_hkey = hp_hmac_key p, v_size = hp_volume_size p,
      v_sb = sb_dec (replicate SECTOR_SIZE 0), v_bitmap = [], v_dirty = [],
      v_inodes = inodes_dec (replicate (DENYFS_MAX_INODES * DENYFS_INODE_SIZE) 0), v_start = start,
      v_hidden = hidden, v_protect = False, v_pstart = 0, v_pend = 0\<rparr>"

text \<open>Whether a hidden volume of the payload's size fits below its header.\<close>

definition hidden_fits :: "header_payload \<Rightarrow> u64 \<Rightarrow> bool" where
  "hidden_fits p hpos \<longleftrightarrow> hp_volume_size p \<le> hpos - of_nat HEADER_SIZE \<and>
     valid_volume_range (hpos - hp_volume_size p) (hp_volume_size p) hpos"

definition select_volume ::
  "env \<Rightarrow> cfile \<Rightarrow> u64 \<Rightarrow> header_payload option \<Rightarrow> header_payload option \<Rightarrow> volume option" where
  "select_volume E f hpos outer hidden =
     (let allocated = (\<lambda>v. if e_alloc E Volume_struct \<and> e_alloc E Volume_keys then Some v else None);
          hidden_case = (case hidden of
             None \<Rightarrow> None
           | Some p \<Rightarrow> if hidden_fits p hpos
               then allocated (blank_volume f p True (hpos - hp_volume_size p)) else None) in
      case outer of
        None \<Rightarrow> hidden_case
      | Some p \<Rightarrow>
          if valid_volume_range (of_nat HEADER_SIZE) (hp_volume_size p) hpos
          then allocated (blank_volume f p False (of_nat HEADER_SIZE)) else hidden_case)"

definition protect_volume ::
  "env \<Rightarrow> volume \<Rightarrow> header_disk \<Rightarrow> nat \<Rightarrow> bytes option \<Rightarrow> volume option" where
  "protect_volume E v hidden_disk container_size hidden_password =
     (case hidden_password of
        None \<Rightarrow> None
      | Some pw \<Rightarrow>
      if \<not> e_alloc E Protect_keys then None
      else case password_key E pw (hd_salt hidden_disk) of
        None \<Rightarrow> None
      | Some key \<Rightarrow>
      case try_header E hidden_disk key of
        None \<Rightarrow> None
      | Some p \<Rightarrow>
          if hidden_fits p (hidden_header_pos container_size) then
            Some (v\<lparr>v_protect := True,
              v_pstart := (hidden_header_pos container_size - hp_volume_size p) div of_nat SECTOR_SIZE,
              v_pend := of_nat container_size div of_nat SECTOR_SIZE - 1\<rparr>)
          else None)"

fun read_sectors :: "env \<Rightarrow> volume \<Rightarrow> u32 \<Rightarrow> bytes \<Rightarrow> nat list \<Rightarrow> bytes option \<times> volume" where
  "read_sectors E v base buf [] = (Some buf, v)"
| "read_sectors E v base buf (i # is) =
     (case read_block E v (base + of_nat i) of
        (Inl e, w) \<Rightarrow> (None, w)
      | (Inr d, w) \<Rightarrow> read_sectors E w base (overwrite (sector_off i) d buf) is)"

text \<open>Superblock, bitmap with its HMAC, inode table, then the consistency check.\<close>

definition load_bitmap :: "env \<Rightarrow> volume \<Rightarrow> volume option" where
  "load_bitmap E v =
     (if \<not> e_alloc E Bitmap_buffer \<or> \<not> e_alloc E Dirty_buffer then None
      else let n = unat (sb_bitmap_blocks (v_sb v)) in
      case read_sectors E v (sb_bitmap_start (v_sb v)) (replicate (n * SECTOR_SIZE) 0) [0..<n] of
        (None, w) \<Rightarrow> None
      | (Some bm, w) \<Rightarrow>
      case compute_hmac E (v_hkey w) bm of
        None \<Rightarrow> None
      | Some h \<Rightarrow>
          if h = sb_bitmap_hmac (v_sb w) then Some (w\<lparr>v_bitmap := bm, v_dirty := replicate n 0\<rparr>)
          else None)"

definition load_inodes :: "env \<Rightarrow> volume \<Rightarrow> volume option" where
  "load_inodes E v =
     (case read_sectors E v (sb_inode_start (v_sb v)) (inodes_enc (v_inodes v))
         [0..<unat (sb_inode_blocks (v_sb v))] of
        (None, w) \<Rightarrow> None
      | (Some buf, w) \<Rightarrow> Some (w\<lparr>v_inodes := inodes_dec buf\<rparr>))"

definition load_volume :: "env \<Rightarrow> volume \<Rightarrow> volume option" where
  "load_volume E v =
     (case read_block E v 0 of
        (Inl e, w) \<Rightarrow> None
      | (Inr d, w) \<Rightarrow>
      let sb = sb_dec d; w1 = w\<lparr>v_sb := sb\<rparr> in
      if sb_magic sb \<noteq> DENYFS_SB_MAGIC \<or> \<not> validate_superblock sb (v_size w1) then None
      else case load_bitmap E w1 of
        None \<Rightarrow> None
      | Some w2 \<Rightarrow>
      case load_inodes E w2 of
        None \<Rightarrow> None
      | Some w3 \<Rightarrow>
      case validate_loaded_metadata E w3 of (ok, w4) \<Rightarrow> if ok then Some w4 else None)"

definition vol_open ::
  "env \<Rightarrow> cfile option \<Rightarrow> bytes \<Rightarrow> bytes option \<Rightarrow> bool \<Rightarrow> volume option" where
  "vol_open E opened password hidden_password protect_hidden =
     (case opened of
        None \<Rightarrow> None
      | Some f \<Rightarrow>
      case fseek f of (ok0, f0) \<Rightarrow>
      if \<not> ok0 then None
      else let container_size = length (f_bytes f0); hpos = hidden_header_pos container_size in
      if LONG_MAX < container_size \<or>
        container_size < DENYFS_HIDDEN_HEADER_OFFSET_FROM_EOF + HEADER_SIZE \<or>
        container_size mod SECTOR_SIZE \<noteq> 0 then None
      else case fseek f0 of (ok1, f1) \<Rightarrow>
      if \<not> ok1 then None
      else case fread f1 0 HEADER_SIZE of (outer_bytes, f2) \<Rightarrow>
      if length outer_bytes \<noteq> HEADER_SIZE then None
      else case fseek f2 of (ok3, f3) \<Rightarrow>
      if \<not> ok3 then None
      else case fread f3 (unat hpos) HEADER_SIZE of (hidden_bytes, f4) \<Rightarrow>
      if length hidden_bytes \<noteq> HEADER_SIZE then None
      else if \<not> e_alloc E Open_keys then None
      else let outer_disk = header_dec outer_bytes; hidden_disk = header_dec hidden_bytes;
               outer_key = trial_key E password (hd_salt outer_disk);
               hidden_key = trial_key E password (hd_salt hidden_disk);
               outer = try_header E outer_disk outer_key;
               hidden = try_header E hidden_disk hidden_key in
      case select_volume E f4 hpos outer hidden of
        None \<Rightarrow> None
      | Some v \<Rightarrow>
      if protect_hidden \<and> \<not> v_hidden v then
        (case protect_volume E v hidden_disk container_size hidden_password of
           None \<Rightarrow> None
         | Some w \<Rightarrow> load_volume E w)
      else load_volume E v)"

section \<open>Creating a hidden volume\<close>

definition container_create_hidden ::
  "env \<Rightarrow> entropy \<Rightarrow> cfile option \<Rightarrow> bytes \<Rightarrow> bytes \<Rightarrow> u64 \<Rightarrow> u64 \<Rightarrow> unit res \<times> cfile option" where
  "container_create_hidden E en opened outer_password hidden_password hidden_size_mb now =
     (if outer_password = [] \<or> hidden_password = [] \<or> hidden_size_mb = 0 \<or>
        (2 ^ 64 - 1) div (1024 * 1024) < unat hidden_size_mb then (Inl EINVAL, opened)
      else if UINT32_MAX - 8 < unat (hidden_size_mb * (1024 * 1024)) div SECTOR_SIZE then (Inl EINVAL, opened)
      else if outer_password = hidden_password then (Inl EINVAL, opened)
      else case vol_open E opened outer_password None False of
        None \<Rightarrow> (Inl EACCES, opened)
      | Some v \<Rightarrow>
      case fseek (v_file v) of (ok, f) \<Rightarrow>
      if \<not> ok then (Inl EIO, Some f)
      else let container_size = length (f_bytes f) in
      if LONG_MAX < container_size \<or>
        container_size < DENYFS_HIDDEN_HEADER_OFFSET_FROM_EOF + HEADER_SIZE \<or>
        container_size mod SECTOR_SIZE \<noteq> 0 then (Inl EINVAL, Some f)
      else let hidden_size_bytes = hidden_size_mb * 1024 * 1024;
               outer_end = v_start v + v_size v;
               hpos = hidden_header_pos container_size in
      if hpos < hidden_size_bytes \<or> hpos - hidden_size_bytes < outer_end \<or>
        unat hidden_size_bytes mod SECTOR_SIZE \<noteq> 0 then (Inl ENOSPC, Some f)
      else if \<not> e_alloc E Hidden_keys then (Inl ENOMEM, Some f)
      else case install_volume E en f hidden_password (unat hpos) hidden_size_bytes
          (hpos - hidden_size_bytes) now of
        (ok, g) \<Rightarrow> (if ok then Inr () else Inl EIO, Some g))"

end
