(* ===== verification/Opening.thy ===== *)
theory Opening
  imports Container
begin

text \<open>
  What a successful \<open>denyfs_vol_open\<close> establishes: where the volume lies in the container, what
  outer-mount protection covers, that the bitmap is the one its HMAC authenticates, that the tables
  have their sizes and that the free counter is exact. Opening never writes.
\<close>

section \<open>Loading\<close>

context read_frame
begin

lemma chain_read_sectors: "read_sectors E v base buf is = (r, w) \<Longrightarrow> R u v \<Longrightarrow> R u w"
proof (induction "is" arbitrary: v buf)
  case (Cons i "is")
  then show ?case by (auto split: prod.splits sum.splits; blast intro: chain_read)
qed simp

end

lemma sb_dec_ok: "length d = SECTOR_SIZE \<Longrightarrow> sb_ok (sb_dec d)"
  by (simp add: sb_dec_def sb_ok_def layout_sizes)

lemma read_block_length:
  "read_block E v b = (Inr d, w) \<Longrightarrow> xts_correct E \<Longrightarrow> length (v_key v) = KEY_SIZE_XTS \<Longrightarrow>
   length d = SECTOR_SIZE"
  by (auto simp: read_block_def Let_def split: if_splits prod.splits option.splits
      elim!: crypt_sector_dec [where lba = "ucast b"])

definition same_place :: "volume \<Rightarrow> volume \<Rightarrow> bool" where
  "same_place v w \<longleftrightarrow> same_config v w \<and> consumes (v_file v) (v_file w)"

lemma same_place_trans: "same_place u v \<Longrightarrow> same_place v w \<Longrightarrow> same_place u w"
  unfolding same_place_def same_config_def by (auto intro: consumes_trans)

lemma same_place_memory:
  "same_config v w \<Longrightarrow> v_file w = v_file v \<Longrightarrow> same_place v w"
  by (simp add: same_place_def)

lemma unchanged_place: "unchanged v w \<Longrightarrow> same_place v w"
  by (auto simp: unchanged_def same_place_def same_config_def)

lemma read_sectors_length:
  "read_sectors E v base buf is = (Some bs, w) \<Longrightarrow> length buf \<le> length bs"
proof (induction "is" arbitrary: v buf)
  case (Cons i "is")
  then show ?case by (fastforce split: prod.splits sum.splits)
qed simp

lemma load_bitmap_SomeE:
  assumes "load_bitmap E v = Some w"
  obtains bm u where "read_sectors E v (sb_bitmap_start (v_sb v))
      (replicate (unat (sb_bitmap_blocks (v_sb v)) * SECTOR_SIZE) 0)
      [0..<unat (sb_bitmap_blocks (v_sb v))] = (Some bm, u)"
    "unchanged v u" "compute_hmac E (v_hkey v) bm = Some (sb_bitmap_hmac (v_sb v))"
    "w = u\<lparr>v_bitmap := bm, v_dirty := replicate (unat (sb_bitmap_blocks (v_sb v))) 0\<rparr>"
proof -
  let ?rs = "read_sectors E v (sb_bitmap_start (v_sb v))
      (replicate (unat (sb_bitmap_blocks (v_sb v)) * SECTOR_SIZE) 0) [0..<unat (sb_bitmap_blocks (v_sb v))]"
  obtain r u where ru: "?rs = (r, u)" by (cases ?rs)
  then obtain bm where bm: "r = Some bm"
    using assms by (auto simp: load_bitmap_def Let_def split: if_splits option.splits)
  have un: "unchanged v u" using ru by (rule ro.chain_read_sectors) simp
  then have "v_hkey u = v_hkey v" "v_sb u = v_sb v" by (auto simp: unchanged_def)
  with assms ru bm un show ?thesis
    by (intro that [of bm u]) (auto simp: load_bitmap_def Let_def split: if_splits option.splits)
qed

lemma load_inodes_SomeE:
  assumes "load_inodes E v = Some w"
  obtains buf u where "read_sectors E v (sb_inode_start (v_sb v)) (inodes_enc (v_inodes v))
      [0..<unat (sb_inode_blocks (v_sb v))] = (Some buf, u)"
    "unchanged v u" "w = u\<lparr>v_inodes := inodes_dec buf\<rparr>"
  using assms
  by (auto simp: load_inodes_def split: prod.splits option.splits dest!: ro.chain_read_sectors [OF _ unchanged_refl])

lemma load_volume_SomeE:
  assumes "load_volume E v = Some w"
  obtains d u1 u2 u3 where "read_block E v 0 = (Inr d, u1)"
    "sb_magic (sb_dec d) = DENYFS_SB_MAGIC" "validate_superblock (sb_dec d) (v_size v)"
    "load_bitmap E (u1\<lparr>v_sb := sb_dec d\<rparr>) = Some u2" "load_inodes E u2 = Some u3"
    "validate_loaded_metadata E u3 = (True, w)" "unchanged v u1" "unchanged u3 w"
proof -
  obtain r u1 where 1: "read_block E v 0 = (r, u1)" by (cases "read_block E v 0")
  then obtain d where d: "r = Inr d" using assms by (auto simp: load_volume_def split: sum.splits)
  have un: "unchanged v u1" using 1 by (rule ro.chain_read) simp
  then have "v_size u1 = v_size v" by (auto simp: unchanged_def)
  with assms 1 d un show ?thesis
    by (auto simp: load_volume_def Let_def split: if_splits option.splits prod.splits
        intro: that ro.chain_validate [OF _ unchanged_refl])
qed

lemma load_volume_place: "load_volume E v = Some w \<Longrightarrow> same_place v w"
proof (elim load_volume_SomeE load_bitmap_SomeE load_inodes_SomeE)
  fix d u1 u2 u3 bm u buf t
  assume *: "unchanged v u1" "unchanged (u1\<lparr>v_sb := sb_dec d\<rparr>) u"
    "u2 = u\<lparr>v_bitmap := bm, v_dirty := replicate
        (unat (sb_bitmap_blocks (v_sb (u1\<lparr>v_sb := sb_dec d\<rparr>)))) 0\<rparr>"
    "unchanged u2 t" "u3 = t\<lparr>v_inodes := inodes_dec buf\<rparr>" "unchanged u3 w"
  have "same_place v u1" "same_place u1 (u1\<lparr>v_sb := sb_dec d\<rparr>)" "same_place (u1\<lparr>v_sb := sb_dec d\<rparr>) u"
    "same_place u u2" "same_place u2 t" "same_place t u3" "same_place u3 w"
    using * by (simp_all add: unchanged_place same_place_memory same_config_def)
  then show "same_place v w" by (blast intro: same_place_trans)
qed

text \<open>The state that \<open>validate_loaded_metadata\<close> has accepted.\<close>

lemma load_volume_loaded:
  assumes "load_volume E v = Some w"
  shows "validate_superblock (v_sb w) (v_size w) \<and> length (v_inodes w) = DENYFS_MAX_INODES \<and>
    unat (sb_bitmap_blocks (v_sb w)) * SECTOR_SIZE \<le> length (v_bitmap w) \<and>
    length (v_dirty w) = unat (sb_bitmap_blocks (v_sb w)) \<and>
    compute_hmac E (v_hkey w) (v_bitmap w) = Some (sb_bitmap_hmac (v_sb w)) \<and>
    (\<exists>u. unchanged u w \<and> validate_loaded_metadata E u = (True, w))"
proof -
  have "v_size w = v_size v" using load_volume_place [OF assms] by (simp add: same_place_def same_config_def)
  with assms show ?thesis
  proof (elim load_volume_SomeE load_bitmap_SomeE load_inodes_SomeE)
    fix d u1 u2 u3 bm u buf t
    assume *: "v_size w = v_size v" "unchanged v u1" "unchanged (u1\<lparr>v_sb := sb_dec d\<rparr>) u"
      "u2 = u\<lparr>v_bitmap := bm, v_dirty := replicate
        (unat (sb_bitmap_blocks (v_sb (u1\<lparr>v_sb := sb_dec d\<rparr>)))) 0\<rparr>"
      "unchanged u2 t" "u3 = t\<lparr>v_inodes := inodes_dec buf\<rparr>" "unchanged u3 w"
      "validate_superblock (sb_dec d) (v_size v)" "validate_loaded_metadata E u3 = (True, w)"
      "compute_hmac E (v_hkey (u1\<lparr>v_sb := sb_dec d\<rparr>)) bm =
         Some (sb_bitmap_hmac (v_sb (u1\<lparr>v_sb := sb_dec d\<rparr>)))"
    assume rs: "read_sectors E (u1\<lparr>v_sb := sb_dec d\<rparr>) (sb_bitmap_start (v_sb (u1\<lparr>v_sb := sb_dec d\<rparr>)))
      (replicate (unat (sb_bitmap_blocks (v_sb (u1\<lparr>v_sb := sb_dec d\<rparr>))) * SECTOR_SIZE) 0)
      [0..<unat (sb_bitmap_blocks (v_sb (u1\<lparr>v_sb := sb_dec d\<rparr>)))] = (Some bm, u)"
    have w: "v_sb w = sb_dec d" "v_inodes w = inodes_dec buf" "v_bitmap w = bm"
      "v_dirty w = replicate (unat (sb_bitmap_blocks (sb_dec d))) 0" "v_hkey w = v_hkey u1"
      using *(2-7) by (auto simp: unchanged_def)
    show ?thesis
      using *(1,7,8,9,10) read_sectors_length [OF rs] unfolding w by auto
  qed
qed

section \<open>The free counter\<close>

lemma counters_bitmap_inv:
  assumes "counters_ok v n m" "total_blocks v \<le> 8 * length (v_bitmap v)"
  shows "bitmap_inv v"
proof -
  have f: "filter (bitmap_test (v_bitmap v)) [data_start v..<total_blocks v] =
      sorted_list_of_set (used v)"
    by (rule sorted_distinct_set_unique) (auto simp: used_def pool_def sorted_wrt_filter)
  have "card (pool v - used v) = card (pool v) - card (used v)"
    using used_subset_pool by (simp add: card_Diff_subset)
  with assms f show ?thesis
    by (simp add: counters_ok_def bitmap_inv_def Let_def pool_def)
qed

lemma validate_superblock_facts:
  assumes "validate_superblock sb sz"
  shows "sb_magic sb = DENYFS_SB_MAGIC \<and> unat (sb_total_blocks sb) = unat sz div SECTOR_SIZE \<and>
    sb_bitmap_start sb = 1 \<and> unat (sb_inode_blocks sb) = inode_table_blocks \<and>
    unat (sb_bitmap_blocks sb) =
      ((unat (sb_total_blocks sb) + 7) div 8 + SECTOR_SIZE - 1) div SECTOR_SIZE \<and>
    unat (sb_inode_start sb) = 1 + unat (sb_bitmap_blocks sb) \<and>
    unat (sb_data_start sb) = 1 + unat (sb_bitmap_blocks sb) + inode_table_blocks \<and>
    unat (sb_data_start sb) < unat (sb_total_blocks sb) \<and>
    unat (sb_free_blocks sb) \<le> unat (sb_total_blocks sb) - unat (sb_data_start sb) \<and>
    unat (sb_free_inodes sb) < DENYFS_MAX_INODES"
proof -
  have "sb_data_start sb < sb_total_blocks sb \<Longrightarrow>
      unat (sb_total_blocks sb - sb_data_start sb) = unat (sb_total_blocks sb) - unat (sb_data_start sb)"
    by (simp add: unat_sub less_imp_le)
  with assms show ?thesis
    by (auto simp: validate_superblock_def Let_def word_le_nat_alt not_le word_less_nat_alt
        split: if_splits)
qed

lemma load_volume_inv:
  assumes "load_volume E v = Some w"
  shows "bitmap_inv w"
proof -
  note facts = load_volume_loaded [OF assms]
  then obtain u where u: "unchanged u w" "validate_loaded_metadata E u = (True, w)" by blast
  from u(2) obtain x n m where x: "counters_ok x n m" "unchanged x w"
    by (auto simp: validate_loaded_metadata_def Let_def split: if_splits option.splits prod.splits
        dest!: ro.chain_check_dir_blocks [OF _ unchanged_refl])
  have "total_blocks w + 7 \<le> 8 * ((total_blocks w + 7) div 8) + 7" by simp
  also have "(total_blocks w + 7) div 8 \<le> unat (sb_bitmap_blocks (v_sb w)) * SECTOR_SIZE"
    using facts validate_superblock_facts [of "v_sb w" "v_size w"]
    by (simp only:) (rule ceil_div_ge, simp)
  finally have "total_blocks w \<le> 8 * length (v_bitmap w)" using facts by simp
  moreover have "counters_ok w n m" using x by (auto simp: unchanged_def counters_ok_def)
  ultimately show ?thesis by (rule counters_bitmap_inv [rotated])
qed

section \<open>Selecting the volume\<close>

definition container_ok :: "nat \<Rightarrow> bool" where
  "container_ok c \<longleftrightarrow> c \<le> LONG_MAX \<and>
     DENYFS_HIDDEN_HEADER_OFFSET_FROM_EOF + HEADER_SIZE \<le> c \<and> c mod SECTOR_SIZE = 0"

lemma unat_hidden_header_pos:
  "container_ok c \<Longrightarrow> unat (hidden_header_pos c) = c - DENYFS_HIDDEN_HEADER_OFFSET_FROM_EOF"
  by (simp add: hidden_header_pos_def container_ok_def LONG_MAX_def unat_sub word_le_nat_alt
      unsigned_of_nat take_bit_nat_eq_self DENYFS_HIDDEN_HEADER_OFFSET_FROM_EOF_def)

lemma unat_HEADER_SIZE: "unat (of_nat HEADER_SIZE :: u64) = HEADER_SIZE"
  by (simp add: HEADER_SIZE_def)

lemma hidden_fits_iff:
  assumes "container_ok c"
  shows "hidden_fits p (hidden_header_pos c) \<longleftrightarrow> hp_volume_size p \<noteq> 0 \<and>
    unat (hp_volume_size p) mod SECTOR_SIZE = 0 \<and>
    HEADER_SIZE + unat (hp_volume_size p) \<le> c - DENYFS_HIDDEN_HEADER_OFFSET_FROM_EOF"
proof -
  let ?h = "hidden_header_pos c"
  have h: "unat ?h = c - DENYFS_HIDDEN_HEADER_OFFSET_FROM_EOF" using assms by (rule unat_hidden_header_pos)
  have small: "HEADER_SIZE \<le> unat ?h" "unat ?h \<le> LONG_MAX" "unat ?h mod SECTOR_SIZE = 0"
    using assms unfolding h
    by (auto simp: container_ok_def SECTOR_SIZE_def DENYFS_HIDDEN_HEADER_OFFSET_FROM_EOF_def mod_0_imp_dvd
        intro!: dvd_imp_mod_0 dvd_diff_nat)
  have sub: "unat (?h - of_nat HEADER_SIZE) = unat ?h - HEADER_SIZE"
    using small by (simp add: unat_sub word_le_nat_alt unat_HEADER_SIZE)
  have sub2: "unat (?h - hp_volume_size p) = unat ?h - unat (hp_volume_size p)"
    if "unat (hp_volume_size p) \<le> unat ?h" using that by (simp add: unat_sub word_le_nat_alt)
  have al: "(unat ?h - unat (hp_volume_size p)) mod SECTOR_SIZE = 0"
    if "unat (hp_volume_size p) mod SECTOR_SIZE = 0" "unat (hp_volume_size p) \<le> unat ?h"
    using small(3) that by (meson dvd_diff_nat dvd_imp_mod_0 mod_0_imp_dvd)
  show ?thesis
    using small al sub2
    by (auto simp: hidden_fits_def valid_volume_range_iff word_le_nat_alt sub h [symmetric])
qed

lemma try_header_lengths:
  assumes "try_header E disk key = Some p"
  shows "length (hp_volume_key p) = KEY_SIZE_XTS \<and> length (hp_hmac_key p) = KEY_SIZE_HMAC"
proof -
  have "payload_ok zero_payload" by (simp add: payload_ok_def zero_payload_def crypto_sizes)
  with assms show ?thesis
    by (auto simp: try_header_def decrypt_header_def payload_dec_def payload_enc_length crypto_sizes
        split: option.splits prod.splits if_splits)
qed

text \<open>Where a volume of a container of \<open>c\<close> bytes lies.\<close>

definition placed :: "nat \<Rightarrow> volume \<Rightarrow> bool" where
  "placed c v \<longleftrightarrow> vol_geom v \<and> v_size v \<noteq> 0 \<and> HEADER_SIZE \<le> unat (v_start v) \<and>
     (if v_hidden v
      then unat (v_start v) + unat (v_size v) = c - DENYFS_HIDDEN_HEADER_OFFSET_FROM_EOF
      else unat (v_start v) = HEADER_SIZE \<and>
        unat (v_start v) + unat (v_size v) \<le> c - DENYFS_HIDDEN_HEADER_OFFSET_FROM_EOF) \<and>
     length (v_key v) = KEY_SIZE_XTS \<and> length (v_hkey v) = KEY_SIZE_HMAC"

lemma select_volume_placed:
  assumes "select_volume E f (hidden_header_pos c) outer hidden = Some v" "container_ok c"
    and "\<And>p. outer = Some p \<or> hidden = Some p \<Longrightarrow> length (hp_volume_key p) = KEY_SIZE_XTS \<and>
      length (hp_hmac_key p) = KEY_SIZE_HMAC"
  shows "placed c v \<and> v_file v = f \<and> \<not> v_protect v"
proof -
  note h = unat_hidden_header_pos [OF assms(2)]
  have hid: "placed c (blank_volume f p True (hidden_header_pos c - hp_volume_size p))"
    if "hidden_fits p (hidden_header_pos c)" "hidden = Some p" for p
  proof -
    have fit: "HEADER_SIZE + unat (hp_volume_size p) \<le> c - DENYFS_HIDDEN_HEADER_OFFSET_FROM_EOF"
      using that(1) hidden_fits_iff [OF assms(2)] by blast
    then have "unat (hidden_header_pos c - hp_volume_size p) =
        c - DENYFS_HIDDEN_HEADER_OFFSET_FROM_EOF - unat (hp_volume_size p)"
      by (simp add: unat_sub word_le_nat_alt h)
    then show ?thesis
      using that assms(3) [of p] fit
      by (simp add: placed_def blank_volume_def vol_geom_def hidden_fits_def valid_volume_range_iff)
        arith
  qed
  have out: "placed c (blank_volume f p False (of_nat HEADER_SIZE))"
    if "valid_volume_range (of_nat HEADER_SIZE) (hp_volume_size p) (hidden_header_pos c)"
      "outer = Some p" for p
    using that assms(3) [of p]
    by (auto simp: placed_def blank_volume_def vol_geom_def valid_volume_range_iff unat_HEADER_SIZE h)
  show ?thesis
    using assms(1) hid out
    by (auto simp: select_volume_def Let_def blank_volume_def split: option.splits if_splits)
qed

section \<open>Outer-mount protection\<close>

text \<open>
  The hidden header of the container, and the region from the start of the hidden volume it describes to
  the end of the container.
\<close>

definition hidden_header_of :: "bytes \<Rightarrow> header_disk" where
  "hidden_header_of bs =
     header_dec (slice (length bs - DENYFS_HIDDEN_HEADER_OFFSET_FROM_EOF) HEADER_SIZE bs)"

definition hidden_region :: "bytes \<Rightarrow> header_payload \<Rightarrow> nat set" where
  "hidden_region bs p =
     {length bs - DENYFS_HIDDEN_HEADER_OFFSET_FROM_EOF - unat (hp_volume_size p) ..< length bs}"

lemma protect_volume_SomeE:
  assumes "protect_volume E v disk c hpw = Some w" "container_ok c"
  obtains pw key p a b where "hpw = Some pw" "password_key E pw (hd_salt disk) = Some key"
    "try_header E disk key = Some p" "HEADER_SIZE + unat (hp_volume_size p) \<le>
       c - DENYFS_HIDDEN_HEADER_OFFSET_FROM_EOF"
    "w = v\<lparr>v_protect := True, v_pstart := a, v_pend := b\<rparr>"
    "protected_region w = {c - DENYFS_HIDDEN_HEADER_OFFSET_FROM_EOF - unat (hp_volume_size p) ..< c}"
proof -
  obtain pw key p where p: "hpw = Some pw" "password_key E pw (hd_salt disk) = Some key"
    "try_header E disk key = Some p" "hidden_fits p (hidden_header_pos c)"
    "w = v\<lparr>v_protect := True,
      v_pstart := (hidden_header_pos c - hp_volume_size p) div of_nat SECTOR_SIZE,
      v_pend := of_nat c div of_nat SECTOR_SIZE - 1\<rparr>"
    using assms by (auto simp: protect_volume_def split: option.splits if_splits)
  note fit = p(4) [unfolded hidden_fits_iff [OF assms(2)]]
  let ?a = "c - DENYFS_HIDDEN_HEADER_OFFSET_FROM_EOF - unat (hp_volume_size p)"
  have a: "unat (hidden_header_pos c - hp_volume_size p) = ?a"
    using fit by (simp add: unat_sub word_le_nat_alt unat_hidden_header_pos [OF assms(2)])
  have al: "?a mod SECTOR_SIZE = 0" "c mod SECTOR_SIZE = 0" "SECTOR_SIZE \<le> c" "c < 2 ^ 64"
    using fit assms(2)
    by (auto simp: container_ok_def SECTOR_SIZE_def DENYFS_HIDDEN_HEADER_OFFSET_FROM_EOF_def
        LONG_MAX_def mod_0_imp_dvd intro!: dvd_imp_mod_0 dvd_diff_nat)
  have ss: "unat (of_nat SECTOR_SIZE :: u64) = SECTOR_SIZE" by (simp add: SECTOR_SIZE_def)
  have c: "unat (of_nat c :: u64) = c" using al(4) by (simp add: unsigned_of_nat take_bit_nat_eq_self)
  have q: "unat (of_nat c div of_nat SECTOR_SIZE :: u64) = c div SECTOR_SIZE" "0 < c div SECTOR_SIZE"
    using al(3) by (simp_all add: unat_div_distrib ss c div_greater_zero_iff)
  have e: "unat (of_nat c div of_nat SECTOR_SIZE - 1 :: u64) = c div SECTOR_SIZE - 1"
    using q by (subst unat_minus_one) auto
  have s: "unat ((hidden_header_pos c - hp_volume_size p) div of_nat SECTOR_SIZE) = ?a div SECTOR_SIZE"
    by (simp add: unat_div_distrib ss a)
  have "protected_region w = {?a div SECTOR_SIZE * SECTOR_SIZE ..< c div SECTOR_SIZE * SECTOR_SIZE}"
    using q(2) by (simp add: protected_region_def p(5) e s)
  also have "\<dots> = {?a ..< c}" using al(1,2) by (simp add: mod_0_imp_dvd)
  finally show ?thesis using p fit by (intro that) auto
qed

section \<open>A successful open\<close>

lemma load_placed: "load_volume E v = Some w \<Longrightarrow> placed c v \<Longrightarrow> placed c w"
  using load_volume_place [of E v w] same_config_geom [of v w]
  by (auto simp: placed_def same_place_def same_config_def)

lemma vol_open_SomeE:
  assumes "vol_open E (Some f) password hpw protect = Some v"
  obtains v0 where "container_ok (length (f_bytes f))" "placed (length (f_bytes f)) v0"
    "consumes f (v_file v0)" "load_volume E v0 = Some v" "v_protect v0 \<longleftrightarrow> protect \<and> \<not> v_hidden v0"
    "v_protect v0 \<longrightarrow> (\<exists>pw key p. hpw = Some pw \<and>
       password_key E pw (hd_salt (hidden_header_of (f_bytes f))) = Some key \<and>
       try_header E (hidden_header_of (f_bytes f)) key = Some p \<and>
       protected_region v0 = hidden_region (f_bytes f) p)"
proof -
  let ?c = "length (f_bytes f)"
  obtain ok0 f0 where s0: "fseek f = (ok0, f0)" by (cases "fseek f")
  obtain ok1 f1 where s1: "fseek f0 = (ok1, f1)" by (cases "fseek f0")
  obtain ob f2 where s2: "fread f1 0 HEADER_SIZE = (ob, f2)" by (cases "fread f1 0 HEADER_SIZE")
  obtain ok3 f3 where s3: "fseek f2 = (ok3, f3)" by (cases "fseek f2")
  have b0: "f_bytes f0 = f_bytes f" and b3: "f_bytes f3 = f_bytes f"
    using fseek_bytes [OF s0] fseek_bytes [OF s1] fread_bytes [OF s2] fseek_bytes [OF s3] by simp_all
  obtain hb f4 where s4: "fread f3 (unat (hidden_header_pos ?c)) HEADER_SIZE = (hb, f4)"
    by (cases "fread f3 (unat (hidden_header_pos ?c)) HEADER_SIZE")
  have cons: "consumes f f4"
    using fseek_consumes [OF s0] fseek_consumes [OF s1] fread_consumes [OF s2] fseek_consumes [OF s3]
      fread_consumes [OF s4] by (blast intro: consumes_trans)
  have c: "container_ok ?c" and hlen: "length hb = HEADER_SIZE"
    using assms by (auto simp: vol_open_def s0 s1 s2 s3 s4 b0 Let_def container_ok_def split: if_splits)
  have hb: "header_dec hb = hidden_header_of (f_bytes f)"
    using fread_full [OF s4 hlen] by (simp add: hidden_header_of_def b3 unat_hidden_header_pos [OF c])
  let ?outer = "try_header E (header_dec ob) (trial_key E password (hd_salt (header_dec ob)))"
  let ?hidden = "try_header E (header_dec hb) (trial_key E password (hd_salt (header_dec hb)))"
  obtain v1 where v1: "select_volume E f4 (hidden_header_pos ?c) ?outer ?hidden = Some v1"
    and rest: "(if protect \<and> \<not> v_hidden v1 then
        (case protect_volume E v1 (header_dec hb) ?c hpw of None \<Rightarrow> None | Some w \<Rightarrow> load_volume E w)
      else load_volume E v1) = Some v"
    using assms by (auto simp: vol_open_def s0 s1 s2 s3 s4 b0 Let_def split: if_splits option.splits)
  have p1: "placed ?c v1 \<and> v_file v1 = f4 \<and> \<not> v_protect v1"
    using v1 c by (rule select_volume_placed) (auto dest: try_header_lengths)
  show ?thesis
  proof (cases "protect \<and> \<not> v_hidden v1")
    case False
    with rest p1 cons c show ?thesis by (intro that [of v1]) auto
  next
    case True
    with rest obtain w where w: "protect_volume E v1 (header_dec hb) ?c hpw = Some w"
      "load_volume E w = Some v" by (auto split: option.splits)
    from w(1) c obtain pw key p a b where "hpw = Some pw"
      "password_key E pw (hd_salt (header_dec hb)) = Some key" "try_header E (header_dec hb) key = Some p"
      "w = v1\<lparr>v_protect := True, v_pstart := a, v_pend := b\<rparr>"
      "protected_region w = {?c - DENYFS_HIDDEN_HEADER_OFFSET_FROM_EOF - unat (hp_volume_size p) ..< ?c}"
      by (rule protect_volume_SomeE)
    moreover from this(4) have "placed ?c w" "v_file w = f4" "v_protect w" "v_hidden w = v_hidden v1"
      using p1 by (auto simp: placed_def vol_geom_def)
    ultimately show ?thesis using True w(2) cons c
      by (intro that [of w]) (auto simp: hb hidden_region_def)
  qed
qed

end
