(* ===== verification/Session.thy ===== *)
theory Session
  imports Container
begin

text \<open>
  A mounted volume as a state machine: \<open>vol_step\<close> has one rule per public function of \<open>src/src/fs.h\<close>
  that works on an open volume, labelled with the call and its result, and \<open>vol_run\<close> is a sequence of
  calls. Nothing is assumed of the arguments, the clock, the libraries or the container's I/O faults.
\<close>

datatype call =
    Lookup bytes "u32 res"
  | Readdir "bytes list readdir_cb" "bytes list" "unit res \<times> bytes list"
  | Create u64 bytes "u32 res"
  | Unlink bytes "unit res"
  | Read nat nat u64 "bytes res"
  | Write u64 nat bytes u64 "nat res"
  | Truncate u64 nat u64 "unit res"
  | Flush "unit res"

inductive vol_step :: "env \<Rightarrow> volume \<Rightarrow> call \<Rightarrow> volume \<Rightarrow> bool" for E where
  s_lookup: "vol_lookup E v name = (r, w) \<Longrightarrow> vol_step E v (Lookup name r) w"
| s_readdir: "vol_readdir E v cb s = (r, w) \<Longrightarrow> vol_step E v (Readdir cb s r) w"
| s_create: "vol_create E now v name = (r, w) \<Longrightarrow> vol_step E v (Create now name r) w"
| s_unlink: "vol_unlink E v name = (r, w) \<Longrightarrow> vol_step E v (Unlink name r) w"
| s_read: "vol_read E v ino n off = (r, w) \<Longrightarrow> vol_step E v (Read ino n off r) w"
| s_write: "vol_write E now v ino buf off = (r, w) \<Longrightarrow> vol_step E v (Write now ino buf off r) w"
| s_truncate: "vol_truncate E now v ino n = (r, w) \<Longrightarrow> vol_step E v (Truncate now ino n r) w"
| s_flush: "vol_flush E v = (r, w) \<Longrightarrow> vol_step E v (Flush r) w"

inductive vol_run :: "env \<Rightarrow> volume \<Rightarrow> call list \<Rightarrow> volume \<Rightarrow> bool" for E where
  stop: "vol_run E v [] v"
| step: "vol_step E v c u \<Longrightarrow> vol_run E u cs w \<Longrightarrow> vol_run E v (c # cs) w"

inductive_simps vol_run_Nil [simp]: "vol_run E v [] w"
inductive_simps vol_run_Cons [simp]: "vol_run E v (c # cs) w"
inductive_cases vol_stepE: "vol_step E v c w"
inductive_simps vol_step_Write: "vol_step E v (Write now ino buf off r) w"
inductive_simps vol_step_Flush: "vol_step E v (Flush r) w"

lemma vol_run_append:
  "vol_run E u (cs @ ds) w \<longleftrightarrow> (\<exists>v. vol_run E u cs v \<and> vol_run E v ds w)"
  by (induction cs arbitrary: u) auto

text \<open>A call has one outcome: the model of the program is deterministic.\<close>

lemma vol_step_fun: "vol_step E v c u \<Longrightarrow> vol_step E v c w \<Longrightarrow> u = w"
  by (elim vol_stepE; simp)

lemma vol_run_fun: "vol_run E v cs u \<Longrightarrow> vol_run E v cs w \<Longrightarrow> u = w"
proof (induction cs arbitrary: v)
  case (Cons c cs)
  then show ?case using vol_step_fun by (metis vol_run_Cons)
qed simp

context vol_frame
begin

lemma chain_step: "vol_step E v c w \<Longrightarrow> R u v \<Longrightarrow> R u w"
  by (induction rule: vol_step.induct)
    (auto elim: chain_lookup chain_readdir chain_create chain_unlink chain_vol_read chain_vol_write
      chain_vol_truncate chain_flush)

lemma chain_run: "vol_run E v cs w \<Longrightarrow> R u v \<Longrightarrow> R u w"
  by (induction cs arbitrary: v) (auto intro: chain_step)

lemmas run = chain_run [OF _ R_refl]
lemmas step = chain_step [OF _ R_refl]

end

end
