(* ===== verification/Fuse.thy ===== *)
theory Fuse
  imports Session
begin

text \<open>
  The FUSE callbacks of \<open>src/src/fuse_ops.c\<close>. \<open>fuse_get_context()->private_data\<close> is the volume argument;
  a path is a C string. Each callback returns its C result and the volume. \<open>fuse_step\<close> is the dispatch
  through \<open>denyfs_ops\<close>; \<open>fuse_main\<close> itself belongs to libfuse.
\<close>

section \<open>Paths\<close>

definition root_path :: bytes where
  "root_path = map of_char ''/''"

definition path_to_name :: "bytes \<Rightarrow> bytes option" where
  "path_to_name path =
     (if path = root_path then None
      else if path = [] \<or> hd path \<noteq> of_char CHR ''/'' then None
      else if of_char CHR ''/'' \<in> set (tl path) then None
      else Some (tl path))"

section \<open>Attributes\<close>

text \<open>The fields of \<open>struct stat\<close> the callback sets; all others stay zero.\<close>

record stat =
  st_mode :: u32
  st_nlink :: nat
  st_size :: u64
  st_blocks :: u64
  st_mtime :: u64
  st_atime :: u64
  st_ctime :: u64

definition S_IFDIR :: u32 where "S_IFDIR = 0x4000"
definition S_IFREG :: u32 where "S_IFREG = 0x8000"

text \<open>\<open>0x1ED\<close> and \<open>0x1A4\<close> are the octal modes 0755 and 0644.\<close>

definition fuse_getattr :: "env \<Rightarrow> volume \<Rightarrow> bytes \<Rightarrow> stat res \<times> volume" where
  "fuse_getattr E v path =
     (if path = root_path then
        (let m = i_mtime (inode_at v 0) in
         (Inr \<lparr>st_mode = S_IFDIR OR 0x1ED, st_nlink = 2, st_size = 0, st_blocks = 0,
            st_mtime = m, st_atime = m, st_ctime = m\<rparr>, v))
      else case path_to_name path of
        None \<Rightarrow> (Inl ENOENT, v)
      | Some name \<Rightarrow>
      case vol_lookup E v name of
        (Inl e, w) \<Rightarrow> (Inl ENOENT, w)
      | (Inr ino, w) \<Rightarrow>
      let nd = inode_at w (unat ino) in
      (Inr \<lparr>st_mode = S_IFREG OR 0x1A4, st_nlink = 1, st_size = i_size nd,
         st_blocks = ucast (i_block_count nd) * of_nat (SECTOR_SIZE div 512),
         st_mtime = i_mtime nd, st_atime = i_mtime nd, st_ctime = i_mtime nd\<rparr>, w))"

section \<open>Listing and opening\<close>

text \<open>\<open>filler\<close> is libfuse's buffer filler with its state; \<open>True\<close> is its non-zero result.\<close>

type_synonym 's filler = "bytes \<Rightarrow> 's \<Rightarrow> bool \<times> 's"

definition fill_cb :: "'s filler \<Rightarrow> 's readdir_cb" where
  "fill_cb filler name ino s = filler name s"

definition fuse_readdir ::
  "env \<Rightarrow> volume \<Rightarrow> bytes \<Rightarrow> 's filler \<Rightarrow> 's \<Rightarrow> (unit res \<times> 's) \<times> volume" where
  "fuse_readdir E v path filler s =
     (if path \<noteq> root_path then ((Inl ENOENT, s), v)
      else case filler (map of_char ''.'') s of (stop1, s1) \<Rightarrow>
      if stop1 then ((Inr (), s1), v)
      else case filler (map of_char ''..'') s1 of (stop2, s2) \<Rightarrow>
      if stop2 then ((Inr (), s2), v)
      else vol_readdir E v (fill_cb filler) s2)"

definition fuse_open :: "env \<Rightarrow> volume \<Rightarrow> bytes \<Rightarrow> unit res \<times> volume" where
  "fuse_open E v path =
     (case path_to_name path of
        None \<Rightarrow> (Inl EISDIR, v)
      | Some name \<Rightarrow>
      case vol_lookup E v name of
        (Inl e, w) \<Rightarrow> (Inl ENOENT, w)
      | (Inr ino, w) \<Rightarrow> (Inr (), w))"

section \<open>Data\<close>

text \<open>\<open>off_t\<close> is signed; it is tested before it is read as unsigned.\<close>

definition fuse_read :: "env \<Rightarrow> volume \<Rightarrow> bytes \<Rightarrow> nat \<Rightarrow> u64 \<Rightarrow> bytes res \<times> volume" where
  "fuse_read E v path sz offset =
     (if sint offset < 0 then (Inl EINVAL, v)
      else case path_to_name path of
        None \<Rightarrow> (Inl EISDIR, v)
      | Some name \<Rightarrow>
      case vol_lookup E v name of
        (Inl e, w) \<Rightarrow> (Inl ENOENT, w)
      | (Inr ino, w) \<Rightarrow> vol_read E w (unat ino) sz offset)"

definition fuse_write :: "env \<Rightarrow> u64 \<Rightarrow> volume \<Rightarrow> bytes \<Rightarrow> bytes \<Rightarrow> u64 \<Rightarrow> nat res \<times> volume" where
  "fuse_write E now v path buf offset =
     (if sint offset < 0 then (Inl EINVAL, v)
      else case path_to_name path of
        None \<Rightarrow> (Inl EISDIR, v)
      | Some name \<Rightarrow>
      case vol_lookup E v name of
        (Inl e, w) \<Rightarrow> (Inl ENOENT, w)
      | (Inr ino, w) \<Rightarrow> vol_write E now w (unat ino) buf offset)"

definition fuse_create :: "env \<Rightarrow> u64 \<Rightarrow> volume \<Rightarrow> bytes \<Rightarrow> u32 res \<times> volume" where
  "fuse_create E now v path =
     (case path_to_name path of
        None \<Rightarrow> (Inl EISDIR, v)
      | Some name \<Rightarrow> vol_create E now v name)"

definition fuse_unlink :: "env \<Rightarrow> volume \<Rightarrow> bytes \<Rightarrow> unit res \<times> volume" where
  "fuse_unlink E v path =
     (case path_to_name path of
        None \<Rightarrow> (Inl EISDIR, v)
      | Some name \<Rightarrow> vol_unlink E v name)"

definition fuse_truncate :: "env \<Rightarrow> u64 \<Rightarrow> volume \<Rightarrow> bytes \<Rightarrow> u64 \<Rightarrow> unit res \<times> volume" where
  "fuse_truncate E now v path sz =
     (if sint sz < 0 then (Inl EINVAL, v)
      else if DENYFS_MAX_FILE_SIZE < unat sz then (Inl ENOSPC, v)
      else case path_to_name path of
        None \<Rightarrow> (Inl EISDIR, v)
      | Some name \<Rightarrow>
      case vol_lookup E v name of
        (Inl e, w) \<Rightarrow> (Inl ENOENT, w)
      | (Inr ino, w) \<Rightarrow> vol_truncate E now w (unat ino) sz)"

text \<open>
  \<open>denyfs_vol_close\<close> closes the stream and wipes the memory; what remains is the container.
  \<open>destroy\<close> ignores the result of the flush.
\<close>

definition vol_close :: "volume \<Rightarrow> cfile" where
  "vol_close v = v_file v"

definition fuse_destroy :: "env \<Rightarrow> volume \<Rightarrow> cfile" where
  "fuse_destroy E v = (case vol_flush E v of (r, w) \<Rightarrow> vol_close w)"

section \<open>Dispatch\<close>

inductive fuse_step :: "env \<Rightarrow> volume \<Rightarrow> volume \<Rightarrow> bool" for E where
  f_getattr: "fuse_getattr E v path = (r, w) \<Longrightarrow> fuse_step E v w"
| f_readdir: "fuse_readdir E v path filler (s :: bytes list) = (r, w) \<Longrightarrow> fuse_step E v w"
| f_open: "fuse_open E v path = (r, w) \<Longrightarrow> fuse_step E v w"
| f_read: "fuse_read E v path sz offset = (r, w) \<Longrightarrow> fuse_step E v w"
| f_write: "fuse_write E now v path buf offset = (r, w) \<Longrightarrow> fuse_step E v w"
| f_create: "fuse_create E now v path = (r, w) \<Longrightarrow> fuse_step E v w"
| f_unlink: "fuse_unlink E v path = (r, w) \<Longrightarrow> fuse_step E v w"
| f_truncate: "fuse_truncate E now v path sz = (r, w) \<Longrightarrow> fuse_step E v w"

inductive fuse_run :: "env \<Rightarrow> volume \<Rightarrow> volume \<Rightarrow> bool" for E where
  f_stop: "fuse_run E v v"
| f_more: "fuse_step E v u \<Longrightarrow> fuse_run E u w \<Longrightarrow> fuse_run E v w"

section \<open>Callbacks are sequences of volume operations\<close>

lemma run_one: "vol_step E v c w \<Longrightarrow> \<exists>cs. vol_run E v cs w"
  by (rule exI [of _ "[c]"]) simp

lemma run_two: "vol_step E v c u \<Longrightarrow> vol_step E u d w \<Longrightarrow> \<exists>cs. vol_run E v cs w"
  by (rule exI [of _ "[c, d]"]) auto

lemma run_none: "\<exists>cs. vol_run E v cs v"
  by (rule exI [of _ "[]"]) simp

lemma fuse_step_run: "fuse_step E v w \<Longrightarrow> \<exists>cs. vol_run E v cs w"
proof (induction rule: fuse_step.induct)
  case (f_getattr v path r w)
  then show ?case
    by (auto simp: fuse_getattr_def Let_def run_none split: if_splits option.splits prod.splits sum.splits
        intro: run_one s_lookup)
next
  case (f_readdir v path filler s r w)
  then show ?case
    by (auto simp: fuse_readdir_def run_none split: if_splits prod.splits intro: run_one s_readdir)
next
  case (f_open v path r w)
  then show ?case
    by (auto simp: fuse_open_def run_none split: option.splits prod.splits sum.splits
        intro: run_one s_lookup)
next
  case (f_read v path sz offset r w)
  then show ?case
    by (auto simp: fuse_read_def run_none split: if_splits option.splits prod.splits sum.splits
        intro: run_one run_two s_lookup s_read)
next
  case (f_write now v path buf offset r w)
  then show ?case
    by (auto simp: fuse_write_def run_none split: if_splits option.splits prod.splits sum.splits
        intro: run_one run_two s_lookup s_write)
next
  case (f_create now v path r w)
  then show ?case
    by (auto simp: fuse_create_def run_none split: option.splits intro: run_one s_create)
next
  case (f_unlink v path r w)
  then show ?case
    by (auto simp: fuse_unlink_def run_none split: option.splits intro: run_one s_unlink)
next
  case (f_truncate now v path sz r w)
  then show ?case
    by (auto simp: fuse_truncate_def run_none split: if_splits option.splits prod.splits sum.splits
        intro: run_one run_two s_lookup s_truncate)
qed

lemma fuse_run_run: "fuse_run E v w \<Longrightarrow> \<exists>cs. vol_run E v cs w"
proof (induction rule: fuse_run.induct)
  case (f_stop v)
  show ?case by (rule run_none)
next
  case (f_more v u w)
  then obtain cs ds where "vol_run E v cs u" "vol_run E u ds w" using fuse_step_run by blast
  then show ?case using vol_run_append by blast
qed

end
