(* ===== verification/Format.thy ===== *)
theory Format
  imports Opening Fuse
begin

text \<open>
  What \<open>format_volume\<close> leaves on disk: the geometry it computes in 32 bits is the one
  \<open>validate_superblock\<close> expects, and the blocks it writes are those \<open>denyfs_vol_open\<close> loads.
\<close>

section \<open>Geometry\<close>

definition fmt_ok :: "u32 \<Rightarrow> bool" where
  "fmt_ok blocks \<longleftrightarrow> unat blocks \<le> UINT32_MAX - 8 \<and> fmt_data_start blocks < blocks"

lemma inode_table_blocks_eq: "inode_table_blocks = 2"
  by (simp add: inode_table_blocks_def layout_sizes)

lemma unat_SECTOR_SIZE [simp]: "unat (of_nat SECTOR_SIZE :: u32) = SECTOR_SIZE"
  by (simp add: SECTOR_SIZE_def)

lemma unat_fmt_bitmap_blocks:
  assumes "unat blocks \<le> UINT32_MAX - 8"
  shows "unat (fmt_bitmap_blocks blocks) = ((unat blocks + 7) div 8 + SECTOR_SIZE - 1) div SECTOR_SIZE"
proof -
  have 1: "unat (blocks + 7) = unat blocks + 7"
    using assms by (simp add: UINT32_MAX_def unat_word_ariths)
  then have 2: "unat ((blocks + 7) div 8) = (unat blocks + 7) div 8"
    by (simp add: unat_div_distrib)
  have "(unat blocks + 7) div 8 + SECTOR_SIZE < 2 ^ 32"
    using assms by (simp add: UINT32_MAX_def SECTOR_SIZE_def)
  then have "unat ((blocks + 7) div 8 + of_nat SECTOR_SIZE) = (unat blocks + 7) div 8 + SECTOR_SIZE"
    by (subst unat_word_ariths(1)) (simp only: 2 unat_SECTOR_SIZE, simp)
  moreover from this have "0 < unat ((blocks + 7) div 8 + of_nat SECTOR_SIZE :: u32)" by simp
  ultimately have "unat ((blocks + 7) div 8 + of_nat SECTOR_SIZE - 1) = (unat blocks + 7) div 8 + SECTOR_SIZE - 1"
    by (simp only: unat_minus_one_u32)
  then show ?thesis
    by (simp only: fmt_bitmap_blocks_def Let_def unat_div_distrib unat_SECTOR_SIZE)
qed

lemma fmt_bitmap_blocks_bound:
  "unat blocks \<le> UINT32_MAX - 8 \<Longrightarrow> unat (fmt_bitmap_blocks blocks) \<le> 2 ^ 17"
  by (simp add: unat_fmt_bitmap_blocks UINT32_MAX_def SECTOR_SIZE_def)

lemma unat_fmt_data_start:
  assumes "unat blocks \<le> UINT32_MAX - 8"
  shows "unat (fmt_data_start blocks) = 3 + unat (fmt_bitmap_blocks blocks)"
  using fmt_bitmap_blocks_bound [OF assms]
  by (simp add: fmt_data_start_def inode_table_blocks_eq unat_word_ariths)

lemma fmt_bitmap_covers:
  assumes "fmt_ok blocks"
  shows "unat blocks \<le> 8 * (unat (fmt_bitmap_blocks blocks) * SECTOR_SIZE)"
proof -
  have "unat blocks + 7 \<le> 8 * ((unat blocks + 7) div 8) + 7" by simp
  also have "(unat blocks + 7) div 8 \<le> unat (fmt_bitmap_blocks blocks) * SECTOR_SIZE"
    using assms ceil_div_ge [of SECTOR_SIZE] by (simp only: fmt_ok_def unat_fmt_bitmap_blocks) simp
  finally show ?thesis by simp
qed

section \<open>The bitmap\<close>

lemma length_foldl_set [simp]: "length (foldl bitmap_set bm is) = length bm"
  by (induction "is" arbitrary: bm) simp_all

lemma bitmap_test_foldl:
  "n \<le> 8 * length bm \<Longrightarrow> bitmap_test (foldl bitmap_set bm [0..<n]) j \<longleftrightarrow> j < n \<or> bitmap_test bm j"
  by (induction n) (auto simp: bitmap_test_set less_Suc_eq)

lemma bitmap_test_zero: "j < 8 * k \<Longrightarrow> \<not> bitmap_test (replicate k 0) j"
  by (simp add: bitmap_test_bit less_mult_imp_div_less mult.commute)

lemma length_fmt_bitmap [simp]:
  "length (fmt_bitmap blocks) = unat (fmt_bitmap_blocks blocks) * SECTOR_SIZE"
  by (simp add: fmt_bitmap_def Let_def)

lemma fmt_bitmap_test:
  assumes "fmt_ok blocks" "j < unat blocks"
  shows "bitmap_test (fmt_bitmap blocks) j \<longleftrightarrow> j \<le> unat (fmt_data_start blocks)"
proof -
  have "unat (fmt_data_start blocks) < unat blocks"
    using assms(1) by (simp add: fmt_ok_def word_less_nat_alt)
  with fmt_bitmap_covers [OF assms(1)] assms(2) show ?thesis
    by (auto simp: fmt_bitmap_def Let_def bitmap_test_set bitmap_test_foldl bitmap_test_zero)
qed

section \<open>The superblock and the inode table\<close>

lemma fmt_superblock_valid:
  assumes "fmt_ok (fmt_total_blocks sz)" "unat sz mod SECTOR_SIZE = 0" "sz \<noteq> 0"
    and "unat sz div SECTOR_SIZE \<le> UINT32_MAX - 8"
  shows "validate_superblock (fmt_superblock (fmt_total_blocks sz) h) sz"
proof -
  let ?b = "fmt_total_blocks sz"
  have b: "unat ?b = unat sz div SECTOR_SIZE"
    using assms(4) by (simp add: fmt_total_blocks_def unsigned_of_nat take_bit_nat_eq_self UINT32_MAX_def)
  have small: "unat ?b \<le> UINT32_MAX - 8" using assms(1) by (simp add: fmt_ok_def)
  note bb = unat_fmt_bitmap_blocks [OF small] and ds = unat_fmt_data_start [OF small]
    and bound = fmt_bitmap_blocks_bound [OF small]
  have lt: "unat (fmt_data_start ?b) < unat ?b" using assms(1) by (simp add: fmt_ok_def word_less_nat_alt)
  have is': "unat (1 + fmt_bitmap_blocks ?b) = 1 + unat (fmt_bitmap_blocks ?b)"
    using bound by (simp add: unat_word_ariths)
  have fb: "?b - fmt_data_start ?b - 1 \<le> ?b - fmt_data_start ?b"
    using lt by (intro word_le_nat_alt [THEN iffD2]) (simp add: unat_minus_one_u32 unat_sub word_le_nat_alt)
  have four: "4 \<le> unat ?b" using ds lt by linarith
  show ?thesis
    using assms(2,3) lt b bb ds is' fb four small bound
    by (simp add: validate_superblock_def fmt_superblock_def Let_def inode_table_blocks_eq
        word_le_nat_alt not_le word_less_nat_alt layout_sizes UINT32_MAX_def unat_eq_zero)
qed

lemma fmt_superblock_ok: "length h = DENYFS_HMAC_SIZE \<Longrightarrow> sb_ok (fmt_superblock blocks h)"
  by (simp add: sb_ok_def fmt_superblock_def)

lemma fmt_inodes_ok: "length (fmt_inodes r now) = DENYFS_MAX_INODES \<and> (\<forall>nd \<in> set (fmt_inodes r now). inode_ok nd)"
  by (auto simp: fmt_inodes_def inode_ok_def blank_inode_def layout_sizes
      dest!: set_update_subset_insert [THEN subsetD])

lemma fmt_inodes_nth:
  "i < DENYFS_MAX_INODES \<Longrightarrow> fmt_inodes r now ! i = (if i = 0 then blank_inode
     \<lparr>i_type := DENYFS_ITYPE_DIR, i_size := 0, i_block_count := 1,
      i_direct := (replicate DENYFS_DIRECT_BLOCKS DENYFS_INVALID_BLOCK)[0 := r], i_mtime := now\<rparr>
    else blank_inode)"
  by (simp add: fmt_inodes_def)

end
