(* ===== verification/Demo.thy ===== *)
theory Demo
  imports Format
begin

text \<open>
  A concrete mounted volume for the witnesses: a container of 24 sectors whose outer volume (8 blocks,
  freshly formatted, the root directory in block 4) occupies sectors 1 to 8 and whose sectors 9 to 23
  are protected. The libraries are \<open>plain_env\<close>.
\<close>

definition demo_blocks :: "bytes list" where
  "demo_blocks = [sb_enc (fmt_superblock 8 (replicate 32 0)), fmt_bitmap 8,
     slice 0 SECTOR_SIZE (inodes_enc (fmt_inodes 4 0)),
     slice SECTOR_SIZE SECTOR_SIZE (inodes_enc (fmt_inodes 4 0)),
     dirents_enc (replicate DENYFS_DIRENTS_PER_BLOCK free_entry)] @
     replicate 18 (replicate SECTOR_SIZE 0)"

definition demo_file :: cfile where
  "demo_file = \<lparr>f_bytes = replicate SECTOR_SIZE 0 @ concat demo_blocks, f_faults = []\<rparr>"

definition demo :: volume where
  "demo = \<lparr>v_file = demo_file, v_key = replicate KEY_SIZE_XTS 0, v_hkey = replicate KEY_SIZE_HMAC 0,
     v_size = 8 * 4096, v_sb = fmt_superblock 8 (replicate 32 0), v_bitmap = fmt_bitmap 8,
     v_dirty = [0], v_inodes = fmt_inodes 4 0, v_start = 4096, v_hidden = False, v_protect = True,
     v_pstart = 9, v_pend = 23\<rparr>"

lemma demo_fields [simp]:
  "v_file demo = demo_file" "v_sb demo = fmt_superblock 8 (replicate 32 0)"
  "v_bitmap demo = fmt_bitmap 8" "v_dirty demo = [0]" "v_inodes demo = fmt_inodes 4 0"
  "v_start demo = 4096" "v_size demo = 8 * 4096" "v_protect demo" "\<not> v_hidden demo"
  "v_pstart demo = 9" "v_pend demo = 23" "length (v_key demo) = KEY_SIZE_XTS"
  by (simp_all add: demo_def)

lemma demo_geometry:
  "fmt_bitmap_blocks 8 = 1" "fmt_data_start 8 = 4" "fmt_ok 8"
proof -
  show b: "fmt_bitmap_blocks 8 = 1"
    by (rule word_unat_eq_iff [THEN iffD2]) (simp add: unat_fmt_bitmap_blocks UINT32_MAX_def SECTOR_SIZE_def)
  show d: "fmt_data_start 8 = 4" by (simp add: fmt_data_start_def b inode_table_blocks_eq)
  show "fmt_ok 8" by (simp add: fmt_ok_def d UINT32_MAX_def)
qed

lemma free_entry_ok [simp]: "dirent_ok free_entry"
  by (simp add: dirent_ok_def free_entry_def)

lemma demo_block_length: "x \<in> set demo_blocks \<Longrightarrow> length x = SECTOR_SIZE"
  using fmt_inodes_ok [of 4 0]
  by (auto simp: demo_blocks_def length_sb_enc fmt_superblock_ok DENYFS_HMAC_SIZE_def demo_geometry
      length_dirents_enc length_inodes_enc layout_sizes)

lemma demo_block_count: "length demo_blocks = 23"
  by (simp add: demo_blocks_def)

lemma demo_file_length: "length (f_bytes demo_file) = 24 * SECTOR_SIZE"
  using length_concat_map_const [of demo_blocks id SECTOR_SIZE] demo_block_length
  by (simp add: demo_file_def demo_block_count)

lemma demo_sector:
  "i < 23 \<Longrightarrow> slice (SECTOR_SIZE + i * SECTOR_SIZE) SECTOR_SIZE (f_bytes demo_file) = demo_blocks ! i"
  using slice_concat_map [of demo_blocks id SECTOR_SIZE i] demo_block_length
  by (simp add: demo_file_def slice_append_right demo_block_count mult.commute)

lemma demo_geom: "vol_geom demo" "vol_blocks demo = 8"
  by (simp_all add: vol_geom_def vol_blocks_def SECTOR_SIZE_def LONG_MAX_def)

lemma demo_ready: "ready plain_env demo"
  by (auto simp: ready_def plain_env_correct demo_geom demo_file_length blocked_def SECTOR_SIZE_def)
    (simp add: demo_file_def)

lemma demo_cells: "unat b < 8 \<Longrightarrow> cells plain_env demo b = demo_blocks ! unat b"
  using demo_sector [of "unat b"] by (simp add: cells_def SECTOR_SIZE_def)

lemma demo_total [simp]:
  "sb_total_blocks (fmt_superblock 8 h) = 8" "sb_data_start (fmt_superblock 8 h) = 4"
  by (simp_all add: fmt_superblock_def demo_geometry)

lemma demo_pool: "pool demo = {4..<8}"
  by (simp add: pool_def demo_total)

lemma demo_used: "used demo = {4}"
  using fmt_bitmap_test [OF demo_geometry(3)]
  by (auto simp: used_def demo_pool demo_geometry)

lemma demo_bitmap_inv: "bitmap_inv demo" "small_volume demo"
proof -
  have "pool demo - used demo = {5..<8}" by (auto simp: demo_pool demo_used)
  then show "bitmap_inv demo"
    by (simp add: bitmap_inv_def demo_total demo_geometry SECTOR_SIZE_def)
      (simp add: fmt_superblock_def demo_geometry)
  show "small_volume demo" by (simp add: small_volume_def demo_total)
qed

lemma demo_free: "pool demo - used demo = {5, 6, 7}"
  by (auto simp: demo_pool demo_used)

lemma demo_alloc: "fst (alloc_block demo) = 5"
proof (cases demo rule: alloc_block_cases)
  case full
  then show ?thesis using demo_free by simp
next
  case (found i)
  then have "i = 5" using lowest_free [OF found(1-3)] by (simp add: demo_free)
  then show ?thesis using found(4) sint_of_nat_u32 [of 5] by simp
qed

text \<open>
  A volume of \<open>2 ^ 31 + 8\<close> blocks, the largest that needs a negative \<open>int\<close>: its first \<open>2 ^ 31\<close> blocks
  are taken.
\<close>

definition huge :: volume where
  "huge = demo\<lparr>v_bitmap := replicate (2 ^ 28) (- 1) @ replicate 65536 0,
     v_sb := (v_sb demo)\<lparr>sb_total_blocks := 2 ^ 31 + 8, sb_data_start := 65540, sb_free_blocks := 8\<rparr>\<rparr>"

lemma huge_pool: "pool huge = {65540..<2 ^ 31 + 8}"
  by (simp add: pool_def huge_def)

lemma huge_bitmap: "i < 2 ^ 31 + 8 \<Longrightarrow> bitmap_test (v_bitmap huge) i \<longleftrightarrow> i < 2 ^ 31"
  by (auto simp: bitmap_test_bit huge_def nth_append bit_simps less_mult_imp_div_less)

lemma huge_used: "used huge = {65540..<2 ^ 31}"
  by (auto simp: used_def huge_pool huge_bitmap)

lemma huge_free: "pool huge - used huge = {2 ^ 31..<2 ^ 31 + 8}"
  by (auto simp: huge_pool huge_used)

lemma huge_inv: "bitmap_inv huge"
  unfolding bitmap_inv_def huge_free by (simp add: huge_def)

end
