(* ===== verification/Sync.thy ===== *)
theory Sync
  imports Demo
begin

text \<open>
  The in-memory metadata and its image on disk: when \<open>denyfs_vol_flush\<close> succeeds the blocks of the
  superblock, the bitmap and the inode table hold exactly the structures in memory, and
  \<open>denyfs_vol_open\<close> loads them back.
\<close>

section \<open>Definitions\<close>

text \<open>The shape a mounted volume has from \<open>denyfs_vol_open\<close> on.\<close>

definition wf :: "volume \<Rightarrow> bool" where
  "wf v \<longleftrightarrow> validate_superblock (v_sb v) (v_size v) \<and> sb_ok (v_sb v) \<and>
     length (v_bitmap v) = unat (sb_bitmap_blocks (v_sb v)) * SECTOR_SIZE \<and>
     length (v_dirty v) = unat (sb_bitmap_blocks (v_sb v)) \<and>
     length (v_inodes v) = DENYFS_MAX_INODES \<and> inodes_ok v"

definition bitmap_on_disk :: "env \<Rightarrow> volume \<Rightarrow> nat \<Rightarrow> bool" where
  "bitmap_on_disk E v i \<longleftrightarrow>
     cells E v (sb_bitmap_start (v_sb v) + of_nat i) = slice (i * SECTOR_SIZE) SECTOR_SIZE (v_bitmap v)"

definition inodes_on_disk :: "env \<Rightarrow> volume \<Rightarrow> nat \<Rightarrow> bool" where
  "inodes_on_disk E v i \<longleftrightarrow>
     cells E v (sb_inode_start (v_sb v) + of_nat i) =
       slice (i * SECTOR_SIZE) SECTOR_SIZE (inodes_enc (v_inodes v))"

definition synced :: "env \<Rightarrow> volume \<Rightarrow> bool" where
  "synced E v \<longleftrightarrow> cells E v 0 = sb_enc (v_sb v) \<and>
     (\<forall>i < unat (sb_bitmap_blocks (v_sb v)). bitmap_on_disk E v i) \<and>
     (\<forall>i < unat (sb_inode_blocks (v_sb v)). inodes_on_disk E v i)"

text \<open>A bitmap sector that is not marked dirty is on disk.\<close>

definition clean_synced :: "env \<Rightarrow> volume \<Rightarrow> bool" where
  "clean_synced E v \<longleftrightarrow>
     (\<forall>i < unat (sb_bitmap_blocks (v_sb v)). v_dirty v ! i = 0 \<longrightarrow> bitmap_on_disk E v i)"

lemma validate_hmac [simp]: "validate_superblock (sb\<lparr>sb_bitmap_hmac := h\<rparr>) sz = validate_superblock sb sz"
  unfolding validate_superblock_def by simp

lemma wf_flushed:
  "wf v \<Longrightarrow> length h = DENYFS_HMAC_SIZE \<Longrightarrow> length d = length (v_dirty v) \<Longrightarrow>
   wf (v\<lparr>v_file := f, v_sb := (v_sb v)\<lparr>sb_bitmap_hmac := h\<rparr>, v_dirty := d\<rparr>)"
  by (simp add: wf_def inodes_ok_def sb_ok_def)

section \<open>Geometry\<close>

lemma vol_blocks_u32: "validate_superblock sb sz \<Longrightarrow> unat sz div SECTOR_SIZE < 2 ^ 32"
  using validate_superblock_facts [of sb sz] unat_less_2p [of "sb_total_blocks sb"] by simp

lemma wf_facts:
  assumes "wf v"
  shows "sb_magic (v_sb v) = DENYFS_SB_MAGIC" "total_blocks v = vol_blocks v"
    "sb_bitmap_start (v_sb v) = 1" "unat (sb_inode_blocks (v_sb v)) = 2"
    "unat (sb_inode_start (v_sb v)) = 1 + unat (sb_bitmap_blocks (v_sb v))"
    "data_start v = 3 + unat (sb_bitmap_blocks (v_sb v))"
    "data_start v < vol_blocks v" "unat (sb_bitmap_blocks (v_sb v)) < 2 ^ 18"
    "total_blocks v \<le> 8 * length (v_bitmap v)"
proof -
  note f = validate_superblock_facts [of "v_sb v" "v_size v"]
  have 1: "validate_superblock (v_sb v) (v_size v)" using assms by (simp add: wf_def)
  show "sb_magic (v_sb v) = DENYFS_SB_MAGIC" "total_blocks v = vol_blocks v"
    "sb_bitmap_start (v_sb v) = 1" "unat (sb_inode_blocks (v_sb v)) = 2"
    "unat (sb_inode_start (v_sb v)) = 1 + unat (sb_bitmap_blocks (v_sb v))"
    "data_start v = 3 + unat (sb_bitmap_blocks (v_sb v))"
    using f [OF 1] by (simp_all add: vol_blocks_def inode_table_blocks_eq)
  show "data_start v < vol_blocks v" using f [OF 1] unfolding vol_blocks_def by metis
  have "unat (sb_bitmap_blocks (v_sb v)) = ((total_blocks v + 7) div 8 + SECTOR_SIZE - 1) div SECTOR_SIZE"
    using f [OF 1] by blast
  moreover have "total_blocks v < 2 ^ 32" using unat_less_2p [of "sb_total_blocks (v_sb v)"] by simp
  ultimately show "unat (sb_bitmap_blocks (v_sb v)) < 2 ^ 18" by (simp add: SECTOR_SIZE_def)
  have "total_blocks v + 7 \<le> 8 * ((total_blocks v + 7) div 8) + 7" by simp
  also have "(total_blocks v + 7) div 8 \<le> length (v_bitmap v)"
    using assms ceil_div_ge [of SECTOR_SIZE "(total_blocks v + 7) div 8"] f [OF 1] by (simp add: wf_def)
  finally show "total_blocks v \<le> 8 * length (v_bitmap v)" by simp
qed

lemma sector_off_eq: "i < 2 ^ 20 \<Longrightarrow> sector_off i = i * SECTOR_SIZE"
  by (simp add: sector_off_def unat_word_ariths unsigned_of_nat take_bit_nat_eq_self SECTOR_SIZE_def)

lemma unat_block_plus:
  "unat (b :: u32) + i < 2 ^ 32 \<Longrightarrow> unat (b + of_nat i) = unat b + i"
  by (simp add: unat_word_ariths unsigned_of_nat take_bit_nat_eq_self)

section \<open>Writing metadata sectors\<close>

text \<open>The cells that a loop over the indices \<open>is\<close> writes from \<open>buf\<close> at \<open>base\<close>.\<close>

definition stored :: "u32 \<Rightarrow> bytes \<Rightarrow> nat set \<Rightarrow> (u32 \<Rightarrow> bytes) \<Rightarrow> u32 \<Rightarrow> bytes" where
  "stored base buf I old c = (if unat base \<le> unat c \<and> unat c - unat base \<in> I
     then slice ((unat c - unat base) * SECTOR_SIZE) SECTOR_SIZE buf else old c)"

definition sectors_ok :: "volume \<Rightarrow> u32 \<Rightarrow> bytes \<Rightarrow> nat list \<Rightarrow> bool" where
  "sectors_ok v base buf is \<longleftrightarrow> vol_blocks v < 2 ^ 32 \<and>
     (\<forall>i \<in> set is. unat base + i < vol_blocks v \<and> (i + 1) * SECTOR_SIZE \<le> length buf \<and> i < 2 ^ 20)"

lemma sectors_ok_Cons:
  "sectors_ok v base buf (i # is) \<Longrightarrow> sectors_ok v base buf is \<and>
     unat (base + of_nat i) = unat base + i \<and> unat base + i < vol_blocks v \<and>
     sector_off i = i * SECTOR_SIZE \<and> length (slice (i * SECTOR_SIZE) SECTOR_SIZE buf) = SECTOR_SIZE"
  by (auto simp: sectors_ok_def unat_block_plus sector_off_eq)

lemma write_block_raw_eq:
  assumes "unat b < vol_blocks v" "\<not> blocked v b"
  shows "write_block_raw E (v_file v) (v_key v) (v_start v) b d =
    (case write_block E v b d of (Inl e, w) \<Rightarrow> (False, v_file w) | (Inr _, w) \<Rightarrow> fflush (v_file w))"
  using assms
  by (auto simp: write_block_raw_def write_block_def Let_def split: option.split prod.split)

text \<open>\<open>w\<close> is a usable state with the in-memory part of \<open>v\<close> and the plaintext \<open>f\<close> in its cells.\<close>

definition becomes :: "env \<Rightarrow> volume \<Rightarrow> (u32 \<Rightarrow> bytes) \<Rightarrow> volume \<Rightarrow> bool" where
  "becomes E v f w \<longleftrightarrow> ready E w \<and> meta w = meta v \<and>
     (\<forall>c. unat c < vol_blocks v \<longrightarrow> cells E w c = f c)"

lemma meta_blocks: "meta w = meta v \<Longrightarrow> vol_blocks w = vol_blocks v"
  using meta_fields [of w v] by (simp add: vol_blocks_def)

lemma becomes_trans:
  assumes "becomes E v f u" "becomes E u g w"
    and "\<And>c. unat c < vol_blocks v \<Longrightarrow> g c = h c"
  shows "becomes E v h w"
  using assms meta_blocks [of u v] by (simp add: becomes_def)

lemma write_becomes:
  assumes "ready E v" "unat b < vol_blocks v" "length d = SECTOR_SIZE"
  shows "\<exists>w. write_block E v b d = (Inr (), w) \<and> becomes E v ((cells E v)(b := d)) w"
  using bs.wr_ok [OF assms] by (auto simp: becomes_def)

lemma raw_becomes:
  assumes "ready E v" "unat b < vol_blocks v" "length d = SECTOR_SIZE"
  shows "\<exists>w. write_block_raw E (v_file v) (v_key v) (v_start v) b d = (True, v_file w) \<and>
    becomes E v ((cells E v)(b := d)) w"
proof -
  obtain w where w: "write_block E v b d = (Inr (), w)" "becomes E v ((cells E v)(b := d)) w"
    using write_becomes [OF assms] by blast
  then have "f_faults (v_file w) = []" by (simp add: becomes_def ready_def)
  with w assms(1,2) show ?thesis
    by (intro exI [of _ w]) (simp add: write_block_raw_eq ready_def)
qed

lemma stored_step:
  assumes "unat (base + of_nat i) = unat base + i"
  shows "stored base buf (set is) (old(base + of_nat i := slice (i * SECTOR_SIZE) SECTOR_SIZE buf)) c =
    stored base buf (set (i # is)) old c"
  using assms by (auto simp: stored_def word_unat_eq_iff)

lemma stored_cong:
  "old c = old' c \<Longrightarrow> stored base buf I old c = stored base buf I old' c"
  by (simp add: stored_def)

text \<open>One write of the loop, then the rest: the step shared by the loops below.\<close>

lemma stored_loop:
  assumes "becomes E v ((cells E v)(base + of_nat i := slice (i * SECTOR_SIZE) SECTOR_SIZE buf)) u"
    and "becomes E u (stored base buf (set is) (cells E u)) w"
    and "unat (base + of_nat i) = unat base + i"
  shows "becomes E v (stored base buf (set (i # is)) (cells E v)) w"
proof (rule becomes_trans [OF assms(1,2)])
  fix c :: u32 assume "unat c < vol_blocks v"
  then have "cells E u c =
      ((cells E v)(base + of_nat i := slice (i * SECTOR_SIZE) SECTOR_SIZE buf)) c"
    using assms(1) by (simp only: becomes_def)
  then have "stored base buf (set is) (cells E u) c = stored base buf (set is)
      ((cells E v)(base + of_nat i := slice (i * SECTOR_SIZE) SECTOR_SIZE buf)) c"
    by (rule stored_cong)
  with stored_step [OF assms(3)]
  show "stored base buf (set is) (cells E u) c = stored base buf (set (i # is)) (cells E v) c"
    by simp
qed

lemma becomes_self: "ready E v \<Longrightarrow> becomes E v (stored base buf {} (cells E v)) v"
  by (simp add: becomes_def stored_def)

lemma sectors_ok_meta: "sectors_ok v base buf is \<Longrightarrow> meta u = meta v \<Longrightarrow> sectors_ok u base buf is"
  using meta_blocks [of u v] by (simp add: sectors_ok_def)

lemma write_sectors_becomes:
  assumes "ready E v" "sectors_ok v base buf is"
  shows "\<exists>w. write_sectors E (v_file v) (v_key v) (v_start v) base buf is = (True, v_file w) \<and>
    becomes E v (stored base buf (set is) (cells E v)) w"
  using assms
proof (induction "is" arbitrary: v)
  case Nil
  then show ?case by (intro exI [of _ v]) (simp add: becomes_self)
next
  case (Cons i "is")
  note i = sectors_ok_Cons [OF Cons.prems(2)]
  then obtain u where u: "write_block_raw E (v_file v) (v_key v) (v_start v) (base + of_nat i)
      (slice (i * SECTOR_SIZE) SECTOR_SIZE buf) = (True, v_file u)"
    "becomes E v ((cells E v)(base + of_nat i := slice (i * SECTOR_SIZE) SECTOR_SIZE buf)) u"
    using raw_becomes [OF Cons.prems(1)] by metis
  then have "ready E u" "meta u = meta v" by (simp_all add: becomes_def)
  with i meta_fields [of u v] obtain w where
    w: "write_sectors E (v_file u) (v_key v) (v_start v) base buf is = (True, v_file w)"
    "becomes E u (stored base buf (set is) (cells E u)) w"
    using Cons.IH [of u] sectors_ok_meta by metis
  then show ?case
    using i u(1) stored_loop [OF u(2) w(2)] by (intro exI [of _ w]) simp
qed

text \<open>The loops of the flush.\<close>

lemma flush_inodes_becomes:
  assumes "ready E v" "sectors_ok v (sb_inode_start (v_sb v)) (inodes_enc (v_inodes v)) is"
  shows "\<exists>w. flush_inodes E v is = (Inr (), w) \<and>
    becomes E v (stored (sb_inode_start (v_sb v)) (inodes_enc (v_inodes v)) (set is) (cells E v)) w"
  using assms
proof (induction "is" arbitrary: v)
  case Nil
  then show ?case by (intro exI [of _ v]) (simp add: becomes_self)
next
  case (Cons i "is")
  let ?base = "sb_inode_start (v_sb v)" and ?buf = "inodes_enc (v_inodes v)"
  note i = sectors_ok_Cons [OF Cons.prems(2)]
  then obtain u where u: "write_block E v (?base + of_nat i) (slice (i * SECTOR_SIZE) SECTOR_SIZE ?buf) =
      (Inr (), u)" "becomes E v ((cells E v)(?base + of_nat i := slice (i * SECTOR_SIZE) SECTOR_SIZE ?buf)) u"
    using write_becomes [OF Cons.prems(1)] by metis
  then have r: "ready E u" and m: "meta u = meta v" by (simp_all add: becomes_def)
  from meta_fields [OF m] have same: "v_sb u = v_sb v" "v_inodes u = v_inodes v" by simp_all
  obtain w where w: "flush_inodes E u is = (Inr (), w)"
    "becomes E u (stored ?base ?buf (set is) (cells E u)) w"
    using Cons.IH [OF r] sectors_ok_meta [OF _ m] i unfolding same by blast
  then show ?case
    using i u(1) stored_loop [OF u(2) w(2)] by (intro exI [of _ w]) simp
qed

lemma flush_bitmap_becomes:
  assumes "ready E v" "sectors_ok v (sb_bitmap_start (v_sb v)) (v_bitmap v) is"
  shows "\<exists>w. flush_bitmap E v is = (Inr (), w) \<and>
    becomes E v (stored (sb_bitmap_start (v_sb v)) (v_bitmap v) {i \<in> set is. v_dirty v ! i \<noteq> 0} (cells E v)) w"
  using assms
proof (induction "is" arbitrary: v)
  case Nil
  then show ?case by (intro exI [of _ v]) (simp add: becomes_self)
next
  case (Cons i "is")
  let ?base = "sb_bitmap_start (v_sb v)" and ?buf = "v_bitmap v"
  let ?dirty = "\<lambda>is. filter (\<lambda>i. v_dirty v ! i \<noteq> 0) is"
  note i = sectors_ok_Cons [OF Cons.prems(2)]
  show ?case
  proof (cases "v_dirty v ! i = 0")
    case True
    then have "{j \<in> set (i # is). v_dirty v ! j \<noteq> 0} = {j \<in> set is. v_dirty v ! j \<noteq> 0}" by auto
    with True Cons.IH [OF Cons.prems(1)] i show ?thesis by simp
  next
    case False
    obtain u where u: "write_block E v (?base + of_nat i) (slice (i * SECTOR_SIZE) SECTOR_SIZE ?buf) =
        (Inr (), u)" "becomes E v ((cells E v)(?base + of_nat i := slice (i * SECTOR_SIZE) SECTOR_SIZE ?buf)) u"
      using i write_becomes [OF Cons.prems(1)] by metis
    then have r: "ready E u" and m: "meta u = meta v" by (simp_all add: becomes_def)
    from meta_fields [OF m] have same: "v_sb u = v_sb v" "v_bitmap u = v_bitmap v" "v_dirty u = v_dirty v"
      by simp_all
    obtain w where w: "flush_bitmap E u is = (Inr (), w)"
      "becomes E u (stored ?base ?buf (set (?dirty is)) (cells E u)) w"
      using Cons.IH [OF r] sectors_ok_meta [OF _ m] i unfolding same by auto
    have "{j \<in> set (i # is). v_dirty v ! j \<noteq> 0} = set (i # ?dirty is)" using False by auto
    then show ?thesis
      using False i u(1) w(1) stored_loop [OF u(2) w(2)] by (intro exI [of _ w]) simp
  qed
qed

section \<open>Flush\<close>

lemma cells_cong:
  "v_file w = v_file v \<Longrightarrow> v_start w = v_start v \<Longrightarrow> v_key w = v_key v \<Longrightarrow> cells E w = cells E v"
  by (rule ext) (simp add: cells_def)

lemma cells_upd [simp]:
  "cells E (v\<lparr>v_sb := s\<rparr>) = cells E v" "cells E (v\<lparr>v_dirty := d\<rparr>) = cells E v"
  "cells E (v\<lparr>v_bitmap := bm\<rparr>) = cells E v" "cells E (v\<lparr>v_inodes := nds\<rparr>) = cells E v"
  by (rule cells_cong; simp)+

lemma vol_blocks_upd [simp]:
  "vol_blocks (v\<lparr>v_sb := s\<rparr>) = vol_blocks v" "vol_blocks (v\<lparr>v_dirty := d\<rparr>) = vol_blocks v"
  "vol_blocks (v\<lparr>v_bitmap := bm\<rparr>) = vol_blocks v" "vol_blocks (v\<lparr>v_inodes := nds\<rparr>) = vol_blocks v"
  "vol_blocks (v\<lparr>v_file := f\<rparr>) = vol_blocks v"
  by (simp_all add: vol_blocks_def)

lemma ready_upd [simp]:
  "ready E (v\<lparr>v_sb := s\<rparr>) = ready E v" "ready E (v\<lparr>v_dirty := d\<rparr>) = ready E v"
  "ready E (v\<lparr>v_bitmap := bm\<rparr>) = ready E v" "ready E (v\<lparr>v_inodes := nds\<rparr>) = ready E v"
  by (auto simp: ready_def vol_geom_def vol_blocks_def blocked_def)

lemma compute_hmac_length: "compute_hmac E k d = Some h \<Longrightarrow> length h = DENYFS_HMAC_SIZE"
  by (auto simp: compute_hmac_def DENYFS_HMAC_SIZE_def split: option.splits if_splits)

lemma wf_sectors_ok:
  assumes "wf v"
  shows "sectors_ok v (sb_bitmap_start (v_sb v)) (v_bitmap v) [0..<unat (sb_bitmap_blocks (v_sb v))]"
    and "sectors_ok v (sb_inode_start (v_sb v)) (inodes_enc (v_inodes v))
      [0..<unat (sb_inode_blocks (v_sb v))]"
proof -
  note f = wf_facts [OF assms]
  have n: "vol_blocks v < 2 ^ 32" using f(2) unat_less_2p [of "sb_total_blocks (v_sb v)"] by simp
  have b: "(i + 1) * SECTOR_SIZE \<le> length (v_bitmap v)" if "i < unat (sb_bitmap_blocks (v_sb v))" for i
  proof -
    have "(i + 1) * SECTOR_SIZE \<le> unat (sb_bitmap_blocks (v_sb v)) * SECTOR_SIZE"
      using that by (intro mult_le_mono1) simp
    then show ?thesis using assms by (simp only: wf_def)
  qed
  then show "sectors_ok v (sb_bitmap_start (v_sb v)) (v_bitmap v) [0..<unat (sb_bitmap_blocks (v_sb v))]"
    using f n by (auto simp: sectors_ok_def)
  have "length (inodes_enc (v_inodes v)) = 2 * SECTOR_SIZE"
    using assms by (simp add: wf_def inodes_ok_def length_inodes_enc layout_sizes)
  then show "sectors_ok v (sb_inode_start (v_sb v)) (inodes_enc (v_inodes v))
      [0..<unat (sb_inode_blocks (v_sb v))]"
    using f n by (auto simp: sectors_ok_def SECTOR_SIZE_def)
qed

lemma flush_disk:
  assumes v: "ready E v" and wf: "wf v" and h: "compute_hmac E (v_hkey v) (v_bitmap v) = Some h"
  defines "sb \<equiv> (v_sb v)\<lparr>sb_bitmap_hmac := h\<rparr>"
  shows "\<exists>w f. vol_flush E v = (Inr (), w) \<and> ready E w \<and>
    w = v\<lparr>v_file := f, v_sb := sb, v_dirty := replicate (length (v_dirty v)) 0\<rparr> \<and>
    (\<forall>c. unat c < vol_blocks v \<longrightarrow> cells E w c =
      stored (sb_inode_start (v_sb v)) (inodes_enc (v_inodes v)) {0..<unat (sb_inode_blocks (v_sb v))}
       (stored (sb_bitmap_start (v_sb v)) (v_bitmap v)
         {i \<in> {0..<unat (sb_bitmap_blocks (v_sb v))}. v_dirty v ! i \<noteq> 0} ((cells E v)(0 := sb_enc sb))) c)"
proof -
  let ?v1 = "v\<lparr>v_sb := sb\<rparr>"
  have sb: "sb_ok sb" using wf h by (simp add: wf_def sb_def sb_ok_def compute_hmac_length)
  have fields: "sb_bitmap_start sb = sb_bitmap_start (v_sb v)" "sb_bitmap_blocks sb = sb_bitmap_blocks (v_sb v)"
    "sb_inode_start sb = sb_inode_start (v_sb v)" "sb_inode_blocks sb = sb_inode_blocks (v_sb v)"
    by (simp_all add: sb_def)
  have len: "length (sb_enc sb) = SECTOR_SIZE" using sb by (rule length_sb_enc)
  have "0 < vol_blocks v" using wf_facts(7) [OF wf] by simp
  then obtain v2 where v2: "write_block E ?v1 0 (sb_enc sb) = (Inr (), v2)"
    "becomes E ?v1 ((cells E v)(0 := sb_enc sb)) v2"
    using write_becomes [of E ?v1 0 "sb_enc sb"] v len by (auto simp: vol_blocks_def)
  then have r2: "ready E v2" and m2: "meta v2 = meta ?v1" by (simp_all add: becomes_def)
  have f2: "v_sb v2 = sb" "v_bitmap v2 = v_bitmap v" "v_dirty v2 = v_dirty v" "v_inodes v2 = v_inodes v"
    using meta_fields [OF m2] by simp_all
  have nb: "vol_blocks ?v1 = vol_blocks v" by (simp add: vol_blocks_def)
  have so: "sectors_ok ?v1 b buf is = sectors_ok v b buf is" for b buf "is" by (simp add: sectors_ok_def nb)
  have "sectors_ok v2 (sb_bitmap_start (v_sb v2)) (v_bitmap v2) [0..<unat (sb_bitmap_blocks sb)]"
    using sectors_ok_meta [OF _ m2] wf_sectors_ok(1) [OF wf] by (simp add: f2 fields so)
  from flush_bitmap_becomes [OF r2 this] obtain v3 where
    v3: "flush_bitmap E v2 [0..<unat (sb_bitmap_blocks sb)] = (Inr (), v3)"
    "becomes E v2 (stored (sb_bitmap_start sb) (v_bitmap v)
       {i \<in> {0..<unat (sb_bitmap_blocks sb)}. v_dirty v ! i \<noteq> 0} (cells E v2)) v3"
    by (auto simp: f2)
  then have r3: "ready E v3" and m3: "meta v3 = meta ?v1" by (simp_all add: becomes_def m2)
  have f3: "v_sb v3 = sb" "v_inodes v3 = v_inodes v" using meta_fields [OF m3] by simp_all
  have "sectors_ok v3 (sb_inode_start (v_sb v3)) (inodes_enc (v_inodes v3)) [0..<unat (sb_inode_blocks sb)]"
    using sectors_ok_meta [OF _ m3] wf_sectors_ok(2) [OF wf] by (simp add: f3 fields so)
  from flush_inodes_becomes [OF r3 this] obtain v4 where
    v4: "flush_inodes E v3 [0..<unat (sb_inode_blocks sb)] = (Inr (), v4)"
    "becomes E v3 (stored (sb_inode_start sb) (inodes_enc (v_inodes v))
       {0..<unat (sb_inode_blocks sb)} (cells E v3)) v4"
    by (auto simp: f3)
  then have r4: "ready E v4" and m4: "meta v4 = meta ?v1" by (simp_all add: becomes_def m3)
  have f4: "v4 = v\<lparr>v_sb := sb, v_file := v_file v4\<rparr>" using meta_eqD [OF m4] by simp
  let ?w = "v4\<lparr>v_dirty := replicate (length (v_dirty v)) 0\<rparr>"
  have "f_faults (v_file v4) = []" "v_dirty v4 = v_dirty v" "v_sb v4 = sb"
    using r4 meta_fields [OF m4] by (simp_all add: ready_def)
  then have "vol_flush E v = (Inr (), ?w)"
    using h v2(1) v3(1) v4(1) by (simp add: vol_flush_def Let_def sb_def [symmetric] f2 f3)
  moreover have "ready E ?w" using r4 by simp
  moreover have "?w = v\<lparr>v_file := v_file v4, v_sb := sb, v_dirty := replicate (length (v_dirty v)) 0\<rparr>"
    by (subst f4) simp
  moreover have "cells E ?w c =
      stored (sb_inode_start (v_sb v)) (inodes_enc (v_inodes v)) {0..<unat (sb_inode_blocks (v_sb v))}
       (stored (sb_bitmap_start (v_sb v)) (v_bitmap v)
         {i \<in> {0..<unat (sb_bitmap_blocks (v_sb v))}. v_dirty v ! i \<noteq> 0} ((cells E v)(0 := sb_enc sb))) c"
    if "unat c < vol_blocks v" for c
    using that v2(2) v3(2) v4(2) meta_blocks [OF m2] meta_blocks [OF m3] nb
    by (simp add: becomes_def stored_def fields)
  ultimately show ?thesis by blast
qed

theorem flush_synced:
  assumes v: "ready E v" and wf: "wf v" and clean: "clean_synced E v"
    and h: "compute_hmac E (v_hkey v) (v_bitmap v) = Some h"
  shows "\<exists>w f. vol_flush E v = (Inr (), w) \<and> ready E w \<and> synced E w \<and>
    w = v\<lparr>v_file := f, v_sb := (v_sb v)\<lparr>sb_bitmap_hmac := h\<rparr>,
      v_dirty := replicate (length (v_dirty v)) 0\<rparr> \<and>
    (\<forall>c. data_start v \<le> unat c \<and> unat c < vol_blocks v \<longrightarrow> cells E w c = cells E v c)"
proof -
  let ?sb = "(v_sb v)\<lparr>sb_bitmap_hmac := h\<rparr>"
  from flush_disk [OF v wf h] obtain w f where w: "vol_flush E v = (Inr (), w)" "ready E w"
    "w = v\<lparr>v_file := f, v_sb := ?sb, v_dirty := replicate (length (v_dirty v)) 0\<rparr>"
    and c: "\<And>c. unat c < vol_blocks v \<Longrightarrow> cells E w c =
      stored (sb_inode_start (v_sb v)) (inodes_enc (v_inodes v)) {0..<unat (sb_inode_blocks (v_sb v))}
       (stored (sb_bitmap_start (v_sb v)) (v_bitmap v)
         {i \<in> {0..<unat (sb_bitmap_blocks (v_sb v))}. v_dirty v ! i \<noteq> 0} ((cells E v)(0 := sb_enc ?sb))) c"
    by blast
  note g = wf_facts [OF wf]
  have eqs: "v_sb w = ?sb" "v_bitmap w = v_bitmap v" "v_inodes w = v_inodes v"
    unfolding w(3) by simp_all
  have ub: "unat (1 + of_nat i :: u32) = 1 + i" if "i < 2 ^ 20" for i
    using that unat_block_plus [of 1 i] by simp
  have "bitmap_on_disk E w i" if "i < unat (sb_bitmap_blocks (v_sb v))" for i
  proof -
    have "i < 2 ^ 20" using that g(8) by simp
    from ub [OF this] have "cells E w (1 + of_nat i) = slice (i * SECTOR_SIZE) SECTOR_SIZE (v_bitmap v)"
      using that g clean c [of "1 + of_nat i"]
      by (auto simp: stored_def clean_synced_def bitmap_on_disk_def unsigned_eq_0_iff [symmetric]
          simp del: unsigned_eq_0_iff)
    then show ?thesis by (simp add: bitmap_on_disk_def eqs g(3))
  qed
  moreover have "inodes_on_disk E w i" if "i < unat (sb_inode_blocks (v_sb v))" for i
  proof -
    have "unat (sb_inode_start (v_sb v) + of_nat i) = unat (sb_inode_start (v_sb v)) + i"
      using that g by (intro unat_block_plus) simp
    then show ?thesis
      using that g c [of "sb_inode_start (v_sb v) + of_nat i"]
      by (simp add: inodes_on_disk_def eqs stored_def)
  qed
  moreover have "cells E w 0 = sb_enc (v_sb w)"
    using g c [of 0] by (simp add: eqs stored_def)
  ultimately have "synced E w" by (simp add: synced_def eqs)
  moreover have "cells E w b = cells E v b" if "data_start v \<le> unat b" "unat b < vol_blocks v" for b
    using that g c [OF that(2)] by (auto simp: stored_def)
  ultimately show ?thesis using w by blast
qed

section \<open>Loading\<close>

lemma read_sectors_ready:
  assumes "ready E v" "sectors_ok v base buf is"
  shows "read_sectors E v base buf is =
    (Some (foldl (\<lambda>b i. overwrite (i * SECTOR_SIZE) (cells E v (base + of_nat i)) b) buf is), v)"
  using assms
proof (induction "is" arbitrary: buf)
  case (Cons i "is")
  note i = sectors_ok_Cons [OF Cons.prems(2)]
  have "length (cells E v (base + of_nat i)) = SECTOR_SIZE"
    using i Cons.prems(1) by (intro bs.cells_length) auto
  then have "sectors_ok v base (overwrite (i * SECTOR_SIZE) (cells E v (base + of_nat i)) buf) is"
    using i by (auto simp: sectors_ok_def)
  with i Cons.IH Cons.prems(1) show ?case by (simp add: bs.rd_ok)
qed simp

lemma foldl_sectors:
  assumes "\<And>i. i < n \<Longrightarrow> f i = slice (i * SECTOR_SIZE) SECTOR_SIZE t"
    and "n * SECTOR_SIZE \<le> length t" "length buf = length t"
  shows "foldl (\<lambda>b i. overwrite (i * SECTOR_SIZE) (f i) b) buf [0..<n] =
    take (n * SECTOR_SIZE) t @ drop (n * SECTOR_SIZE) buf"
  using assms
proof (induction n)
  case (Suc n)
  let ?a = "n * SECTOR_SIZE"
  have "foldl (\<lambda>b i. overwrite (i * SECTOR_SIZE) (f i) b) buf [0..<n] = take ?a t @ drop ?a buf"
    using Suc by simp
  moreover have "overwrite ?a (slice ?a SECTOR_SIZE t) (take ?a t @ drop ?a buf) =
      take (?a + SECTOR_SIZE) t @ drop (?a + SECTOR_SIZE) buf"
  proof -
    have "take (?a + SECTOR_SIZE) t = take ?a t @ slice ?a SECTOR_SIZE t" by (simp add: slice_def take_add)
    moreover have "length (take ?a t) = ?a" "length (slice ?a SECTOR_SIZE t) = SECTOR_SIZE"
      using Suc.prems(2) by simp_all
    ultimately show ?thesis using Suc.prems(2,3) by (subst overwrite_inside) (auto simp: add.commute)
  qed
  ultimately show ?case using Suc.prems(1) by (simp add: add.commute)
qed simp

lemma read_sectors_all:
  assumes "ready E v" "sectors_ok v base t [0..<n]" "length t = n * SECTOR_SIZE" "length buf = length t"
    and "\<And>i. i < n \<Longrightarrow> cells E v (base + of_nat i) = slice (i * SECTOR_SIZE) SECTOR_SIZE t"
  shows "read_sectors E v base buf [0..<n] = (Some t, v)"
proof -
  have "sectors_ok v base buf [0..<n]" using assms(2,4) by (simp add: sectors_ok_def)
  with read_sectors_ready [OF assms(1)] foldl_sectors [OF assms(5), of n buf] assms(3,4)
  show ?thesis by simp
qed

text \<open>
  \<open>u\<close> is the volume struct before its metadata is loaded: same stream, key, place and protection as \<open>v\<close>.
\<close>

definition skeleton :: "volume \<Rightarrow> volume \<Rightarrow> bool" where
  "skeleton v u \<longleftrightarrow> (\<exists>sb bm d nds. u = v\<lparr>v_sb := sb, v_bitmap := bm, v_dirty := d, v_inodes := nds\<rparr> \<and>
     length (inodes_enc nds) = 2 * SECTOR_SIZE)"

theorem load_synced:
  assumes v: "ready E v" and wf: "wf v" and sy: "synced E v" and u: "skeleton v u"
    and h: "compute_hmac E (v_hkey v) (v_bitmap v) = Some (sb_bitmap_hmac (v_sb v))"
    and al: "e_alloc E Bitmap_buffer" "e_alloc E Dirty_buffer"
  shows "load_volume E u =
    (case validate_loaded_metadata E (v\<lparr>v_dirty := replicate (length (v_dirty v)) 0\<rparr>) of
       (ok, w) \<Rightarrow> if ok then Some w else None)"
proof -
  note g = wf_facts [OF wf]
  from u obtain s0 bm0 d0 nds0 where
    u: "u = v\<lparr>v_sb := s0, v_bitmap := bm0, v_dirty := d0, v_inodes := nds0\<rparr>"
    "length (inodes_enc nds0) = 2 * SECTOR_SIZE"
    by (auto simp: skeleton_def)
  have "sb_ok (v_sb v)" using wf by (simp add: wf_def)
  then have r0: "read_block E u 0 = (Inr (sb_enc (v_sb v)), u)" and sb: "sb_dec (sb_enc (v_sb v)) = v_sb v"
    using v g sy by (simp_all add: bs.rd_ok u synced_def sb_dec_enc)
  let ?u1 = "v\<lparr>v_sb := v_sb v, v_bitmap := bm0, v_dirty := d0, v_inodes := nds0\<rparr>"
  let ?n = "unat (sb_bitmap_blocks (v_sb v))"
  let ?u2 = "v\<lparr>v_sb := v_sb v, v_bitmap := v_bitmap v, v_dirty := replicate ?n 0, v_inodes := nds0\<rparr>"
  have "read_sectors E ?u1 (sb_bitmap_start (v_sb v)) (replicate (?n * SECTOR_SIZE) 0) [0..<?n] =
      (Some (v_bitmap v), ?u1)"
    using v wf sy wf_sectors_ok(1) [OF wf]
    by (intro read_sectors_all) (simp_all add: wf_def sectors_ok_def synced_def bitmap_on_disk_def)
  then have lb: "load_bitmap E ?u1 = Some ?u2"
    using al h by (simp add: load_bitmap_def Let_def)
  have len: "length (inodes_enc (v_inodes v)) = 2 * SECTOR_SIZE"
    using wf by (simp add: wf_def inodes_ok_def length_inodes_enc layout_sizes)
  have "read_sectors E ?u2 (sb_inode_start (v_sb v)) (inodes_enc nds0)
      [0..<unat (sb_inode_blocks (v_sb v))] = (Some (inodes_enc (v_inodes v)), ?u2)"
    using v wf sy g wf_sectors_ok(2) [OF wf] u(2) len
    by (intro read_sectors_all) (simp_all add: sectors_ok_def synced_def inodes_on_disk_def)
  moreover have "inodes_dec (inodes_enc (v_inodes v)) = v_inodes v"
    using wf by (simp add: wf_def inodes_ok_def inodes_dec_enc)
  ultimately have li: "load_inodes E ?u2 = Some (v\<lparr>v_dirty := replicate (length (v_dirty v)) 0\<rparr>)"
    using wf by (simp add: load_inodes_def wf_def)
  have "u\<lparr>v_sb := v_sb v\<rparr> = ?u1" by (simp add: u)
  moreover have "v_size u = v_size v" by (simp add: u)
  ultimately show ?thesis
    using r0 sb lb li g(1) wf by (simp add: load_volume_def Let_def wf_def)
qed

end
