(* ===== verification/Fresh.thy ===== *)
theory Fresh
  imports Sync
begin

text \<open>
  A freshly formatted volume: \<open>format_volume\<close> writes the image of \<open>fresh\<close>, and that image passes
  \<open>validate_loaded_metadata\<close>, so that a created container can be opened.
\<close>

section \<open>What the format leaves\<close>

definition fresh :: "bytes \<Rightarrow> u64 \<Rightarrow> volume \<Rightarrow> volume" where
  "fresh h now v =
     (let blocks = fmt_total_blocks (v_size v) in
      v\<lparr>v_sb := fmt_superblock blocks h, v_bitmap := fmt_bitmap blocks,
        v_dirty := replicate (unat (fmt_bitmap_blocks blocks)) 0,
        v_inodes := fmt_inodes (fmt_data_start blocks) now\<rparr>)"

definition formattable :: "u64 \<Rightarrow> bool" where
  "formattable sz \<longleftrightarrow> sz \<noteq> 0 \<and> unat sz mod SECTOR_SIZE = 0 \<and>
     unat sz div SECTOR_SIZE \<le> UINT32_MAX - 8 \<and> fmt_ok (fmt_total_blocks sz)"

lemma fresh_fields [simp]:
  "v_file (fresh h now v) = v_file v" "v_key (fresh h now v) = v_key v" "v_size (fresh h now v) = v_size v"
  "v_start (fresh h now v) = v_start v" "v_hkey (fresh h now v) = v_hkey v"
  "v_sb (fresh h now v) = fmt_superblock (fmt_total_blocks (v_size v)) h"
  "v_bitmap (fresh h now v) = fmt_bitmap (fmt_total_blocks (v_size v))"
  "v_inodes (fresh h now v) = fmt_inodes (fmt_data_start (fmt_total_blocks (v_size v))) now"
  "cells E (fresh h now v) = cells E v" "ready E (fresh h now v) = ready E v"
  "vol_blocks (fresh h now v) = vol_blocks v"
  by (simp_all add: fresh_def Let_def)

lemma fmt_total_blocks_eq:
  "formattable (v_size v) \<Longrightarrow> unat (fmt_total_blocks (v_size v)) = vol_blocks v"
  by (simp add: formattable_def fmt_total_blocks_def vol_blocks_def unsigned_of_nat
      take_bit_nat_eq_self UINT32_MAX_def)

lemma fmt_superblock_fields [simp]:
  "sb_total_blocks (fmt_superblock b h) = b" "sb_bitmap_start (fmt_superblock b h) = 1"
  "sb_bitmap_blocks (fmt_superblock b h) = fmt_bitmap_blocks b"
  "sb_inode_start (fmt_superblock b h) = 1 + fmt_bitmap_blocks b"
  "sb_inode_blocks (fmt_superblock b h) = 2" "sb_data_start (fmt_superblock b h) = fmt_data_start b"
  "sb_free_blocks (fmt_superblock b h) = b - fmt_data_start b - 1"
  "sb_free_inodes (fmt_superblock b h) = 63" "sb_bitmap_hmac (fmt_superblock b h) = h"
  by (simp_all add: fmt_superblock_def inode_table_blocks_eq DENYFS_MAX_INODES_def)

lemma fresh_wf:
  assumes "formattable (v_size v)" "length h = DENYFS_HMAC_SIZE"
  shows "wf (fresh h now v)"
proof -
  have "validate_superblock (fmt_superblock (fmt_total_blocks (v_size v)) h) (v_size v)"
    using assms(1) by (intro fmt_superblock_valid) (simp_all add: formattable_def)
  then show ?thesis
    using assms fmt_inodes_ok by (simp add: wf_def fmt_superblock_ok inodes_ok_def)
      (simp add: fresh_def Let_def)
qed

text \<open>The contents of the root directory's block.\<close>

definition empty_dir :: bytes where
  "empty_dir = dirents_enc (replicate DENYFS_DIRENTS_PER_BLOCK free_entry)"

lemma length_empty_dir [simp]: "length empty_dir = SECTOR_SIZE"
  by (simp add: empty_dir_def length_dirents_enc layout_sizes)

lemma dirents_empty_dir: "dirents_dec empty_dir = replicate DENYFS_DIRENTS_PER_BLOCK free_entry"
  by (simp add: empty_dir_def dirents_dec_enc)

theorem format_writes_fresh:
  assumes v: "ready E v" and sz: "formattable (v_size v)" and al: "e_alloc E Format_bitmap"
    and h: "compute_hmac E hkey (fmt_bitmap (fmt_total_blocks (v_size v))) = Some h"
  shows "\<exists>f. format_volume E (v_file v) (v_key v) hkey (v_size v) (v_start v) now = (True, f) \<and>
    ready E (v\<lparr>v_file := f\<rparr>) \<and> synced E (fresh h now (v\<lparr>v_file := f\<rparr>)) \<and>
    cells E (v\<lparr>v_file := f\<rparr>) (fmt_data_start (fmt_total_blocks (v_size v))) = empty_dir"
proof -
  let ?b = "fmt_total_blocks (v_size v)"
  let ?root = "fmt_data_start ?b" and ?sb = "fmt_superblock ?b h" and ?n = "unat (fmt_bitmap_blocks ?b)"
  let ?nds = "inodes_enc (fmt_inodes ?root now)"
  have hl: "length h = DENYFS_HMAC_SIZE" using h by (rule compute_hmac_length)
  note wf = fresh_wf [OF sz hl, of now]
  note g = wf_facts [OF wf, simplified]
  have so1: "sectors_ok v 1 (fmt_bitmap ?b) [0..<?n]"
    using wf_sectors_ok(1) [OF wf] by (simp add: sectors_ok_def)
  have so2: "sectors_ok v (1 + fmt_bitmap_blocks ?b) ?nds [0..<2]"
    using wf_sectors_ok(2) [OF wf] by (simp add: sectors_ok_def)
  have "length (sb_enc ?sb) = SECTOR_SIZE" using hl by (simp add: length_sb_enc fmt_superblock_ok)
  then obtain v1 where v1: "write_block_raw E (v_file v) (v_key v) (v_start v) 0 (sb_enc ?sb) = (True, v_file v1)"
    "becomes E v ((cells E v)(0 := sb_enc ?sb)) v1"
    using raw_becomes [OF v, of 0] g(7) by force
  then have r1: "ready E v1" and m1: "meta v1 = meta v" by (simp_all add: becomes_def)
  have f1: "v_key v1 = v_key v" "v_start v1 = v_start v" using meta_fields [OF m1] by simp_all
  from write_sectors_becomes [OF r1 sectors_ok_meta [OF so1 m1]] obtain v2 where
    v2: "write_sectors E (v_file v1) (v_key v) (v_start v) 1 (fmt_bitmap ?b) [0..<?n] = (True, v_file v2)"
    "becomes E v1 (stored 1 (fmt_bitmap ?b) {0..<?n} (cells E v1)) v2"
    by (auto simp: f1)
  then have r2: "ready E v2" and m2: "meta v2 = meta v" by (simp_all add: becomes_def m1)
  have f2: "v_key v2 = v_key v" "v_start v2 = v_start v" using meta_fields [OF m2] by simp_all
  from write_sectors_becomes [OF r2 sectors_ok_meta [OF so2 m2]] obtain v3 where
    v3: "write_sectors E (v_file v2) (v_key v) (v_start v) (1 + fmt_bitmap_blocks ?b) ?nds [0..<2] =
      (True, v_file v3)"
    "becomes E v2 (stored (1 + fmt_bitmap_blocks ?b) ?nds {0..<2} (cells E v2)) v3"
    by (auto simp: f2)
  then have r3: "ready E v3" and m3: "meta v3 = meta v" by (simp_all add: becomes_def m2)
  have f3: "v_key v3 = v_key v" "v_start v3 = v_start v" using meta_fields [OF m3] by simp_all
  have "unat ?root < vol_blocks v3" using g(7) meta_blocks [OF m3] by simp
  from raw_becomes [OF r3 this, of empty_dir] obtain v4 where
    v4: "write_block_raw E (v_file v3) (v_key v) (v_start v) ?root empty_dir = (True, v_file v4)"
    "becomes E v3 ((cells E v3)(?root := empty_dir)) v4"
    by (auto simp: f3)
  then have r4: "ready E v4" and m4: "meta v4 = meta v" by (simp_all add: becomes_def m3)
  have eq: "v4 = v\<lparr>v_file := v_file v4\<rparr>" using meta_eqD [OF m4] .
  have fmt: "format_volume E (v_file v) (v_key v) hkey (v_size v) (v_start v) now = (True, v_file v4)"
  proof -
    have "unat (v_start v) + unat (v_size v) \<le> LONG_MAX" using v by (simp add: ready_def vol_geom_def)
    then have "\<not> LONG_MAX < unat (v_start v)" "\<not> LONG_MAX - unat (v_start v) < unat (v_size v)" by simp_all
    then show ?thesis
      using sz al h v1(1) v2(1) v3(1) v4(1)
      by (simp add: format_volume_def Let_def formattable_def fmt_ok_def not_le empty_dir_def not_less)
  qed
  have cell: "cells E v4 c = (if c = ?root then empty_dir else
      stored (1 + fmt_bitmap_blocks ?b) ?nds {0..<2}
        (stored 1 (fmt_bitmap ?b) {0..<?n} ((cells E v)(0 := sb_enc ?sb))) c)"
    if "unat c < vol_blocks v" for c
    using that v1(2) v2(2) v3(2) v4(2) meta_blocks [OF m1] meta_blocks [OF m2] meta_blocks [OF m3]
    by (simp add: becomes_def stored_def)
  have below: "c \<noteq> ?root" if "unat c < unat ?root" for c using that by auto
  have ub: "unat (1 + of_nat i :: u32) = 1 + i" if "i < 2 ^ 20" for i
    using that unat_block_plus [of 1 i] by simp
  have bm: "cells E v4 (1 + of_nat i) = slice (i * SECTOR_SIZE) SECTOR_SIZE (fmt_bitmap ?b)" if "i < ?n" for i
  proof -
    have "i < 2 ^ 20" using that g(8) by simp
    from ub [OF this] show ?thesis
      using that g cell [of "1 + of_nat i"] below [of "1 + of_nat i"] by (simp add: stored_def)
  qed
  have nd: "cells E v4 (1 + fmt_bitmap_blocks ?b + of_nat i) = slice (i * SECTOR_SIZE) SECTOR_SIZE ?nds"
    if "i < 2" for i
  proof -
    have "unat (1 + fmt_bitmap_blocks ?b + of_nat i) = unat (1 + fmt_bitmap_blocks ?b) + i"
      using that g by (intro unat_block_plus) simp
    then show ?thesis
      using that g cell [of "1 + fmt_bitmap_blocks ?b + of_nat i"]
        below [of "1 + fmt_bitmap_blocks ?b + of_nat i"] by (simp add: stored_def)
  qed
  have "synced E (fresh h now v4)"
    using bm nd g cell [of 0] below [of 0] meta_fields [OF m4]
    by (simp add: synced_def bitmap_on_disk_def inodes_on_disk_def stored_def)
  moreover have "cells E v4 ?root = empty_dir" using cell [of ?root] g(7) by simp
  ultimately show ?thesis using fmt r4 eq by metis
qed

section \<open>A fresh image is valid\<close>

lemma validate_free_inodes:
  "\<forall>i \<in> set is. i_type (inode_at v i) = DENYFS_ITYPE_FREE \<and> free_inode_ok i (inode_at v i) \<Longrightarrow>
   validate_inodes E v is st = (Some st, v)"
  by (induction "is" arbitrary: st) auto

lemma claim_direct_invalid:
  "ino \<noteq> 0 \<or> unat (i_block_count (inode_at v 0)) \<le> i \<Longrightarrow>
   claim_direct v ino fb i (replicate k DENYFS_INVALID_BLOCK) st = Some st"
  by (induction k arbitrary: i st) auto

lemma check_free_entries:
  "check_entries v (replicate k free_entry) st = Some st"
  by (induction k arbitrary: st) (auto simp: free_entry_def valid_dirent_def)

lemma fresh_inode_0:
  "inode_at (fresh h now v) 0 = blank_inode
     \<lparr>i_type := DENYFS_ITYPE_DIR, i_size := 0, i_block_count := 1,
      i_direct := fmt_data_start (fmt_total_blocks (v_size v)) # replicate 19 DENYFS_INVALID_BLOCK,
      i_mtime := now\<rparr>"
  by (simp add: inode_at_def fmt_inodes_nth DENYFS_MAX_INODES_def DENYFS_DIRECT_BLOCKS_def
      numeral_eq_Suc)

lemma fresh_inode_Suc:
  "0 < i \<Longrightarrow> i < DENYFS_MAX_INODES \<Longrightarrow> inode_at (fresh h now v) i = blank_inode"
  by (simp add: inode_at_def fmt_inodes_nth)

lemma fresh_bitmap_test:
  "formattable (v_size v) \<Longrightarrow> j < vol_blocks v \<Longrightarrow>
   bitmap_test (fmt_bitmap (fmt_total_blocks (v_size v))) j \<longleftrightarrow>
     j \<le> unat (fmt_data_start (fmt_total_blocks (v_size v)))"
  using fmt_bitmap_test [of "fmt_total_blocks (v_size v)" j] fmt_total_blocks_eq [of v]
  by (simp add: formattable_def)

lemma fresh_root:
  assumes "formattable (v_size v)"
  shows "unat (fmt_data_start (fmt_total_blocks (v_size v))) < vol_blocks v"
  using assms fmt_total_blocks_eq [OF assms] unfolding formattable_def fmt_ok_def word_less_nat_alt
  by metis

lemma DENYFS_INVALID_BLOCK_max: "unat b < 2 ^ 32 - 1 \<Longrightarrow> b \<noteq> DENYFS_INVALID_BLOCK"
  by (auto simp: DENYFS_INVALID_BLOCK_def)

lemma fresh_used:
  assumes "formattable (v_size v)"
  shows "used (fresh h now v) = {unat (fmt_data_start (fmt_total_blocks (v_size v)))}"
    and "pool (fresh h now v) = {unat (fmt_data_start (fmt_total_blocks (v_size v))) ..< vol_blocks v}"
  using fresh_root [OF assms] fresh_bitmap_test [OF assms] fmt_total_blocks_eq [OF assms]
  by (auto simp: used_def pool_def)

theorem fresh_valid:
  assumes v: "ready E v" and sz: "formattable (v_size v)" and al: "e_alloc E Claimed_buffer"
    and root: "cells E v (fmt_data_start (fmt_total_blocks (v_size v))) = empty_dir"
    and hl: "length h = DENYFS_HMAC_SIZE"
  shows "validate_loaded_metadata E (fresh h now v) = (True, fresh h now v)"
proof -
  let ?b = "fmt_total_blocks (v_size v)" and ?w = "fresh h now v"
  let ?root = "fmt_data_start ?b"
  note g = wf_facts [OF fresh_wf [OF sz hl, of now], simplified]
  note test = fresh_bitmap_test [OF sz] and lt = fresh_root [OF sz]
  have inv: "?root \<noteq> DENYFS_INVALID_BLOCK"
    using lt g(2) unat_less_2p [of ?b] by (intro DENYFS_INVALID_BLOCK_max) simp
  let ?n = "length (v_bitmap ?w)" and ?z = "replicate (length (v_bitmap ?w)) (0 :: u8)"
  have sec: "unat ?root < 8 * ?n" using g(2,9) lt by simp
  have claim: "claim_metadata_block ?w (?z, 0) ?root = Some (bitmap_set ?z (unat ?root), 1)"
    using lt g(2) test sec bitmap_test_zero [of "unat ?root" ?n]
    by (simp add: claim_metadata_block_def)
  have root_claim: "validate_inode E ?w 0 (?z, 0) = (Some (bitmap_set ?z (unat ?root), 1), ?w)"
    using claim inv claim_direct_invalid [of 0 ?w 1 0 19]
    by (simp add: validate_inode_def Let_def fresh_inode_0 blank_inode_def DENYFS_ITYPE_DIR_def
        DENYFS_MAX_FILE_BLOCKS_def layout_sizes)
  have rest: "validate_inodes E ?w [1..<DENYFS_MAX_INODES] st = (Some st, ?w)" for st
    by (rule validate_free_inodes) (simp add: fresh_inode_Suc free_inode_ok_def blank_inode_def list_all_length)
  have "[0..<DENYFS_MAX_INODES] = 0 # [1..<DENYFS_MAX_INODES]"
    by (simp add: upt_rec [of 0] DENYFS_MAX_INODES_def)
  then have inodes: "validate_inodes E ?w [0..<DENYFS_MAX_INODES] ((?z, 0), 0) =
      (Some ((bitmap_set ?z (unat ?root), 1), 1), ?w)"
    using root_claim rest
    by (simp add: fresh_inode_0 blank_inode_def DENYFS_ITYPE_DIR_def DENYFS_ITYPE_FREE_def)
  have filt: "filter (bitmap_test (fmt_bitmap ?b)) [unat ?root..<unat ?b] = [unat ?root]"
  proof -
    have "[unat ?root..<unat ?b] = unat ?root # [Suc (unat ?root)..<unat ?b]"
      using lt g(2) by (simp add: upt_conv_Cons)
    moreover have "filter (bitmap_test (fmt_bitmap ?b)) [Suc (unat ?root)..<unat ?b] = []"
      using test g(2) by (simp add: filter_empty_conv)
    ultimately show ?thesis using test [OF lt] by simp
  qed
  have free: "unat (?b - ?root - 1) = unat ?b - unat ?root - 1"
    using lt g(2) by (subst unat_minus_one_u32) (simp_all add: unat_sub word_le_nat_alt)
  have cnt: "counters_ok ?w 1 1"
    using filt free test lt g(2) by (simp add: counters_ok_def Let_def DENYFS_MAX_INODES_def list_all_length)
  have rd: "read_block E ?w ?root = (Inr empty_dir, ?w)"
    using v lt root by (simp add: bs.rd_ok)
  have dir: "check_dir_blocks E ?w [?root] ([], []) = (Some ([], []), ?w)"
    using rd by (simp add: dirents_empty_dir check_free_entries)
  have "0 < ?n" using g(9) sec by linarith
  moreover have "root_inode_ok (inode_at ?w 0)"
    by (simp add: root_inode_ok_def fresh_inode_0 blank_inode_def DENYFS_DIRECT_BLOCKS_def)
  moreover have "take (unat (i_block_count (inode_at ?w 0))) (i_direct (inode_at ?w 0)) = [?root]"
    by (simp add: fresh_inode_0)
  moreover have "list_all (\<lambda>ino. i_type (inode_at ?w ino) \<noteq> DENYFS_ITYPE_FILE) [1..<DENYFS_MAX_INODES]"
    by (simp add: list_all_iff fresh_inode_Suc blank_inode_def DENYFS_ITYPE_FILE_def DENYFS_ITYPE_FREE_def)
  ultimately show ?thesis
    using al inodes cnt dir
    unfolding validate_loaded_metadata_def Let_def by (simp del: fresh_fields)
qed

end
