(* ===== verification/Create.thy ===== *)
theory Create
  imports Fresh
begin

text \<open>
  The life of a container: \<open>denyfs_container_create\<close>, \<open>denyfs_container_create_hidden\<close> and
  \<open>denyfs_vol_open\<close> composed. A created container opens under its password; creating a hidden volume
  leaves the outer volume alone; the container then opens under either password.
\<close>

section \<open>Headers\<close>

text \<open>The last 8 bytes of the payload struct are not part of the ciphertext and come back as zeros.\<close>

definition clipped :: "header_payload \<Rightarrow> header_payload" where
  "clipped p = p\<lparr>hp_reserved := take 3924 (hp_reserved p) @ replicate 8 0\<rparr>"

lemma payload_overwrite:
  assumes "payload_ok p"
  shows "overwrite 0 (take CIPHERTEXT_SIZE (payload_enc p)) (payload_enc zero_payload) =
    payload_enc (clipped p)"
proof -
  have z: "payload_ok zero_payload" by (simp add: payload_ok_def zero_payload_def crypto_sizes)
  have "drop 4052 (payload_enc zero_payload) = replicate 8 0"
    by (simp add: payload_enc_def zero_payload_def)
  moreover have "take 4052 (payload_enc p) @ replicate 8 0 = payload_enc (clipped p)"
    using assms by (simp add: payload_enc_def clipped_def payload_ok_def crypto_sizes)
  ultimately show ?thesis
    using payload_enc_length [OF assms] payload_enc_length [OF z]
    by (simp add: overwrite_inside crypto_sizes)
qed

lemma header_roundtrip:
  assumes "gcm_correct E" "payload_ok p" "length key = KEY_SIZE_GCM" "length iv = IV_SIZE"
    and "length (hd_salt h) = SALT_SIZE"
  shows "\<exists>d. encrypt_header E iv p key h = Some d \<and> header_ok d \<and> hd_salt d = hd_salt h \<and>
    decrypt_header E d key zero_payload = (True, clipped p)"
proof -
  let ?pt = "take CIPHERTEXT_SIZE (payload_enc p)"
  have "length ?pt = CIPHERTEXT_SIZE" using payload_enc_length [OF assms(2)] by (simp add: crypto_sizes)
  then obtain ct tag where g: "e_gcm_encrypt E key iv ?pt = Some (ct, tag)" "length ct = CIPHERTEXT_SIZE"
    "length tag = TAG_SIZE" "e_gcm_decrypt E key iv ct tag = Some (?pt, True)"
    using assms(1,3,4) unfolding gcm_correct_def by meson
  have "payload_ok (clipped p)" using assms(2) by (simp add: payload_ok_def clipped_def crypto_sizes)
  with g assms show ?thesis
    by (simp add: encrypt_header_def decrypt_header_def header_ok_def payload_overwrite payload_dec_enc)
qed

lemma new_payload_ok: "entropy_ok en \<Longrightarrow> payload_ok (new_payload en sz)"
  by (simp add: entropy_ok_def payload_ok_def new_payload_def)

section \<open>Raw writes stay inside the volume\<close>

lemma write_block_raw_keeps:
  assumes "vol_geom v" "unat b < vol_blocks v" "\<not> v_protect v"
    and "write_block_raw E (v_file v) (v_key v) (v_start v) b d = (ok, g)"
  shows "keeps v (v\<lparr>v_file := g\<rparr>)"
proof -
  obtain r w where w: "write_block E v b d = (r, w)" by (cases "write_block E v b d")
  obtain x where x: "w = v\<lparr>v_file := x\<rparr>" using write_block_file [of E v b d] w by auto
  have "keeps v (v\<lparr>v_file := x\<rparr>)" using write_block_keeps [of v E b d] w x by simp
  moreover have "f_bytes g = f_bytes x"
    using assms w x by (auto simp: write_block_raw_eq blocked_def fflush_bytes split: sum.splits)
  ultimately show ?thesis by (simp add: keeps_def same_config_def extends_def)
qed

lemma write_sectors_keeps:
  assumes "vol_geom v" "\<not> v_protect v" "write_sectors E (v_file v) (v_key v) (v_start v) base buf is = (ok, g)"
    and "\<forall>i \<in> set is. unat (base + of_nat i) < vol_blocks v"
  shows "keeps v (v\<lparr>v_file := g\<rparr>)"
  using assms
proof (induction "is" arbitrary: v)
  case Nil
  then show ?case by (simp add: keeps_def same_config_def extends_def)
next
  case (Cons i "is")
  obtain ok1 f1 where 1: "write_block_raw E (v_file v) (v_key v) (v_start v) (base + of_nat i)
      (slice (sector_off i) SECTOR_SIZE buf) = (ok1, f1)" by fastforce
  have k: "keeps v (v\<lparr>v_file := f1\<rparr>)" using Cons.prems by (intro write_block_raw_keeps [OF _ _ _ 1]) auto
  show ?case
  proof (cases ok1)
    case False
    with Cons.prems(3) 1 k show ?thesis by simp
  next
    case True
    then have "keeps (v\<lparr>v_file := f1\<rparr>) (v\<lparr>v_file := f1, v_file := g\<rparr>)"
      using Cons.prems 1 by (intro Cons.IH) (auto simp: vol_geom_def vol_blocks_def)
    with k show ?thesis by (metis keeps_trans volume.surjective volume.update_convs(1))
  qed
qed

lemma formattable_blocks:
  assumes "formattable (v_size v)"
  defines "b \<equiv> fmt_total_blocks (v_size v)"
  shows "unat (fmt_data_start b) < vol_blocks v" "0 < vol_blocks v"
    "\<forall>i \<in> set [0..<unat (fmt_bitmap_blocks b)]. unat (1 + of_nat i :: u32) < vol_blocks v"
    "\<forall>i \<in> set [0..<2]. unat (1 + fmt_bitmap_blocks b + of_nat i) < vol_blocks v"
proof -
  have small: "unat b \<le> UINT32_MAX - 8" using assms by (simp add: formattable_def fmt_ok_def b_def)
  note n = fmt_bitmap_blocks_bound [OF small] and ds = unat_fmt_data_start [OF small]
  show lt: "unat (fmt_data_start b) < vol_blocks v" using fresh_root [OF assms(1)] by (simp add: b_def)
  then show "0 < vol_blocks v" by simp
  show "\<forall>i \<in> set [0..<unat (fmt_bitmap_blocks b)]. unat (1 + of_nat i :: u32) < vol_blocks v"
    using lt ds n unat_block_plus [of 1] by auto
  have "unat (1 + fmt_bitmap_blocks b) = 1 + unat (fmt_bitmap_blocks b)"
    using n by (simp add: unat_word_ariths)
  then show "\<forall>i \<in> set [0..<2]. unat (1 + fmt_bitmap_blocks b + of_nat i) < vol_blocks v"
    using lt ds n unat_block_plus [of "1 + fmt_bitmap_blocks b"] by auto
qed

lemma keeps_file_trans:
  "keeps v (v\<lparr>v_file := f\<rparr>) \<Longrightarrow> keeps (v\<lparr>v_file := f\<rparr>) (v\<lparr>v_file := f, v_file := g\<rparr>) \<Longrightarrow>
   keeps v (v\<lparr>v_file := g\<rparr>)"
  by (drule (1) keeps_trans) simp

theorem format_keeps:
  assumes geom: "vol_geom v" "\<not> v_protect v"
    and f: "format_volume E (v_file v) (v_key v) hkey (v_size v) (v_start v) now = (ok, g)"
  shows "keeps v (v\<lparr>v_file := g\<rparr>)"
proof -
  let ?b = "fmt_total_blocks (v_size v)" and ?K = "\<lambda>f. keeps v (v\<lparr>v_file := f\<rparr>)"
  let ?w = "\<lambda>f. v\<lparr>v_file := f\<rparr>"
  have self: "?K (v_file v)" by simp
  have gm: "vol_geom (?w f)" "vol_blocks (?w f) = vol_blocks v" for f
    using geom by (simp_all add: vol_geom_def)
  have raw: "?K f2" if "?K f1" "write_block_raw E f1 (v_key v) (v_start v) b d = (x, f2)" "unat b < vol_blocks v"
    for f1 f2 b d x
    using that geom gm write_block_raw_keeps [of "?w f1" b E d x f2] by (auto intro: keeps_file_trans)
  have sec: "?K f2" if "?K f1" "write_sectors E f1 (v_key v) (v_start v) base buf is = (x, f2)"
    "\<forall>i \<in> set is. unat (base + of_nat i) < vol_blocks v" for f1 f2 base buf "is" x
    using that geom gm write_sectors_keeps [of "?w f1" E base buf "is" x f2] by (auto intro: keeps_file_trans)
  show ?thesis
  proof (cases "formattable (v_size v) \<and> (\<exists>h. compute_hmac E hkey (fmt_bitmap ?b) = Some h) \<and> e_alloc E Format_bitmap")
    case False
    then have "g = v_file v"
      using f by (auto simp: format_volume_def Let_def formattable_def fmt_ok_def not_le not_less
          fmt_total_blocks_def unsigned_of_nat take_bit_nat_eq_self UINT32_MAX_def
          split: if_splits option.splits)
    then show ?thesis using self by simp
  next
    case True
    then obtain h where h: "compute_hmac E hkey (fmt_bitmap ?b) = Some h" and fb: "formattable (v_size v)" by blast
    note fit = formattable_blocks [OF fb]
    let ?sb = "fmt_superblock ?b h"
    obtain k1 f1 where 1: "write_block_raw E (v_file v) (v_key v) (v_start v) 0 (sb_enc ?sb) = (k1, f1)" by fastforce
    obtain k2 f2 where 2: "write_sectors E f1 (v_key v) (v_start v) 1 (fmt_bitmap ?b)
      [0..<unat (fmt_bitmap_blocks ?b)] = (k2, f2)" by fastforce
    obtain k3 f3 where 3: "write_sectors E f2 (v_key v) (v_start v) (1 + fmt_bitmap_blocks ?b)
      (inodes_enc (fmt_inodes (fmt_data_start ?b) now)) [0..<2] = (k3, f3)" by fastforce
    obtain k4 f4 where 4: "write_block_raw E f3 (v_key v) (v_start v) (fmt_data_start ?b)
      (dirents_enc (replicate DENYFS_DIRENTS_PER_BLOCK free_entry)) = (k4, f4)" by fastforce
    have k1: "?K f1" by (rule raw [OF self 1]) (use fit in simp)
    have k2: "?K f2" by (rule sec [OF k1 2 fit(3)])
    have k3: "?K f3" by (rule sec [OF k2 3 fit(4)])
    have k4: "?K f4" by (rule raw [OF k3 4 fit(1)])
    have "g \<in> {v_file v, f1, f2, f3, f4}"
      using f h 1 2 3 4 by (auto simp: format_volume_def Let_def split: if_splits)
    then show ?thesis using self k1 k2 k3 k4 by auto
  qed
qed

section \<open>Libraries that do not fail\<close>

text \<open>
  HMAC-SHA256 yields 32 bytes; a key derivation that has its memory succeeds; allocations succeed.
\<close>

definition libs_work :: "env \<Rightarrow> bool" where
  "libs_work E \<longleftrightarrow> xts_correct E \<and> gcm_correct E \<and>
     (\<forall>key d. \<exists>h. e_hmac E key d = Some h \<and> length h = 32) \<and>
     (\<forall>pw salt. \<exists>m. e_pwhash E pw salt = Some m) \<and> (\<forall>s. e_alloc E s)"

lemma plain_libs: "libs_work plain_env"
  by (simp add: libs_work_def plain_env_correct)

lemma length_header_key_info: "length header_key_info = 20"
  by (simp add: header_key_info_def)

lemma libs_hmac:
  assumes "libs_work E"
  shows "\<exists>h. compute_hmac E key d = Some h \<and> length h = DENYFS_HMAC_SIZE"
proof -
  obtain h where "e_hmac E key d = Some h" "length h = 32"
    using assms unfolding libs_work_def by blast
  then show ?thesis by (simp add: compute_hmac_def DENYFS_HMAC_SIZE_def)
qed

lemma libs_key:
  assumes "libs_work E"
  shows "\<exists>k. password_key E pw salt = Some k \<and> trial_key E pw salt = k \<and> length k = KEY_SIZE_GCM"
proof -
  obtain m where m: "e_pwhash E pw salt = Some m" using assms unfolding libs_work_def by blast
  obtain h where "e_hmac E m (header_key_info @ [1]) = Some h" "length h = 32"
    using assms unfolding libs_work_def by blast
  with m show ?thesis
    by (simp add: password_key_def trial_key_def derive_master_key_def derive_header_key_def
        length_header_key_info KEY_SIZE_GCM_def)
qed

section \<open>Filling a new container\<close>

lemma overwrite_end: "length old = off \<Longrightarrow> overwrite off new old = old @ new"
  by (simp add: overwrite_def)

lemma fill_loop_ok:
  "f_faults f = [] \<Longrightarrow> length (f_bytes f) = w \<Longrightarrow> w \<le> n \<Longrightarrow>
   fill_loop f rnd w n = (True, f\<lparr>f_bytes := f_bytes f @ map rnd [w..<n]\<rparr>)"
proof (induction "n - w" arbitrary: f w rule: less_induct)
  case less
  show ?case
  proof (cases "w = n")
    case True
    then show ?thesis by (simp add: fill_loop.simps)
  next
    case False
    let ?k = "min (n - w) FILL_CHUNK"
    let ?g = "f\<lparr>f_bytes := f_bytes f @ map rnd [w..<w + ?k]\<rparr>"
    have k: "0 < ?k" "w + ?k \<le> n" using False less.prems by (simp_all add: FILL_CHUNK_def)
    then have "fwrite f w ?k (map rnd [w..<w + ?k]) = (?k, ?g)"
      using less.prems by (subst fwrite_none) (auto simp: overwrite_end)
    then have "fill_loop f rnd w n = fill_loop ?g rnd (w + ?k) n"
      using False less.prems by (subst fill_loop.simps) (simp add: Let_def)
    also have "\<dots> = (True, ?g\<lparr>f_bytes := f_bytes ?g @ map rnd [w + ?k..<n]\<rparr>)"
      using k less.prems by (intro less.hyps) auto
    also have "\<dots> = (True, f\<lparr>f_bytes := f_bytes f @ map rnd [w..<n]\<rparr>)"
      using k(2) upt_add_eq_append [of w "w + ?k" "n - (w + ?k)"] by simp
    finally show ?thesis .
  qed
qed

section \<open>Opening by header\<close>

lemma vol_open_steps:
  assumes "libs_work E" "f_faults f = []" "container_ok (length (f_bytes f))"
  defines "c \<equiv> length (f_bytes f)"
  defines "outer \<equiv> header_dec (slice 0 HEADER_SIZE (f_bytes f))"
    and "hidden \<equiv> hidden_header_of (f_bytes f)"
  shows "vol_open E (Some f) pw hpw protect =
    (case select_volume E f (hidden_header_pos c) (try_header E outer (trial_key E pw (hd_salt outer)))
        (try_header E hidden (trial_key E pw (hd_salt hidden))) of
       None \<Rightarrow> None
     | Some v \<Rightarrow>
         if protect \<and> \<not> v_hidden v then
           (case protect_volume E v hidden c hpw of None \<Rightarrow> None | Some w \<Rightarrow> load_volume E w)
         else load_volume E v)"
proof -
  have c: "HEADER_SIZE \<le> c" "unat (hidden_header_pos c) = c - DENYFS_HIDDEN_HEADER_OFFSET_FROM_EOF"
    "HEADER_SIZE \<le> DENYFS_HIDDEN_HEADER_OFFSET_FROM_EOF" "DENYFS_HIDDEN_HEADER_OFFSET_FROM_EOF \<le> c"
    using assms(3) unat_hidden_header_pos [of c]
    by (simp_all add: c_def container_ok_def HEADER_SIZE_def DENYFS_HIDDEN_HEADER_OFFSET_FROM_EOF_def)
  have al: "e_alloc E s" for s using assms(1) by (simp add: libs_work_def)
  show ?thesis
    using assms(2,3) c al unfolding c_def
    by (auto simp: vol_open_def Let_def container_ok_def not_less hidden_header_of_def outer_def
        hidden_def min_def split: option.split)
qed

section \<open>Loading a formatted volume\<close>

lemma blocked_file [simp]: "blocked (v\<lparr>v_file := f\<rparr>) b = blocked v b"
  by (simp add: blocked_def)

text \<open>The fields of \<open>v\<close> that place a volume in the container \<open>g\<close>.\<close>

definition sits :: "cfile \<Rightarrow> entropy \<Rightarrow> u64 \<Rightarrow> u64 \<Rightarrow> volume \<Rightarrow> bool" where
  "sits g en sz start v \<longleftrightarrow> v_file v = g \<and> v_key v = en_volume_key en \<and> v_hkey v = en_hmac_key en \<and>
     v_size v = sz \<and> v_start v = start \<and> (\<forall>b. unat b < vol_blocks v \<longrightarrow> \<not> blocked v b) \<and>
     length (inodes_enc (v_inodes v)) = 2 * SECTOR_SIZE"

definition has_volume :: "env \<Rightarrow> entropy \<Rightarrow> cfile \<Rightarrow> u64 \<Rightarrow> u64 \<Rightarrow> u64 \<Rightarrow> bytes \<Rightarrow> bool" where
  "has_volume E en g sz start now h \<longleftrightarrow> formattable sz \<and>
     compute_hmac E (en_hmac_key en) (fmt_bitmap (fmt_total_blocks sz)) = Some h \<and>
     (\<forall>v. sits g en sz start v \<longrightarrow> ready E v \<and> synced E (fresh h now v) \<and>
        cells E v (fmt_data_start (fmt_total_blocks sz)) = empty_dir)"

lemma load_fresh:
  assumes libs: "libs_work E" and hv: "has_volume E en g sz start now h" and v: "sits g en sz start v"
  shows "load_volume E v = Some (fresh h now v)"
proof -
  let ?w = "fresh h now v"
  have sz: "formattable (v_size v)" "v_size v = sz" using hv v by (simp_all add: has_volume_def sits_def)
  have h: "compute_hmac E (v_hkey v) (fmt_bitmap (fmt_total_blocks (v_size v))) = Some h"
    using hv v by (simp add: has_volume_def sits_def)
  have hl: "length h = DENYFS_HMAC_SIZE" using h by (rule compute_hmac_length)
  have d: "ready E v" "synced E ?w" "cells E v (fmt_data_start (fmt_total_blocks (v_size v))) = empty_dir"
    using hv v by (simp_all add: has_volume_def sz(2))
  have u: "v = ?w\<lparr>v_sb := v_sb v, v_bitmap := v_bitmap v, v_dirty := v_dirty v, v_inodes := v_inodes v\<rparr>"
    by (simp add: fresh_def Let_def)
  have sk: "skeleton ?w v"
    unfolding skeleton_def using v u by (intro exI conjI) (auto simp: sits_def)
  have z: "?w\<lparr>v_dirty := replicate (length (v_dirty ?w)) 0\<rparr> = ?w" by (simp add: fresh_def Let_def)
  have al: "e_alloc E s" for s using libs by (simp add: libs_work_def)
  have "load_volume E v = (case validate_loaded_metadata E ?w of (ok, w) \<Rightarrow> if ok then Some w else None)"
    using load_synced [OF _ fresh_wf [OF sz(1) hl] d(2) sk] d(1) h al z by simp
  then show ?thesis using fresh_valid [OF d(1) sz(1) al d(3) hl] by simp
qed

section \<open>Installing a volume\<close>

lemma inodes_zero_length:
  "length (inodes_enc (inodes_dec (replicate (DENYFS_MAX_INODES * DENYFS_INODE_SIZE) 0))) = 2 * SECTOR_SIZE"
proof -
  let ?z = "replicate (DENYFS_MAX_INODES * DENYFS_INODE_SIZE) 0 :: bytes"
  have "\<forall>nd \<in> set (inodes_dec ?z). inode_ok nd"
    using inodes_dec_ok [of ?z] by (simp add: mult.commute)
  from length_inodes_enc [OF this] show ?thesis by (simp add: layout_sizes)
qed

lemma sits_ready:
  assumes "sits g en sz start v" "sits g en sz start w" "ready E v"
  shows "ready E w" "cells E w = cells E v" "synced E (fresh h now w) = synced E (fresh h now v)"
proof -
  have f: "v_file w = v_file v" "v_key w = v_key v" "v_size w = v_size v" "v_start w = v_start v"
    using assms(1,2) by (simp_all add: sits_def)
  then show "ready E w" using assms(2,3) by (simp add: ready_def sits_def vol_geom_def vol_blocks_def)
  show c: "cells E w = cells E v" using f by (intro cells_cong) simp_all
  show "synced E (fresh h now w) = synced E (fresh h now v)"
    using f c by (simp add: synced_def bitmap_on_disk_def inodes_on_disk_def)
qed

lemma keeps_slice:
  assumes "keeps v w" "vol_geom v" "a + n \<le> length (f_bytes (v_file v))"
    and "\<And>i. a \<le> i \<Longrightarrow> i < a + n \<Longrightarrow> i \<notin> volume_region v \<or> i \<in> protected_region v"
  shows "slice a n (f_bytes (v_file w)) = slice a n (f_bytes (v_file v))"
proof (rule nth_equalityI)
  have e: "length (f_bytes (v_file v)) \<le> length (f_bytes (v_file w))"
    using assms(1,2) by (simp add: keeps_def extends_def)
  then show "length (slice a n (f_bytes (v_file w))) = length (slice a n (f_bytes (v_file v)))"
    using assms(3) by simp
  fix i assume "i < length (slice a n (f_bytes (v_file w)))"
  then have "i < n" by simp
  with assms e show "slice a n (f_bytes (v_file w)) ! i = slice a n (f_bytes (v_file v)) ! i"
    by (simp add: keeps_def)
qed

theorem install_ok:
  assumes libs: "libs_work E" and en: "entropy_ok en" and f: "f_faults f = []"
    and sz: "formattable sz" and geom: "unat start mod SECTOR_SIZE = 0" "unat start + unat sz \<le> LONG_MAX"
      "unat start + unat sz \<le> length (f_bytes f)"
    and hd: "hpos + HEADER_SIZE \<le> length (f_bytes f)" "hpos + HEADER_SIZE \<le> unat start \<or> unat start + unat sz \<le> hpos"
  shows "\<exists>g d h. install_volume E en f pw hpos sz start now = (True, g) \<and> f_faults g = [] \<and>
    length (f_bytes g) = length (f_bytes f) \<and> slice hpos HEADER_SIZE (f_bytes g) = header_enc d \<and>
    header_ok d \<and> hd_salt d = en_salt en \<and>
    try_header E d (trial_key E pw (hd_salt d)) = Some (clipped (new_payload en sz)) \<and>
    has_volume E en g sz start now h \<and>
    (\<forall>i < length (f_bytes f). i \<notin> {hpos..<hpos + HEADER_SIZE} \<and>
       i \<notin> {unat start..<unat start + unat sz} \<longrightarrow> f_bytes g ! i = f_bytes f ! i)"
proof -
  let ?p = "clipped (new_payload en sz)"
  obtain key where key: "password_key E pw (en_salt en) = Some key" "trial_key E pw (en_salt en) = key"
    "length key = KEY_SIZE_GCM" using libs_key [OF libs] by blast
  have gcm: "gcm_correct E" and al: "e_alloc E Format_bitmap" and xts: "xts_correct E"
    using libs by (simp_all add: libs_work_def)
  have "length (hd_salt (zero_header\<lparr>hd_salt := en_salt en\<rparr>)) = SALT_SIZE" using en by (simp add: entropy_ok_def)
  from header_roundtrip [OF gcm new_payload_ok [OF en] key(3) _ this] en obtain d where
    d: "encrypt_header E (en_iv en) (new_payload en sz) key (zero_header\<lparr>hd_salt := en_salt en\<rparr>) = Some d"
    "header_ok d" "hd_salt d = en_salt en" "decrypt_header E d key zero_payload = (True, ?p)"
    by (auto simp: entropy_ok_def)
  have nh: "new_header E en pw sz = Some d" using key(1) d(1) by (simp add: new_header_def)
  have try_ok: "try_header E d (trial_key E pw (hd_salt d)) = Some ?p"
    using d(3,4) key(2) by (simp add: try_header_def clipped_def new_payload_def)
  let ?f2 = "f\<lparr>f_bytes := overwrite hpos (header_enc d) (f_bytes f)\<rparr>"
  have fw: "fwrite f hpos HEADER_SIZE (header_enc d) = (HEADER_SIZE, ?f2)"
    using f length_header_enc [OF d(2)] by (intro fwrite_none) (simp_all add: HEADER_SIZE_def)
  have len2: "length (f_bytes ?f2) = length (f_bytes f)"
    using hd(1) length_header_enc [OF d(2)] by simp
  let ?v = "blank_volume ?f2 ?p False start"
  have vf: "v_file ?v = ?f2" "v_size ?v = sz" "v_start ?v = start" "v_key ?v = en_volume_key en"
    "v_hkey ?v = en_hmac_key en" "\<not> v_protect ?v"
    by (simp_all add: blank_volume_def clipped_def new_payload_def)
  have vg: "vol_geom ?v" using geom sz by (simp add: vol_geom_def vf formattable_def)
  have rv: "ready E ?v"
    using xts en f len2 geom vg by (simp add: ready_def vf entropy_ok_def blocked_def)
  obtain h where h: "compute_hmac E (en_hmac_key en) (fmt_bitmap (fmt_total_blocks sz)) = Some h"
    using libs_hmac [OF libs] by blast
  from format_writes_fresh [OF rv, of "en_hmac_key en" h now] sz al h obtain g where
    g: "format_volume E ?f2 (en_volume_key en) (en_hmac_key en) sz start now = (True, g)"
    "ready E (?v\<lparr>v_file := g\<rparr>)" "synced E (fresh h now (?v\<lparr>v_file := g\<rparr>))"
    "cells E (?v\<lparr>v_file := g\<rparr>) (fmt_data_start (fmt_total_blocks sz)) = empty_dir"
    by (auto simp: vf)
  have inst: "install_volume E en f pw hpos sz start now = (True, g)"
    using nh f fw g(1) by (simp add: install_volume_def)
  have kp: "keeps ?v (?v\<lparr>v_file := g\<rparr>)"
    using format_keeps [OF vg, of E "en_hmac_key en" now True g] g(1) by (simp add: vf)
  have lg: "length (f_bytes g) = length (f_bytes f)"
    using kp vg len2 geom(3) by (simp add: keeps_def extends_def vf)
  have reg: "volume_region ?v = {unat start..<unat start + unat sz}" "protected_region ?v = {}"
    by (simp_all add: volume_region_def protected_region_def vf)
  have "slice hpos HEADER_SIZE (f_bytes g) = slice hpos HEADER_SIZE (f_bytes ?f2)"
    using keeps_slice [OF kp vg, of hpos HEADER_SIZE] hd len2 by (auto simp: reg vf)
  then have hdr: "slice hpos HEADER_SIZE (f_bytes g) = header_enc d"
    using length_header_enc [OF d(2)] by simp
  have same: "f_bytes g ! i = f_bytes f ! i"
    if "i < length (f_bytes f)" "i \<notin> {hpos..<hpos + HEADER_SIZE}" "i \<notin> {unat start..<unat start + unat sz}" for i
  proof -
    have "f_bytes g ! i = f_bytes ?f2 ! i" using kp vg that len2 by (simp add: keeps_def reg vf)
    also have "\<dots> = f_bytes f ! i"
      using that hd(1) length_header_enc [OF d(2)] by (auto intro!: nth_overwrite_outside)
    finally show ?thesis .
  qed
  have sv: "sits g en sz start (?v\<lparr>v_file := g\<rparr>)"
    by (simp add: sits_def vf blocked_def) (simp add: blank_volume_def inodes_zero_length)
  have "has_volume E en g sz start now h"
    using sits_ready [OF sv _ g(2)] g(3,4) sz h by (simp add: has_volume_def)
  moreover have "f_faults g = []" using g(2) by (simp add: ready_def)
  ultimately show ?thesis using inst lg hdr d(2,3) try_ok same by blast
qed

section \<open>Create, then open\<close>

definition empty_file :: cfile where
  "empty_file = \<lparr>f_bytes = [], f_faults = []\<rparr>"

text \<open>The sizes \<open>denyfs_container_create\<close> accepts, in bytes.\<close>

definition container_bytes :: "u64 \<Rightarrow> nat" where
  "container_bytes size_mb = unat size_mb * 2 ^ 20"

definition size_ok :: "u64 \<Rightarrow> bool" where
  "size_ok size_mb \<longleftrightarrow> size_mb \<noteq> 0 \<and> container_bytes size_mb \<le> LONG_MAX \<and>
     container_bytes size_mb div 2 div SECTOR_SIZE \<le> UINT32_MAX - 8"

lemma size_ok_facts:
  assumes "size_ok size_mb"
  defines "tb \<equiv> size_mb * 1024 * 1024"
  shows "unat tb = container_bytes size_mb" "unat (tb div 2) = unat size_mb * 2 ^ 19"
    "container_ok (container_bytes size_mb)" "formattable (tb div 2)" "1 \<le> unat size_mb"
    "unat size_mb < 2 ^ 43"
proof -
  have small: "unat size_mb * 2 ^ 20 < 2 ^ 63" "size_mb \<noteq> 0"
    using assms(1) by (simp_all add: size_ok_def container_bytes_def LONG_MAX_def)
  then show pos: "1 \<le> unat size_mb" and lt: "unat size_mb < 2 ^ 43"
    by (simp_all add: Suc_le_eq unat_gt_0)
  show t: "unat tb = container_bytes size_mb"
    using small(1) by (simp add: tb_def container_bytes_def unat_word_ariths)
  then show h: "unat (tb div 2) = unat size_mb * 2 ^ 19"
    by (simp add: unat_div_distrib container_bytes_def)
  show "container_ok (container_bytes size_mb)"
    using assms(1) pos by (simp add: container_ok_def size_ok_def container_bytes_def layout_sizes HEADER_SIZE_def
        DENYFS_HIDDEN_HEADER_OFFSET_FROM_EOF_def)
  have b: "unat (tb div 2) div SECTOR_SIZE = unat size_mb * 128" by (simp add: h SECTOR_SIZE_def)
  have le: "unat size_mb * 128 \<le> UINT32_MAX - 8"
    using assms(1) by (simp add: size_ok_def container_bytes_def SECTOR_SIZE_def)
  then have nb: "unat (fmt_total_blocks (tb div 2)) = unat size_mb * 128"
    by (simp only: fmt_total_blocks_def b unsigned_of_nat) (simp add: take_bit_nat_eq_self UINT32_MAX_def)
  have "fmt_ok (fmt_total_blocks (tb div 2))"
    using le pos by (simp add: fmt_ok_def nb word_less_nat_alt unat_fmt_data_start unat_fmt_bitmap_blocks SECTOR_SIZE_def)
  moreover have "tb div 2 \<noteq> 0" using h pos by auto
  ultimately show "formattable (tb div 2)"
    using le by (simp add: formattable_def b) (simp add: h SECTOR_SIZE_def)
qed

theorem create_ok:
  assumes libs: "libs_work E" and en: "entropy_ok en" and pw: "pw \<noteq> []" and sz: "size_ok size_mb"
  defines "vsize \<equiv> size_mb * 1024 * 1024 div 2"
  shows "\<exists>g d h. container_create E en (Some empty_file) size_mb pw now = (True, Some g) \<and>
    f_faults g = [] \<and> length (f_bytes g) = container_bytes size_mb \<and>
    slice 0 HEADER_SIZE (f_bytes g) = header_enc d \<and> header_ok d \<and> hd_salt d = en_salt en \<and>
    try_header E d (trial_key E pw (hd_salt d)) = Some (clipped (new_payload en vsize)) \<and>
    has_volume E en g vsize (of_nat HEADER_SIZE) now h"
proof -
  note s = size_ok_facts [OF sz]
  let ?n = "container_bytes size_mb"
  let ?f = "empty_file\<lparr>f_bytes := map (en_fill en) [0..<?n]\<rparr>"
  have n: "?n = unat size_mb * 2 ^ 20" by (simp add: container_bytes_def)
  have fill: "fill_loop empty_file (en_fill en) 0 ?n = (True, ?f)"
    by (subst fill_loop_ok) (simp_all add: empty_file_def)
  have v: "unat vsize = unat size_mb * 2 ^ 19" using s(2) by (simp add: vsize_def)
  have "unat (of_nat HEADER_SIZE :: u64) + unat vsize \<le> ?n" "?n \<le> LONG_MAX"
    using v s(5) sz by (simp_all add: n unat_HEADER_SIZE HEADER_SIZE_def size_ok_def)
  then obtain g d h where g: "install_volume E en ?f pw 0 vsize (of_nat HEADER_SIZE) now = (True, g)" "f_faults g = []"
    "length (f_bytes g) = ?n" "slice 0 HEADER_SIZE (f_bytes g) = header_enc d" "header_ok d"
    "hd_salt d = en_salt en" "try_header E d (trial_key E pw (hd_salt d)) = Some (clipped (new_payload en vsize))"
    "has_volume E en g vsize (of_nat HEADER_SIZE) now h"
    using install_ok [OF libs en, of ?f vsize "of_nat HEADER_SIZE" 0 pw now] s(4)
    by (auto simp: empty_file_def vsize_def unat_HEADER_SIZE HEADER_SIZE_def SECTOR_SIZE_def)
  have al: "e_alloc E x" for x using libs by (simp add: libs_work_def)
  have "\<not> (2 ^ 64 - 1) div (1024 * 1024) < unat size_mb" using s(6) by simp
  moreover have "\<not> LONG_MAX < ?n" "\<not> ?n < 1024 * 1024" "\<not> UINT32_MAX - 8 < ?n div 2 div SECTOR_SIZE" "size_mb \<noteq> 0"
    using sz s(5) by (simp_all add: size_ok_def n)
  ultimately have "container_create E en (Some empty_file) size_mb pw now = (True, Some g)"
    using pw fill g(1) al s(1) by (simp add: container_create_def Let_def vsize_def)
  with g show ?thesis by blast
qed

lemma valid_range_outer:
  assumes "size_ok size_mb"
  shows "valid_volume_range (of_nat HEADER_SIZE) (size_mb * 1024 * 1024 div 2)
    (hidden_header_pos (container_bytes size_mb))"
proof -
  note s = size_ok_facts [OF assms]
  have "size_mb * 1024 * 1024 div 2 \<noteq> 0" using s(4) unfolding formattable_def by blast
  then show ?thesis
    unfolding valid_volume_range_iff unat_HEADER_SIZE unat_hidden_header_pos [OF s(3)] s(2)
    using s(5,6) assms
    by (simp add: container_bytes_def HEADER_SIZE_def SECTOR_SIZE_def DENYFS_HIDDEN_HEADER_OFFSET_FROM_EOF_def
        size_ok_def)
qed

lemma sits_blank:
  "sits g en sz start (blank_volume g (clipped (new_payload en sz)) hidden start)"
  by (simp add: sits_def blocked_def blank_volume_def clipped_def new_payload_def inodes_zero_length)

text \<open>The volume that the header with the payload of \<open>en\<close> leads to.\<close>

definition opened :: "cfile \<Rightarrow> entropy \<Rightarrow> u64 \<Rightarrow> u64 \<Rightarrow> bool \<Rightarrow> bytes \<Rightarrow> u64 \<Rightarrow> volume" where
  "opened g en sz start hidden h now =
     fresh h now (blank_volume g (clipped (new_payload en sz)) hidden start)"

text \<open>An outer volume of a container: its header in sector 0 and its formatted region.\<close>

definition holds_outer :: "env \<Rightarrow> entropy \<Rightarrow> bytes \<Rightarrow> cfile \<Rightarrow> u64 \<Rightarrow> u64 \<Rightarrow> bytes \<Rightarrow> bool" where
  "holds_outer E en pw g sz now h \<longleftrightarrow> f_faults g = [] \<and> container_ok (length (f_bytes g)) \<and>
     (\<exists>d. slice 0 HEADER_SIZE (f_bytes g) = header_enc d \<and> header_ok d \<and>
        try_header E d (trial_key E pw (hd_salt d)) = Some (clipped (new_payload en sz))) \<and>
     valid_volume_range (of_nat HEADER_SIZE) sz (hidden_header_pos (length (f_bytes g))) \<and>
     has_volume E en g sz (of_nat HEADER_SIZE) now h"

lemma open_outer:
  assumes libs: "libs_work E" and o: "holds_outer E en pw g sz now h"
  defines "v \<equiv> blank_volume g (clipped (new_payload en sz)) False (of_nat HEADER_SIZE)"
  shows "vol_open E (Some g) pw hpw False = Some (opened g en sz (of_nat HEADER_SIZE) False h now)"
    and "vol_open E (Some g) pw hpw True =
      (case protect_volume E v (hidden_header_of (f_bytes g)) (length (f_bytes g)) hpw of
         None \<Rightarrow> None | Some w \<Rightarrow> load_volume E w)"
proof -
  obtain d where d: "slice 0 HEADER_SIZE (f_bytes g) = header_enc d" "header_ok d"
    "try_header E d (trial_key E pw (hd_salt d)) = Some (clipped (new_payload en sz))"
    using o unfolding holds_outer_def by blast
  have al: "e_alloc E x" for x using libs by (simp add: libs_work_def)
  have sz: "hp_volume_size (clipped (new_payload en sz)) = sz" by (simp add: clipped_def new_payload_def)
  have sel: "select_volume E g (hidden_header_pos (length (f_bytes g)))
      (try_header E (header_dec (slice 0 HEADER_SIZE (f_bytes g)))
        (trial_key E pw (hd_salt (header_dec (slice 0 HEADER_SIZE (f_bytes g)))))) x = Some v" for x
    using d o al by (simp add: select_volume_def header_dec_enc sz holds_outer_def v_def)
  have nh: "\<not> v_hidden v" by (simp add: v_def blank_volume_def)
  have ld: "load_volume E v = Some (opened g en sz (of_nat HEADER_SIZE) False h now)"
    unfolding opened_def v_def using o by (intro load_fresh [OF libs _ sits_blank]) (simp add: holds_outer_def)
  note st = vol_open_steps [OF libs, of g pw hpw] 
  show "vol_open E (Some g) pw hpw False = Some (opened g en sz (of_nat HEADER_SIZE) False h now)"
    using st [of False] o sel ld by (simp add: holds_outer_def)
  show "vol_open E (Some g) pw hpw True =
      (case protect_volume E v (hidden_header_of (f_bytes g)) (length (f_bytes g)) hpw of
         None \<Rightarrow> None | Some w \<Rightarrow> load_volume E w)"
    using st [of True] o sel nh by (simp add: holds_outer_def)
qed

lemma create_holds_outer:
  assumes "libs_work E" "entropy_ok en" "pw \<noteq> []" "size_ok size_mb"
  shows "\<exists>g h. container_create E en (Some empty_file) size_mb pw now = (True, Some g) \<and>
    length (f_bytes g) = container_bytes size_mb \<and>
    holds_outer E en pw g (size_mb * 1024 * 1024 div 2) now h"
  using create_ok [OF assms, of now] size_ok_facts [OF assms(4)] valid_range_outer [OF assms(4)]
  unfolding holds_outer_def by metis

section \<open>A hidden volume beside it\<close>

lemma has_volume_cong:
  assumes hv: "has_volume E en g sz start now h" and len: "length (f_bytes g') = length (f_bytes g)"
    and flt: "f_faults g' = []"
    and same: "\<And>i. unat start \<le> i \<Longrightarrow> i < unat start + unat sz \<Longrightarrow> f_bytes g' ! i = f_bytes g ! i"
  shows "has_volume E en g' sz start now h"
  unfolding has_volume_def
proof (intro conjI allI impI)
  show "formattable sz" "compute_hmac E (en_hmac_key en) (fmt_bitmap (fmt_total_blocks sz)) = Some h"
    using hv by (simp_all add: has_volume_def)
  fix v assume v: "sits g' en sz start v"
  let ?u = "v\<lparr>v_file := g\<rparr>"
  have u: "sits g en sz start ?u" using v by (simp add: sits_def)
  have ru: "ready E ?u" "synced E (fresh h now ?u)" "cells E ?u (fmt_data_start (fmt_total_blocks sz)) = empty_dir"
    using hv u by (simp_all add: has_volume_def)
  have vf: "v_start v = start" "v_size v = sz" "v_file v = g'" using v by (simp_all add: sits_def)
  have geom: "vol_geom v" "unat start + unat sz \<le> length (f_bytes g)"
    using ru(1) by (simp_all add: ready_def vol_geom_def vf)
  show "ready E v"
    using ru(1) v flt len by (simp add: ready_def sits_def vol_geom_def)
  have cells: "cells E v b = cells E ?u b" if b: "unat b < vol_blocks v" for b
  proof -
    have bd: "unat b * SECTOR_SIZE + SECTOR_SIZE \<le> unat sz"
      using vol_blocks_bound [OF geom(1) b] by (simp add: vf)
    have "slice (unat start + unat b * SECTOR_SIZE) SECTOR_SIZE (f_bytes g') =
        slice (unat start + unat b * SECTOR_SIZE) SECTOR_SIZE (f_bytes g)"
      using bd geom(2) len same by (intro nth_equalityI) auto
    then show ?thesis by (simp add: cells_def vf)
  qed
  have fs: "formattable (v_size v)" "formattable (v_size ?u)" using \<open>formattable sz\<close> by (simp_all add: vf)
  note fb = formattable_blocks [OF fs(1)]
  show "cells E v (fmt_data_start (fmt_total_blocks sz)) = empty_dir"
    using cells fb(1) ru(3) by (simp add: vf)
  show "synced E (fresh h now v)"
    using ru(2) cells fb by (simp add: synced_def bitmap_on_disk_def inodes_on_disk_def vf)
qed

definition holds_hidden :: "env \<Rightarrow> entropy \<Rightarrow> bytes \<Rightarrow> cfile \<Rightarrow> u64 \<Rightarrow> u64 \<Rightarrow> bytes \<Rightarrow> bool" where
  "holds_hidden E en pw g sz now h \<longleftrightarrow> f_faults g = [] \<and> container_ok (length (f_bytes g)) \<and>
     try_header E (hidden_header_of (f_bytes g)) (trial_key E pw (hd_salt (hidden_header_of (f_bytes g)))) =
       Some (clipped (new_payload en sz)) \<and>
     HEADER_SIZE + unat sz \<le> length (f_bytes g) - DENYFS_HIDDEN_HEADER_OFFSET_FROM_EOF \<and>
     has_volume E en g sz (hidden_header_pos (length (f_bytes g)) - sz) now h"

lemma clipped_size [simp]: "hp_volume_size (clipped (new_payload en sz)) = sz"
  by (simp add: clipped_def new_payload_def)

lemma open_hidden:
  assumes libs: "libs_work E" and o: "holds_hidden E en pw g sz now h"
    and other: "try_header E (header_dec (slice 0 HEADER_SIZE (f_bytes g)))
      (trial_key E pw (hd_salt (header_dec (slice 0 HEADER_SIZE (f_bytes g))))) = None"
  shows "vol_open E (Some g) pw hpw protect =
    Some (opened g en sz (hidden_header_pos (length (f_bytes g)) - sz) True h now)"
proof -
  let ?s = "hidden_header_pos (length (f_bytes g)) - sz"
  let ?v = "blank_volume g (clipped (new_payload en sz)) True ?s"
  have c: "container_ok (length (f_bytes g))" and hv: "has_volume E en g sz ?s now h" and
    fl: "f_faults g = []" using o by (simp_all add: holds_hidden_def)
  have "hidden_fits (clipped (new_payload en sz)) (hidden_header_pos (length (f_bytes g)))"
    using o hv by (simp add: hidden_fits_iff [OF c] holds_hidden_def has_volume_def formattable_def)
  moreover have "e_alloc E x" for x using libs by (simp add: libs_work_def)
  ultimately have "select_volume E g (hidden_header_pos (length (f_bytes g))) None
      (Some (clipped (new_payload en sz))) = Some ?v" by (simp add: select_volume_def)
  moreover have "load_volume E ?v = Some (opened g en sz ?s True h now)"
    unfolding opened_def by (intro load_fresh [OF libs hv sits_blank])
  moreover have "v_hidden ?v" by (simp add: blank_volume_def)
  ultimately show ?thesis
    using vol_open_steps [OF libs fl c, of pw hpw protect] o other by (simp add: holds_hidden_def)
qed

lemma blocked_in_region:
  assumes "vol_geom v" "unat b < vol_blocks v" "blocked v b"
  shows "unat (v_start v) + unat b * SECTOR_SIZE \<in> protected_region v"
proof -
  have "(unat (v_start v) + unat b * SECTOR_SIZE) div SECTOR_SIZE = unat (v_start v) div SECTOR_SIZE + unat b"
    by simp
  then show ?thesis using assms(3) by (simp add: protected_region_iff blocked_def Let_def)
qed

theorem open_protected:
  assumes libs: "libs_work E" and o: "holds_outer E en pw g sz now h"
    and hid: "holds_hidden E en2 hpw g hsz now2 h2"
    and apart: "HEADER_SIZE + unat sz + unat hsz \<le> length (f_bytes g) - DENYFS_HIDDEN_HEADER_OFFSET_FROM_EOF"
  shows "\<exists>v. vol_open E (Some g) pw (Some hpw) True = Some v \<and> v_protect v \<and> \<not> v_hidden v \<and>
    protected_region v = hidden_region (f_bytes g) (clipped (new_payload en2 hsz)) \<and> ready E v \<and>
    v_inodes v = fmt_inodes (fmt_data_start (fmt_total_blocks sz)) now"
proof -
  let ?c = "length (f_bytes g)" and ?p = "clipped (new_payload en2 hsz)"
  let ?v = "blank_volume g (clipped (new_payload en sz)) False (of_nat HEADER_SIZE)"
  let ?d = "hidden_header_of (f_bytes g)"
  have c: "container_ok ?c" using o by (simp add: holds_outer_def)
  obtain key where key: "password_key E hpw (hd_salt ?d) = Some key" "trial_key E hpw (hd_salt ?d) = key"
    using libs_key [OF libs] by blast
  have al: "e_alloc E x" for x using libs by (simp add: libs_work_def)
  have fits: "hidden_fits ?p (hidden_header_pos ?c)"
    using hid by (simp add: hidden_fits_iff [OF c] holds_hidden_def has_volume_def formattable_def)
  then obtain w where w: "protect_volume E ?v ?d ?c (Some hpw) = Some w"
    using hid key al by (simp add: protect_volume_def holds_hidden_def)
  from w c obtain a b where
    wd: "w = ?v\<lparr>v_protect := True, v_pstart := a, v_pend := b\<rparr>"
    and pr: "protected_region w = hidden_region (f_bytes g) ?p"
  proof (rule protect_volume_SomeE)
    fix pw' key' p a b
    assume *: "Some hpw = Some pw'" "password_key E pw' (hd_salt ?d) = Some key'" "try_header E ?d key' = Some p"
      "w = ?v\<lparr>v_protect := True, v_pstart := a, v_pend := b\<rparr>"
      "protected_region w = {?c - DENYFS_HIDDEN_HEADER_OFFSET_FROM_EOF - unat (hp_volume_size p)..<?c}"
    then have "p = ?p" using key hid by (simp add: holds_hidden_def)
    then have "protected_region w = hidden_region (f_bytes g) ?p" using *(5) by (simp only: hidden_region_def)
    with *(4) show thesis by (rule that)
  qed
  have rv: "ready E ?v" using o sits_blank by (simp add: holds_outer_def has_volume_def)
  have "\<not> blocked w x" if x: "unat x < vol_blocks w" for x
  proof
    assume "blocked w x"
    moreover have "vol_geom w" using rv by (simp add: wd ready_def vol_geom_def)
    ultimately have "unat (v_start w) + unat x * SECTOR_SIZE \<in> hidden_region (f_bytes g) ?p"
      using blocked_in_region [of w x] x by (simp add: pr)
    moreover have "unat x * SECTOR_SIZE + SECTOR_SIZE \<le> unat sz"
      using vol_blocks_bound [of w x] \<open>vol_geom w\<close> x by (simp add: wd blank_volume_def)
    ultimately show False
      using apart
      by (simp add: wd blank_volume_def hidden_region_def unat_HEADER_SIZE SECTOR_SIZE_def) arith
  qed
  then have sw: "sits g en sz (of_nat HEADER_SIZE) w"
    by (simp add: sits_def) (simp add: wd blank_volume_def clipped_def new_payload_def inodes_zero_length)
  have hv: "has_volume E en g sz (of_nat HEADER_SIZE) now h" using o by (simp add: holds_outer_def)
  have "vol_open E (Some g) pw (Some hpw) True = Some (fresh h now w)"
    using open_outer(2) [OF libs o, of "Some hpw"] w load_fresh [OF libs hv sw] by simp
  moreover have "v_protect (fresh h now w)" "\<not> v_hidden (fresh h now w)" "v_size w = sz"
    "protected_region (fresh h now w) = protected_region w"
    by (simp_all add: wd fresh_def Let_def blank_volume_def protected_region_def)
  moreover have "ready E (fresh h now w)" using hv sw by (simp add: has_volume_def)
  ultimately show ?thesis using pr by (intro exI [of _ "fresh h now w"]) simp
qed

theorem create_hidden_ok:
  assumes libs: "libs_work E" and en: "entropy_ok en2" and o: "holds_outer E en pw g sz now h"
    and pws: "pw \<noteq> []" "hpw \<noteq> []" "pw \<noteq> hpw" and mb: "hmb \<noteq> 0"
      "unat hmb * 256 \<le> UINT32_MAX - 8"
    and room: "HEADER_SIZE + unat sz + unat hmb * 2 ^ 20 \<le>
      length (f_bytes g) - DENYFS_HIDDEN_HEADER_OFFSET_FROM_EOF"
  defines "hsz \<equiv> hmb * 1024 * 1024"
  shows "\<exists>g' h'. container_create_hidden E en2 (Some g) pw hpw hmb now2 = (Inr (), Some g') \<and>
    unat hsz = unat hmb * 2 ^ 20 \<and> length (f_bytes g') = length (f_bytes g) \<and>
    holds_outer E en pw g' sz now h \<and> holds_hidden E en2 hpw g' hsz now2 h'"
proof -
  let ?c = "length (f_bytes g)"
  let ?hp = "hidden_header_pos ?c"
  have lt: "unat hmb * 2 ^ 20 < 2 ^ 64" "unat hmb < 2 ^ 40" using mb(2) by (simp_all add: UINT32_MAX_def)
  then have hs: "unat hsz = unat hmb * 2 ^ 20" by (simp add: hsz_def unat_word_ariths)
  have c: "container_ok ?c" and fl: "f_faults g = []" using o by (simp_all add: holds_outer_def)
  note hp = unat_hidden_header_pos [OF c]
  have pos: "1 \<le> unat hmb" using mb(1) by (simp add: Suc_le_eq unat_gt_0)
  have b: "unat hsz div SECTOR_SIZE = unat hmb * 256" by (simp add: hs SECTOR_SIZE_def)
  have nb: "unat (fmt_total_blocks hsz) = unat hmb * 256"
    using mb(2) by (simp only: fmt_total_blocks_def b unsigned_of_nat) (simp add: take_bit_nat_eq_self UINT32_MAX_def)
  have fo: "fmt_ok (fmt_total_blocks hsz)"
    using mb(2) pos by (simp add: fmt_ok_def nb word_less_nat_alt unat_fmt_data_start unat_fmt_bitmap_blocks SECTOR_SIZE_def)
  have "hsz \<noteq> 0" using hs pos by auto
  then have fsz: "formattable hsz" using fo mb(2) by (simp add: formattable_def b) (simp add: hs SECTOR_SIZE_def)
  let ?start = "?hp - hsz"
  have st: "unat ?start = ?c - DENYFS_HIDDEN_HEADER_OFFSET_FROM_EOF - unat hsz"
    using room hs by (simp add: unat_sub word_le_nat_alt hp)
  have al: "unat ?start mod SECTOR_SIZE = 0"
    using c unfolding st hs container_ok_def
    by (auto simp: SECTOR_SIZE_def DENYFS_HIDDEN_HEADER_OFFSET_FROM_EOF_def mod_0_imp_dvd intro!: dvd_imp_mod_0 dvd_diff_nat)
  have cl: "?c \<le> LONG_MAX" "DENYFS_HIDDEN_HEADER_OFFSET_FROM_EOF + HEADER_SIZE \<le> ?c"
    using c by (simp_all add: container_ok_def)
  have in_c: "unat ?start + unat hsz \<le> LONG_MAX" "unat ?start + unat hsz \<le> ?c"
    "unat ?hp + HEADER_SIZE \<le> ?c" "unat ?start + unat hsz \<le> unat ?hp"
    using cl room hs unfolding st hp
    by (simp_all add: HEADER_SIZE_def DENYFS_HIDDEN_HEADER_OFFSET_FROM_EOF_def)
  from install_ok [OF libs en fl fsz al in_c(1,2,3) disjI2 [OF in_c(4)], of hpw now2] obtain g' d h' where
    g': "install_volume E en2 g hpw (unat ?hp) hsz ?start now2 = (True, g')" "f_faults g' = []"
      "length (f_bytes g') = ?c" "slice (unat ?hp) HEADER_SIZE (f_bytes g') = header_enc d" "header_ok d"
      "try_header E d (trial_key E hpw (hd_salt d)) = Some (clipped (new_payload en2 hsz))"
      "has_volume E en2 g' hsz ?start now2 h'"
    and same: "\<And>i. i < ?c \<Longrightarrow> i \<notin> {unat ?hp..<unat ?hp + HEADER_SIZE} \<Longrightarrow>
      i \<notin> {unat ?start..<unat ?start + unat hsz} \<Longrightarrow> f_bytes g' ! i = f_bytes g ! i"
    by blast
  have low: "f_bytes g' ! i = f_bytes g ! i" if "i < HEADER_SIZE + unat sz" for i
  proof -
    have "i < unat ?start" "i < unat ?hp" "i < ?c" using that room hs unfolding st hp by simp_all
    then show ?thesis by (intro same) simp_all
  qed
  have "slice 0 HEADER_SIZE (f_bytes g') = slice 0 HEADER_SIZE (f_bytes g)"
    using low g'(3) cl(2) by (intro nth_equalityI) auto
  moreover have "has_volume E en g' sz (of_nat HEADER_SIZE) now h"
  proof (rule has_volume_cong)
    show "has_volume E en g sz (of_nat HEADER_SIZE) now h" using o unfolding holds_outer_def by blast
    show "f_bytes g' ! i = f_bytes g ! i"
      if "i < unat (of_nat HEADER_SIZE :: u64) + unat sz" for i
      using that by (intro low) (simp add: unat_HEADER_SIZE)
  qed (use g' in simp_all)
  ultimately have "holds_outer E en pw g' sz now h"
    using o g'(2) c unfolding holds_outer_def g'(3) by (simp only: simp_thms)
  moreover have hd: "hidden_header_of (f_bytes g') = d"
    using g'(4,5) by (simp add: hidden_header_of_def header_dec_enc hp g'(3))
  have "HEADER_SIZE + unat hsz \<le> ?c - DENYFS_HIDDEN_HEADER_OFFSET_FROM_EOF" using room hs by simp
  then have "holds_hidden E en2 hpw g' hsz now2 h'"
    unfolding holds_hidden_def hd g'(3) using g'(2,6,7) c by blast
  moreover have "container_create_hidden E en2 (Some g) pw hpw hmb now2 = (Inr (), Some g')"
  proof -
    let ?v = "opened g en sz (of_nat HEADER_SIZE) False h now"
    have v: "v_file ?v = g" "v_start ?v = of_nat HEADER_SIZE" "v_size ?v = sz"
      by (simp_all add: opened_def blank_volume_def)
    have sm: "hmb * (1024 * 1024) = hsz" by (simp add: hsz_def)
    have sz2: "HEADER_SIZE + unat sz \<le> ?c - DENYFS_HIDDEN_HEADER_OFFSET_FROM_EOF" using room by simp
    then have oe: "unat (of_nat HEADER_SIZE + sz) = HEADER_SIZE + unat sz"
      using cl by (simp add: unat_word_ariths unat_HEADER_SIZE LONG_MAX_def)
    have ns: "\<not> ?hp < hsz" "\<not> ?start < of_nat HEADER_SIZE + sz" "unat hsz mod SECTOR_SIZE = 0"
      "\<not> UINT32_MAX - 8 < unat hsz div SECTOR_SIZE" "\<not> (2 ^ 64 - 1) div (1024 * 1024) < unat hmb"
      using room hs mb(2) lt(2) fsz
      by (simp_all add: word_less_nat_alt hp st oe not_less b formattable_def)
    have sk: "fseek g = (True, g)" using fl by simp
    have ak: "e_alloc E x" for x using libs by (simp add: libs_work_def)
    show ?thesis
      using pws mb(1) ns cl c sk ak g'(1) open_outer(1) [OF libs o, of None]
      unfolding container_create_hidden_def sm hsz_def [symmetric] Let_def
      by (simp add: v container_ok_def not_less)
  qed
  ultimately show ?thesis using hs g'(3) by blast
qed

section \<open>Frames of the creation functions\<close>

lemma install_frame:
  assumes inst: "install_volume E en f pw hpos sz start now = (ok, g)"
    and geom: "unat start mod SECTOR_SIZE = 0" "unat start + unat sz \<le> LONG_MAX" "unat sz mod SECTOR_SIZE = 0"
    and i: "i < length (f_bytes f)" "i \<notin> {hpos..<hpos + HEADER_SIZE}" "i \<notin> {unat start..<unat start + unat sz}"
  shows "f_bytes g ! i = f_bytes f ! i"
proof (cases "new_header E en pw sz")
  case None
  with inst show ?thesis by (simp add: install_volume_def)
next
  case (Some h)
  obtain ok1 f1 where 1: "fseek f = (ok1, f1)" by fastforce
  obtain n f2 where 2: "fwrite f1 hpos HEADER_SIZE (header_enc h) = (n, f2)" by fastforce
  have b1: "f_bytes f1 = f_bytes f" using 1 by (rule fseek_bytes)
  have fr: "length (f_bytes f) \<le> length (f_bytes f2)" "f_bytes f2 ! i = f_bytes f ! i"
    using fwrite_frame [OF 2] i by (auto simp: b1)
  let ?v = "blank_volume f2 (new_payload en sz) False start"
  have vf: "v_file ?v = f2" "v_size ?v = sz" "v_start ?v = start" "v_key ?v = en_volume_key en" "\<not> v_protect ?v"
    by (simp_all add: blank_volume_def new_payload_def)
  have vg: "vol_geom ?v" using geom by (simp add: vol_geom_def vf)
  have "f_bytes x ! i = f_bytes f2 ! i"
    if "format_volume E f2 (en_volume_key en) (en_hmac_key en) sz start now = (ok, x)" for x
    using format_keeps [OF vg vf(5), of E "en_hmac_key en" now ok x] that vg i fr(1)
    by (simp add: keeps_def vf volume_region_def)
  then show ?thesis
    using inst Some 1 2 fr b1 by (auto simp: install_volume_def split: if_splits)
qed

theorem create_hidden_frame:
  assumes op: "vol_open E (Some f) pw None False = Some v"
    and cr: "container_create_hidden E en (Some f) pw hpw mb now = (r, Some g)"
    and i: "i < unat (v_start v) + unat (v_size v)"
  shows "f_bytes g ! i = f_bytes f ! i"
proof -
  from op obtain v0 where v0: "container_ok (length (f_bytes f))" "placed (length (f_bytes f)) v0"
    "consumes f (v_file v0)" "load_volume E v0 = Some v" by (rule vol_open_SomeE)
  have pl: "placed (length (f_bytes f)) v" by (rule load_placed [OF v0(4) v0(2)])
  have bv: "f_bytes (v_file v) = f_bytes f"
    using load_volume_place [OF v0(4)] v0(3) by (simp add: same_place_def consumes_def)
  obtain ok f1 where 1: "fseek (v_file v) = (ok, f1)" by fastforce
  have b1: "f_bytes f1 = f_bytes f" using fseek_bytes [OF 1] bv by simp
  let ?c = "length (f_bytes f)" and ?h = "mb * 1024 * 1024" and ?hp = "hidden_header_pos (length (f_bytes f))"
  note hp = unat_hidden_header_pos [OF v0(1)]
  have oe: "unat (v_start v + v_size v) = unat (v_start v) + unat (v_size v)"
    using pl by (auto simp: placed_def vol_geom_def unat_word_ariths LONG_MAX_def)
  have ic: "i < ?c - DENYFS_HIDDEN_HEADER_OFFSET_FROM_EOF" "i < ?c"
    using pl i v0(1) by (auto simp: placed_def container_ok_def split: if_splits)
  show ?thesis
  proof (cases "?hp < ?h \<or> ?hp - ?h < v_start v + v_size v \<or> unat ?h mod SECTOR_SIZE \<noteq> 0 \<or>
      \<not> e_alloc E Hidden_keys \<or> \<not> ok \<or> \<not> container_ok ?c")
    case True
    then have "g = f1 \<or> g = f"
      using cr op 1 by (auto simp: container_create_hidden_def Let_def b1 not_le container_ok_def split: if_splits)
    then show ?thesis using b1 by auto
  next
    case False
    then have ns: "?h \<le> ?hp" "v_start v + v_size v \<le> ?hp - ?h" "unat ?h mod SECTOR_SIZE = 0"
      by (simp_all add: not_less)
    have st: "unat (?hp - ?h) = unat ?hp - unat ?h" "unat ?h \<le> unat ?hp"
      using ns(1) by (simp_all add: unat_sub word_le_nat_alt)
    have "unat ?hp mod SECTOR_SIZE = 0" "unat ?hp \<le> LONG_MAX"
      using v0(1) unfolding hp container_ok_def
      by (auto simp: SECTOR_SIZE_def DENYFS_HIDDEN_HEADER_OFFSET_FROM_EOF_def mod_0_imp_dvd
          intro!: dvd_imp_mod_0 dvd_diff_nat)
    then have al: "unat (?hp - ?h) mod SECTOR_SIZE = 0" "unat (?hp - ?h) + unat ?h \<le> LONG_MAX"
      using ns(3) st by (auto simp: mod_0_imp_dvd intro!: dvd_imp_mod_0 dvd_diff_nat)
    have "unat (v_start v) + unat (v_size v) \<le> unat (?hp - ?h)" using ns(2) oe by (simp add: word_le_nat_alt)
    then have out: "i \<notin> {unat ?hp..<unat ?hp + HEADER_SIZE}" "i \<notin> {unat (?hp - ?h)..<unat (?hp - ?h) + unat ?h}"
      using i ic(1) hp by simp_all
    have "f_bytes x ! i = f_bytes f1 ! i"
      if "install_volume E en f1 hpw (unat ?hp) ?h (?hp - ?h) now = (y, x)" for x y
      using install_frame [OF that al ns(3)] ic(2) out by (simp add: b1)
    moreover have "g = f \<or> g = f1 \<or> (\<exists>y. install_volume E en f1 hpw (unat ?hp) ?h (?hp - ?h) now = (y, g))"
      using cr op 1 by (auto simp: container_create_hidden_def Let_def b1 split: if_splits prod.splits)
    ultimately show ?thesis using b1 by auto
  qed
qed

end
