(* ===== verification/Story.thy ===== *)
theory Story
  imports Create
begin

text \<open>
  A concrete container for the witnesses: 4 MiB, created under one password, with a hidden volume of
  1 MiB created under another, and the three ways it can be mounted. The libraries are \<open>plain_env\<close>.
\<close>

definition demo_entropy :: entropy where
  "demo_entropy = \<lparr>en_fill = (\<lambda>i. of_nat i), en_salt = replicate 16 1, en_volume_key = replicate 64 2,
     en_hmac_key = replicate 32 3, en_reserved = replicate 3932 4, en_iv = replicate 12 5\<rparr>"

definition outer_pw :: bytes where "outer_pw = map of_char ''outer''"
definition hidden_pw :: bytes where "hidden_pw = map of_char ''hidden''"

definition outer_size :: u64 where "outer_size = 4 * 1024 * 1024 div 2"
definition hidden_size :: u64 where "hidden_size = 1 * 1024 * 1024"

definition demo_outer :: cfile where
  "demo_outer = the (snd (container_create plain_env demo_entropy (Some empty_file) 4 outer_pw 0))"

definition demo_both :: cfile where
  "demo_both = the (snd (container_create_hidden plain_env demo_entropy (Some demo_outer) outer_pw
     hidden_pw 1 0))"

lemma demo_entropy_ok: "entropy_ok demo_entropy"
  by (simp add: entropy_ok_def demo_entropy_def crypto_sizes)

lemma demo_pws: "outer_pw \<noteq> []" "hidden_pw \<noteq> []" "outer_pw \<noteq> hidden_pw"
  by (simp_all add: outer_pw_def hidden_pw_def)

lemma demo_size_ok: "size_ok 4" "container_bytes 4 = 4194304"
  by (simp_all add: size_ok_def container_bytes_def LONG_MAX_def UINT32_MAX_def SECTOR_SIZE_def)

lemma demo_sizes: "unat outer_size = 2097152" "unat hidden_size = 1048576"
  by (simp_all add: outer_size_def hidden_size_def)

lemma demo_outer_ok:
  "\<exists>h. container_create plain_env demo_entropy (Some empty_file) 4 outer_pw 0 = (True, Some demo_outer) \<and>
     length (f_bytes demo_outer) = 4194304 \<and>
     holds_outer plain_env demo_entropy outer_pw demo_outer outer_size 0 h"
proof -
  obtain g h where g: "container_create plain_env demo_entropy (Some empty_file) 4 outer_pw 0 = (True, Some g)"
    "length (f_bytes g) = container_bytes 4"
    "holds_outer plain_env demo_entropy outer_pw g (4 * 1024 * 1024 div 2) 0 h"
    using create_holds_outer [OF plain_libs demo_entropy_ok demo_pws(1) demo_size_ok(1), of 0] by blast
  have "demo_outer = g" by (simp add: demo_outer_def g(1))
  with g show ?thesis unfolding outer_size_def demo_size_ok(2) by blast
qed

lemma demo_both_ok:
  "\<exists>h h2. container_create_hidden plain_env demo_entropy (Some demo_outer) outer_pw hidden_pw 1 0 =
     (Inr (), Some demo_both) \<and> length (f_bytes demo_both) = 4194304 \<and>
     holds_outer plain_env demo_entropy outer_pw demo_both outer_size 0 h \<and>
     holds_hidden plain_env demo_entropy hidden_pw demo_both hidden_size 0 h2"
proof -
  obtain h where o: "length (f_bytes demo_outer) = 4194304"
    "holds_outer plain_env demo_entropy outer_pw demo_outer outer_size 0 h"
    using demo_outer_ok by blast
  have room: "HEADER_SIZE + unat outer_size + unat (1 :: u64) * 2 ^ 20 \<le>
      length (f_bytes demo_outer) - DENYFS_HIDDEN_HEADER_OFFSET_FROM_EOF"
    by (simp add: o(1) demo_sizes HEADER_SIZE_def DENYFS_HIDDEN_HEADER_OFFSET_FROM_EOF_def)
  obtain g h' where g: "container_create_hidden plain_env demo_entropy (Some demo_outer) outer_pw hidden_pw 1 0 =
      (Inr (), Some g)" "length (f_bytes g) = length (f_bytes demo_outer)"
    "holds_outer plain_env demo_entropy outer_pw g outer_size 0 h"
    "holds_hidden plain_env demo_entropy hidden_pw g (1 * 1024 * 1024) 0 h'"
    using create_hidden_ok [OF plain_libs demo_entropy_ok o(2) demo_pws _ _ room, of 0]
    by (auto simp: UINT32_MAX_def)
  have "demo_both = g" by (simp add: demo_both_def g(1))
  with g o(1) show ?thesis unfolding hidden_size_def by auto
qed

lemma demo_both_protected:
  "\<exists>v. vol_open plain_env (Some demo_both) outer_pw (Some hidden_pw) True = Some v \<and> v_protect v \<and>
     \<not> v_hidden v \<and> ready plain_env v"
proof -
  obtain h h2 where o: "length (f_bytes demo_both) = 4194304"
    "holds_outer plain_env demo_entropy outer_pw demo_both outer_size 0 h"
    "holds_hidden plain_env demo_entropy hidden_pw demo_both hidden_size 0 h2"
    using demo_both_ok by blast
  have "HEADER_SIZE + unat outer_size + unat hidden_size \<le>
      length (f_bytes demo_both) - DENYFS_HIDDEN_HEADER_OFFSET_FROM_EOF"
    by (simp add: o(1) demo_sizes HEADER_SIZE_def DENYFS_HIDDEN_HEADER_OFFSET_FROM_EOF_def)
  from open_protected [OF plain_libs o(2,3) this] show ?thesis by blast
qed

section \<open>The mounted demo volume on disk\<close>

lemma demo_valid: "validate_superblock (fmt_superblock 8 h) (8 * 4096)"
proof -
  have t: "fmt_total_blocks (8 * 4096) = 8" by (simp add: fmt_total_blocks_def SECTOR_SIZE_def)
  have "validate_superblock (fmt_superblock (fmt_total_blocks (8 * 4096)) h) (8 * 4096)"
    using demo_geometry(3) unfolding t [symmetric]
    by (intro fmt_superblock_valid) (simp_all add: SECTOR_SIZE_def UINT32_MAX_def)
  then show ?thesis by (simp only: t)
qed

lemma demo_wf: "wf demo"
  using fmt_inodes_ok [of 4 0] demo_valid [of "replicate 32 0"]
  by (simp add: wf_def demo_valid fmt_superblock_ok DENYFS_HMAC_SIZE_def inodes_ok_def demo_geometry)

lemma demo_clean: "clean_synced plain_env demo"
  by (simp add: clean_synced_def demo_geometry bitmap_on_disk_def demo_cells demo_blocks_def)

lemma plain_hmac: "compute_hmac plain_env key d = Some (pad 32 key)"
  by (simp add: compute_hmac_def)

text \<open>A header of \<open>plain_env\<close> opens under one password only.\<close>

lemma plain_trial: "trial_key plain_env pw salt = pad 32 (pad 32 pw)"
  by (simp add: trial_key_def derive_master_key_def derive_header_key_def length_header_key_info Let_def
      crypto_sizes)

lemma plain_try_other:
  "try_header plain_env d (trial_key plain_env pw salt) = Some p \<Longrightarrow>
   pad TAG_SIZE (pad 32 (pad 32 pw)) \<noteq> pad TAG_SIZE key \<Longrightarrow> try_header plain_env d key = None"
  by (auto simp: plain_trial try_header_def decrypt_header_def split: if_splits)

lemma wrong_key:
  "pad TAG_SIZE (pad 32 (pad 32 outer_pw)) \<noteq> pad TAG_SIZE (pad 32 (pad 32 (map of_char ''wrong'')))"
  "pad TAG_SIZE (pad 32 (pad 32 hidden_pw)) \<noteq> pad TAG_SIZE (pad 32 (pad 32 (map of_char ''wrong'')))"
  by (simp_all add: pad_def TAG_SIZE_def outer_pw_def hidden_pw_def)

section \<open>Sessions\<close>

lemma keeps_session: "fuse_run E v w \<Longrightarrow> keeps v (snd (vol_flush E w))"
  using fuse_run_run [of E v w] kp.chain_run [of E v _ w v] kp.chain_flush [of E w _ _ v]
  by (metis keeps_refl prod.collapse)

lemma fuse_destroy_file: "fuse_destroy E w = v_file (snd (vol_flush E w))"
  by (cases "vol_flush E w") (simp add: fuse_destroy_def vol_close_def)

lemma create_run: "fuse_run E v (snd (fuse_create E now v path))"
  by (rule f_more [OF f_create f_stop]) (rule prod.collapse [symmetric])

end
