(* ===== verification/Slots.thy ===== *)
theory Slots
  imports Story
begin

text \<open>
  The block trees of the files, seen as a flat set of slots. A slot is a place that stores a block
  pointer: one of the 20 direct pointers, the single-indirect pointer and its entries, the
  double-indirect pointer, its children and their entries. \<open>sval\<close> reads a slot from the plaintext cells,
  \<open>put\<close> stores into one, and \<open>owned\<close> is the invariant that makes the trees a partition of the used
  blocks: every pointer is to a used block, no block is pointed to twice and no used block is lost.
\<close>

section \<open>Slots\<close>

datatype slot = Direct nat | Single | Entry nat | Double | Child nat | Leaf nat nat

fun slot_ok :: "slot \<Rightarrow> bool" where
  "slot_ok (Direct i) \<longleftrightarrow> i < DENYFS_DIRECT_BLOCKS"
| "slot_ok Single \<longleftrightarrow> True"
| "slot_ok (Entry i) \<longleftrightarrow> i < DENYFS_POINTERS_PER_BLOCK"
| "slot_ok Double \<longleftrightarrow> True"
| "slot_ok (Child i) \<longleftrightarrow> i < DENYFS_POINTERS_PER_BLOCK"
| "slot_ok (Leaf i j) \<longleftrightarrow> i < DENYFS_POINTERS_PER_BLOCK \<and> j < DENYFS_POINTERS_PER_BLOCK"

text \<open>Slots that point to file data, and slots that point to pointer tables.\<close>

fun data_slot :: "slot \<Rightarrow> bool" where
  "data_slot (Direct i) = True"
| "data_slot (Entry i) = True"
| "data_slot (Leaf i j) = True"
| "data_slot s = False"

text \<open>A missing table reads as a table without entries.\<close>

definition table :: "(u32 \<Rightarrow> bytes) \<Rightarrow> u32 \<Rightarrow> u32 list" where
  "table f b = (if b = DENYFS_INVALID_BLOCK then empty_table else ptrs_dec (f b))"

fun sval :: "(u32 \<Rightarrow> bytes) \<Rightarrow> inode \<Rightarrow> slot \<Rightarrow> u32" where
  "sval f nd (Direct i) = i_direct nd ! i"
| "sval f nd Single = i_indirect nd"
| "sval f nd (Entry i) = table f (i_indirect nd) ! i"
| "sval f nd Double = i_double nd"
| "sval f nd (Child i) = table f (i_double nd) ! i"
| "sval f nd (Leaf i j) = table f (table f (i_double nd) ! i) ! j"

text \<open>The slot of a logical block of a file.\<close>

definition slot_of :: "nat \<Rightarrow> slot" where
  "slot_of lb =
     (if lb < DENYFS_DIRECT_BLOCKS then Direct lb
      else if lb - DENYFS_DIRECT_BLOCKS < DENYFS_POINTERS_PER_BLOCK then Entry (lb - DENYFS_DIRECT_BLOCKS)
      else let i = lb - DENYFS_DIRECT_BLOCKS - DENYFS_POINTERS_PER_BLOCK in
        Leaf (i div DENYFS_POINTERS_PER_BLOCK) (i mod DENYFS_POINTERS_PER_BLOCK))"

definition points :: "(u32 \<Rightarrow> bytes) \<Rightarrow> inode list \<Rightarrow> nat \<Rightarrow> slot \<Rightarrow> bool" where
  "points f nds i s \<longleftrightarrow> i < length nds \<and> slot_ok s \<and> sval f (nds ! i) s \<noteq> DENYFS_INVALID_BLOCK"

definition owned :: "(u32 \<Rightarrow> bytes) \<Rightarrow> inode list \<Rightarrow> nat set \<Rightarrow> bool" where
  "owned f nds U \<longleftrightarrow>
     (\<forall>i < length nds. \<forall>s. slot_ok s \<longrightarrow> sval f (nds ! i) s \<noteq> DENYFS_INVALID_BLOCK \<longrightarrow>
        unat (sval f (nds ! i) s) \<in> U) \<and>
     (\<forall>i < length nds. \<forall>j < length nds. \<forall>s t. slot_ok s \<longrightarrow> slot_ok t \<longrightarrow>
        sval f (nds ! i) s = sval f (nds ! j) t \<longrightarrow> sval f (nds ! i) s \<noteq> DENYFS_INVALID_BLOCK \<longrightarrow>
        i = j \<and> s = t) \<and>
     (\<forall>a \<in> U. \<exists>i s. points f nds i s \<and> unat (sval f (nds ! i) s) = a)"

section \<open>Basic facts\<close>

lemma POINTERS_pos [simp]: "0 < DENYFS_POINTERS_PER_BLOCK"
  by (simp add: layout_sizes)

lemma length_empty_table [simp]: "length empty_table = DENYFS_POINTERS_PER_BLOCK"
  by (simp add: empty_table_def)

lemma nth_empty_table [simp]: "i < DENYFS_POINTERS_PER_BLOCK \<Longrightarrow> empty_table ! i = DENYFS_INVALID_BLOCK"
  by (simp add: empty_table_def)

lemma length_table [simp]: "length (table f b) = DENYFS_POINTERS_PER_BLOCK"
  by (simp add: table_def)

lemma table_invalid [simp]: "table f DENYFS_INVALID_BLOCK = empty_table"
  by (simp add: table_def)

lemma slot_of_ok: "lb < DENYFS_MAX_FILE_BLOCKS \<Longrightarrow> slot_ok (slot_of lb)"
  by (auto simp: slot_of_def Let_def DENYFS_MAX_FILE_BLOCKS_def less_mult_imp_div_less)

lemma slot_of_data [simp]: "data_slot (slot_of lb)"
  by (simp add: slot_of_def Let_def)

lemma div_mod_cancel: "a div n = b div n \<Longrightarrow> a mod n = b mod n \<Longrightarrow> a = (b :: nat)"
  by (metis div_mult_mod_eq)

lemma slot_of_cases:
  obtains (direct) "lb < DENYFS_DIRECT_BLOCKS" "slot_of lb = Direct lb"
  | (entry) i where "i < DENYFS_POINTERS_PER_BLOCK" "lb = DENYFS_DIRECT_BLOCKS + i" "slot_of lb = Entry i"
  | (leaf) i where "lb = DENYFS_DIRECT_BLOCKS + DENYFS_POINTERS_PER_BLOCK + i"
      "slot_of lb = Leaf (i div DENYFS_POINTERS_PER_BLOCK) (i mod DENYFS_POINTERS_PER_BLOCK)"
proof -
  consider "lb < DENYFS_DIRECT_BLOCKS"
    | i where "lb = DENYFS_DIRECT_BLOCKS + i" "i < DENYFS_POINTERS_PER_BLOCK"
    | i where "lb = DENYFS_DIRECT_BLOCKS + DENYFS_POINTERS_PER_BLOCK + i"
    by (metis add.assoc le_Suc_ex not_less)
  then show ?thesis
    by cases (auto simp: slot_of_def Let_def intro: direct entry leaf)
qed

lemma slot_of_inj:
  assumes "slot_of a = slot_of b"
  shows "a = b"
proof (cases a rule: slot_of_cases)
  case direct
  with assms show ?thesis by (cases b rule: slot_of_cases) simp_all
next
  case (entry i)
  with assms show ?thesis by (cases b rule: slot_of_cases) simp_all
next
  case (leaf i)
  note a = this
  show ?thesis
  proof (cases b rule: slot_of_cases)
    case (leaf j)
    have "i = j"
      using assms div_mod_cancel [of i DENYFS_POINTERS_PER_BLOCK j] unfolding a(2) leaf(2) slot.inject by blast
    then show ?thesis by (simp only: a(1) leaf(1))
  qed (use assms a in simp_all)
qed

text \<open>Every data slot is the slot of a logical block.\<close>

lemma slot_of_surj:
  assumes "slot_ok s" "data_slot s"
  shows "\<exists>lb < DENYFS_MAX_FILE_BLOCKS. slot_of lb = s"
proof (cases s)
  case (Direct i)
  with assms show ?thesis
    by (intro exI [of _ i]) (simp add: slot_of_def DENYFS_MAX_FILE_BLOCKS_def)
next
  case (Entry i)
  with assms show ?thesis
    by (intro exI [of _ "DENYFS_DIRECT_BLOCKS + i"]) (simp add: slot_of_def DENYFS_MAX_FILE_BLOCKS_def)
next
  case (Leaf i j)
  let ?P = DENYFS_POINTERS_PER_BLOCK
  have "i * ?P + j < ?P * ?P"
  proof -
    have "i * ?P + j < (i + 1) * ?P" using assms Leaf by simp
    also have "\<dots> \<le> ?P * ?P" using assms Leaf by (intro mult_le_mono1) simp
    finally show ?thesis .
  qed
  with assms Leaf show ?thesis
    by (intro exI [of _ "DENYFS_DIRECT_BLOCKS + ?P + (i * ?P + j)"])
      (simp add: slot_of_def DENYFS_MAX_FILE_BLOCKS_def Let_def)
qed (use assms in simp_all)

lemma ownedD:
  "owned f nds U \<Longrightarrow> i < length nds \<Longrightarrow> slot_ok s \<Longrightarrow> sval f (nds ! i) s \<noteq> DENYFS_INVALID_BLOCK \<Longrightarrow>
   unat (sval f (nds ! i) s) \<in> U"
  by (simp add: owned_def)

lemma owned_reach:
  "owned f nds U \<Longrightarrow> a \<in> U \<Longrightarrow> \<exists>i s. points f nds i s \<and> unat (sval f (nds ! i) s) = a"
  by (simp add: owned_def)

lemma owned_inj:
  "owned f nds U \<Longrightarrow> i < length nds \<Longrightarrow> j < length nds \<Longrightarrow> slot_ok s \<Longrightarrow> slot_ok t \<Longrightarrow>
   sval f (nds ! i) s = sval f (nds ! j) t \<Longrightarrow> sval f (nds ! i) s \<noteq> DENYFS_INVALID_BLOCK \<Longrightarrow>
   i = j \<and> s = t"
  unfolding owned_def by blast

text \<open>Only the cells of used blocks matter.\<close>

lemma table_agree: "(b \<noteq> DENYFS_INVALID_BLOCK \<Longrightarrow> g b = f b) \<Longrightarrow> table g b = table f b"
  by (simp add: table_def)

lemma sval_agree_gen:
  assumes "\<And>s. slot_ok s \<Longrightarrow> \<not> data_slot s \<Longrightarrow> sval f nd s \<noteq> DENYFS_INVALID_BLOCK \<Longrightarrow> g (sval f nd s) = f (sval f nd s)"
    and "slot_ok s"
  shows "sval g nd s = sval f nd s"
proof -
  have 1: "table g (i_indirect nd) = table f (i_indirect nd)"
    using assms(1) [of Single] by (intro table_agree) simp
  have 2: "table g (i_double nd) = table f (i_double nd)"
    using assms(1) [of Double] by (intro table_agree) simp
  have 3: "table g (table f (i_double nd) ! i) = table f (table f (i_double nd) ! i)"
    if "i < DENYFS_POINTERS_PER_BLOCK" for i
    using assms(1) [of "Child i"] that by (intro table_agree) simp
  show ?thesis using assms(2) 1 2 3 by (cases s) simp_all
qed

lemma sval_agree:
  assumes "owned f nds U" "i < length nds" "\<And>c. unat c \<in> U \<Longrightarrow> g c = f c" "slot_ok s"
  shows "sval g (nds ! i) s = sval f (nds ! i) s"
  using assms by (intro sval_agree_gen) (auto dest: ownedD)

lemma owned_same:
  assumes "owned f nds U" "length nds' = length nds"
    and sv: "\<And>i s. i < length nds \<Longrightarrow> slot_ok s \<Longrightarrow> sval g (nds' ! i) s = sval f (nds ! i) s"
  shows "owned g nds' U"
proof -
  have "points g nds' i s = points f nds i s" for i s using sv [of i s] assms(2) by (auto simp: points_def)
  moreover have "points f nds i s \<Longrightarrow> sval g (nds' ! i) s = sval f (nds ! i) s" for i s
    using sv [of i s] by (simp add: points_def)
  ultimately show ?thesis using assms(1,2) sv unfolding owned_def by (simp cong: conj_cong)
qed

lemma owned_agree:
  assumes "owned f nds U" "\<And>c. unat c \<in> U \<Longrightarrow> g c = f c"
  shows "owned g nds U"
  using sval_agree [OF assms(1) _ assms(2)] by (intro owned_same [OF assms(1)]) simp_all

text \<open>Trees that lose slots, with the blocks that are still pointed to in use.\<close>

lemma owned_shrink:
  assumes "owned f nds U" "length nds' = length nds"
    and "\<And>i s. i < length nds \<Longrightarrow> slot_ok s \<Longrightarrow>
      sval g (nds' ! i) s = DENYFS_INVALID_BLOCK \<or> sval g (nds' ! i) s = sval f (nds ! i) s"
    and "\<And>i s. i < length nds \<Longrightarrow> slot_ok s \<Longrightarrow> sval g (nds' ! i) s \<noteq> DENYFS_INVALID_BLOCK \<Longrightarrow>
      unat (sval g (nds' ! i) s) \<in> U'"
    and "\<And>a. a \<in> U' \<Longrightarrow> \<exists>i s. points g nds' i s \<and> unat (sval g (nds' ! i) s) = a"
  shows "owned g nds' U'"
  unfolding owned_def
proof (intro conjI allI ballI impI)
  fix i s assume "i < length nds'" "slot_ok s" "sval g (nds' ! i) s \<noteq> DENYFS_INVALID_BLOCK"
  then show "unat (sval g (nds' ! i) s) \<in> U'" using assms(2,4) by simp
next
  fix i j s t
  assume *: "i < length nds'" "j < length nds'" "slot_ok s" "slot_ok t"
    "sval g (nds' ! i) s = sval g (nds' ! j) t" "sval g (nds' ! i) s \<noteq> DENYFS_INVALID_BLOCK"
  then have "sval g (nds' ! i) s = sval f (nds ! i) s" "sval g (nds' ! j) t = sval f (nds ! j) t"
    using assms(2) assms(3) [of i s] assms(3) [of j t] by auto
  with * owned_inj [OF assms(1), of i j s t] assms(2) show "i = j" "s = t" by auto
qed (rule assms(5))

section \<open>Storing into a slot\<close>

fun put :: "(u32 \<Rightarrow> bytes) \<Rightarrow> inode \<Rightarrow> slot \<Rightarrow> u32 \<Rightarrow> (u32 \<Rightarrow> bytes) \<times> inode" where
  "put f nd (Direct i) b = (f, nd\<lparr>i_direct := (i_direct nd)[i := b]\<rparr>)"
| "put f nd Single b = (f, nd\<lparr>i_indirect := b\<rparr>)"
| "put f nd (Entry i) b =
     (f(i_indirect nd := ptrs_enc ((table f (i_indirect nd))[i := b])), nd)"
| "put f nd Double b = (f, nd\<lparr>i_double := b\<rparr>)"
| "put f nd (Child i) b =
     (f(i_double nd := ptrs_enc ((table f (i_double nd))[i := b])), nd)"
| "put f nd (Leaf i j) b =
     (let c = table f (i_double nd) ! i in (f(c := ptrs_enc ((table f c)[j := b])), nd))"

fun parent :: "slot \<Rightarrow> slot option" where
  "parent (Entry i) = Some Single"
| "parent (Child i) = Some Double"
| "parent (Leaf i j) = Some (Child i)"
| "parent s = None"

text \<open>
  \<open>addable f nd U s b\<close>: the slot is empty, the table that contains it exists, and \<open>b\<close> is a block not in
  use that holds an empty table when the slot points to tables.
\<close>

definition addable :: "(u32 \<Rightarrow> bytes) \<Rightarrow> inode \<Rightarrow> nat set \<Rightarrow> slot \<Rightarrow> u32 \<Rightarrow> bool" where
  "addable f nd U s b \<longleftrightarrow> slot_ok s \<and> sval f nd s = DENYFS_INVALID_BLOCK \<and>
     (\<forall>p. parent s = Some p \<longrightarrow> sval f nd p \<noteq> DENYFS_INVALID_BLOCK) \<and>
     unat b \<notin> U \<and> b \<noteq> DENYFS_INVALID_BLOCK \<and> (\<not> data_slot s \<longrightarrow> table f b = empty_table)"

fun tables_of :: "slot \<Rightarrow> slot set" where
  "tables_of (Entry i) = {Single}"
| "tables_of (Child i) = {Double}"
| "tables_of (Leaf i j) = {Double, Child i}"
| "tables_of s = {}"

text \<open>A slot that is filled hangs from tables that exist.\<close>

lemma sval_parent:
  "slot_ok s \<Longrightarrow> sval f nd s \<noteq> DENYFS_INVALID_BLOCK \<Longrightarrow> q \<in> tables_of s \<Longrightarrow>
   slot_ok q \<and> \<not> data_slot q \<and> sval f nd q \<noteq> DENYFS_INVALID_BLOCK"
  by (cases s) (auto simp: table_def split: if_splits)

lemma parent_ok: "slot_ok s \<Longrightarrow> parent s = Some p \<Longrightarrow> slot_ok p \<and> \<not> data_slot p"
  by (cases s) auto

lemma table_upd [simp]:
  "c \<noteq> DENYFS_INVALID_BLOCK \<Longrightarrow> length ps = DENYFS_POINTERS_PER_BLOCK \<Longrightarrow>
   table (f(c := ptrs_enc ps)) b = (if b = c then ps else table f b)"
  by (simp add: table_def)

text \<open>The cells \<open>put\<close> changes, and the inode's other fields.\<close>

lemma put_cells:
  "put f nd s b = (g, nd') \<Longrightarrow> (\<And>p. parent s = Some p \<Longrightarrow> c \<noteq> sval f nd p) \<Longrightarrow> g c = f c"
  by (cases s) (auto simp: Let_def)

lemma put_inode:
  "put f nd s b = (g, nd') \<Longrightarrow> i_type nd' = i_type nd \<and> i_size nd' = i_size nd \<and>
     i_block_count nd' = i_block_count nd \<and> i_mtime nd' = i_mtime nd \<and>
     (inode_ok nd \<longrightarrow> inode_ok nd')"
  by (cases s) (auto simp: Let_def inode_ok_def)

lemma put_other:
  assumes o: "owned f nds U" "i < length nds" and j: "j < length nds" "j \<noteq> i" "slot_ok t"
    and p: "put f (nds ! i) s b = (g, nd')" and a: "addable f (nds ! i) U s b"
  shows "sval g (nds ! j) t = sval f (nds ! j) t"
proof (rule sval_agree_gen [OF _ j(3)])
  fix q assume q: "slot_ok q" "\<not> data_slot q" "sval f (nds ! j) q \<noteq> DENYFS_INVALID_BLOCK"
  show "g (sval f (nds ! j) q) = f (sval f (nds ! j) q)"
  proof (rule put_cells [OF p])
    fix r assume "parent s = Some r"
    then show "sval f (nds ! j) q \<noteq> sval f (nds ! i) r"
      using owned_inj [OF o(1) j(1) o(2) q(1) _ _ q(3), of r] a j(2) parent_ok [of s r]
      by (auto simp: addable_def)
  qed
qed

lemma put_same:
  assumes o: "owned f nds U" "i < length nds" "inode_ok (nds ! i)" and t: "slot_ok t"
    and p: "put f (nds ! i) s b = (g, nd')" and a: "addable f (nds ! i) U s b"
  shows "sval g nd' t = (if t = s then b else sval f (nds ! i) t)"
proof -
  let ?nd = "nds ! i"
  have inj: "q = r" if "slot_ok q" "slot_ok r" "sval f ?nd q = sval f ?nd r" "sval f ?nd r \<noteq> DENYFS_INVALID_BLOCK" for q r
    using owned_inj [OF o(1) o(2) o(2), of q r] that by auto
  have b: "b \<noteq> DENYFS_INVALID_BLOCK" "\<And>q. slot_ok q \<Longrightarrow> sval f ?nd q \<noteq> b"
    using a ownedD [OF o(1,2)] by (auto simp: addable_def)
  have n: "sval f ?nd q \<noteq> sval f ?nd r" if "slot_ok q" "slot_ok r" "q \<noteq> r"
    "sval f ?nd r \<noteq> DENYFS_INVALID_BLOCK" for q r
    using inj that by blast
  show ?thesis
  proof (cases s)
    case (Direct k)
    with p a t o(3) show ?thesis by (cases t) (auto simp: addable_def inode_ok_def nth_list_update)
  next
    case Single
    with p a t b show ?thesis by (cases t) (auto simp: addable_def)
  next
    case Double
    with p a t b show ?thesis by (cases t) (auto simp: addable_def)
  next
    case (Entry k)
    have "i_indirect ?nd \<noteq> DENYFS_INVALID_BLOCK" using a Entry by (simp add: addable_def)
    then show ?thesis
      using p a t Entry n [of Double Single] n [of "Child l" Single for l]
      by (cases t) (auto simp: addable_def nth_list_update)
  next
    case (Child k)
    have "i_double ?nd \<noteq> DENYFS_INVALID_BLOCK" using a Child by (simp add: addable_def)
    then show ?thesis
      using p a t Child n [of Single Double] n [of "Child l" Double for l] b(2) [of Double]
      by (cases t) (auto simp: addable_def nth_list_update)
  next
    case (Leaf k l)
    have "table f (i_double ?nd) ! k \<noteq> DENYFS_INVALID_BLOCK" using a Leaf by (simp add: addable_def)
    then show ?thesis
      using p a t Leaf n [of Single "Child k"] n [of Double "Child k"] n [of "Child m" "Child k" for m]
      by (cases t) (auto simp: addable_def nth_list_update Let_def)
  qed
qed

text \<open>\<open>put\<close> on the table of inodes, all slots at once.\<close>

lemma put_sval:
  assumes o: "owned f nds U" "i < length nds" "inode_ok (nds ! i)" and j: "j < length nds" "slot_ok t"
    and p: "put f (nds ! i) s b = (g, nd')" and a: "addable f (nds ! i) U s b"
  shows "sval g (nds[i := nd'] ! j) t = (if j = i \<and> t = s then b else sval f (nds ! j) t)"
  using put_same [OF o j(2) p a] put_other [OF o(1,2) j(1) _ j(2) p a] o(2) by (cases "j = i") simp_all

lemma put_owned:
  assumes o: "owned f nds U" "i < length nds" "inode_ok (nds ! i)"
    and p: "put f (nds ! i) s b = (g, nd')" and a: "addable f (nds ! i) U s b"
  shows "owned g (nds[i := nd']) (insert (unat b) U)"
proof -
  note sv = put_sval [OF o _ _ p a]
  have b: "unat b \<notin> U" using a by (simp add: addable_def)
  have fresh: "sval f (nds ! j) t \<noteq> b" if "j < length nds" "slot_ok t" for j t
    using ownedD [OF o(1) that] b a by (auto simp: addable_def)
  show ?thesis
    unfolding owned_def
  proof (intro conjI allI ballI impI)
    fix a' assume a': "a' \<in> insert (unat b) U"
    show "\<exists>j t. points g (nds[i := nd']) j t \<and> unat (sval g (nds[i := nd'] ! j) t) = a'"
    proof (cases "a' = unat b")
      case True
      then show ?thesis
        using o(2) sv [of i s] a by (intro exI [of _ i] exI [of _ s]) (simp add: points_def addable_def)
    next
      case False
      then obtain j t where j: "points f nds j t" "unat (sval f (nds ! j) t) = a'"
        using a' owned_reach [OF o(1)] by blast
      then have "\<not> (j = i \<and> t = s)" using a by (auto simp: points_def addable_def)
      then show ?thesis using j sv [of j t] by (intro exI [of _ j] exI [of _ t]) (auto simp: points_def)
    qed
  next
    fix j t assume "j < length (nds[i := nd'])" "slot_ok t" "sval g (nds[i := nd'] ! j) t \<noteq> DENYFS_INVALID_BLOCK"
    then show "unat (sval g (nds[i := nd'] ! j) t) \<in> insert (unat b) U"
      using sv [of j t] ownedD [OF o(1), of j t] by (auto split: if_splits)
  next
    fix j k t u assume *: "j < length (nds[i := nd'])" "k < length (nds[i := nd'])" "slot_ok t" "slot_ok u"
      "sval g (nds[i := nd'] ! j) t = sval g (nds[i := nd'] ! k) u"
      "sval g (nds[i := nd'] ! j) t \<noteq> DENYFS_INVALID_BLOCK"
    then show "j = k" "t = u"
      using sv [of j t] sv [of k u] fresh [of j t] fresh [of k u] owned_inj [OF o(1), of j k t u]
      by (auto split: if_splits)
  qed
qed

text \<open>Cells of data blocks, and any cell that is not used, stay.\<close>

lemma put_cell:
  assumes o: "owned f nds U" "i < length nds" and p: "put f (nds ! i) s b = (g, nd')"
    and a: "addable f (nds ! i) U s b"
    and c: "unat c \<notin> U \<or> (\<exists>j t. j < length nds \<and> slot_ok t \<and> data_slot t \<and> c = sval f (nds ! j) t \<and>
      c \<noteq> DENYFS_INVALID_BLOCK)"
  shows "g c = f c"
proof (rule put_cells [OF p])
  fix q assume q: "parent s = Some q"
  then have l: "slot_ok q" "\<not> data_slot q" "sval f (nds ! i) q \<noteq> DENYFS_INVALID_BLOCK"
    using a parent_ok [of s q] by (auto simp: addable_def)
  show "c \<noteq> sval f (nds ! i) q"
    using c ownedD [OF o l(1,3)] owned_inj [OF o(1) _ o(2) _ l(1)] l(2) by metis
qed

section \<open>The contents of a file\<close>

definition file_block :: "(u32 \<Rightarrow> bytes) \<Rightarrow> inode \<Rightarrow> nat \<Rightarrow> u32" where
  "file_block f nd lb = sval f nd (slot_of lb)"

text \<open>A hole reads as zero.\<close>

definition block_bytes :: "(u32 \<Rightarrow> bytes) \<Rightarrow> u32 \<Rightarrow> bytes" where
  "block_bytes f b = (if b = DENYFS_INVALID_BLOCK then replicate SECTOR_SIZE 0 else f b)"

definition file_byte :: "(u32 \<Rightarrow> bytes) \<Rightarrow> inode \<Rightarrow> nat \<Rightarrow> u8" where
  "file_byte f nd pos = block_bytes f (file_block f nd (pos div SECTOR_SIZE)) ! (pos mod SECTOR_SIZE)"

end
