(* ===== verification/FileMap.thy ===== *)
theory FileMap
  imports Slots
begin

text \<open>
  The block map of \<open>src/src/fs.c\<close> over its slots: on a usable volume with consistent trees,
  \<open>get_file_data_block\<close> returns the slot of the logical block, and \<open>allocate_file_data_block\<close> fills
  exactly that slot with a fresh zeroed block or fails with \<open>-ENOSPC\<close> and gives everything back.
\<close>

section \<open>The state between operations\<close>

text \<open>
  \<open>core\<close>: a working stream, validated tables, an exact free counter, at most \<open>2 ^ 31\<close> blocks, and clean
  bitmap sectors on disk. \<open>stat\<close>: what a mount never changes, and the inode counter.
\<close>

definition core :: "env \<Rightarrow> volume \<Rightarrow> bool" where
  "core E v \<longleftrightarrow> ready E v \<and> wf v \<and> bitmap_inv v \<and> small_volume v \<and> clean_synced E v"

definition stat :: "volume \<Rightarrow> volume \<Rightarrow> bool" where
  "stat v w \<longleftrightarrow> same_config v w \<and> same_shape v w \<and> pool w = pool v \<and>
     sb_free_inodes (v_sb w) = sb_free_inodes (v_sb v)"

text \<open>\<open>w\<close> has used blocks \<open>U\<close>, plaintext \<open>f\<close> and inodes \<open>nds\<close>, and is otherwise like \<open>v\<close>.\<close>

definition goes :: "env \<Rightarrow> volume \<Rightarrow> nat set \<Rightarrow> (u32 \<Rightarrow> bytes) \<Rightarrow> inode list \<Rightarrow> volume \<Rightarrow> bool" where
  "goes E v U f nds w \<longleftrightarrow> core E w \<and> stat v w \<and> used w = U \<and> cells E w = f \<and> v_inodes w = nds"

lemma stat_refl [simp]: "stat v v"
  by (simp add: stat_def same_config_def same_shape_def)

lemma stat_trans: "stat u v \<Longrightarrow> stat v w \<Longrightarrow> stat u w"
  unfolding stat_def using sh.R_trans by (auto simp: same_config_def)

lemma goes_refl: "core E v \<Longrightarrow> goes E v (used v) (cells E v) (v_inodes v) v"
  by (simp add: goes_def)

lemma goes_trans: "goes E v U f n u \<Longrightarrow> goes E u U' f' n' w \<Longrightarrow> goes E v U' f' n' w"
  unfolding goes_def using stat_trans by blast

lemma stat_blocks: "stat v w \<Longrightarrow> vol_blocks w = vol_blocks v"
  by (simp add: stat_def same_config_def vol_blocks_def)

lemma wf_keep:
  assumes "wf v" "stat v w" "bitmap_inv w"
  shows "wf w"
proof -
  have c: "sb_const (v_sb w) = sb_const (v_sb v)" "v_size w = v_size v"
    using assms(2) by (simp_all add: stat_def same_shape_def same_config_def)
  note f = sb_const_fields [OF c(1)]
  have "unat (sb_free_blocks (v_sb w)) \<le> total_blocks w - data_start w"
    using assms(3) card_mono [of "pool w" "pool w - used w"] by (simp add: bitmap_inv_def pool_def)
  moreover have "validate_superblock (v_sb v) (v_size v)" using assms(1) by (simp add: wf_def)
  moreover from this have "sb_data_start (v_sb v) < sb_total_blocks (v_sb v)"
    using validate_superblock_facts [of "v_sb v" "v_size v"] unfolding word_less_nat_alt by blast
  ultimately have "validate_superblock (v_sb w) (v_size w)"
    using f assms(2)
    by (simp add: validate_superblock_def Let_def c(2) stat_def word_less_nat_alt word_le_nat_alt unat_sub
        split: if_splits)
  then show ?thesis using assms f by (simp add: wf_def stat_def same_shape_def)
qed

lemma core_block:
  assumes "core E v" "unat b \<in> pool v"
  shows "unat b < vol_blocks v" "b \<noteq> DENYFS_INVALID_BLOCK" "unat b < 2 ^ 31" "data_start v \<le> unat b"
proof -
  show *: "unat b < vol_blocks v" "unat b < 2 ^ 31" "data_start v \<le> unat b"
    using assms wf_facts(2) [of v] by (auto simp: core_def pool_def small_volume_def)
  then show "b \<noteq> DENYFS_INVALID_BLOCK" by (intro DENYFS_INVALID_BLOCK_max) simp
qed

lemma core_used: "core E v \<Longrightarrow> unat b \<in> used v \<Longrightarrow> unat b < vol_blocks v \<and> b \<noteq> DENYFS_INVALID_BLOCK"
  using core_block [of E v b] used_subset_pool by blast

section \<open>Primitive steps\<close>

lemma slice_overwrite_out:
  assumes "off + length new \<le> length old" "a + n \<le> off \<or> off + length new \<le> a"
  shows "slice a n (overwrite off new old) = slice a n old"
  using assms by (intro nth_equalityI) (auto simp: nth_overwrite)

lemma write_block_cells:
  assumes v: "ready E v" and b: "unat b < vol_blocks v" and d: "length d = SECTOR_SIZE"
  shows "\<exists>w. write_block E v b d = (Inr (), w) \<and> ready E w \<and> meta w = meta v \<and> cells E w = (cells E v)(b := d)"
proof -
  obtain w where w: "write_block E v b d = (Inr (), w)" "ready E w" "meta w = meta v" "cells E w b = d"
    using bs.wr_ok [OF v b d] b by metis
  have x: "xts_correct E" "length (v_key v) = KEY_SIZE_XTS" "f_faults (v_file v) = []" "vol_geom v"
    using v by (simp_all add: ready_def)
  obtain y where y: "crypt_sector E d (ucast b) (v_key v) True = Some y" "length y = SECTOR_SIZE"
    using crypt_sector_enc [OF x(1,2) d] by blast
  let ?f = "(v_file v)\<lparr>f_bytes := overwrite (unat (v_start v) + unat b * SECTOR_SIZE) y (f_bytes (v_file v))\<rparr>"
  have "write_block E v b d = (Inr (), v\<lparr>v_file := ?f\<rparr>)"
    using x y b v block_offset_le_LONG_MAX [of v b]
    by (simp add: write_block_def unat_block_offset Let_def fwrite_none ready_def)
  with w(1) have wv: "w = v\<lparr>v_file := ?f\<rparr>" by simp
  have "cells E w c = cells E v c" if "c \<noteq> b" for c
  proof -
    have "slice (unat (v_start v) + unat c * SECTOR_SIZE) SECTOR_SIZE (f_bytes ?f) =
        slice (unat (v_start v) + unat c * SECTOR_SIZE) SECTOR_SIZE (f_bytes (v_file v))"
      using sector_in_file [OF v b] sectors_disjoint [OF that] y(2) by (simp add: slice_overwrite_out)
    then show ?thesis by (simp add: cells_def wv)
  qed
  with w show ?thesis by (intro exI [of _ w]) auto
qed

lemma goes_write:
  assumes g: "goes E v U f n u" and b: "unat b \<in> U" and d: "length d = SECTOR_SIZE"
  shows "\<exists>w. write_block E u b d = (Inr (), w) \<and> goes E v U (f(b := d)) n w"
proof -
  have u: "core E u" "used u = U" "cells E u = f" "v_inodes u = n" using g by (simp_all add: goes_def)
  have r: "ready E u" "wf u" using u(1) by (simp_all add: core_def)
  have p: "unat b \<in> pool u" using b u(2) used_subset_pool by blast
  note bl = core_block [OF u(1) p]
  obtain w where w: "write_block E u b d = (Inr (), w)" "ready E w" "meta w = meta u"
    "cells E w = (cells E u)(b := d)"
    using write_block_cells [OF r(1) bl(1) d] by blast
  note m = meta_fields [OF w(3)]
  have sh: "same_shape u w" using sh.chain_write [OF w(1) sh.R_refl] .
  have kc: "same_config u w" using kp.chain_write [OF w(1) kp.R_refl] by (simp add: keeps_def)
  have us: "used w = used u" "pool w = pool u" "bitmap_inv w = bitmap_inv u" "small_volume w = small_volume u"
    using m by (simp_all add: used_def pool_def bitmap_inv_def small_volume_def)
  have st: "stat u w" using sh kc us m by (simp add: stat_def)
  have "sb_bitmap_start (v_sb u) + of_nat i \<noteq> b" if "i < unat (sb_bitmap_blocks (v_sb u))" for i
  proof -
    have "unat (sb_bitmap_start (v_sb u) + of_nat i) < data_start u"
      using wf_facts [OF r(2)] that by (simp add: unat_block_plus)
    with bl(4) show ?thesis by auto
  qed
  then have "clean_synced E w"
    using u(1) m w(4) by (simp add: core_def clean_synced_def bitmap_on_disk_def)
  with w st us u(1) have "core E w" using wf_keep [OF r(2) st] by (simp add: core_def)
  then have "goes E u U (f(b := d)) n w" using st us u w(4) m by (simp add: goes_def)
  with g w(1) show ?thesis using goes_trans by blast
qed

lemma slice_list_update: "i < a \<or> a + n \<le> i \<Longrightarrow> slice a n (xs[i := x]) = slice a n xs"
  by (intro nth_equalityI) auto

lemma cells_mark_dirty [simp]: "cells E (mark_dirty v i) = cells E v"
  by (rule ext) (simp add: cells_def)

lemma cells_upd_inode [simp]: "cells E (upd_inode v i h) = cells E v"
  by (rule ext) (simp add: cells_def)

text \<open>Flipping a bit and marking its sector dirty.\<close>

lemma clean_synced_mark:
  assumes c: "clean_synced E v" and wf: "wf v" and i: "i < 8 * length (v_bitmap v)"
  shows "clean_synced E (mark_dirty (v\<lparr>v_bitmap := (v_bitmap v)[i div 8 := x],
    v_sb := (v_sb v)\<lparr>sb_free_blocks := n\<rparr>\<rparr>) i)" (is "clean_synced E ?w")
  unfolding clean_synced_def
proof (intro allI impI)
  fix j assume j: "j < unat (sb_bitmap_blocks (v_sb ?w))" "v_dirty ?w ! j = 0"
  let ?k = "i div 8 div SECTOR_SIZE"
  have "i div 8 < unat (sb_bitmap_blocks (v_sb v)) * SECTOR_SIZE" using i wf by (simp add: wf_def less_mult_imp_div_less mult.commute)
  then have k: "?k < length (v_dirty v)" using wf by (simp add: wf_def less_mult_imp_div_less)
  then have ne: "j \<noteq> ?k" and d: "v_dirty v ! j = 0" using j(2) by (auto simp: mark_dirty_def Let_def nth_list_update split: if_splits)
  have "i div 8 < j * SECTOR_SIZE \<or> j * SECTOR_SIZE + SECTOR_SIZE \<le> i div 8"
  proof (cases "?k < j")
    case True
    then show ?thesis by (simp add: div_less_iff_less_mult)
  next
    case False
    with ne have "Suc j \<le> ?k" by simp
    then have "Suc j * SECTOR_SIZE \<le> i div 8" by (simp only: less_eq_div_iff_mult_less_eq SECTOR_SIZE_pos)
    then show ?thesis by simp
  qed
  moreover have "cells E ?w = cells E v" by simp
  moreover have "bitmap_on_disk E v j" using c d j(1) by (simp add: clean_synced_def)
  ultimately show "bitmap_on_disk E ?w j" by (simp add: bitmap_on_disk_def slice_list_update)
qed

lemma goes_alloc:
  assumes g: "goes E v U f n u"
  shows "U = pool v \<and> alloc_block u = (- 1, u) \<or>
    (\<exists>r (b :: u32) w. alloc_block u = (r, w) \<and> 0 \<le> r \<and> b = of_int r \<and> unat b \<in> pool v \<and> unat b \<notin> U \<and>
      goes E v (insert (unat b) U) f n w)"
proof -
  have u: "core E u" "used u = U" "cells E u = f" "v_inodes u = n" "pool u = pool v"
    using g by (simp_all add: goes_def stat_def)
  have inv: "bitmap_inv u \<and> small_volume u" using u(1) by (simp add: core_def)
  show ?thesis
  proof (cases u rule: alloc_block_cases)
    case full
    then show ?thesis using u by simp
  next
    case (found i)
    let ?w = "mark_dirty (u\<lparr>v_bitmap := bitmap_set (v_bitmap u) i,
      v_sb := (v_sb u)\<lparr>sb_free_blocks := sb_free_blocks (v_sb u) - 1\<rparr>\<rparr>) i"
    have i: "i < 2 ^ 31" "sint (of_nat i :: u32) = int i"
      using found(1) inv by (simp_all add: small_volume_def pool_def sint_of_nat_u32)
    have b: "unat (of_int (int i) :: u32) = i" using i by (simp add: unsigned_of_nat take_bit_nat_eq_self)
    have al: "alloc_block u = (int i, ?w)" using found(4) i(2) by simp
    have f: "used ?w = insert i (used u)" "pool ?w = pool u" "bitmap_inv ?w \<and> small_volume ?w"
      using ba.alloc_fresh [OF inv al] by auto
    have st: "stat u ?w"
      using sh.chain_alloc [OF al sh.R_refl] kp.chain_alloc [OF al kp.R_refl] f by (simp add: stat_def keeps_def)
    have "i < 8 * length (v_bitmap u)" using inv found(1) by (simp add: bitmap_inv_def pool_def)
    then have "clean_synced E ?w"
      using u(1) unfolding bitmap_set_def by (intro clean_synced_mark) (simp_all add: core_def)
    moreover have "ready E ?w" using sr.chain_alloc [OF al sr.R_refl] u(1) by (simp add: stays_ready_def core_def)
    ultimately have "core E ?w" using f(3) wf_keep [OF _ st] u(1) by (simp add: core_def)
    then have "goes E u (insert i U) f n ?w" using st u f(1) by (simp add: goes_def)
    then have w: "goes E v (insert i U) f n ?w" using g goes_trans by blast
    show ?thesis
      using al b w found(1,2) u(2,5) by (intro disjI2 exI [of _ "int i"] exI [of _ "of_int (int i) :: u32"] exI [of _ ?w]) simp
  qed
qed

lemma goes_free:
  assumes g: "goes E v U f n u"
  shows "goes E v (U - {unat b}) f n (free_block u b)"
proof -
  have u: "core E u" "used u = U" "cells E u = f" "v_inodes u = n" using g by (simp_all add: goes_def)
  have inv: "bitmap_inv u \<and> small_volume u" using u(1) by (simp add: core_def)
  show ?thesis
  proof (cases "unat b \<in> used u")
    case False
    with g u(2) ba.free_unused [OF inv False] show ?thesis by simp
  next
    case True
    then have fr: "free_block u b = mark_dirty (u\<lparr>v_bitmap := bitmap_clear (v_bitmap u) (unat b),
        v_sb := (v_sb u)\<lparr>sb_free_blocks := sb_free_blocks (v_sb u) + 1\<rparr>\<rparr>) (unat b)" (is "_ = ?w")
      by (auto simp: free_block_def used_def pool_def word_le_nat_alt word_less_nat_alt)
    have f: "used ?w = used u - {unat b}" "pool ?w = pool u" "bitmap_inv ?w \<and> small_volume ?w"
      using ba.free_used [OF inv True] by (simp_all add: fr)
    have st: "stat u ?w"
      using sh.chain_free [OF sh.R_refl, of u b] kp.chain_free [OF kp.R_refl, of u b] f by (simp add: stat_def keeps_def fr)
    have "unat b < 8 * length (v_bitmap u)"
      using inv True used_subset_pool [of u] by (auto simp: bitmap_inv_def pool_def)
    then have "clean_synced E ?w"
      using u(1) unfolding bitmap_clear_def by (intro clean_synced_mark) (simp_all add: core_def)
    moreover have "ready E ?w"
      using sr.chain_free [OF sr.R_refl, of E u b] u(1) by (simp add: stays_ready_def core_def fr)
    ultimately have "core E ?w" using f(3) wf_keep [OF _ st] u(1) by (simp add: core_def)
    then have "goes E u (U - {unat b}) f n ?w" using st u f(1) by (simp add: goes_def)
    then show ?thesis using g goes_trans fr by metis
  qed
qed

lemma goes_upd:
  assumes g: "goes E v U f n u" and h: "\<And>nd. inode_ok nd \<Longrightarrow> inode_ok (h nd)"
  shows "goes E v U f (n[i := h (n ! i)]) (upd_inode u i h)"
proof -
  have u: "core E u" "used u = U" "cells E u = f" "v_inodes u = n" using g by (simp_all add: goes_def)
  let ?w = "upd_inode u i h"
  have us: "used ?w = used u" "pool ?w = pool u" "bitmap_inv ?w = bitmap_inv u" "small_volume ?w = small_volume u"
    by (simp_all add: used_def pool_def bitmap_inv_def small_volume_def)
  have sm: "same_shape u ?w" by (rule sh.R_inode [OF h])
  have st: "stat u ?w" using sm us by (simp add: stat_def)
  have c: "cells E ?w = cells E u" by simp
  have "ready E ?w" using sr.R_inode [OF h] u(1) by (simp add: stays_ready_def core_def)
  moreover have "clean_synced E ?w" using u(1) c by (simp add: core_def clean_synced_def bitmap_on_disk_def)
  ultimately have "core E ?w" using us wf_keep [OF _ st] u(1) by (simp add: core_def)
  then have "goes E u U f (n[i := h (n ! i)]) ?w"
    using st u us c by (simp add: goes_def) (simp add: upd_inode_def)
  then show ?thesis using g goes_trans by blast
qed

section \<open>Adding slots to a tree\<close>

text \<open>
  \<open>adds ino P M f n g m\<close>: from plaintext \<open>f\<close> and inodes \<open>n\<close> to \<open>g\<close> and \<open>m\<close> the data slots of inode \<open>ino\<close>
  are overridden by \<open>M\<close>; every other data slot, and the contents of every block one points to, stay. New
  tables are hung into slots of \<open>P\<close> only.
\<close>

definition same_info :: "inode \<Rightarrow> inode \<Rightarrow> bool" where
  "same_info nd nd' \<longleftrightarrow> i_type nd' = i_type nd \<and> i_size nd' = i_size nd \<and>
     i_block_count nd' = i_block_count nd \<and> i_mtime nd' = i_mtime nd"

definition adds :: "nat \<Rightarrow> slot set \<Rightarrow> (slot \<Rightarrow> u32 option) \<Rightarrow> (u32 \<Rightarrow> bytes) \<Rightarrow> inode list \<Rightarrow> (u32 \<Rightarrow> bytes) \<Rightarrow> inode list \<Rightarrow> bool"
where
  "adds ino P M f n g m \<longleftrightarrow> length m = length n \<and> (\<forall>j < length n. j \<noteq> ino \<longrightarrow> m ! j = n ! j) \<and>
     same_info (n ! ino) (m ! ino) \<and>
     (\<forall>j < length n. \<forall>t. slot_ok t \<longrightarrow> data_slot t \<longrightarrow> sval g (m ! j) t =
        (if j = ino then case M t of None \<Rightarrow> sval f (n ! j) t | Some b \<Rightarrow> b else sval f (n ! j) t)) \<and>
     (\<forall>j < length n. \<forall>t. slot_ok t \<longrightarrow> data_slot t \<longrightarrow> sval f (n ! j) t \<noteq> DENYFS_INVALID_BLOCK \<longrightarrow>
        g (sval f (n ! j) t) = f (sval f (n ! j) t)) \<and>
     (\<forall>j t. points g m j t \<longrightarrow> \<not> data_slot t \<longrightarrow> points f n j t \<or> j = ino \<and> t \<in> P)"

lemma same_info_refl [simp]: "same_info nd nd"
  by (simp add: same_info_def)

lemma adds_trans_empty:
  assumes "adds ino P Map.empty f n g m" "adds ino P M g m h k" "ino < length n"
  shows "adds ino P M f n h k"
proof -
  have s: "sval g (m ! j) t = sval f (n ! j) t" if "j < length n" "slot_ok t" "data_slot t" for j t
    using assms(1) that by (simp add: adds_def)
  have s2: "sval g (n ! j) t = sval f (n ! j) t" if "j < length n" "slot_ok t" "data_slot t" "j \<noteq> ino" for j t
    using s [OF that(1-3)] assms(1) that by (simp add: adds_def)
  show ?thesis
    using assms s s2 unfolding adds_def by (simp add: same_info_def split: option.split) blast
qed

lemma adds_slot:
  assumes o: "owned f n U" "ino < length n" "inode_ok (n ! ino)"
    and p: "put f (n ! ino) s b = (g, nd')" and a: "addable f (n ! ino) U s b"
    and q: "data_slot s \<or> s \<in> P"
  defines "m \<equiv> n[ino := nd']"
  shows "owned g m (insert (unat b) U)" "adds ino P (if data_slot s then [s \<mapsto> b] else Map.empty) f n g m"
    "\<And>c. unat c \<notin> U \<Longrightarrow> g c = f c" "inode_ok (m ! ino)"
proof -
  show "owned g m (insert (unat b) U)" unfolding m_def by (rule put_owned [OF o p a])
  show "\<And>c. unat c \<notin> U \<Longrightarrow> g c = f c" by (rule put_cell [OF o(1,2) p a]) simp
  show "inode_ok (m ! ino)" using put_inode [OF p] o by (simp add: m_def)
  have sv: "sval g (m ! j) t = (if j = ino \<and> t = s then b else sval f (n ! j) t)"
    if "j < length n" "slot_ok t" for j t
    unfolding m_def by (rule put_sval [OF o that p a])
  have c: "g (sval f (n ! j) t) = f (sval f (n ! j) t)"
    if "j < length n" "slot_ok t" "data_slot t" "sval f (n ! j) t \<noteq> DENYFS_INVALID_BLOCK" for j t
    using that by (intro put_cell [OF o(1,2) p a]) blast
  have "points f n j t \<or> j = ino \<and> t \<in> P" if "points g m j t" "\<not> data_slot t" for j t
    using that sv [of j t] q by (auto simp: points_def m_def split: if_splits)
  then show "adds ino P (if data_slot s then [s \<mapsto> b] else Map.empty) f n g m"
    using put_inode [OF p] o(2) sv c unfolding adds_def by (auto simp: m_def same_info_def)
qed

lemma adds_agree:
  assumes "owned f n U" "\<And>c. unat c \<in> U \<Longrightarrow> g c = f c"
  shows "adds ino P Map.empty f n g n"
  using sval_agree [OF assms(1) _ assms(2)] ownedD [OF assms(1)] assms(2) by (auto simp: adds_def points_def)

section \<open>Tables\<close>

lemma goes_used:
  "goes E v U f n u \<Longrightarrow> unat b \<in> U \<Longrightarrow>
   unat b < vol_blocks u \<and> b \<noteq> DENYFS_INVALID_BLOCK \<and> data_start u \<le> unat b \<and> unat b < total_blocks u \<and>
   bitmap_test (v_bitmap u) (unat b)"
  using core_used [of E u b] by (auto simp: goes_def used_def pool_def)

lemma goes_read:
  assumes "goes E v U f n u" "unat b \<in> U"
  shows "read_block E u b = (Inr (f b), u)" "length (f b) = SECTOR_SIZE"
  using goes_used [OF assms] assms(1) bs.rd_ok [of E u b] bs.cells_length [of E u b]
  by (auto simp: goes_def core_def)

lemma goes_read_table:
  assumes "goes E v U f n u" "unat t \<in> U"
  shows "read_pointer_table E u t = (Inr (table f t), u)"
  using goes_used [OF assms] goes_read [OF assms]
  by (simp add: read_pointer_table_def table_def)

lemma goes_alloc_table:
  assumes "goes E v U f n u"
  shows "U = pool v \<and> allocate_pointer_table E u = (Inl ENOSPC, u) \<or>
    (\<exists>t w. allocate_pointer_table E u = (Inr t, w) \<and> unat t \<in> pool v \<and> unat t \<notin> U \<and>
       goes E v (insert (unat t) U) (f(t := ptrs_enc empty_table)) n w)"
  using goes_alloc [OF assms]
proof (elim disjE exE conjE)
  fix r and b :: u32 and w
  assume a: "alloc_block u = (r, w)" "0 \<le> r" "b = of_int r" "unat b \<in> pool v" "unat b \<notin> U"
    "goes E v (insert (unat b) U) f n w"
  from goes_write [OF a(6), of b "ptrs_enc empty_table"] obtain x where
    "write_block E w b (ptrs_enc empty_table) = (Inr (), x)"
    "goes E v (insert (unat b) U) (f(b := ptrs_enc empty_table)) n x" by auto
  with a show ?thesis by (auto simp: allocate_pointer_table_def)
qed (simp add: allocate_pointer_table_def)

lemma goes_alloc_zeroed:
  assumes "goes E v U f n u"
  shows "U = pool v \<and> allocate_zeroed_data_block E u = (Inl ENOSPC, u) \<or>
    (\<exists>d w. allocate_zeroed_data_block E u = (Inr d, w) \<and> unat d \<in> pool v \<and> unat d \<notin> U \<and>
       goes E v (insert (unat d) U) (f(d := replicate SECTOR_SIZE 0)) n w)"
  using goes_alloc [OF assms]
proof (elim disjE exE conjE)
  fix r and b :: u32 and w
  assume a: "alloc_block u = (r, w)" "0 \<le> r" "b = of_int r" "unat b \<in> pool v" "unat b \<notin> U"
    "goes E v (insert (unat b) U) f n w"
  from goes_write [OF a(6), of b "replicate SECTOR_SIZE 0"] obtain x where
    "write_block E w b (replicate SECTOR_SIZE 0) = (Inr (), x)"
    "goes E v (insert (unat b) U) (f(b := replicate SECTOR_SIZE 0)) n x" by auto
  with a show ?thesis by (auto simp: allocate_zeroed_data_block_def)
qed (simp add: allocate_zeroed_data_block_def)

lemma get_block:
  assumes g: "goes E v U f n u" and o: "owned f n U" and i: "ino < length n" "lb < DENYFS_MAX_FILE_BLOCKS"
  shows "get_file_data_block E u ino lb = (Inr (file_block f (n ! ino) lb), u)"
proof -
  let ?nd = "n ! ino"
  have nd: "inode_at u ino = ?nd" using g by (simp add: goes_def inode_at_def)
  have ok: "slot_ok (slot_of lb)" using i(2) by (rule slot_of_ok)
  have chk: "check_mapped (sval f ?nd s) u = (Inr (sval f ?nd s), u)" if "slot_ok s" for s
    using ownedD [OF o i(1) that] goes_used [OF g, of "sval f ?nd s"]
    by (auto simp: check_mapped_def)
  have tab: "read_pointer_table E u (sval f ?nd s) = (Inr (table f (sval f ?nd s)), u)"
    if "slot_ok s" "sval f ?nd s \<noteq> DENYFS_INVALID_BLOCK" for s
    using goes_read_table [OF g ownedD [OF o i(1) that]] .
  show ?thesis
  proof (cases lb rule: slot_of_cases)
    case direct
    with chk [of "Direct lb"] ok i(2) show ?thesis
      by (simp add: get_file_data_block_def Let_def nd file_block_def)
  next
    case (entry k)
    with chk [of "Entry k"] tab [of Single] ok i(2) show ?thesis
      by (simp add: get_file_data_block_def Let_def nd file_block_def)
  next
    case (leaf k)
    let ?o = "k div DENYFS_POINTERS_PER_BLOCK" and ?i = "k mod DENYFS_POINTERS_PER_BLOCK"
    have "slot_ok (Leaf ?o ?i)" using ok leaf(2) by simp
    with chk [of "Leaf ?o ?i"] tab [of Double] tab [of "Child ?o"] i(2) show ?thesis
      by (simp add: get_file_data_block_def Let_def nd file_block_def leaf(1) leaf(2) [unfolded leaf(1)])
  qed
qed

section \<open>Placing a block\<close>

text \<open>
  \<open>d\<close> has been allocated on top of the used blocks \<open>U\<close>. Either the slot \<open>s\<close> of \<open>ino\<close> gets \<open>d\<close>, or there is
  no space and everything allocated on the way, \<open>d\<close> included, has been freed; that happens only when
  fewer than three blocks are free (\<open>scarce\<close>).
\<close>

definition scarce :: "volume \<Rightarrow> nat set \<Rightarrow> bool" where
  "scarce v U \<longleftrightarrow> card (pool v - U) < 3"

lemma scarceI: "pool v \<subseteq> U \<union> {a, b} \<Longrightarrow> scarce v U"
proof -
  assume "pool v \<subseteq> U \<union> {a, b}"
  then have "card (pool v - U) \<le> card {a, b}" by (intro card_mono) auto
  also have "\<dots> \<le> 2" by (simp add: card_insert_if)
  finally show ?thesis by (simp add: scarce_def)
qed

definition place_outcome :: "env \<Rightarrow> volume \<Rightarrow> (u32 \<Rightarrow> bytes) \<Rightarrow> inode list \<Rightarrow> nat set \<Rightarrow> nat \<Rightarrow> slot \<Rightarrow> u32 \<Rightarrow>
  unit res \<times> volume \<Rightarrow> bool" where
  "place_outcome E v f n U ino s d res \<longleftrightarrow>
     (\<exists>w g. res = (Inl ENOSPC, w) \<and> scarce v U \<and> goes E v U g n w \<and> (\<forall>c. unat c \<in> U \<longrightarrow> g c = f c)) \<or>
     (\<exists>w g m U'. res = (Inr (), w) \<and> goes E v U' g m w \<and> owned g m U' \<and> adds ino (tables_of s) [s \<mapsto> d] f n g m \<and>
        insert (unat d) U \<subseteq> U' \<and> g d = f d)"

lemma place_fail:
  "scarce v U \<Longrightarrow> goes E v U g n w \<Longrightarrow> (\<And>c. unat c \<in> U \<Longrightarrow> g c = f c) \<Longrightarrow> place_outcome E v f n U ino s d (Inl ENOSPC, w)"
  unfolding place_outcome_def by blast

lemma place_done:
  "goes E v U' g m w \<Longrightarrow> owned g m U' \<Longrightarrow> adds ino P [s \<mapsto> d] f n g m \<Longrightarrow> P = tables_of s \<Longrightarrow>
   insert (unat d) U \<subseteq> U' \<Longrightarrow> g d = f d \<Longrightarrow> place_outcome E v f n U ino s d (Inr (), w)"
  unfolding place_outcome_def by blast

lemma goes_inode_ok: "goes E v U f n u \<Longrightarrow> i < length n \<Longrightarrow> inode_ok (n ! i)"
  by (auto simp: goes_def core_def wf_def inodes_ok_def)

lemma insert_minus: "a \<notin> U \<Longrightarrow> insert a U - {a} = U"
  by blast

text \<open>A fresh table hung into an inode.\<close>

lemma add_table:
  assumes o: "owned f n U" "ino < length n" "inode_ok (n ! ino)" and s: "slot_ok s" "\<not> data_slot s"
    and t: "unat t \<notin> U" "t \<noteq> DENYFS_INVALID_BLOCK" and a: "sval f (n ! ino) s = DENYFS_INVALID_BLOCK"
    and par: "\<And>p. parent s = Some p \<Longrightarrow> sval f (n ! ino) p \<noteq> DENYFS_INVALID_BLOCK"
    and p: "put (f(t := ptrs_enc empty_table)) (n ! ino) s t = (g, nd')" and q: "s \<in> P"
  defines "m \<equiv> n[ino := nd']"
  shows "owned g m (insert (unat t) U)" "adds ino P Map.empty f n g m" "inode_ok (m ! ino)"
    "g t = ptrs_enc empty_table" "\<And>c. unat c \<notin> U \<Longrightarrow> c \<noteq> t \<Longrightarrow> g c = f c"
proof -
  let ?f = "f(t := ptrs_enc empty_table)"
  have eq: "\<And>c. unat c \<in> U \<Longrightarrow> ?f c = f c" using t by auto
  have o': "owned ?f n U" by (rule owned_agree [OF o(1) eq])
  have sv: "sval ?f (n ! ino) q = sval f (n ! ino) q" if "slot_ok q" for q
    by (rule sval_agree [OF o(1,2) eq that])
  have ad: "addable ?f (n ! ino) U s t"
    using s t a par sv parent_ok [OF s(1)] by (auto simp: addable_def table_def)
  note sl = adds_slot [OF o' o(2,3) p ad disjI2 [OF q]]
  show "owned g m (insert (unat t) U)" "inode_ok (m ! ino)" using sl(1,4) by (simp_all add: m_def)
  show "adds ino P Map.empty f n g m"
    using adds_trans_empty [OF adds_agree [OF o(1) eq] sl(2) o(2)] s by (simp add: m_def)
  show "g t = ptrs_enc empty_table" using sl(3) [OF t(1)] by simp
  show "g c = f c" if "unat c \<notin> U" "c \<noteq> t" for c using sl(3) [OF that(1)] that(2) by simp
qed

lemma place_direct:
  assumes g: "goes E v (insert (unat d) U) f n u" and d: "unat d \<notin> U" and o: "owned f n U"
    and i: "ino < length n" "k < DENYFS_DIRECT_BLOCKS" and a: "sval f (n ! ino) (Direct k) = DENYFS_INVALID_BLOCK"
  shows "place_outcome E v f n U ino (Direct k) d
    (Inr (), upd_inode u ino (\<lambda>nd. nd\<lparr>i_direct := (i_direct nd)[k := d]\<rparr>))"
proof -
  have "d \<noteq> DENYFS_INVALID_BLOCK" using goes_used [OF g] by blast
  then have ad: "addable f (n ! ino) U (Direct k) d" using i d a by (simp add: addable_def)
  note sl = adds_slot [OF o i(1) goes_inode_ok [OF g i(1)] _ ad, of _ _ "{}", simplified]
  show ?thesis
    by (rule place_done [OF goes_upd [OF g] sl(1) sl(2)]) (auto simp: inode_ok_def)
qed

text \<open>
  Writing an entry into a table of the tree \<open>f\<close>, \<open>m\<close>; the inodes in memory may still be \<open>n\<close>.
\<close>

lemma write_entry:
  assumes g: "goes E v (insert (unat d) U) f n u" and o: "owned f m U" and i: "ino < length m" "inode_ok (m ! ino)"
    and s: "addable f (m ! ino) U s d" "data_slot s \<or> table f d = empty_table"
    and p: "parent s = Some q" "put f (m ! ino) s d = (f(sval f (m ! ino) q := ptrs_enc ps), m ! ino)"
    and ps: "length ps = DENYFS_POINTERS_PER_BLOCK" and pq: "data_slot s \<or> s \<in> P"
  shows "\<exists>w h. write_block E u (sval f (m ! ino) q) (ptrs_enc ps) = (Inr (), w) \<and>
    h = f(sval f (m ! ino) q := ptrs_enc ps) \<and> goes E v (insert (unat d) U) h n w \<and>
    owned h m (insert (unat d) U) \<and> adds ino P (if data_slot s then [s \<mapsto> d] else Map.empty) f m h m \<and> h d = f d"
proof -
  let ?t = "sval f (m ! ino) q"
  have q: "slot_ok q" "\<not> data_slot q" "?t \<noteq> DENYFS_INVALID_BLOCK"
    using s p(1) parent_ok [of s q] by (auto simp: addable_def)
  have t: "unat ?t \<in> U" using ownedD [OF o i(1) q(1,3)] .
  have d: "unat d \<notin> U" using s by (simp add: addable_def)
  note sl = adds_slot [OF o i p(2) s(1) pq, simplified]
  obtain w where "write_block E u ?t (ptrs_enc ps) = (Inr (), w)"
    "goes E v (insert (unat d) U) (f(?t := ptrs_enc ps)) n w"
    using goes_write [OF g, of ?t "ptrs_enc ps"] t ps by auto
  with sl d t show ?thesis by auto
qed

lemma place_single:
  assumes g: "goes E v (insert (unat d) U) f n u" and d: "unat d \<notin> U" and o: "owned f n U"
    and i: "ino < length n" "k < DENYFS_POINTERS_PER_BLOCK" and a: "sval f (n ! ino) (Entry k) = DENYFS_INVALID_BLOCK"
  shows "place_outcome E v f n U ino (Entry k) d (allocate_single E u ino k d)"
proof -
  let ?nd = "n ! ino"
  have nd: "inode_at u ino = ?nd" using g by (simp add: goes_def inode_at_def)
  have dv: "d \<noteq> DENYFS_INVALID_BLOCK" using goes_used [OF g] by blast
  note ok = goes_inode_ok [OF g i(1)]
  show ?thesis
  proof (cases "i_indirect ?nd = DENYFS_INVALID_BLOCK")
    case False
    have t: "unat (i_indirect ?nd) \<in> insert (unat d) U" using ownedD [OF o i(1), of Single] False by simp
    have ad: "addable f ?nd U (Entry k) d" using i a d dv False by (simp add: addable_def)
    obtain w h where w: "write_block E u (i_indirect ?nd) (ptrs_enc ((table f (i_indirect ?nd))[k := d])) = (Inr (), w)"
      "goes E v (insert (unat d) U) h n w" "owned h n (insert (unat d) U)" "adds ino {Single} [Entry k \<mapsto> d] f n h n"
      "h d = f d"
      using write_entry [OF g o i(1) ok ad _, of Single "(table f (i_indirect ?nd))[k := d]" "{Single}"] by auto
    have "allocate_single E u ino k d = (Inr (), w)"
      using False w(1) goes_read_table [OF g t] by (simp add: allocate_single_def Let_def nd store_single_def)
    then show ?thesis using place_done [OF w(2-4) _ subset_refl w(5)] by simp
  next
    case True
    from goes_alloc_table [OF g] show ?thesis
    proof (elim disjE exE conjE)
      assume al: "insert (unat d) U = pool v" "allocate_pointer_table E u = (Inl ENOSPC, u)"
      then have "allocate_single E u ino k d = (Inl ENOSPC, free_block u d)"
        by (simp add: allocate_single_def Let_def nd True)
      moreover have "goes E v U f n (free_block u d)" using goes_free [OF g, of d] d by simp
      moreover have "scarce v U" by (rule scarceI [of _ _ "unat d" "unat d"]) (use al(1) in auto)
      ultimately show ?thesis using place_fail by simp
    next
      fix t x assume t: "allocate_pointer_table E u = (Inr t, x)" "unat t \<in> pool v" "unat t \<notin> insert (unat d) U"
        "goes E v (insert (unat t) (insert (unat d) U)) (f(t := ptrs_enc empty_table)) n x"
      let ?f = "f(t := ptrs_enc empty_table)" and ?m = "n[ino := ?nd\<lparr>i_indirect := t\<rparr>]"
      have tv: "t \<noteq> DENYFS_INVALID_BLOCK" using goes_used [OF t(4)] by blast
      have tn: "unat t \<notin> U" "t \<noteq> d" "unat d \<noteq> unat t" using t(3) by auto
      have pt: "put ?f ?nd Single t = (?f, ?nd\<lparr>i_indirect := t\<rparr>)" by simp
      have sv: "sval f ?nd Single = DENYFS_INVALID_BLOCK" using True by simp
      note at = add_table [OF o i(1) ok _ _ tn(1) tv sv _ pt, of "{Single}", simplified]
      have m: "?m ! ino = ?nd\<lparr>i_indirect := t\<rparr>" using i(1) by simp
      have ad: "addable ?f (?m ! ino) (insert (unat t) U) (Entry k) d"
        using i d dv tv tn at(4) by (auto simp: addable_def m table_def)
      have g2: "goes E v (insert (unat d) (insert (unat t) U)) ?f n x" using t(4) by (simp add: insert_commute)
      obtain w h where w: "write_block E x t (ptrs_enc (empty_table[k := d])) = (Inr (), w)"
        "goes E v (insert (unat d) (insert (unat t) U)) h n w" "owned h ?m (insert (unat d) (insert (unat t) U))"
        "adds ino {Single} [Entry k \<mapsto> d] ?f ?m h ?m" "h d = ?f d"
        using write_entry [OF g2 at(1) _ _ ad, of Single "empty_table[k := d]" "{Single}"] i(1) at(3) m tv by (auto simp: table_def)
      have up: "goes E v (insert (unat d) (insert (unat t) U)) h ?m (upd_inode w ino (\<lambda>nd. nd\<lparr>i_indirect := t\<rparr>))"
        using goes_upd [OF w(2), of "\<lambda>nd. nd\<lparr>i_indirect := t\<rparr>"] by simp
      have "allocate_single E u ino k d = (Inr (), upd_inode w ino (\<lambda>nd. nd\<lparr>i_indirect := t\<rparr>))"
        using True t(1) w(1) by (simp add: allocate_single_def Let_def nd store_single_def)
      moreover have ad2: "adds ino {Single} [Entry k \<mapsto> d] f n h ?m" by (rule adds_trans_empty [OF at(2) w(4) i(1)])
      moreover have hd: "h d = f d" and sub: "insert (unat d) U \<subseteq> insert (unat d) (insert (unat t) U)"
        using w(5) tn(2) by auto
      ultimately show ?thesis using place_done [OF up w(3) ad2 _ sub hd] by simp
    qed
  qed
qed

text \<open>
  Below the double-indirect root \<open>r\<close>: when \<open>new\<close>, the root has just been allocated and the inode in memory
  does not point to it yet; \<open>m\<close> are the inodes that do.
\<close>

definition child_outcome :: "env \<Rightarrow> volume \<Rightarrow> (u32 \<Rightarrow> bytes) \<Rightarrow> inode list \<Rightarrow> inode list \<Rightarrow> nat set \<Rightarrow> nat set \<Rightarrow>
  nat \<Rightarrow> slot \<Rightarrow> u32 \<Rightarrow> unit res \<times> volume \<Rightarrow> bool" where
  "child_outcome E v f n m U0 U ino s d res \<longleftrightarrow>
     (\<exists>w g. res = (Inl ENOSPC, w) \<and> pool v = insert (unat d) U \<and> goes E v U0 g n w \<and> (\<forall>c. unat c \<in> U \<longrightarrow> g c = f c)) \<or>
     (\<exists>w g U'. res = (Inr (), w) \<and> goes E v U' g m w \<and> owned g m U' \<and> adds ino (tables_of s) [s \<mapsto> d] f m g m \<and>
        insert (unat d) U \<subseteq> U' \<and> g d = f d)"

lemma place_child:
  assumes g: "goes E v (insert (unat d) U) f n u" and d: "unat d \<notin> U" and o: "owned f m U"
    and m: "m = (if new then n[ino := (n ! ino)\<lparr>i_double := r\<rparr>] else n)" "i_double (m ! ino) = r"
    and i: "ino < length n" "k < DENYFS_POINTERS_PER_BLOCK" "l < DENYFS_POINTERS_PER_BLOCK"
    and r: "unat r \<in> U" and a: "sval f (m ! ino) (Leaf k l) = DENYFS_INVALID_BLOCK"
  shows "child_outcome E v f n m (if new then U - {unat r} else U) U ino (Leaf k l) d
    (allocate_child E u ino new r (table f r) k l d)"
proof -
  let ?fin = "\<lambda>w. if new then upd_inode w ino (\<lambda>nd. nd\<lparr>i_double := r\<rparr>) else w"
  have dv: "d \<noteq> DENYFS_INVALID_BLOCK" and rv: "r \<noteq> DENYFS_INVALID_BLOCK"
    using goes_used [OF g] r by blast+
  have im: "ino < length m" "inode_ok (m ! ino)"
    using i(1) goes_inode_ok [OF g i(1)] by (simp_all add: m(1))
  have fin: "goes E v W h m (?fin w)" if "goes E v W h n w" for W h w
    using that goes_upd [OF that, of "\<lambda>nd. nd\<lparr>i_double := r\<rparr>"] by (simp add: m(1))
  let ?c = "table f r ! k"
  show ?thesis
  proof (cases "?c = DENYFS_INVALID_BLOCK")
    case False
    have c: "unat ?c \<in> U" using ownedD [OF o im(1), of "Child k"] i False m(2) by simp
    have ad: "addable f (m ! ino) U (Leaf k l) d" using i a d dv False m(2) by (simp add: addable_def)
    obtain w h where w: "write_block E u ?c (ptrs_enc ((table f ?c)[l := d])) = (Inr (), w)"
      "goes E v (insert (unat d) U) h n w" "owned h m (insert (unat d) U)" "adds ino {Double, Child k} [Leaf k l \<mapsto> d] f m h m"
      "h d = f d"
      using write_entry [OF g o im ad _, of "Child k" "(table f ?c)[l := d]" "{Double, Child k}"] m(2) by (auto simp: Let_def)
    have "allocate_child E u ino new r (table f r) k l d = (Inr (), ?fin w)"
      using False w(1) goes_read_table [OF g, of ?c] c by (simp add: allocate_child_def store_double_def Let_def)
    then show ?thesis using fin [OF w(2)] w(3-5) unfolding child_outcome_def tables_of.simps by blast
  next
    case True
    from goes_alloc_table [OF g] show ?thesis
    proof (elim disjE exE conjE)
      assume al: "insert (unat d) U = pool v" "allocate_pointer_table E u = (Inl ENOSPC, u)"
      then have "allocate_child E u ino new r (table f r) k l d = (Inl ENOSPC, free_if new r (free_block u d))"
        by (simp add: allocate_child_def True)
      moreover have "goes E v U f n (free_block u d)" using goes_free [OF g, of d] d by simp
      moreover from goes_free [OF this, of r] this
      have "goes E v (if new then U - {unat r} else U) f n (free_if new r (free_block u d))"
        by (simp add: free_if_def)
      ultimately show ?thesis using al(1) [symmetric] unfolding child_outcome_def tables_of.simps by blast
    next
      fix t x assume t: "allocate_pointer_table E u = (Inr t, x)" "unat t \<in> pool v" "unat t \<notin> insert (unat d) U"
        "goes E v (insert (unat t) (insert (unat d) U)) (f(t := ptrs_enc empty_table)) n x"
      let ?f = "f(t := ptrs_enc empty_table)"
      let ?R = "ptrs_enc ((table f r)[k := t])" and ?A = "ptrs_enc (empty_table[l := d])"
      let ?W = "insert (unat d) (insert (unat t) U)"
      have tv: "t \<noteq> DENYFS_INVALID_BLOCK" using goes_used [OF t(4)] by blast
      have tn: "unat t \<notin> U" "t \<noteq> d" "unat d \<noteq> unat t" "t \<noteq> r" "d \<noteq> r" using t(3) r d by auto
      have sv: "sval f (m ! ino) (Child k) = DENYFS_INVALID_BLOCK" using True m(2) by simp
      have pt: "put ?f (m ! ino) (Child k) t = (?f(r := ?R), m ! ino)"
        using m(2) tn(4) by (simp add: table_def)
      note at = add_table [OF o im _ _ tn(1) tv sv _ pt, of "{Double, Child k}", simplified, OF i(2), unfolded m(2), OF rv]
      let ?g = "?f(r := ?R)"
      have ad: "addable ?g (m ! ino) (insert (unat t) U) (Leaf k l) d"
        using i d dv tv tn rv m(2) by (simp add: addable_def)
      have pl: "put ?g (m ! ino) (Leaf k l) d = (?g(t := ?A), m ! ino)"
        using i tv tn rv m(2) by (simp add: Let_def)
      note sl = adds_slot [OF at(1) im pl ad, of "{Double, Child k}", simplified]
      have h: "f(r := ?R, t := ?A) = f(t := ?A, r := ?R)" using tn(4) by (simp add: fun_upd_twist)
      have g2: "goes E v ?W ?f n x" using t(4) by (simp add: insert_commute)
      from goes_write [OF g2, of t ?A] obtain w where w: "write_block E x t ?A = (Inr (), w)"
        "goes E v ?W (f(t := ?A)) n w" by auto
      from goes_write [OF w(2), of r ?R] r obtain y where y: "write_block E w r ?R = (Inr (), y)"
        "goes E v ?W (f(t := ?A, r := ?R)) n y" by auto
      have "allocate_child E u ino new r (table f r) k l d = (Inr (), ?fin y)"
        using True t(1) w(1) y(1) by (simp add: allocate_child_def store_double_def Let_def)
      moreover have "adds ino {Double, Child k} [Leaf k l \<mapsto> d] f m (f(t := ?A, r := ?R)) m"
        using adds_trans_empty [OF at(2) sl(2) im(1)] unfolding h .
      moreover have "owned (f(t := ?A, r := ?R)) m ?W" using sl(1) unfolding h .
      moreover have "(f(t := ?A, r := ?R)) d = f d" "insert (unat d) U \<subseteq> ?W" using tn by auto
      ultimately show ?thesis using fin [OF y(2)] unfolding child_outcome_def tables_of.simps by blast
    qed
  qed
qed

lemma place_double:
  assumes g: "goes E v (insert (unat d) U) f n u" and d: "unat d \<notin> U" and o: "owned f n U"
    and i: "ino < length n" "k < DENYFS_POINTERS_PER_BLOCK * DENYFS_POINTERS_PER_BLOCK"
  defines "s \<equiv> Leaf (k div DENYFS_POINTERS_PER_BLOCK) (k mod DENYFS_POINTERS_PER_BLOCK)"
  assumes a: "sval f (n ! ino) s = DENYFS_INVALID_BLOCK"
  shows "place_outcome E v f n U ino s d (allocate_double E u ino k d)"
proof -
  let ?nd = "n ! ino" and ?k = "k div DENYFS_POINTERS_PER_BLOCK" and ?l = "k mod DENYFS_POINTERS_PER_BLOCK"
  have nd: "inode_at u ino = ?nd" using g by (simp add: goes_def inode_at_def)
  have kl: "?k < DENYFS_POINTERS_PER_BLOCK" "?l < DENYFS_POINTERS_PER_BLOCK"
    using i(2) by (simp_all add: less_mult_imp_div_less)
  note ok = goes_inode_ok [OF g i(1)]
  show ?thesis
  proof (cases "i_double ?nd = DENYFS_INVALID_BLOCK")
    case False
    let ?r = "i_double ?nd"
    have r: "unat ?r \<in> U" using ownedD [OF o i(1), of Double] False by simp
    have "allocate_double E u ino k d = allocate_child E u ino False ?r (table f ?r) ?k ?l d"
      using goes_read_table [OF g, of ?r] r False by (simp add: allocate_double_def Let_def nd)
    moreover have "child_outcome E v f n n U U ino s d (allocate_child E u ino False ?r (table f ?r) ?k ?l d)"
      using place_child [OF g d o _ refl i(1) kl r, of False] a by (simp add: s_def)
    ultimately have co: "child_outcome E v f n n U U ino s d (allocate_double E u ino k d)" by simp
    have "scarce v U" if "pool v = insert (unat d) U" by (rule scarceI [of _ _ "unat d" "unat d"]) (use that in auto)
    then show ?thesis using co unfolding child_outcome_def place_outcome_def by blast
  next
    case True
    from goes_alloc_table [OF g] show ?thesis
    proof (elim disjE exE conjE)
      assume al: "insert (unat d) U = pool v" "allocate_pointer_table E u = (Inl ENOSPC, u)"
      then have "allocate_double E u ino k d = (Inl ENOSPC, free_block u d)"
        by (simp add: allocate_double_def Let_def nd True)
      moreover have "goes E v U f n (free_block u d)" using goes_free [OF g, of d] d by simp
      moreover have "scarce v U" by (rule scarceI [of _ _ "unat d" "unat d"]) (use al(1) in auto)
      ultimately show ?thesis using place_fail by simp
    next
      fix r x assume t: "allocate_pointer_table E u = (Inr r, x)" "unat r \<in> pool v" "unat r \<notin> insert (unat d) U"
        "goes E v (insert (unat r) (insert (unat d) U)) (f(r := ptrs_enc empty_table)) n x"
      let ?f = "f(r := ptrs_enc empty_table)" and ?m = "n[ino := ?nd\<lparr>i_double := r\<rparr>]"
      have rv: "r \<noteq> DENYFS_INVALID_BLOCK" using goes_used [OF t(4)] by blast
      have rn: "unat r \<notin> U" "r \<noteq> d" "unat d \<noteq> unat r" using t(3) by auto
      have sv: "sval f ?nd Double = DENYFS_INVALID_BLOCK" using True by simp
      have pt: "put ?f ?nd Double r = (?f, ?nd\<lparr>i_double := r\<rparr>)" by simp
      have ds: "Double \<in> tables_of s" by (simp add: s_def)
      note at = add_table [OF o i(1) ok _ _ rn(1) rv sv _ pt ds, simplified]
      have tab: "table ?f r = empty_table" using rv by (simp add: table_def)
      have dn: "unat d \<notin> insert (unat r) U" using d rn by simp
      have dbl: "i_double (?m ! ino) = r" using i(1) by simp
      have lf: "sval ?f (?m ! ino) (Leaf ?k ?l) = DENYFS_INVALID_BLOCK" using i(1) kl by (simp add: tab)
      have g2: "goes E v (insert (unat d) (insert (unat r) U)) ?f n x" using t(4) by (simp add: insert_commute)
      have co: "child_outcome E v ?f n ?m (insert (unat r) U - {unat r}) (insert (unat r) U) ino s d
          (allocate_child E x ino True r (table ?f r) ?k ?l d)"
        using place_child [OF g2 dn at(1) _ dbl i(1) kl insertI1 lf, of True] by (simp add: s_def)
      have al: "allocate_double E u ino k d = allocate_child E x ino True r (table ?f r) ?k ?l d"
        using t(1) True by (simp add: allocate_double_def Let_def nd tab)
      from co show ?thesis unfolding child_outcome_def al [symmetric]
      proof (elim disjE exE conjE)
        fix w h assume full: "pool v = insert (unat d) (insert (unat r) U)"
          and w: "allocate_double E u ino k d = (Inl ENOSPC, w)"
          "goes E v (insert (unat r) U - {unat r}) h n w" "\<forall>c. unat c \<in> insert (unat r) U \<longrightarrow> h c = ?f c"
        have "goes E v U h n w" using w(2) rn(1) by simp
        moreover have "h c = f c" if "unat c \<in> U" for c using w(3) that rn(1) by auto
        moreover have "scarce v U" by (rule scarceI [of _ _ "unat d" "unat r"]) (use full in auto)
        ultimately show ?thesis unfolding w(1) by (intro place_fail)
      next
        fix w h U' assume w: "allocate_double E u ino k d = (Inr (), w)" "goes E v U' h ?m w"
          "owned h ?m U'" "adds ino (tables_of s) [s \<mapsto> d] ?f ?m h ?m" "insert (unat d) (insert (unat r) U) \<subseteq> U'" "h d = ?f d"
        have hd: "h d = f d" and sub: "insert (unat d) U \<subseteq> U'" using w(5,6) rn(2) by auto
        show ?thesis
          unfolding w(1) by (rule place_done [OF w(2,3) adds_trans_empty [OF at(2) w(4) i(1)] refl sub hd])
      qed
    qed
  qed
qed

lemma place_block_outcome:
  assumes g: "goes E v (insert (unat d) U) f n u" and d: "unat d \<notin> U" and o: "owned f n U"
    and i: "ino < length n" "lb < DENYFS_MAX_FILE_BLOCKS" and a: "file_block f (n ! ino) lb = DENYFS_INVALID_BLOCK"
  shows "place_outcome E v f n U ino (slot_of lb) d (place_block E u ino lb d)"
proof (cases lb rule: slot_of_cases)
  case direct
  with place_direct [OF g d o i(1)] a show ?thesis by (simp add: place_block_def file_block_def)
next
  case (entry k)
  with place_single [OF g d o i(1)] a show ?thesis by (simp add: place_block_def file_block_def)
next
  case (leaf k)
  have k: "k < DENYFS_POINTERS_PER_BLOCK * DENYFS_POINTERS_PER_BLOCK"
    using i(2) leaf(1) by (simp add: DENYFS_MAX_FILE_BLOCKS_def)
  have "place_block E u ino lb d = allocate_double E u ino k d" by (simp add: place_block_def leaf(1))
  with place_double [OF g d o i(1) k] a show ?thesis unfolding file_block_def leaf(2) by simp
qed

section \<open>Allocating a block of a file\<close>

text \<open>The inode's block count is raised with the new slot.\<close>

definition count_block :: "inode list \<Rightarrow> nat \<Rightarrow> inode list" where
  "count_block n ino = n[ino := (n ! ino)\<lparr>i_block_count := i_block_count (n ! ino) + 1\<rparr>]"

lemma sval_count [simp]: "sval f (nd\<lparr>i_block_count := k\<rparr>) s = sval f nd s"
  by (cases s) simp_all

lemma count_nth: "ino < length n \<Longrightarrow> sval f (count_block n ino ! j) s = sval f (n ! j) s"
  by (cases "j = ino") (simp_all add: count_block_def)

lemma owned_count:
  assumes "ino < length n"
  shows "owned f (count_block n ino) U = owned f n U" "points f (count_block n ino) = points f n"
proof -
  have "length (count_block n ino) = length n" by (simp add: count_block_def)
  moreover from this show p: "points f (count_block n ino) = points f n"
    using count_nth [OF assms, of f] by (intro ext) (simp add: points_def)
  ultimately show "owned f (count_block n ino) U = owned f n U" using p count_nth [OF assms] unfolding owned_def by simp
qed

text \<open>
  \<open>d\<close> becomes block \<open>lb\<close> of file \<open>ino\<close>. Every file block but this one stays in place with its contents,
  and new tables are those above \<open>lb\<close>.
\<close>

definition extends_file :: "nat \<Rightarrow> nat \<Rightarrow> u32 \<Rightarrow> (u32 \<Rightarrow> bytes) \<Rightarrow> inode list \<Rightarrow> (u32 \<Rightarrow> bytes) \<Rightarrow> inode list \<Rightarrow> bool" where
  "extends_file ino lb d f n g m \<longleftrightarrow> length m = length n \<and> (\<forall>j < length n. j \<noteq> ino \<longrightarrow> m ! j = n ! j) \<and>
     i_type (m ! ino) = i_type (n ! ino) \<and> i_size (m ! ino) = i_size (n ! ino) \<and>
     i_block_count (m ! ino) = i_block_count (n ! ino) + 1 \<and>
     g d = replicate SECTOR_SIZE 0 \<and>
     (\<forall>j < length n. \<forall>l < DENYFS_MAX_FILE_BLOCKS. file_block g (m ! j) l =
        (if j = ino \<and> l = lb then d else file_block f (n ! j) l) \<and>
        (file_block f (n ! j) l \<noteq> DENYFS_INVALID_BLOCK \<longrightarrow> g (file_block f (n ! j) l) = f (file_block f (n ! j) l))) \<and>
     (\<forall>j t. points g m j t \<longrightarrow> \<not> data_slot t \<longrightarrow> points f n j t \<or> j = ino \<and> t \<in> tables_of (slot_of lb))"

lemma allocate_block:
  assumes g: "goes E v U f n u" and o: "owned f n U" and i: "ino < length n" "lb < DENYFS_MAX_FILE_BLOCKS"
    and a: "file_block f (n ! ino) lb = DENYFS_INVALID_BLOCK"
  shows "(\<exists>w h. allocate_file_data_block E u ino lb = (Inl ENOSPC, w) \<and> scarce v U \<and> goes E v U h n w \<and>
      (\<forall>c. unat c \<in> U \<longrightarrow> h c = f c)) \<or>
    (\<exists>w h m U' d. allocate_file_data_block E u ino lb = (Inr d, w) \<and> goes E v U' h m w \<and> owned h m U' \<and>
      unat d \<notin> U \<and> d \<noteq> DENYFS_INVALID_BLOCK \<and> insert (unat d) U \<subseteq> U' \<and> extends_file ino lb d f n h m)"
proof -
  note get = get_block [OF g o i, unfolded a]
  from goes_alloc_zeroed [OF g] show ?thesis
  proof (elim disjE exE conjE)
    assume al: "U = pool v" "allocate_zeroed_data_block E u = (Inl ENOSPC, u)"
    then have "allocate_file_data_block E u ino lb = (Inl ENOSPC, u)"
      by (simp add: allocate_file_data_block_def get)
    moreover have "scarce v U" using al(1) by (simp add: scarce_def)
    ultimately show ?thesis using g by blast
  next
    fix d x assume x: "allocate_zeroed_data_block E u = (Inr d, x)" "unat d \<notin> U"
      "goes E v (insert (unat d) U) (f(d := replicate SECTOR_SIZE 0)) n x"
    let ?f = "f(d := replicate SECTOR_SIZE 0)"
    have dv: "d \<noteq> DENYFS_INVALID_BLOCK" using goes_used [OF x(3)] by blast
    have eq: "\<And>c. unat c \<in> U \<Longrightarrow> ?f c = f c" using x(2) by auto
    have o2: "owned ?f n U" by (rule owned_agree [OF o eq])
    have sv: "sval ?f (n ! j) t = sval f (n ! j) t" if "j < length n" "slot_ok t" for j t
      by (rule sval_agree [OF o that(1) eq that(2)])
    have a2: "file_block ?f (n ! ino) lb = DENYFS_INVALID_BLOCK"
      using a sv [OF i(1)] slot_of_ok [OF i(2)] by (simp add: file_block_def)
    have al: "allocate_file_data_block E u ino lb =
        (case place_block E x ino lb d of (Inl e, y) \<Rightarrow> (Inl e, y)
         | (Inr _, y) \<Rightarrow> (Inr d, upd_inode y ino (\<lambda>nd. nd\<lparr>i_block_count := i_block_count nd + 1\<rparr>)))"
      by (simp add: allocate_file_data_block_def get x(1))
    from place_block_outcome [OF x(3,2) o2 i a2] show ?thesis unfolding place_outcome_def
    proof (elim disjE exE conjE)
      fix w h assume "place_block E x ino lb d = (Inl ENOSPC, w)" "scarce v U" "goes E v U h n w" "\<forall>c. unat c \<in> U \<longrightarrow> h c = ?f c"
      with eq al show ?thesis by auto
    next
      fix w h m U' assume w: "place_block E x ino lb d = (Inr (), w)" "goes E v U' h m w" "owned h m U'"
        "adds ino (tables_of (slot_of lb)) [slot_of lb \<mapsto> d] ?f n h m" "insert (unat d) U \<subseteq> U'" "h d = ?f d"
      have len: "length m = length n" "ino < length m" using w(4) i(1) by (simp_all add: adds_def)
      have up: "goes E v U' h (count_block m ino) (upd_inode w ino (\<lambda>nd. nd\<lparr>i_block_count := i_block_count nd + 1\<rparr>))"
        using goes_upd [OF w(2), of "\<lambda>nd. nd\<lparr>i_block_count := i_block_count nd + 1\<rparr>"] by (simp add: count_block_def)
      have blk: "file_block h (count_block m ino ! j) l = (if j = ino \<and> l = lb then d else file_block f (n ! j) l)"
        "file_block f (n ! j) l \<noteq> DENYFS_INVALID_BLOCK \<Longrightarrow> h (file_block f (n ! j) l) = f (file_block f (n ! j) l)"
        if "j < length n" "l < DENYFS_MAX_FILE_BLOCKS" for j l
      proof -
        note sl = slot_of_ok [OF that(2)]
        have "sval h (m ! j) (slot_of l) = (if j = ino \<and> l = lb then d else sval f (n ! j) (slot_of l))"
          using w(4) that(1) sl sv [OF that(1) sl] slot_of_inj [of l lb] by (auto simp: adds_def)
        then show "file_block h (count_block m ino ! j) l = (if j = ino \<and> l = lb then d else file_block f (n ! j) l)"
          by (simp add: file_block_def count_nth [OF len(2)])
        assume nz: "file_block f (n ! j) l \<noteq> DENYFS_INVALID_BLOCK"
        then have "unat (file_block f (n ! j) l) \<in> U" using ownedD [OF o that(1) sl] by (simp add: file_block_def)
        from eq [OF this] have "?f (sval f (n ! j) (slot_of l)) = f (sval f (n ! j) (slot_of l))"
          by (simp only: file_block_def)
        moreover have "h (sval ?f (n ! j) (slot_of l)) = ?f (sval ?f (n ! j) (slot_of l))"
          using w(4) that(1) sl sv [OF that(1) sl] nz unfolding adds_def file_block_def by (metis slot_of_data)
        ultimately show "h (file_block f (n ! j) l) = f (file_block f (n ! j) l)"
          by (simp only: sv [OF that(1) sl] file_block_def)
      qed
      have pf: "points ?f n = points f n"
        using sv by (intro ext) (auto simp: points_def)
      have tb: "\<forall>j t. points h m j t \<longrightarrow> \<not> data_slot t \<longrightarrow> points ?f n j t \<or> j = ino \<and> t \<in> tables_of (slot_of lb)"
        using w(4) unfolding adds_def by blast
      have tabs: "\<forall>j t. points h (count_block m ino) j t \<longrightarrow> \<not> data_slot t \<longrightarrow>
          points f n j t \<or> j = ino \<and> t \<in> tables_of (slot_of lb)"
        using tb unfolding pf owned_count(2) [OF len(2)] .
      have "extends_file ino lb d f n h (count_block m ino)"
        using tabs w(4,6) i(1) len blk unfolding extends_file_def
        by (auto simp: adds_def same_info_def count_block_def)
      moreover have "owned h (count_block m ino) U'" using w(3) by (simp add: owned_count [OF len(2)])
      moreover have "allocate_file_data_block E u ino lb =
          (Inr d, upd_inode w ino (\<lambda>nd. nd\<lparr>i_block_count := i_block_count nd + 1\<rparr>))"
        using al w(1) by simp
      ultimately show ?thesis using w(5) up x(2) dv by blast
    qed
  qed
qed

section \<open>Tidy trees\<close>

text \<open>
  \<open>tree_ok\<close>: the inode counts its file blocks, and every table leads to one. It holds of files, of the
  directory and of free inodes alike.
\<close>

definition blocks_of :: "(u32 \<Rightarrow> bytes) \<Rightarrow> inode \<Rightarrow> nat set" where
  "blocks_of f nd = {l. l < DENYFS_MAX_FILE_BLOCKS \<and> file_block f nd l \<noteq> DENYFS_INVALID_BLOCK}"

definition tree_ok :: "(u32 \<Rightarrow> bytes) \<Rightarrow> inode \<Rightarrow> bool" where
  "tree_ok f nd \<longleftrightarrow> unat (i_block_count nd) = card (blocks_of f nd) \<and>
     (\<forall>q. slot_ok q \<longrightarrow> \<not> data_slot q \<longrightarrow> sval f nd q \<noteq> DENYFS_INVALID_BLOCK \<longrightarrow>
       (\<exists>l \<in> blocks_of f nd. q \<in> tables_of (slot_of l)))"

definition trees :: "(u32 \<Rightarrow> bytes) \<Rightarrow> inode list \<Rightarrow> bool" where
  "trees f n \<longleftrightarrow> (\<forall>j < length n. tree_ok f (n ! j))"

lemma finite_blocks_of [simp]: "finite (blocks_of f nd)"
  by (simp add: blocks_of_def)

lemma card_blocks_of: "card (blocks_of f nd) \<le> DENYFS_MAX_FILE_BLOCKS"
  using card_mono [of "{..<DENYFS_MAX_FILE_BLOCKS}" "blocks_of f nd"] by (auto simp: blocks_of_def)

lemma tree_ok_same:
  assumes "\<And>s. slot_ok s \<Longrightarrow> sval g nd' s = sval f nd s" "i_block_count nd' = i_block_count nd"
  shows "tree_ok g nd' = tree_ok f nd"
proof -
  have "file_block g nd' l = file_block f nd l" if "l < DENYFS_MAX_FILE_BLOCKS" for l
    using assms(1) slot_of_ok [OF that] by (simp add: file_block_def)
  then have "blocks_of g nd' = blocks_of f nd" unfolding blocks_of_def by (metis (no_types, lifting))
  with assms show ?thesis unfolding tree_ok_def by simp
qed

lemma trees_agree:
  assumes "owned f n U" "\<And>c. unat c \<in> U \<Longrightarrow> g c = f c" "trees f n"
  shows "trees g n"
  using assms(3) tree_ok_same [OF sval_agree [OF assms(1) _ assms(2)] refl] unfolding trees_def by blast

lemma trees_extend:
  assumes e: "extends_file ino lb d f n g m" and t: "trees f n" and i: "ino < length n" "lb < DENYFS_MAX_FILE_BLOCKS"
    and a: "file_block f (n ! ino) lb = DENYFS_INVALID_BLOCK" "d \<noteq> DENYFS_INVALID_BLOCK"
  shows "trees g m"
  unfolding trees_def
proof (intro allI impI)
  fix j assume "j < length m"
  then have j: "j < length n" and len: "length m = length n" using e by (simp_all add: extends_file_def)
  have bl: "blocks_of g (m ! j) = (if j = ino then insert lb (blocks_of f (n ! j)) else blocks_of f (n ! j))"
  proof -
    have "file_block g (m ! j) l = (if j = ino \<and> l = lb then d else file_block f (n ! j) l)"
      if "l < DENYFS_MAX_FILE_BLOCKS" for l
      using e j that by (simp add: extends_file_def)
    then have "l \<in> blocks_of g (m ! j) \<longleftrightarrow> l \<in> blocks_of f (n ! j) \<or> j = ino \<and> l = lb" for l
      using i(2) a(2) by (auto simp: blocks_of_def split: if_split_asm)
    then show ?thesis by auto
  qed
  have ok: "tree_ok f (n ! j)" using t j by (simp add: trees_def)
  have "unat (i_block_count (m ! j)) = card (blocks_of g (m ! j))"
  proof (cases "j = ino")
    case True
    have "lb \<notin> blocks_of f (n ! ino)" using a(1) by (simp add: blocks_of_def)
    moreover have "card (blocks_of f (n ! ino)) < 2 ^ 32 - 1"
      using card_blocks_of [of f "n ! ino"] by (simp add: DENYFS_MAX_FILE_BLOCKS_def layout_sizes)
    ultimately show ?thesis using True e ok bl
      by (simp add: extends_file_def tree_ok_def unat_word_ariths)
  next
    case False
    then show ?thesis using e ok bl j by (simp add: extends_file_def tree_ok_def)
  qed
  moreover have "\<exists>l \<in> blocks_of g (m ! j). q \<in> tables_of (slot_of l)"
    if q: "slot_ok q" "\<not> data_slot q" "sval g (m ! j) q \<noteq> DENYFS_INVALID_BLOCK" for q
  proof -
    have "points g m j q" using q j len by (simp add: points_def)
    then have "points f n j q \<or> j = ino \<and> q \<in> tables_of (slot_of lb)"
      using e q(2) unfolding extends_file_def by blast
    then show ?thesis
    proof
      assume "points f n j q"
      then obtain l where "l \<in> blocks_of f (n ! j)" "q \<in> tables_of (slot_of l)"
        using ok q unfolding tree_ok_def points_def by blast
      with bl show ?thesis by auto
    qed (use bl in auto)
  qed
  ultimately show "tree_ok g (m ! j)" unfolding tree_ok_def by blast
qed

end
