(* ===== verification/FileIO.thy ===== *)
theory FileIO
  imports FileMap
begin

text \<open>
  Reading and writing files over their contents: \<open>read_loop\<close> returns the bytes of the file, \<open>write_loop\<close>
  replaces the bytes it is given, in this file and nowhere else, or stops with \<open>-ENOSPC\<close> after a prefix.
\<close>

section \<open>Blocks and bytes\<close>

definition MAX_BYTES :: nat where
  "MAX_BYTES = DENYFS_MAX_FILE_BLOCKS * SECTOR_SIZE"

lemma MAX_BYTES_div: "p < MAX_BYTES \<Longrightarrow> p div SECTOR_SIZE < DENYFS_MAX_FILE_BLOCKS"
  by (simp add: MAX_BYTES_def less_mult_imp_div_less)

lemma chunk_div_mod:
  assumes "pos mod SECTOR_SIZE + i < SECTOR_SIZE"
  shows "(pos + i) div SECTOR_SIZE = pos div SECTOR_SIZE" "(pos + i) mod SECTOR_SIZE = pos mod SECTOR_SIZE + i"
proof -
  have p: "pos + i = pos div SECTOR_SIZE * SECTOR_SIZE + (pos mod SECTOR_SIZE + i)" by simp
  have "(pos + i) div SECTOR_SIZE = pos div SECTOR_SIZE + (pos mod SECTOR_SIZE + i) div SECTOR_SIZE"
    by (subst p) (rule div_mult_self3, simp)
  with assms show "(pos + i) div SECTOR_SIZE = pos div SECTOR_SIZE" by simp
  have "(pos + i) mod SECTOR_SIZE = (pos mod SECTOR_SIZE + i) mod SECTOR_SIZE"
    by (simp add: mod_add_left_eq)
  with assms show "(pos + i) mod SECTOR_SIZE = pos mod SECTOR_SIZE + i" by simp
qed

lemma chunk_len_le: "pos mod SECTOR_SIZE + chunk_len pos left \<le> SECTOR_SIZE" "chunk_len pos left \<le> left"
proof -
  have "pos mod SECTOR_SIZE < SECTOR_SIZE" by simp
  then show "pos mod SECTOR_SIZE + chunk_len pos left \<le> SECTOR_SIZE" "chunk_len pos left \<le> left"
    unfolding chunk_len_def min_def by auto
qed

lemma block_bytes_length:
  assumes "goes E v U f n u" "owned f n U" "ino < length n" "lb < DENYFS_MAX_FILE_BLOCKS"
  shows "length (block_bytes f (file_block f (n ! ino) lb)) = SECTOR_SIZE"
  using goes_read(2) [OF assms(1)] ownedD [OF assms(2,3) slot_of_ok [OF assms(4)]]
  by (simp add: block_bytes_def file_block_def)

lemma file_chunk:
  assumes "length (block_bytes f (file_block f nd (pos div SECTOR_SIZE))) = SECTOR_SIZE"
    and "pos mod SECTOR_SIZE + c \<le> SECTOR_SIZE"
  shows "slice (pos mod SECTOR_SIZE) c (block_bytes f (file_block f nd (pos div SECTOR_SIZE))) =
    map (file_byte f nd) [pos..<pos + c]"
proof (rule nth_equalityI)
  show "length (slice (pos mod SECTOR_SIZE) c (block_bytes f (file_block f nd (pos div SECTOR_SIZE)))) =
      length (map (file_byte f nd) [pos..<pos + c])" using assms by simp
  fix i assume "i < length (slice (pos mod SECTOR_SIZE) c (block_bytes f (file_block f nd (pos div SECTOR_SIZE))))"
  then have i: "i < c" "pos mod SECTOR_SIZE + i < SECTOR_SIZE" using assms by auto
  then show "slice (pos mod SECTOR_SIZE) c (block_bytes f (file_block f nd (pos div SECTOR_SIZE))) ! i =
      map (file_byte f nd) [pos..<pos + c] ! i"
    using assms(1) by (simp add: file_byte_def chunk_div_mod)
qed

lemma file_block_agree:
  assumes "owned f n U" "\<And>c. unat c \<in> U \<Longrightarrow> h c = f c" "j < length n" "l < DENYFS_MAX_FILE_BLOCKS"
  shows "file_block h (n ! j) l = file_block f (n ! j) l"
    "block_bytes h (file_block f (n ! j) l) = block_bytes f (file_block f (n ! j) l)"
  using sval_agree [OF assms(1,3,2) slot_of_ok [OF assms(4)]] ownedD [OF assms(1,3) slot_of_ok [OF assms(4)]] assms(2)
  by (simp_all add: file_block_def block_bytes_def)

section \<open>Reading\<close>

lemma read_file:
  assumes g: "goes E v U f n u" and o: "owned f n U" and i: "ino < length n"
  shows "pos + left \<le> MAX_BYTES \<Longrightarrow>
    read_loop E u ino pos left = (Inr (map (file_byte f (n ! ino)) [pos..<pos + left]), u)"
proof (induction left arbitrary: pos rule: less_induct)
  case (less left)
  show ?case
  proof (cases "left = 0")
    case True
    then show ?thesis by (simp add: read_loop.simps)
  next
    case False
    let ?b = "file_block f (n ! ino) (pos div SECTOR_SIZE)" and ?c = "chunk_len pos left"
    have lb: "pos div SECTOR_SIZE < DENYFS_MAX_FILE_BLOCKS" using less.prems False by (intro MAX_BYTES_div) simp
    note len = block_bytes_length [OF g o i lb] and c = chunk_len_le [of pos left]
    have rd: "(if ?b = DENYFS_INVALID_BLOCK then (Inr (replicate SECTOR_SIZE 0), u) else read_block E u ?b) =
        (Inr (block_bytes f ?b), u)"
      using goes_read(1) [OF g] ownedD [OF o i slot_of_ok [OF lb]] by (auto simp: block_bytes_def file_block_def)
    have ih: "read_loop E u ino (pos + ?c) (left - ?c) =
        (Inr (map (file_byte f (n ! ino)) [pos + ?c..<pos + ?c + (left - ?c)]), u)"
      using less.prems False c by (intro less.IH) (auto simp: diff_less)
    have "[pos..<pos + left] = [pos..<pos + ?c] @ [pos + ?c..<pos + ?c + (left - ?c)]"
      using c(2) upt_add_eq_append [of pos "pos + ?c" "left - ?c"] by simp
    then show ?thesis
      using False get_block [OF g o i lb] rd ih file_chunk [OF len c(1)]
      by (subst read_loop.simps) (simp add: Let_def)
  qed
qed

section \<open>Writing one block\<close>

text \<open>Changing the contents of a data block changes no pointer.\<close>

lemma data_write_sval:
  assumes o: "owned f n U" "i < length n" "slot_ok s" "data_slot s" "sval f (n ! i) s \<noteq> DENYFS_INVALID_BLOCK"
    and j: "j < length n" "slot_ok t"
  shows "sval (f(sval f (n ! i) s := d)) (n ! j) t = sval f (n ! j) t"
proof (rule sval_agree_gen [OF _ j(2)])
  fix q assume q: "slot_ok q" "\<not> data_slot q" "sval f (n ! j) q \<noteq> DENYFS_INVALID_BLOCK"
  then have "sval f (n ! j) q \<noteq> sval f (n ! i) s"
    using owned_inj [OF o(1) j(1) o(2) q(1) o(3) _ q(3)] o(4) by blast
  then show "(f(sval f (n ! i) s := d)) (sval f (n ! j) q) = f (sval f (n ! j) q)" by simp
qed

lemma data_write_owned:
  assumes "owned f n U" "i < length n" "slot_ok s" "data_slot s" "sval f (n ! i) s \<noteq> DENYFS_INVALID_BLOCK"
  shows "owned (f(sval f (n ! i) s := d)) n U"
  using data_write_sval [OF assms] by (intro owned_same [OF assms(1)]) simp_all

text \<open>
  \<open>writes ino pos bs\<close>: the bytes \<open>bs\<close> replace those of file \<open>ino\<close> from \<open>pos\<close> on. No mapped block is
  moved or unmapped, and the only new blocks are those under the written bytes.
\<close>

definition writes :: "nat \<Rightarrow> nat \<Rightarrow> bytes \<Rightarrow> (u32 \<Rightarrow> bytes) \<Rightarrow> inode list \<Rightarrow> (u32 \<Rightarrow> bytes) \<Rightarrow> inode list \<Rightarrow> bool" where
  "writes ino pos bs f n g m \<longleftrightarrow> length m = length n \<and> (\<forall>j < length n. j \<noteq> ino \<longrightarrow> m ! j = n ! j) \<and>
     i_type (m ! ino) = i_type (n ! ino) \<and> i_size (m ! ino) = i_size (n ! ino) \<and>
     (\<forall>j < length n. \<forall>p < MAX_BYTES. file_byte g (m ! j) p =
        (if j = ino \<and> pos \<le> p \<and> p < pos + length bs then bs ! (p - pos) else file_byte f (n ! j) p)) \<and>
     (\<forall>j < length n. \<forall>l < DENYFS_MAX_FILE_BLOCKS. file_block f (n ! j) l \<noteq> DENYFS_INVALID_BLOCK \<longrightarrow>
        file_block g (m ! j) l = file_block f (n ! j) l) \<and>
     (\<forall>j < length n. \<forall>l < DENYFS_MAX_FILE_BLOCKS. file_block g (m ! j) l \<noteq> DENYFS_INVALID_BLOCK \<longleftrightarrow>
        file_block f (n ! j) l \<noteq> DENYFS_INVALID_BLOCK \<or>
        j = ino \<and> (\<exists>p. pos \<le> p \<and> p < pos + length bs \<and> p div SECTOR_SIZE = l)) \<and>
     (trees f n \<longrightarrow> trees g m)"

lemma writes_agree:
  assumes "owned f n U" "\<And>c. unat c \<in> U \<Longrightarrow> h c = f c"
  shows "writes ino pos [] f n h n"
proof -
  have "file_byte h (n ! j) p = file_byte f (n ! j) p" if "j < length n" "p < MAX_BYTES" for j p
    using file_block_agree [OF assms that(1) MAX_BYTES_div [OF that(2)]] by (simp add: file_byte_def)
  then show ?thesis using file_block_agree(1) [OF assms] trees_agree [OF assms] by (auto simp: writes_def)
qed

lemma writes_trans:
  assumes "writes ino pos a f n g m" "writes ino (pos + length a) b g m h k"
  shows "writes ino pos (a @ b) f n h k"
proof -
  have l: "length m = length n" "length k = length n" using assms by (simp_all add: writes_def)
  have bt: "file_byte h (k ! j) p = (if j = ino \<and> pos \<le> p \<and> p < pos + length (a @ b) then (a @ b) ! (p - pos)
      else file_byte f (n ! j) p)" if "j < length n" "p < MAX_BYTES" for j p
  proof -
    have 1: "file_byte g (m ! j) p =
        (if j = ino \<and> pos \<le> p \<and> p < pos + length a then a ! (p - pos) else file_byte f (n ! j) p)"
      using assms(1) that by (simp add: writes_def)
    have 2: "file_byte h (k ! j) p = (if j = ino \<and> pos + length a \<le> p \<and> p < pos + length a + length b
        then b ! (p - (pos + length a)) else file_byte g (m ! j) p)"
      using assms(2) that l by (simp add: writes_def)
    show ?thesis unfolding 2 1 by (auto simp: nth_append)
  qed
  have ex: "(\<exists>p. pos \<le> p \<and> p < pos + length (a @ b) \<and> p div SECTOR_SIZE = l) \<longleftrightarrow>
      (\<exists>p. pos \<le> p \<and> p < pos + length a \<and> p div SECTOR_SIZE = l) \<or>
      (\<exists>p. pos + length a \<le> p \<and> p < pos + length a + length b \<and> p div SECTOR_SIZE = l)" for l
  proof -
    have "pos \<le> p \<and> p < pos + length (a @ b) \<longleftrightarrow>
        pos \<le> p \<and> p < pos + length a \<or> pos + length a \<le> p \<and> p < pos + length a + length b" for p
      by auto
    then show ?thesis by blast
  qed
  have bl: "file_block h (k ! j) l \<noteq> DENYFS_INVALID_BLOCK \<longleftrightarrow> file_block f (n ! j) l \<noteq> DENYFS_INVALID_BLOCK \<or>
      j = ino \<and> (\<exists>p. pos \<le> p \<and> p < pos + length (a @ b) \<and> p div SECTOR_SIZE = l)"
    if "j < length n" "l < DENYFS_MAX_FILE_BLOCKS" for j l
    using assms that l ex [of l] by (simp add: writes_def) blast
  have st: "file_block h (k ! j) l = file_block f (n ! j) l"
    if "j < length n" "l < DENYFS_MAX_FILE_BLOCKS" "file_block f (n ! j) l \<noteq> DENYFS_INVALID_BLOCK" for j l
    using assms that l by (simp add: writes_def)
  show ?thesis using assms l bt bl st by (simp add: writes_def)
qed

lemma chunk_range:
  assumes "pos mod SECTOR_SIZE + k \<le> SECTOR_SIZE"
  shows "pos \<le> p \<and> p < pos + k \<longleftrightarrow> p div SECTOR_SIZE = pos div SECTOR_SIZE \<and>
    pos mod SECTOR_SIZE \<le> p mod SECTOR_SIZE \<and> p mod SECTOR_SIZE < pos mod SECTOR_SIZE + k"
proof (intro iffI conjI)
  assume p: "pos \<le> p \<and> p < pos + k"
  then obtain i where i: "p = pos + i" "i < k" by (auto simp: le_iff_add)
  then have "pos mod SECTOR_SIZE + i < SECTOR_SIZE" using assms by simp
  then show "p div SECTOR_SIZE = pos div SECTOR_SIZE" "pos mod SECTOR_SIZE \<le> p mod SECTOR_SIZE"
    "p mod SECTOR_SIZE < pos mod SECTOR_SIZE + k"
    using i by (simp_all add: chunk_div_mod)
next
  assume q: "p div SECTOR_SIZE = pos div SECTOR_SIZE \<and>
    pos mod SECTOR_SIZE \<le> p mod SECTOR_SIZE \<and> p mod SECTOR_SIZE < pos mod SECTOR_SIZE + k"
  have "p = pos div SECTOR_SIZE * SECTOR_SIZE + p mod SECTOR_SIZE"
    "pos = pos div SECTOR_SIZE * SECTOR_SIZE + pos mod SECTOR_SIZE"
    using q div_mult_mod_eq [of p SECTOR_SIZE] div_mult_mod_eq [of pos SECTOR_SIZE] by simp_all
  then show "pos \<le> p" "p < pos + k" using q by linarith+
qed

lemma modify_chunk:
  assumes g: "goes E v U f n u" and o: "owned f n U" and i: "ino < length n"
    and lb: "pos div SECTOR_SIZE < DENYFS_MAX_FILE_BLOCKS"
    and b: "file_block f (n ! ino) (pos div SECTOR_SIZE) = b" "b \<noteq> DENYFS_INVALID_BLOCK"
    and c: "pos mod SECTOR_SIZE + length bs \<le> SECTOR_SIZE"
  shows "\<exists>w g. modify_block E u b (pos mod SECTOR_SIZE) bs = (Inr (), w) \<and> goes E v U g n w \<and> owned g n U \<and>
    writes ino pos bs f n g n"
proof -
  let ?lb = "pos div SECTOR_SIZE" and ?off = "pos mod SECTOR_SIZE"
  have ok: "slot_ok (slot_of ?lb)" by (rule slot_of_ok [OF lb])
  have bv: "sval f (n ! ino) (slot_of ?lb) = b" using b(1) by (simp add: file_block_def)
  have bu: "unat b \<in> U" using ownedD [OF o i ok] b(2) bv by simp
  note rd = goes_read [OF g bu]
  let ?d = "overwrite ?off bs (f b)" and ?g = "f(b := overwrite ?off bs (f b))"
  have len: "length ?d = SECTOR_SIZE" using rd(2) c by (simp add: max_def)
  obtain w where w: "write_block E u b ?d = (Inr (), w)" "goes E v U ?g n w"
    using goes_write [OF g bu len] by blast
  have sv: "sval ?g (n ! j) t = sval f (n ! j) t" if "j < length n" "slot_ok t" for j t
    using data_write_sval [OF o i ok slot_of_data _ that, of ?d] bv b(2) by simp
  have ow: "owned ?g n U" using data_write_owned [OF o i ok slot_of_data, of ?d] bv b(2) by simp
  have fb: "file_block ?g (n ! j) l = file_block f (n ! j) l" if "j < length n" "l < DENYFS_MAX_FILE_BLOCKS" for j l
    using sv [OF that(1) slot_of_ok [OF that(2)]] by (simp add: file_block_def)
  have inj: "j = ino \<and> l = ?lb" if "j < length n" "l < DENYFS_MAX_FILE_BLOCKS" "file_block f (n ! j) l = b" for j l
    using owned_inj [OF o that(1) i slot_of_ok [OF that(2)] ok] that(3) bv b(2) slot_of_inj [of l ?lb]
    by (auto simp: file_block_def)
  have "file_byte ?g (n ! j) p = (if j = ino \<and> pos \<le> p \<and> p < pos + length bs then bs ! (p - pos)
      else file_byte f (n ! j) p)" if "j < length n" "p < MAX_BYTES" for j p
  proof -
    let ?l = "p div SECTOR_SIZE"
    have l: "?l < DENYFS_MAX_FILE_BLOCKS" using that(2) by (rule MAX_BYTES_div)
    show ?thesis
    proof (cases "file_block f (n ! j) ?l = b")
      case False
      then have "\<not> (j = ino \<and> pos \<le> p \<and> p < pos + length bs)" using chunk_range [OF c, of p] b(1) by auto
      moreover have "file_byte ?g (n ! j) p = file_byte f (n ! j) p"
        using False by (simp add: file_byte_def fb [OF that(1) l] block_bytes_def)
      ultimately show ?thesis by auto
    next
      case True
      then have jl: "j = ino" "?l = ?lb" using inj [OF that(1) l] by auto
      have pm: "p mod SECTOR_SIZE < length (f b)" using rd(2) by simp
      have pp: "p - pos = p mod SECTOR_SIZE - ?off"
        using div_mult_mod_eq [of p SECTOR_SIZE] div_mult_mod_eq [of pos SECTOR_SIZE] unfolding jl(2) by linarith
      have "file_byte ?g (n ! j) p = ?d ! (p mod SECTOR_SIZE)" "file_byte f (n ! j) p = f b ! (p mod SECTOR_SIZE)"
        using True b(2) by (simp_all add: file_byte_def fb [OF that(1) l] block_bytes_def)
      then show ?thesis
        using nth_overwrite [OF pm, of ?off bs] c rd(2) jl chunk_range [OF c, of p] by (simp add: pp)
    qed
  qed
  moreover have "p div SECTOR_SIZE = ?lb" if "pos \<le> p" "p < pos + length bs" for p
    using chunk_range [OF c, of p] that by simp
  moreover have "trees f n \<longrightarrow> trees ?g n" using tree_ok_same [OF sv refl] by (simp add: trees_def)
  ultimately have "writes ino pos bs f n ?g n" using fb b unfolding writes_def by auto
  with ow w rd show ?thesis by (auto simp: modify_block_def)
qed

lemma extends_writes:
  assumes e: "extends_file ino lb d f n h m" and a: "file_block f (n ! ino) lb = DENYFS_INVALID_BLOCK"
    and i: "ino < length n" "lb < DENYFS_MAX_FILE_BLOCKS" "d \<noteq> DENYFS_INVALID_BLOCK"
    and w: "writes ino pos bs h m g k" and lb: "lb = pos div SECTOR_SIZE" "bs \<noteq> []"
    and c: "pos mod SECTOR_SIZE + length bs \<le> SECTOR_SIZE"
  shows "writes ino pos bs f n g k"
proof -
  have l: "length m = length n" using e by (simp add: extends_file_def)
  have fb: "file_block h (m ! j) l = (if j = ino \<and> l = lb then d else file_block f (n ! j) l)"
    "file_block f (n ! j) l \<noteq> DENYFS_INVALID_BLOCK \<Longrightarrow> h (file_block f (n ! j) l) = f (file_block f (n ! j) l)"
    if "j < length n" "l < DENYFS_MAX_FILE_BLOCKS" for j l
    using e that by (simp_all add: extends_file_def)
  have z: "h d = replicate SECTOR_SIZE 0" using e by (simp add: extends_file_def)
  have by': "file_byte h (m ! j) p = file_byte f (n ! j) p" if "j < length n" "p < MAX_BYTES" for j p
    using fb [OF that(1) MAX_BYTES_div [OF that(2)]] a z i(3)
    by (cases "j = ino \<and> p div SECTOR_SIZE = lb") (auto simp: file_byte_def block_bytes_def)
  have rng: "(\<exists>p. pos \<le> p \<and> p < pos + length bs \<and> p div SECTOR_SIZE = l) \<longleftrightarrow> l = lb" for l
  proof
    assume "\<exists>p. pos \<le> p \<and> p < pos + length bs \<and> p div SECTOR_SIZE = l"
    then obtain p where "pos \<le> p \<and> p < pos + length bs" "p div SECTOR_SIZE = l" by blast
    then show "l = lb" using chunk_range [OF c, of p] lb(1) by simp
  next
    assume "l = lb"
    then show "\<exists>p. pos \<le> p \<and> p < pos + length bs \<and> p div SECTOR_SIZE = l"
      using lb by (intro exI [of _ pos]) simp
  qed
  show ?thesis
    unfolding writes_def rng
  proof (intro conjI allI impI)
    show "length k = length n" "i_type (k ! ino) = i_type (n ! ino)" "i_size (k ! ino) = i_size (n ! ino)"
      using w e by (simp_all add: writes_def extends_file_def)
    show "k ! j = n ! j" if "j < length n" "j \<noteq> ino" for j
      using w e that by (simp add: writes_def extends_file_def)
    show "file_byte g (k ! j) p = (if j = ino \<and> pos \<le> p \<and> p < pos + length bs then bs ! (p - pos)
        else file_byte f (n ! j) p)" if "j < length n" "p < MAX_BYTES" for j p
      using w that by' [OF that] l by (simp add: writes_def)
    show "file_block g (k ! j) l = file_block f (n ! j) l"
      if "j < length n" "l < DENYFS_MAX_FILE_BLOCKS" "file_block f (n ! j) l \<noteq> DENYFS_INVALID_BLOCK" for j l
    proof -
      have "file_block h (m ! j) l = file_block f (n ! j) l" using fb(1) [OF that(1,2)] that(3) a by auto
      then show ?thesis using w that l by (simp add: writes_def)
    qed
    show "file_block g (k ! j) l \<noteq> DENYFS_INVALID_BLOCK \<longleftrightarrow>
        file_block f (n ! j) l \<noteq> DENYFS_INVALID_BLOCK \<or> j = ino \<and> l = lb"
      if "j < length n" "l < DENYFS_MAX_FILE_BLOCKS" for j l
      using w that fb(1) [OF that] i(3) \<open>length m = length n\<close> unfolding writes_def rng by auto
    show "trees g k" if "trees f n"
      using trees_extend [OF e that i(1,2) a i(3)] w by (simp add: writes_def)
  qed
qed

section \<open>The write loop\<close>

lemma write_chunk:
  assumes g: "goes E v U f n u" and o: "owned f n U" and i: "ino < length n"
    and lb: "pos div SECTOR_SIZE < DENYFS_MAX_FILE_BLOCKS" and bs: "bs \<noteq> []"
    and c: "pos mod SECTOR_SIZE + length bs \<le> SECTOR_SIZE"
  shows "(\<exists>w h. map_for_write E u ino (pos div SECTOR_SIZE) = (Inl ENOSPC, w) \<and> scarce v U \<and> goes E v U h n w \<and>
      (\<forall>c. unat c \<in> U \<longrightarrow> h c = f c)) \<or>
    (\<exists>b w x h m U'. map_for_write E u ino (pos div SECTOR_SIZE) = (Inr b, w) \<and>
      modify_block E w b (pos mod SECTOR_SIZE) bs = (Inr (), x) \<and> goes E v U' h m x \<and> owned h m U' \<and> U \<subseteq> U' \<and>
      writes ino pos bs f n h m)"
proof -
  let ?lb = "pos div SECTOR_SIZE"
  note get = get_block [OF g o i lb]
  show ?thesis
  proof (cases "file_block f (n ! ino) ?lb = DENYFS_INVALID_BLOCK")
    case False
    from modify_chunk [OF g o i lb refl False c] get False show ?thesis
      by (intro disjI2) (fastforce simp: map_for_write_def)
  next
    case True
    have mf: "map_for_write E u ino ?lb = allocate_file_data_block E u ino ?lb"
      using get True by (simp add: map_for_write_def)
    from allocate_block [OF g o i lb True] show ?thesis
    proof (elim disjE exE conjE)
      fix w h assume "allocate_file_data_block E u ino ?lb = (Inl ENOSPC, w)" "scarce v U" "goes E v U h n w"
        "\<forall>c. unat c \<in> U \<longrightarrow> h c = f c"
      then show ?thesis using mf by auto
    next
      fix w h m U' d assume a: "allocate_file_data_block E u ino ?lb = (Inr d, w)" "goes E v U' h m w" "owned h m U'"
        "d \<noteq> DENYFS_INVALID_BLOCK" "insert (unat d) U \<subseteq> U'" "extends_file ino ?lb d f n h m"
      have im: "ino < length m" using a(6) i by (simp add: extends_file_def)
      have "file_block h (m ! ino) ?lb = d" using a(6) i lb by (simp add: extends_file_def)
      from modify_chunk [OF a(2,3) im lb this a(4) c] obtain x k where
        x: "modify_block E w d (pos mod SECTOR_SIZE) bs = (Inr (), x)" "goes E v U' k m x" "owned k m U'"
        "writes ino pos bs h m k m" by blast
      have "writes ino pos bs f n k m" by (rule extends_writes [OF a(6) True i lb a(4) x(4) refl bs c])
      with mf a(1,5) x show ?thesis by auto
    qed
  qed
qed

text \<open>
  The loop writes a prefix of its data, all of it unless space runs out.
\<close>

lemma chunk_end: "SECTOR_SIZE dvd pos + (SECTOR_SIZE - pos mod SECTOR_SIZE)"
proof -
  have "pos + (SECTOR_SIZE - pos mod SECTOR_SIZE) = SECTOR_SIZE * Suc (pos div SECTOR_SIZE)"
  proof -
    have "pos mod SECTOR_SIZE < SECTOR_SIZE" by (simp add: SECTOR_SIZE_def)
    moreover have "SECTOR_SIZE * (pos div SECTOR_SIZE) + pos mod SECTOR_SIZE = pos" by simp
    moreover have "SECTOR_SIZE * Suc (pos div SECTOR_SIZE) = SECTOR_SIZE + SECTOR_SIZE * (pos div SECTOR_SIZE)" by simp
    ultimately show ?thesis by linarith
  qed
  then show ?thesis by simp
qed

lemma write_file:
  assumes "goes E v U f n u" "owned f n U" "ino < length n" "pos + length src \<le> MAX_BYTES"
  shows "\<exists>r w h m U' k. write_loop E u ino pos src = (r, w) \<and> goes E v U' h m w \<and> owned h m U' \<and> U \<subseteq> U' \<and>
    k \<le> length src \<and> writes ino pos (take k src) f n h m \<and>
    (r = Inr () \<and> k = length src \<or> r = Inl ENOSPC \<and> k < length src \<and> scarce v U' \<and>
      (if k = 0 then U' = U else SECTOR_SIZE dvd pos + k))"
  using assms
proof (induction "length src" arbitrary: u f n U pos src rule: less_induct)
  case less
  show ?case
  proof (cases "src = []")
    case True
    then show ?thesis
      using less.prems writes_agree [OF less.prems(2), of f] by (force simp: write_loop.simps)
  next
    case False
    let ?c = "chunk_len pos (length src)"
    have c: "pos mod SECTOR_SIZE + length (take ?c src) \<le> SECTOR_SIZE" "0 < ?c" "?c \<le> length src"
      using chunk_len_le [of pos "length src"] False by simp_all
    have lb: "pos div SECTOR_SIZE < DENYFS_MAX_FILE_BLOCKS"
      using less.prems(4) False by (intro MAX_BYTES_div) (cases src, auto)
    have ne: "take ?c src \<noteq> []" using False c(2) by simp
    from write_chunk [OF less.prems(1-3) lb ne c(1)] show ?thesis
    proof (elim disjE exE conjE)
      fix w h assume a: "map_for_write E u ino (pos div SECTOR_SIZE) = (Inl ENOSPC, w)" "scarce v U" "goes E v U h n w"
        "\<forall>c. unat c \<in> U \<longrightarrow> h c = f c"
      have "write_loop E u ino pos src = (Inl ENOSPC, w)" using False a(1) by (subst write_loop.simps) (simp add: Let_def)
      moreover have "owned h n U" using a(4) by (intro owned_agree [OF less.prems(2)]) simp
      moreover have "writes ino pos (take 0 src) f n h n" using a(4) writes_agree [OF less.prems(2), of h] by simp
      ultimately show ?thesis
        by (intro exI [of _ "Inl ENOSPC"] exI [of _ w] exI [of _ h] exI [of _ n] exI [of _ U] exI [of _ "0 :: nat"])
          (simp add: a(2,3) False)
    next
      fix b w x h m U'
      assume a: "map_for_write E u ino (pos div SECTOR_SIZE) = (Inr b, w)"
        "modify_block E w b (pos mod SECTOR_SIZE) (take ?c src) = (Inr (), x)" "goes E v U' h m x" "owned h m U'"
        "U \<subseteq> U'" "writes ino pos (take ?c src) f n h m"
      have im: "ino < length m" using a(6) less.prems(3) by (simp add: writes_def)
      have "pos + ?c + length (drop ?c src) \<le> MAX_BYTES" "length (drop ?c src) < length src"
        using less.prems(4) c by simp_all
      from less.hyps [OF this(2) a(3,4) im this(1)] obtain r y g k V l where
        y: "write_loop E x ino (pos + ?c) (drop ?c src) = (r, y)" "goes E v V g k y" "owned g k V" "U' \<subseteq> V"
        "l \<le> length (drop ?c src)" "writes ino (pos + ?c) (take l (drop ?c src)) h m g k"
        "r = Inr () \<and> l = length (drop ?c src) \<or> r = Inl ENOSPC \<and> l < length (drop ?c src) \<and> scarce v V \<and>
           (if l = 0 then V = U' else SECTOR_SIZE dvd pos + ?c + l)"
        by blast
      have "write_loop E u ino pos src = (r, y)"
        using False a(1,2) y(1) by (subst write_loop.simps) (simp add: Let_def)
      moreover have "writes ino pos (take (?c + l) src) f n g k"
        using writes_trans [OF a(6), of "take l (drop ?c src)"] y(6) c(3) by (simp add: take_add)
      moreover have "SECTOR_SIZE dvd pos + (?c + l)" if "l < length (drop ?c src)" "l \<noteq> 0 \<longrightarrow> SECTOR_SIZE dvd pos + ?c + l"
      proof (cases "l = 0")
        case True
        have "?c = SECTOR_SIZE - pos mod SECTOR_SIZE" using that(1) by (auto simp: chunk_len_def)
        then show ?thesis using True chunk_end [of pos] by simp
      qed (use that(2) in \<open>simp add: add.assoc\<close>)
      then have "r = Inr () \<and> ?c + l = length src \<or> r = Inl ENOSPC \<and> ?c + l < length src \<and> scarce v V \<and>
          (if ?c + l = 0 then V = U else SECTOR_SIZE dvd pos + (?c + l))"
        using y(7) c(2,3) by auto
      moreover have "?c + l \<le> length src" "U \<subseteq> V" using y(4,5) c(3) a(5) by auto
      ultimately show ?thesis using y(2,3) by blast
    qed
  qed
qed

section \<open>Flushing\<close>

definition hmac_works :: "env \<Rightarrow> bool" where
  "hmac_works E \<longleftrightarrow> (\<forall>key d. \<exists>h. compute_hmac E key d = Some h)"

lemma goes_flush:
  assumes g: "goes E v U f n u" and h: "hmac_works E"
  shows "\<exists>w g. vol_flush E u = (Inr (), w) \<and> goes E v U g n w \<and> synced E w \<and> (\<forall>c. unat c \<in> U \<longrightarrow> g c = f c)"
proof -
  have u: "core E u" "used u = U" "cells E u = f" "v_inodes u = n" using g by (simp_all add: goes_def)
  have c: "ready E u" "wf u" "clean_synced E u" using u(1) by (simp_all add: core_def)
  obtain hm where hm: "compute_hmac E (v_hkey u) (v_bitmap u) = Some hm" using h unfolding hmac_works_def by blast
  obtain w fl where w: "vol_flush E u = (Inr (), w)" "ready E w" "synced E w"
    "w = u\<lparr>v_file := fl, v_sb := (v_sb u)\<lparr>sb_bitmap_hmac := hm\<rparr>, v_dirty := replicate (length (v_dirty u)) 0\<rparr>"
    "\<forall>c. data_start u \<le> unat c \<and> unat c < vol_blocks u \<longrightarrow> cells E w c = cells E u c"
    using flush_synced [OF c hm] by blast
  have us: "used w = used u" "pool w = pool u" "bitmap_inv w = bitmap_inv u" "small_volume w = small_volume u"
    "v_inodes w = v_inodes u" "sb_free_inodes (v_sb w) = sb_free_inodes (v_sb u)"
    by (simp_all add: w(4) used_def pool_def bitmap_inv_def small_volume_def)
  have st: "stat u w"
    using sh.chain_flush [OF w(1) sh.R_refl] kp.chain_flush [OF w(1) kp.R_refl] us by (simp add: stat_def keeps_def)
  have "clean_synced E w" using w(3) by (simp add: clean_synced_def synced_def)
  then have "core E w" using w(2) us wf_keep [OF c(2) st] u(1) by (simp add: core_def)
  then have "goes E u U (cells E w) n w" using st us u by (simp add: goes_def)
  then have "goes E v U (cells E w) n w" using g goes_trans by blast
  moreover have "cells E w c = f c" if "unat c \<in> U" for c
    using w(5) core_block [OF u(1), of c] that u(2,3) used_subset_pool by blast
  ultimately show ?thesis using w(1,3) by blast
qed

section \<open>Mounted volumes and their files\<close>

definition mounted :: "env \<Rightarrow> volume \<Rightarrow> bool" where
  "mounted E v \<longleftrightarrow> core E v \<and> owned (cells E v) (v_inodes v) (used v) \<and> trees (cells E v) (v_inodes v) \<and>
     (\<forall>i < DENYFS_MAX_INODES. unat (i_size (inode_at v i)) \<le> DENYFS_MAX_FILE_SIZE)"

definition contents :: "env \<Rightarrow> volume \<Rightarrow> nat \<Rightarrow> bytes" where
  "contents E v ino = map (file_byte (cells E v) (inode_at v ino)) [0..<unat (i_size (inode_at v ino))]"

text \<open>Beyond its end a file holds no data: a later extension reads zeros there.\<close>

definition tail_zero :: "env \<Rightarrow> volume \<Rightarrow> nat \<Rightarrow> bool" where
  "tail_zero E v ino \<longleftrightarrow> (\<forall>p. unat (i_size (inode_at v ino)) \<le> p \<longrightarrow> p < MAX_BYTES \<longrightarrow>
     file_byte (cells E v) (inode_at v ino) p = 0)"

lemma mounted_size: "mounted E v \<Longrightarrow> i < DENYFS_MAX_INODES \<Longrightarrow> unat (i_size (inode_at v i)) \<le> DENYFS_MAX_FILE_SIZE"
  by (simp add: mounted_def)

lemma MAX_FILE_SIZE_bytes: "DENYFS_MAX_FILE_SIZE \<le> MAX_BYTES"
  by (simp add: DENYFS_MAX_FILE_SIZE_def MAX_BYTES_def DENYFS_MAX_FILE_BLOCKS_def layout_sizes)

lemma length_contents [simp]: "length (contents E v ino) = unat (i_size (inode_at v ino))"
  by (simp add: contents_def)

lemma mounted_goes:
  "mounted E v \<Longrightarrow> goes E v (used v) (cells E v) (v_inodes v) v \<and> owned (cells E v) (v_inodes v) (used v) \<and>
     length (v_inodes v) = DENYFS_MAX_INODES \<and> trees (cells E v) (v_inodes v)"
  using goes_refl [of E v] by (auto simp: mounted_def core_def wf_def)

lemma goes_mounted:
  assumes "goes E v U f n w" "owned f n U" "trees f n" "\<forall>i < length n. unat (i_size (n ! i)) \<le> DENYFS_MAX_FILE_SIZE"
  shows "mounted E w"
  using assms by (auto simp: goes_def mounted_def core_def wf_def inode_at_def)

section \<open>Reading and writing a mounted file\<close>

lemma vol_read_contents:
  assumes m: "mounted E v" and i: "ino < DENYFS_MAX_INODES" "i_type (inode_at v ino) = DENYFS_ITYPE_FILE"
    and sz: "sz \<le> INT_MAX"
  shows "vol_read E v ino sz off = (Inr (slice (unat off) sz (contents E v ino)), v)"
proof -
  let ?size = "i_size (inode_at v ino)"
  note g = mounted_goes [OF m]
  show ?thesis
  proof (cases "?size \<le> off")
    case True
    then have "slice (unat off) sz (contents E v ino) = []" by (simp add: slice_def word_le_nat_alt)
    with True assms show ?thesis by (simp add: vol_read_def)
  next
    case False
    then have lt: "unat off < unat ?size" by (simp add: not_le word_less_nat_alt)
    have left: "unat (?size - off) = unat ?size - unat off" using lt by (simp add: unat_sub word_le_nat_alt)
    let ?k = "min sz (unat ?size - unat off)"
    have "unat ?size \<le> DENYFS_MAX_FILE_SIZE" using m i(1) by (simp add: mounted_def)
    then have "unat off + ?k \<le> MAX_BYTES" using MAX_FILE_SIZE_bytes lt by simp
    then have "read_loop E v ino (unat off) ?k =
        (Inr (map (file_byte (cells E v) (v_inodes v ! ino)) [unat off..<unat off + ?k]), v)"
      using read_file g i(1) by metis
    moreover have "map (file_byte (cells E v) (v_inodes v ! ino)) [unat off..<unat off + ?k] =
        slice (unat off) sz (contents E v ino)"
      using lt by (intro nth_equalityI) (auto simp: contents_def inode_at_def)
    ultimately show ?thesis using False assms left by (simp add: vol_read_def)
  qed
qed

lemma nth_overwrite_all:
  "i < length (overwrite off new old) \<Longrightarrow> overwrite off new old ! i =
     (if off \<le> i \<and> i < off + length new then new ! (i - off) else if i < length old then old ! i else 0)"
  by (auto simp: overwrite_def nth_append min_def split: if_splits)

lemma file_byte_info [simp]:
  "file_byte f (nd\<lparr>i_size := s, i_mtime := t\<rparr>) p = file_byte f nd p"
proof -
  have "sval f (nd\<lparr>i_size := s, i_mtime := t\<rparr>) q = sval f nd q" for q by (cases q) simp_all
  then show ?thesis by (simp add: file_byte_def file_block_def)
qed

lemma owned_info:
  assumes "owned f n U" "ino < length n"
  shows "owned f (n[ino := (n ! ino)\<lparr>i_size := s, i_mtime := t\<rparr>]) U"
proof -
  have "sval f (nd\<lparr>i_size := s, i_mtime := t\<rparr>) q = sval f nd q" for q nd by (cases q) simp_all
  then have "sval f (n[ino := (n ! ino)\<lparr>i_size := s, i_mtime := t\<rparr>] ! j) q = sval f (n ! j) q" for j q
    using assms(2) by (cases "j = ino") simp_all
  then show ?thesis by (intro owned_same [OF assms(1)]) simp_all
qed

lemma sval_info [simp]: "sval f (nd\<lparr>i_size := s, i_mtime := t\<rparr>) q = sval f nd q"
  by (cases q) simp_all

lemma trees_info:
  assumes "trees f n"
  shows "trees f (n[ino := (n ! ino)\<lparr>i_size := s, i_mtime := t\<rparr>])"
  unfolding trees_def
proof (intro allI impI)
  fix j assume j: "j < length (n[ino := (n ! ino)\<lparr>i_size := s, i_mtime := t\<rparr>])"
  then have "tree_ok f (n ! j)" using assms by (simp add: trees_def)
  moreover have "tree_ok f (nd\<lparr>i_size := s, i_mtime := t\<rparr>) = tree_ok f nd" for nd by (rule tree_ok_same) simp_all
  ultimately show "tree_ok f (n[ino := (n ! ino)\<lparr>i_size := s, i_mtime := t\<rparr>] ! j)"
    using j by (cases "j = ino") simp_all
qed

text \<open>Setting the size and time of a file, then flushing: no byte of any file moves.\<close>

lemma set_size_flush:
  fixes s t :: u64
  assumes g: "goes E v U f n u" and o: "owned f n U" and tr: "trees f n" and i: "ino < length n"
    and h: "hmac_works E" and s: "\<forall>j < length n. unat (i_size (n ! j)) \<le> DENYFS_MAX_FILE_SIZE" "unat s \<le> DENYFS_MAX_FILE_SIZE"
  defines "m \<equiv> n[ino := (n ! ino)\<lparr>i_size := s, i_mtime := t\<rparr>]"
  shows "\<exists>w. vol_flush E (upd_inode u ino (\<lambda>nd. nd\<lparr>i_size := s, i_mtime := t\<rparr>)) = (Inr (), w) \<and>
    mounted E w \<and> synced E w \<and> v_inodes w = m \<and> stat v w \<and> used w = U \<and>
    (\<forall>j < length n. \<forall>p < MAX_BYTES. file_byte (cells E w) (m ! j) p = file_byte f (n ! j) p) \<and>
    (\<forall>j < length n. \<forall>l < DENYFS_MAX_FILE_BLOCKS. file_block (cells E w) (m ! j) l = file_block f (n ! j) l)"
proof -
  have up: "goes E v U f m (upd_inode u ino (\<lambda>nd. nd\<lparr>i_size := s, i_mtime := t\<rparr>))"
    using goes_upd [OF g, of "\<lambda>nd. nd\<lparr>i_size := s, i_mtime := t\<rparr>"] by (simp add: m_def inode_ok_def)
  have om: "owned f m U" unfolding m_def by (rule owned_info [OF o i])
  obtain w k where w: "vol_flush E (upd_inode u ino (\<lambda>nd. nd\<lparr>i_size := s, i_mtime := t\<rparr>)) = (Inr (), w)"
    "goes E v U k m w" "synced E w" "\<forall>c. unat c \<in> U \<longrightarrow> k c = f c"
    using goes_flush [OF up h] by blast
  have eq: "\<And>c. unat c \<in> U \<Longrightarrow> k c = f c" using w(4) by blast
  have ok: "owned k m U" by (rule owned_agree [OF om eq])
  have "\<forall>j < length m. unat (i_size (m ! j)) \<le> DENYFS_MAX_FILE_SIZE"
    using s i by (auto simp: m_def nth_list_update)
  with goes_mounted [OF w(2) ok trees_agree [OF om eq]] have mt: "mounted E w" using trees_info [OF tr] by (simp add: m_def)
  have fm: "file_block f (m ! j) l = file_block f (n ! j) l" for j l
    using i by (cases "j = ino") (simp_all add: m_def file_block_def)
  have bl: "file_block k (m ! j) l = file_block f (n ! j) l" if "j < length n" "l < DENYFS_MAX_FILE_BLOCKS" for j l
    using file_block_agree(1) [OF om eq, of j l] that by (simp add: m_def [symmetric] fm) (simp add: m_def)
  have by': "file_byte k (m ! j) p = file_byte f (n ! j) p" if "j < length n" "p < MAX_BYTES" for j p
  proof -
    have j: "j < length m" using that(1) by (simp add: m_def)
    note a = file_block_agree [OF om eq j MAX_BYTES_div [OF that(2)]]
    have "file_byte k (m ! j) p = file_byte f (m ! j) p" by (simp add: file_byte_def a)
    also have "\<dots> = file_byte f (n ! j) p" using i by (cases "j = ino") (simp_all add: m_def)
    finally show ?thesis .
  qed
  have "cells E w = k" "v_inodes w = m" "stat v w" "used w = U" using w(2) by (simp_all add: goes_def)
  with w(1,3) mt by' bl show ?thesis by blast
qed

lemma contents_eq:
  assumes "\<And>p. p < unat (i_size (inode_at w j)) \<Longrightarrow> file_byte (cells E w) (inode_at w j) p = file_byte (cells E v) (inode_at v j) p"
    and "i_size (inode_at w j) = i_size (inode_at v j)"
  shows "contents E w j = contents E v j"
  using assms by (simp add: contents_def)

text \<open>
  \<open>wrote E v w ino pos bs\<close>: \<open>w\<close> is mounted like \<open>v\<close>, with the bytes \<open>bs\<close> at \<open>pos\<close> of file \<open>ino\<close>. Every other
  byte of every file is as before, and the new blocks are exactly those under \<open>bs\<close>.
\<close>

definition wrote :: "env \<Rightarrow> volume \<Rightarrow> volume \<Rightarrow> nat \<Rightarrow> nat \<Rightarrow> bytes \<Rightarrow> bool" where
  "wrote E v w ino pos bs \<longleftrightarrow> mounted E w \<and> stat v w \<and> used v \<subseteq> used w \<and>
     i_type (inode_at w ino) = i_type (inode_at v ino) \<and>
     (\<forall>j < DENYFS_MAX_INODES. j \<noteq> ino \<longrightarrow> inode_at w j = inode_at v j) \<and>
     (\<forall>j < DENYFS_MAX_INODES. \<forall>p < MAX_BYTES. file_byte (cells E w) (inode_at w j) p =
       (if j = ino \<and> pos \<le> p \<and> p < pos + length bs then bs ! (p - pos)
        else file_byte (cells E v) (inode_at v j) p)) \<and>
     (\<forall>j < DENYFS_MAX_INODES. \<forall>l < DENYFS_MAX_FILE_BLOCKS.
       file_block (cells E w) (inode_at w j) l \<noteq> DENYFS_INVALID_BLOCK \<longleftrightarrow>
       file_block (cells E v) (inode_at v j) l \<noteq> DENYFS_INVALID_BLOCK \<or>
       j = ino \<and> (\<exists>p. pos \<le> p \<and> p < pos + length bs \<and> p div SECTOR_SIZE = l))"

lemma wrote_mounted: "wrote E v w ino pos bs \<Longrightarrow> mounted E w"
  by (simp add: wrote_def)

lemma wroteI:
  assumes v: "length (v_inodes v) = DENYFS_MAX_INODES" "ino < DENYFS_MAX_INODES"
    and w: "writes ino pos bs (cells E v) (v_inodes v) g n" "used v \<subseteq> U"
    and x: "mounted E x" "stat v x" "used x = U" "length (v_inodes x) = DENYFS_MAX_INODES"
    and i: "\<And>j. j < DENYFS_MAX_INODES \<Longrightarrow> j \<noteq> ino \<Longrightarrow> inode_at x j = n ! j"
      "i_type (inode_at x ino) = i_type (n ! ino)"
    and f: "\<And>j p. j < DENYFS_MAX_INODES \<Longrightarrow> p < MAX_BYTES \<Longrightarrow> file_byte (cells E x) (inode_at x j) p = file_byte g (n ! j) p"
      "\<And>j l. j < DENYFS_MAX_INODES \<Longrightarrow> l < DENYFS_MAX_FILE_BLOCKS \<Longrightarrow>
         file_block (cells E x) (inode_at x j) l = file_block g (n ! j) l"
  shows "wrote E v x ino pos bs"
  unfolding wrote_def
proof (intro conjI allI impI)
  show "mounted E x" "stat v x" "used v \<subseteq> used x" using x w(2) by simp_all
  show "i_type (inode_at x ino) = i_type (inode_at v ino)"
    using i(2) w(1) v by (simp add: writes_def inode_at_def [of v])
  show "inode_at x j = inode_at v j" if "j < DENYFS_MAX_INODES" "j \<noteq> ino" for j
    using i(1) [OF that] w(1) v that by (simp add: writes_def inode_at_def [of v])
  show "file_byte (cells E x) (inode_at x j) p = (if j = ino \<and> pos \<le> p \<and> p < pos + length bs then bs ! (p - pos)
      else file_byte (cells E v) (inode_at v j) p)" if "j < DENYFS_MAX_INODES" "p < MAX_BYTES" for j p
    using f(1) [OF that] w(1) v that unfolding writes_def inode_at_def [of v] by metis
  show "file_block (cells E x) (inode_at x j) l \<noteq> DENYFS_INVALID_BLOCK \<longleftrightarrow>
      file_block (cells E v) (inode_at v j) l \<noteq> DENYFS_INVALID_BLOCK \<or>
      j = ino \<and> (\<exists>p. pos \<le> p \<and> p < pos + length bs \<and> p div SECTOR_SIZE = l)"
    if "j < DENYFS_MAX_INODES" "l < DENYFS_MAX_FILE_BLOCKS" for j l
    using f(2) [OF that(1,2)] that w(1) v unfolding writes_def inode_at_def [of v] by metis
qed

lemma vol_write_contents:
  assumes m: "mounted E v" and h: "hmac_works E"
    and i: "ino < DENYFS_MAX_INODES" "i_type (inode_at v ino) = DENYFS_ITYPE_FILE"
    and sz: "length buf \<le> INT_MAX" "unat off + length buf \<le> DENYFS_MAX_FILE_SIZE"
  shows "\<exists>w k. wrote E v w ino (unat off) (take k buf) \<and>
    (vol_write E now v ino buf off = (Inr (length buf), w) \<and> k = length buf \<and> synced E w \<and>
       unat (i_size (inode_at w ino)) = max (unat (i_size (inode_at v ino))) (unat off + k) \<or>
     vol_write E now v ino buf off = (Inl ENOSPC, w) \<and> k < length buf \<and> scarce v (used w) \<and>
       (if k = 0 then used w = used v else SECTOR_SIZE dvd unat off + k) \<and>
       i_size (inode_at w ino) = i_size (inode_at v ino))"
proof -
  note g = mounted_goes [OF m]
  let ?f = "cells E v" and ?n = "v_inodes v" and ?U = "used v"
  have len: "length ?n = DENYFS_MAX_INODES" using g by blast
  have ln: "ino < length ?n" using len i(1) by simp
  have mx: "unat off + length buf \<le> MAX_BYTES" using sz(2) MAX_FILE_SIZE_bytes by simp
  obtain r w g' n' U' k where w: "write_loop E v ino (unat off) buf = (r, w)" "goes E v U' g' n' w" "owned g' n' U'"
    "?U \<subseteq> U'" "k \<le> length buf" "writes ino (unat off) (take k buf) ?f ?n g' n'"
    "r = Inr () \<and> k = length buf \<or> r = Inl ENOSPC \<and> k < length buf \<and> scarce v U' \<and>
      (if k = 0 then U' = ?U else SECTOR_SIZE dvd unat off + k)"
    using write_file [OF _ _ ln mx] g by metis
  have wl: "length n' = length ?n" "\<And>j. j < length ?n \<Longrightarrow> j \<noteq> ino \<Longrightarrow> n' ! j = ?n ! j"
    "i_type (n' ! ino) = i_type (?n ! ino)" "i_size (n' ! ino) = i_size (?n ! ino)"
    using w(6) by (simp_all add: writes_def)
  have tr: "trees g' n'" using w(6) g by (simp add: writes_def)
  have so: "\<forall>j < length ?n. unat (i_size (?n ! j)) \<le> DENYFS_MAX_FILE_SIZE"
    using m len by (simp add: mounted_def inode_at_def)
  have s: "\<forall>j < length n'. unat (i_size (n' ! j)) \<le> DENYFS_MAX_FILE_SIZE"
    using so wl(1,2,4) by metis
  have guards: "\<not> DENYFS_MAX_INODES \<le> ino" "\<not> INT_MAX < length buf" "\<not> DENYFS_MAX_FILE_SIZE < unat off"
    "\<not> DENYFS_MAX_FILE_SIZE - unat off < length buf"
    using i(1) sz by auto
  show ?thesis
  proof (cases "r = Inr ()")
    case False
    then have r: "r = Inl ENOSPC" "k < length buf" "scarce v U'"
      "if k = 0 then U' = ?U else SECTOR_SIZE dvd unat off + k" using w(7) by auto
    have vw: "vol_write E now v ino buf off = (Inl ENOSPC, w)"
      using guards i(2) w(1) r(1) by (simp add: vol_write_def)
    have c: "cells E w = g'" "v_inodes w = n'" "stat v w" "used w = U'" using w(2) by (simp_all add: goes_def)
    have mt: "mounted E w" using goes_mounted [OF w(2,3) tr s] .
    have "wrote E v w ino (unat off) (take k buf)"
      by (rule wroteI [OF len i(1) w(6,4) mt c(3,4)]) (simp_all add: c inode_at_def wl(1) len)
    moreover have "i_size (inode_at w ino) = i_size (inode_at v ino)" by (simp add: inode_at_def c wl(4))
    ultimately show ?thesis using vw r(2-4)
      by (intro exI [of _ w] exI [of _ k]) (simp add: c(4))
  next
    case True
    then have k: "k = length buf" using w(7) by auto
    let ?e = "off + of_nat (length buf)" and ?sz = "i_size (?n ! ino)"
    let ?s = "if ?sz < ?e then ?e else ?sz"
    have ue: "unat ?e = unat off + length buf"
      using sz by (simp add: unat_word_ariths unsigned_of_nat take_bit_nat_eq_self DENYFS_MAX_FILE_SIZE_def)
    have us: "unat ?s = max (unat ?sz) (unat off + length buf)"
      using ue by (auto simp: word_less_nat_alt max_def)
    have "unat ?sz \<le> DENYFS_MAX_FILE_SIZE" using so ln by blast
    then have ms: "unat ?s \<le> DENYFS_MAX_FILE_SIZE" using us sz(2) by simp
    let ?nd = "(n' ! ino)\<lparr>i_size := ?s, i_mtime := now\<rparr>"
    have in': "ino < length n'" using ln wl(1) by simp
    obtain x where x: "vol_flush E (upd_inode w ino (\<lambda>nd. nd\<lparr>i_size := ?s, i_mtime := now\<rparr>)) = (Inr (), x)"
      "mounted E x" "synced E x" "v_inodes x = n'[ino := ?nd]" "stat v x" "used x = U'"
      "\<forall>j < length n'. \<forall>p < MAX_BYTES. file_byte (cells E x) (n'[ino := ?nd] ! j) p = file_byte g' (n' ! j) p"
      "\<forall>j < length n'. \<forall>l < DENYFS_MAX_FILE_BLOCKS. file_block (cells E x) (n'[ino := ?nd] ! j) l = file_block g' (n' ! j) l"
      using set_size_flush [OF w(2,3) tr in' h s ms] by blast
    have "upd_inode w ino (\<lambda>nd. nd\<lparr>i_size := (if i_size nd < ?e then ?e else i_size nd), i_mtime := now\<rparr>) =
        upd_inode w ino (\<lambda>nd. nd\<lparr>i_size := ?s, i_mtime := now\<rparr>)"
      using w(2) wl(4) by (simp add: upd_inode_def goes_def)
    then have vw: "vol_write E now v ino buf off = (Inr (length buf), x)"
      using guards i(2) w(1) True x(1) by (simp add: vol_write_def Let_def)
    have "wrote E v x ino (unat off) (take k buf)"
      using x(7,8) by (intro wroteI [OF len i(1) w(6,4) x(2,5,6)]) (simp_all add: inode_at_def x(4) wl(1) len i(1))
    moreover have "unat (i_size (inode_at x ino)) = max (unat ?sz) (unat off + length buf)"
      using us in' by (simp add: inode_at_def x(4))
    ultimately show ?thesis using vw k x(3) by (auto simp: inode_at_def [of v])
  qed
qed

text \<open>No block beyond the last byte of a file.\<close>

definition fits :: "env \<Rightarrow> volume \<Rightarrow> nat \<Rightarrow> bool" where
  "fits E v ino \<longleftrightarrow> (\<forall>l < DENYFS_MAX_FILE_BLOCKS. file_block (cells E v) (inode_at v ino) l \<noteq> DENYFS_INVALID_BLOCK \<longrightarrow>
     l * SECTOR_SIZE < unat (i_size (inode_at v ino)))"

text \<open>The effect of a write that ran to its end on the file it writes and on the others.\<close>

lemma wrote_contents:
  assumes w: "wrote E v w ino off bs" and i: "ino < DENYFS_MAX_INODES" and t: "tail_zero E v ino"
    and s: "unat (i_size (inode_at w ino)) = max (unat (i_size (inode_at v ino))) (off + length bs)"
  shows "contents E w ino = overwrite off bs (contents E v ino)" "tail_zero E w ino"
proof -
  have by': "file_byte (cells E w) (inode_at w ino) p = (if off \<le> p \<and> p < off + length bs then bs ! (p - off)
      else file_byte (cells E v) (inode_at v ino) p)" if "p < MAX_BYTES" for p
    using w i that by (simp add: wrote_def)
  have "unat (i_size (inode_at w ino)) \<le> DENYFS_MAX_FILE_SIZE" using mounted_size [OF wrote_mounted [OF w] i] .
  then have mx: "unat (i_size (inode_at w ino)) \<le> MAX_BYTES" using MAX_FILE_SIZE_bytes by linarith
  show "contents E w ino = overwrite off bs (contents E v ino)"
  proof (rule nth_equalityI)
    show len: "length (contents E w ino) = length (overwrite off bs (contents E v ino))"
      by (simp add: s overwrite_def)
    fix p assume p: "p < length (contents E w ino)"
    have pm: "p < MAX_BYTES" using p mx by simp
    have z: "file_byte (cells E v) (inode_at v ino) p = 0" if "unat (i_size (inode_at v ino)) \<le> p"
      using t that pm by (simp add: tail_zero_def)
    show "contents E w ino ! p = overwrite off bs (contents E v ino) ! p"
      using p len by' [OF pm] z by (auto simp: nth_overwrite_all contents_def)
  qed
  show "tail_zero E w ino"
    using t by' s unfolding tail_zero_def by simp
qed

lemma wrote_others:
  assumes w: "wrote E v w ino off bs" and j: "j < DENYFS_MAX_INODES" "j \<noteq> ino"
  shows "contents E w j = contents E v j" "tail_zero E w j = tail_zero E v j" "fits E v j \<Longrightarrow> fits E w j"
proof -
  have nd: "inode_at w j = inode_at v j" using w j by (simp add: wrote_def)
  have by': "file_byte (cells E w) (inode_at v j) p = file_byte (cells E v) (inode_at v j) p" if "p < MAX_BYTES" for p
  proof -
    have "file_byte (cells E w) (inode_at w j) p = file_byte (cells E v) (inode_at v j) p"
      using w j that unfolding wrote_def by metis
    then show ?thesis by (simp only: nd)
  qed
  have "unat (i_size (inode_at w j)) \<le> DENYFS_MAX_FILE_SIZE" using mounted_size [OF wrote_mounted [OF w] j(1)] .
  then have "unat (i_size (inode_at v j)) \<le> MAX_BYTES" using MAX_FILE_SIZE_bytes nd by simp
  then show "contents E w j = contents E v j" by (intro contents_eq) (simp_all add: nd by')
  show "tail_zero E w j = tail_zero E v j" by (simp add: tail_zero_def nd by')
  show "fits E w j" if "fits E v j" using that w j nd unfolding fits_def wrote_def by metis
qed

lemma wrote_fits:
  assumes w: "wrote E v w ino off bs" and i: "ino < DENYFS_MAX_INODES" and f: "fits E v ino"
    and s: "unat (i_size (inode_at w ino)) = max (unat (i_size (inode_at v ino))) (off + length bs)"
  shows "fits E w ino"
  unfolding fits_def
proof (intro allI impI)
  fix l assume l: "l < DENYFS_MAX_FILE_BLOCKS" "file_block (cells E w) (inode_at w ino) l \<noteq> DENYFS_INVALID_BLOCK"
  then have "file_block (cells E v) (inode_at v ino) l \<noteq> DENYFS_INVALID_BLOCK \<or>
      (\<exists>p. off \<le> p \<and> p < off + length bs \<and> p div SECTOR_SIZE = l)"
    using w i unfolding wrote_def by blast
  then show "l * SECTOR_SIZE < unat (i_size (inode_at w ino))"
  proof (elim disjE exE conjE)
    assume "file_block (cells E v) (inode_at v ino) l \<noteq> DENYFS_INVALID_BLOCK"
    then have "l * SECTOR_SIZE < unat (i_size (inode_at v ino))" using f l(1) by (simp add: fits_def)
    then show ?thesis using s by simp
  next
    fix p assume p: "p < off + length bs" "p div SECTOR_SIZE = l"
    have "l * SECTOR_SIZE \<le> p" using div_mult_mod_eq [of p SECTOR_SIZE] unfolding p(2) by linarith
    then show ?thesis using s p(1) by simp
  qed
qed

end
