(* ===== verification/Shrink.thy ===== *)
theory Shrink
  imports FileIO
begin

text \<open>
  Taking blocks out of the trees: \<open>truncate_file_blocks\<close> and \<open>free_inode\<close> of \<open>src/src/fs.c\<close>. Both free
  the data blocks of a table before they rewrite or free the table. \<open>cuts\<close> says which slots a step clears;
  a step that cuts keeps the trees a partition of the used blocks.
\<close>

section \<open>Cutting slots\<close>

definition vals :: "(u32 \<Rightarrow> bytes) \<Rightarrow> inode \<Rightarrow> slot set \<Rightarrow> nat set" where
  "vals f nd D = {unat (sval f nd s) | s. s \<in> D \<and> slot_ok s \<and> sval f nd s \<noteq> DENYFS_INVALID_BLOCK}"

definition cuts :: "nat \<Rightarrow> slot set \<Rightarrow> (u32 \<Rightarrow> bytes) \<Rightarrow> inode list \<Rightarrow> nat set \<Rightarrow> (u32 \<Rightarrow> bytes) \<Rightarrow> inode list \<Rightarrow> nat set \<Rightarrow> bool"
where
  "cuts ino D f n U g m U' \<longleftrightarrow> length m = length n \<and> (\<forall>j < length n. j \<noteq> ino \<longrightarrow> m ! j = n ! j) \<and>
     i_type (m ! ino) = i_type (n ! ino) \<and> i_size (m ! ino) = i_size (n ! ino) \<and>
     i_mtime (m ! ino) = i_mtime (n ! ino) \<and>
     (\<forall>j < length n. \<forall>s. slot_ok s \<longrightarrow> sval g (m ! j) s =
        (if j = ino \<and> s \<in> D then DENYFS_INVALID_BLOCK else sval f (n ! j) s)) \<and>
     (\<forall>j s. points g m j s \<longrightarrow> data_slot s \<longrightarrow> g (sval g (m ! j) s) = f (sval g (m ! j) s)) \<and>
     U' = U - vals f (n ! ino) D"

lemma in_vals: "a \<in> vals f nd D \<longleftrightarrow> (\<exists>s \<in> D. slot_ok s \<and> sval f nd s \<noteq> DENYFS_INVALID_BLOCK \<and> a = unat (sval f nd s))"
  by (auto simp: vals_def)

lemma vals_Un: "vals f nd (D \<union> D') = vals f nd D \<union> vals f nd D'"
  by (auto simp: in_vals)

lemma owned_vals:
  assumes "owned f n U" "points f n j s" "ino < length n"
  shows "unat (sval f (n ! j) s) \<in> vals f (n ! ino) D \<longleftrightarrow> j = ino \<and> s \<in> D"
proof
  assume "unat (sval f (n ! j) s) \<in> vals f (n ! ino) D"
  then obtain t where "t \<in> D" "slot_ok t" "sval f (n ! j) s = sval f (n ! ino) t" by (auto simp: in_vals word_unat_eq_iff)
  then show "j = ino \<and> s \<in> D" using owned_inj [OF assms(1), of j ino s t] assms(2,3) by (auto simp: points_def)
next
  assume "j = ino \<and> s \<in> D"
  then show "unat (sval f (n ! j) s) \<in> vals f (n ! ino) D" using assms(2) by (auto simp: in_vals points_def)
qed

lemma cut_refl [simp]: "cuts ino {} f n U f n U"
  by (simp add: cuts_def vals_def)

lemma cut_points: "cuts ino D f n U g m U' \<Longrightarrow> points g m j s \<longleftrightarrow> points f n j s \<and> \<not> (j = ino \<and> s \<in> D)"
proof -
  assume c: "cuts ino D f n U g m U'"
  then have "length m = length n" by (simp add: cuts_def)
  moreover have "j < length n \<Longrightarrow> slot_ok s \<Longrightarrow> sval g (m ! j) s =
      (if j = ino \<and> s \<in> D then DENYFS_INVALID_BLOCK else sval f (n ! j) s)"
    using c unfolding cuts_def by blast
  ultimately show ?thesis by (auto simp: points_def split: if_split_asm)
qed

lemma cut_sval:
  "cuts ino D f n U g m U' \<Longrightarrow> j < length n \<Longrightarrow> slot_ok s \<Longrightarrow>
   sval g (m ! j) s = (if j = ino \<and> s \<in> D then DENYFS_INVALID_BLOCK else sval f (n ! j) s)"
  unfolding cuts_def by blast

lemma cut_trans:
  assumes a: "cuts ino D1 f n U g m V" and b: "cuts ino D2 g m V h k W" and i: "ino < length n"
  shows "cuts ino (D1 \<union> D2) f n U h k W"
proof -
  have l: "length m = length n" using a by (simp add: cuts_def)
  note sa = cut_sval [OF a] and sb = cut_sval [OF b, unfolded l]
  have sv: "sval h (k ! j) s = (if j = ino \<and> s \<in> D1 \<union> D2 then DENYFS_INVALID_BLOCK else sval f (n ! j) s)"
    if "j < length n" "slot_ok s" for j s
    using sa [OF that] sb [OF that] by auto
  have cell: "h (sval h (k ! j) s) = f (sval h (k ! j) s)" if p: "points h k j s" "data_slot s" for j s
  proof -
    have q: "points g m j s" "\<not> (j = ino \<and> s \<in> D2)" using cut_points [OF b] p(1) by auto
    then have "sval h (k ! j) s = sval g (m ! j) s" using sb [of j s] by (auto simp: points_def l)
    moreover have "h (sval h (k ! j) s) = g (sval h (k ! j) s)" using b p unfolding cuts_def by blast
    moreover have "g (sval g (m ! j) s) = f (sval g (m ! j) s)" using a q(1) p(2) unfolding cuts_def by blast
    ultimately show ?thesis by simp
  qed
  have "vals f (n ! ino) (D1 \<union> D2) = vals f (n ! ino) D1 \<union> vals g (m ! ino) D2"
  proof -
    have "vals g (m ! ino) D2 = vals f (n ! ino) (D2 - D1)"
    proof (intro set_eqI)
      fix a
      have "slot_ok s \<and> sval g (m ! ino) s \<noteq> DENYFS_INVALID_BLOCK \<and> a = unat (sval g (m ! ino) s) \<longleftrightarrow>
          s \<notin> D1 \<and> slot_ok s \<and> sval f (n ! ino) s \<noteq> DENYFS_INVALID_BLOCK \<and> a = unat (sval f (n ! ino) s)" for s
        using sa [OF i, of s] by (auto split: if_split_asm)
      then show "a \<in> vals g (m ! ino) D2 \<longleftrightarrow> a \<in> vals f (n ! ino) (D2 - D1)" unfolding in_vals by blast
    qed
    moreover have "D1 \<union> D2 = D1 \<union> (D2 - D1)" by blast
    ultimately show ?thesis by (metis vals_Un)
  qed
  then have "W = U - vals f (n ! ino) (D1 \<union> D2)" using a b by (auto simp: cuts_def)
  with a b l sv cell show ?thesis unfolding cuts_def by simp
qed

lemma cut_owned:
  assumes o: "owned f n U" and c: "cuts ino D f n U g m U'" and i: "ino < length n"
  shows "owned g m U'"
proof (rule owned_shrink [OF o])
  show "length m = length n" using c by (simp add: cuts_def)
  show "sval g (m ! j) s = DENYFS_INVALID_BLOCK \<or> sval g (m ! j) s = sval f (n ! j) s"
    if "j < length n" "slot_ok s" for j s
    using cut_sval [OF c that] by auto
  show "unat (sval g (m ! j) s) \<in> U'" if j: "j < length n" "slot_ok s" "sval g (m ! j) s \<noteq> DENYFS_INVALID_BLOCK" for j s
  proof -
    have e: "sval g (m ! j) s = sval f (n ! j) s" "\<not> (j = ino \<and> s \<in> D)" using cut_sval [OF c j(1,2)] j(3) by (auto split: if_splits)
    have "unat (sval f (n ! j) s) \<notin> vals f (n ! ino) D"
      using owned_vals [OF o _ i, of j s D] e j by (simp add: points_def)
    moreover have "unat (sval f (n ! j) s) \<in> U" using ownedD [OF o j(1,2)] j(3) e(1) by simp
    ultimately show ?thesis using c e(1) by (simp add: cuts_def)
  qed
  show "\<exists>j s. points g m j s \<and> unat (sval g (m ! j) s) = a" if "a \<in> U'" for a
  proof -
    have a: "a \<in> U" "a \<notin> vals f (n ! ino) D" using that c by (auto simp: cuts_def)
    obtain j s where j: "points f n j s" "unat (sval f (n ! j) s) = a" using owned_reach [OF o a(1)] by blast
    then have "\<not> (j = ino \<and> s \<in> D)" using a(2) owned_vals [OF o j(1) i, of D] by simp
    then have "points g m j s" using j(1) cut_points [OF c] by blast
    moreover have "sval g (m ! j) s = sval f (n ! j) s"
      using cut_sval [OF c, of j s] j(1) \<open>\<not> (j = ino \<and> s \<in> D)\<close> by (auto simp: points_def)
    ultimately show ?thesis using j(2) by (intro exI [of _ j] exI [of _ s]) simp
  qed
qed

section \<open>Clearing entries and tables\<close>

fun kids :: "slot \<Rightarrow> nat \<Rightarrow> slot set" where
  "kids Single k = {Entry i | i. k \<le> i}"
| "kids (Child c) k = {Leaf c i | i. k \<le> i}"
| "kids s k = {}"

definition cut_ptrs :: "nat \<Rightarrow> u32 list \<Rightarrow> u32 list" where
  "cut_ptrs k ps = take k ps @ replicate (length ps - k) DENYFS_INVALID_BLOCK"

lemma length_cut_ptrs [simp]: "length (cut_ptrs k ps) = length ps"
  by (simp add: cut_ptrs_def)

lemma nth_cut_ptrs [simp]: "i < length ps \<Longrightarrow> cut_ptrs k ps ! i = (if i < k then ps ! i else DENYFS_INVALID_BLOCK)"
  by (simp add: cut_ptrs_def nth_append)

lemma sval_agree_path:
  assumes "\<And>q. q \<in> tables_of s \<Longrightarrow> sval f nd q \<noteq> DENYFS_INVALID_BLOCK \<Longrightarrow> g (sval f nd q) = f (sval f nd q)"
  shows "sval g nd s = sval f nd s"
proof (cases s)
  case (Entry i)
  then have "table g (i_indirect nd) = table f (i_indirect nd)" using assms [of Single] by (intro table_agree) simp
  with Entry show ?thesis by simp
next
  case (Child i)
  then have "table g (i_double nd) = table f (i_double nd)" using assms [of Double] by (intro table_agree) simp
  with Child show ?thesis by simp
next
  case (Leaf i j)
  then have d: "table g (i_double nd) = table f (i_double nd)" using assms [of Double] by (intro table_agree) simp
  have "table g (table f (i_double nd) ! i) = table f (table f (i_double nd) ! i)"
    using assms [of "Child i"] Leaf by (intro table_agree) simp
  with Leaf d show ?thesis by simp
qed simp_all

text \<open>A change of the table below slot \<open>q\<close> is seen by the slots below \<open>q\<close> only.\<close>

lemma table_write_sval:
  assumes o: "owned f n U" "ino < length n" and q: "slot_ok q" "sval f (n ! ino) q \<noteq> DENYFS_INVALID_BLOCK"
    and j: "j < length n" "slot_ok s" "\<not> (j = ino \<and> q \<in> tables_of s)"
  shows "sval (f(sval f (n ! ino) q := d)) (n ! j) s = sval f (n ! j) s"
proof (rule sval_agree_path)
  fix r assume r: "r \<in> tables_of s" "sval f (n ! j) r \<noteq> DENYFS_INVALID_BLOCK"
  have "slot_ok r" using r(1) j(2) by (cases s) auto
  then have "sval f (n ! j) r \<noteq> sval f (n ! ino) q"
    using owned_inj [OF o(1) j(1) o(2) _ q(1) _ r(2)] j(3) r(1) by blast
  then show "(f(sval f (n ! ino) q := d)) (sval f (n ! j) r) = f (sval f (n ! j) r)" by simp
qed

lemma cut_table:
  assumes o: "owned f n U" "ino < length n" and q: "q = Single \<or> q = Child c" "slot_ok q"
    and t: "t = sval f (n ! ino) q" "t \<noteq> DENYFS_INVALID_BLOCK"
  shows "cuts ino (kids q k) f n U (f(t := ptrs_enc (cut_ptrs k (table f t)))) n (U - vals f (n ! ino) (kids q k))"
proof -
  let ?g = "f(t := ptrs_enc (cut_ptrs k (table f t)))"
  have nd: "\<not> data_slot q" using q(1) by auto
  have sv: "sval ?g (n ! j) s = (if j = ino \<and> s \<in> kids q k then DENYFS_INVALID_BLOCK else sval f (n ! j) s)"
    if j: "j < length n" "slot_ok s" for j s
  proof (cases "j = ino \<and> q \<in> tables_of s")
    case False
    then have "\<not> (j = ino \<and> s \<in> kids q k)" using q(1) by auto
    with table_write_sval [OF o q(2) _ j False, of "ptrs_enc (cut_ptrs k (table f t))"] t show ?thesis by auto
  next
    case True
    have tq: "table ?g t = cut_ptrs k (table f t)" using t(2) by simp
    show ?thesis
    proof (cases "q = Single")
      case True
      with \<open>j = ino \<and> q \<in> tables_of s\<close> obtain i where "s = Entry i" by (cases s) auto
      with True \<open>j = ino \<and> _\<close> j(2) tq t(1) show ?thesis by simp
    next
      case False
      with \<open>j = ino \<and> q \<in> tables_of s\<close> q(1) obtain i where i: "s = Leaf c i" by (cases s) auto
      have "i_double (n ! ino) \<noteq> t"
        using owned_inj [OF o(1) o(2) o(2) _ q(2), of Double] t q(1) False by auto
      with False q(1) i \<open>j = ino \<and> _\<close> j(2) tq t show ?thesis by simp
    qed
  qed
  have "?g (sval ?g (n ! j) s) = f (sval ?g (n ! j) s)" if "points ?g n j s" "data_slot s" for j s
  proof -
    have p: "j < length n" "slot_ok s" "sval ?g (n ! j) s = sval f (n ! j) s" "sval f (n ! j) s \<noteq> DENYFS_INVALID_BLOCK"
      using that(1) sv [of j s] by (auto simp: points_def split: if_split_asm)
    then have "sval f (n ! j) s \<noteq> t"
      using owned_inj [OF o(1) p(1) o(2) p(2) q(2)] t(1) nd that(2) by blast
    then show ?thesis using p(3) by simp
  qed
  with sv show ?thesis unfolding cuts_def by blast
qed

section \<open>Freeing a list of blocks\<close>

definition less_count :: "inode list \<Rightarrow> nat \<Rightarrow> nat \<Rightarrow> inode list" where
  "less_count n ino k = n[ino := (n ! ino)\<lparr>i_block_count := i_block_count (n ! ino) - of_nat k\<rparr>]"

lemma less_count_0 [simp]: "less_count n ino 0 = n"
  by (simp add: less_count_def)

lemma less_count_out: "\<not> ino < length n \<Longrightarrow> less_count n ino k = n"
  unfolding less_count_def by (rule list_update_beyond) simp

lemma less_count_add: "less_count (less_count n ino a) ino b = less_count n ino (a + b)"
  by (cases "ino < length n", simp add: less_count_def algebra_simps, simp add: less_count_out)

lemma length_less_count [simp]: "length (less_count n ino k) = length n"
  by (simp add: less_count_def)

lemma less_count_other: "j \<noteq> ino \<Longrightarrow> less_count n ino k ! j = n ! j"
  by (simp add: less_count_def)

lemma less_count_same: "ino < length n \<Longrightarrow> less_count n ino k ! ino = (n ! ino)\<lparr>i_block_count := i_block_count (n ! ino) - of_nat k\<rparr>"
  by (simp add: less_count_def)

lemma sval_less_count [simp]: "sval f (less_count n ino k ! j) s = sval f (n ! j) s"
proof (cases "j = ino \<and> ino < length n")
  case True
  then show ?thesis by (cases s) (simp_all add: less_count_same)
next
  case False
  then show ?thesis by (cases "j = ino") (simp_all add: less_count_other less_count_out)
qed

lemma goes_drop:
  assumes "goes E v U f n u"
  shows "goes E v (U - {unat b}) f (less_count n ino 1) (drop_block u ino b)"
  using goes_upd [OF goes_free [OF assms, of b], of "\<lambda>nd. nd\<lparr>i_block_count := i_block_count nd - 1\<rparr>" ino]
  by (simp add: drop_block_def less_count_def inode_ok_def)

definition live :: "u32 list \<Rightarrow> u32 list" where
  "live ps = filter (\<lambda>p. p \<noteq> DENYFS_INVALID_BLOCK) ps"

lemma goes_free_pointers:
  "goes E v U f n u \<Longrightarrow> goes E v (U - unat ` set (live ps)) f n (free_pointers u ps)"
proof (induction ps arbitrary: u U)
  case (Cons p ps)
  show ?case
  proof (cases "p = DENYFS_INVALID_BLOCK")
    case True
    with Cons.IH [OF Cons.prems] show ?thesis by (simp add: live_def)
  next
    case False
    have "U - unat ` set (live (p # ps)) = U - {unat p} - unat ` set (live ps)"
      using False by (auto simp: live_def)
    with Cons.IH [OF goes_free [OF Cons.prems, of p]] False show ?thesis by simp
  qed
qed (simp add: live_def)

lemma goes_truncate_entries:
  assumes "goes E v U f n u"
  shows "\<exists>w. truncate_entries u ino nbc lg ps = (cut_ptrs (nbc - lg) ps, w) \<and>
    goes E v (U - unat ` set (live (drop (nbc - lg) ps))) f (less_count n ino (length (live (drop (nbc - lg) ps)))) w"
  using assms
proof (induction ps arbitrary: u U n lg)
  case Nil
  then show ?case by (simp add: cut_ptrs_def live_def)
next
  case (Cons p ps)
  show ?case
  proof (cases "nbc \<le> lg")
    case False
    then have k: "nbc - lg = Suc (nbc - Suc lg)" by simp
    obtain w where w: "truncate_entries u ino nbc (Suc lg) ps = (cut_ptrs (nbc - Suc lg) ps, w)"
      "goes E v (U - unat ` set (live (drop (nbc - Suc lg) ps))) f
         (less_count n ino (length (live (drop (nbc - Suc lg) ps)))) w"
      using Cons.IH [OF Cons.prems, of "Suc lg"] by blast
    with False show ?thesis unfolding k by (simp add: cut_ptrs_def)
  next
    case le: True
    then have k: "nbc - lg = 0" "nbc - Suc lg = 0" by simp_all
    show ?thesis
    proof (cases "p = DENYFS_INVALID_BLOCK")
      case True
      from Cons.IH [OF Cons.prems, of "Suc lg"] obtain w where
        "truncate_entries u ino nbc (Suc lg) ps = (cut_ptrs 0 ps, w)"
        "goes E v (U - unat ` set (live ps)) f (less_count n ino (length (live ps))) w"
        unfolding k by auto
      with True k show ?thesis by (simp add: cut_ptrs_def live_def)
    next
      case False
      from Cons.IH [OF goes_drop [OF Cons.prems, of p ino], of "Suc lg"] obtain w where
        w: "truncate_entries (drop_block u ino p) ino nbc (Suc lg) ps = (cut_ptrs 0 ps, w)"
        "goes E v (U - {unat p} - unat ` set (live ps)) f (less_count (less_count n ino 1) ino (length (live ps))) w"
        unfolding k by auto
      have "U - unat ` set (live (p # ps)) = U - {unat p} - unat ` set (live ps)"
        "less_count n ino (length (live (p # ps))) = less_count (less_count n ino 1) ino (length (live ps))"
        using False by (auto simp: live_def less_count_add)
      with False w k le show ?thesis by (simp add: cut_ptrs_def)
    qed
  qed
qed

section \<open>Counting what is cut\<close>

definition gone :: "(u32 \<Rightarrow> bytes) \<Rightarrow> inode \<Rightarrow> slot set \<Rightarrow> nat" where
  "gone f nd D = card {s \<in> D. slot_ok s \<and> data_slot s \<and> sval f nd s \<noteq> DENYFS_INVALID_BLOCK}"

lemma finite_data_slots [simp]: "finite {s. slot_ok s \<and> data_slot s}"
proof -
  have "{s. slot_ok s \<and> data_slot s} \<subseteq> slot_of ` {..<DENYFS_MAX_FILE_BLOCKS}" using slot_of_surj by blast
  then show ?thesis by (rule finite_subset) simp
qed

definition trims :: "nat \<Rightarrow> slot set \<Rightarrow> (u32 \<Rightarrow> bytes) \<Rightarrow> inode list \<Rightarrow> nat set \<Rightarrow> (u32 \<Rightarrow> bytes) \<Rightarrow> inode list \<Rightarrow> nat set \<Rightarrow> bool"
where
  "trims ino D f n U g m U' \<longleftrightarrow> cuts ino D f n U g m U' \<and>
     i_block_count (m ! ino) = i_block_count (n ! ino) - of_nat (gone f (n ! ino) D)"

lemma trims_owned: "owned f n U \<Longrightarrow> trims ino D f n U g m U' \<Longrightarrow> ino < length n \<Longrightarrow> owned g m U'"
  unfolding trims_def using cut_owned by blast

lemma trims_length: "trims ino D f n U g m U' \<Longrightarrow> length m = length n"
  by (simp add: trims_def cuts_def)

lemma trims_sval:
  "trims ino D f n U g m U' \<Longrightarrow> j < length n \<Longrightarrow> slot_ok s \<Longrightarrow>
   sval g (m ! j) s = (if j = ino \<and> s \<in> D then DENYFS_INVALID_BLOCK else sval f (n ! j) s)"
  unfolding trims_def using cut_sval by blast

lemma gone_split:
  assumes "cuts ino D1 f n U g m V" "ino < length n"
  shows "gone f (n ! ino) (D1 \<union> D2) = gone f (n ! ino) D1 + gone g (m ! ino) D2"
proof -
  let ?A = "{s \<in> D1. slot_ok s \<and> data_slot s \<and> sval f (n ! ino) s \<noteq> DENYFS_INVALID_BLOCK}"
  let ?B = "{s \<in> D2. slot_ok s \<and> data_slot s \<and> sval g (m ! ino) s \<noteq> DENYFS_INVALID_BLOCK}"
  have fin: "finite ?A" "finite ?B" by (rule finite_subset [OF _ finite_data_slots], blast)+
  note sv = cut_sval [OF assms(1,2)]
  have d: "?A \<inter> ?B = {}" using sv by auto
  have "s \<in> {s \<in> D1 \<union> D2. slot_ok s \<and> data_slot s \<and> sval f (n ! ino) s \<noteq> DENYFS_INVALID_BLOCK} \<longleftrightarrow> s \<in> ?A \<union> ?B" for s
    using sv [of s] by (auto split: if_split_asm)
  then have "{s \<in> D1 \<union> D2. slot_ok s \<and> data_slot s \<and> sval f (n ! ino) s \<noteq> DENYFS_INVALID_BLOCK} = ?A \<union> ?B" by blast
  with card_Un_disjoint [OF fin d] show ?thesis by (simp only: gone_def)
qed

lemma trims_trans:
  assumes a: "trims ino D1 f n U g m V" and b: "trims ino D2 g m V h k W" and i: "ino < length n"
  shows "trims ino (D1 \<union> D2) f n U h k W"
  using cut_trans [of ino D1 f n U g m V D2 h k W] gone_split [of ino D1 f n U g m V D2] assms
  by (simp add: trims_def)

lemma trims_void:
  assumes "\<And>s. s \<in> D \<Longrightarrow> slot_ok s \<Longrightarrow> sval f (n ! ino) s = DENYFS_INVALID_BLOCK"
  shows "trims ino D f n U f n U"
proof -
  have "vals f (n ! ino) D = {}" using assms by (auto simp: in_vals)
  moreover have "{s \<in> D. slot_ok s \<and> data_slot s \<and> sval f (n ! ino) s \<noteq> DENYFS_INVALID_BLOCK} = {}" using assms by blast
  then have "gone f (n ! ino) D = 0" by (simp only: gone_def card.empty)
  ultimately show ?thesis using assms unfolding trims_def cuts_def by simp
qed

lemma less_count_upd:
  assumes "ino < length n" "\<And>nd x. h (nd\<lparr>i_block_count := x\<rparr>) = (h nd)\<lparr>i_block_count := x\<rparr>"
    "\<And>nd. i_block_count (h nd) = i_block_count nd"
  shows "(less_count n ino k)[ino := h (less_count n ino k ! ino)] = less_count (n[ino := h (n ! ino)]) ino k"
  using assms by (simp add: less_count_def)

section \<open>Truncating a file's blocks\<close>

lemma cut_direct:
  assumes "inode_ok (n ! ino)" "ino < length n" "i < DENYFS_DIRECT_BLOCKS"
  shows "cuts ino {Direct i} f n U f (n[ino := (n ! ino)\<lparr>i_direct := (i_direct (n ! ino))[i := DENYFS_INVALID_BLOCK]\<rparr>])
    (U - vals f (n ! ino) {Direct i})"
proof -
  let ?m = "n[ino := (n ! ino)\<lparr>i_direct := (i_direct (n ! ino))[i := DENYFS_INVALID_BLOCK]\<rparr>]"
  have "sval f (?m ! j) s = (if j = ino \<and> s \<in> {Direct i} then DENYFS_INVALID_BLOCK else sval f (n ! j) s)"
    if "j < length n" "slot_ok s" for j s
    using assms that by (cases "j = ino"; cases s) (auto simp: inode_ok_def nth_list_update)
  with assms(2) show ?thesis by (simp add: cuts_def)
qed

lemma cut_less: "cuts ino D f n U g m V \<Longrightarrow> cuts ino D f n U g (less_count m ino k) V"
proof -
  assume c: "cuts ino D f n U g m V"
  have "i_type (less_count m ino k ! ino) = i_type (m ! ino)" "i_size (less_count m ino k ! ino) = i_size (m ! ino)"
    "i_mtime (less_count m ino k ! ino) = i_mtime (m ! ino)"
    by (cases "ino < length m"; simp add: less_count_same less_count_out)+
  moreover have "points g (less_count m ino k) = points g m" by (intro ext) (simp add: points_def)
  ultimately show ?thesis using c unfolding cuts_def by (simp only: length_less_count sval_less_count) (simp add: less_count_other)
qed

lemma in_set_drop: "x \<in> set (drop k xs) \<longleftrightarrow> (\<exists>i. k \<le> i \<and> i < length xs \<and> xs ! i = x)"
proof
  assume "x \<in> set (drop k xs)"
  then obtain i where "i < length xs - k" "xs ! (k + i) = x" by (auto simp: in_set_conv_nth)
  then show "\<exists>i. k \<le> i \<and> i < length xs \<and> xs ! i = x" by (intro exI [of _ "k + i"]) simp
next
  assume "\<exists>i. k \<le> i \<and> i < length xs \<and> xs ! i = x"
  then obtain i where i: "k \<le> i" "i < length xs" "xs ! i = x" by blast
  then have "drop k xs ! (i - k) = x" "i - k < length (drop k xs)" by simp_all
  then show "x \<in> set (drop k xs)" using nth_mem by metis
qed

lemma vals_kids:
  assumes "q = Single \<or> q = Child c" "slot_ok q"
  shows "vals f nd (kids q k) = unat ` set (live (drop k (table f (sval f nd q))))"
    "gone f nd (kids q k) = length (live (drop k (table f (sval f nd q))))"
proof -
  let ?t = "table f (sval f nd q)"
  define h where "h = (\<lambda>i. if q = Single then Entry i else Leaf c i)"
  have h: "kids q k = h ` {k..}" "inj h" "data_slot (h i)" "slot_ok (h i) \<longleftrightarrow> i < DENYFS_POINTERS_PER_BLOCK"
    "sval f nd (h i) = ?t ! i" for i
    using assms by (auto simp: h_def inj_def)
  have "a \<in> vals f nd (kids q k) \<longleftrightarrow> a \<in> unat ` set (live (drop k ?t))" for a
  proof -
    have "a \<in> vals f nd (kids q k) \<longleftrightarrow> (\<exists>i. k \<le> i \<and> i < DENYFS_POINTERS_PER_BLOCK \<and>
        ?t ! i \<noteq> DENYFS_INVALID_BLOCK \<and> a = unat (?t ! i))"
      unfolding in_vals h(1) using h(4,5) by auto
    also have "\<dots> \<longleftrightarrow> a \<in> unat ` set (live (drop k ?t))"
      by (auto simp: live_def in_set_drop)
    finally show ?thesis .
  qed
  then show "vals f nd (kids q k) = unat ` set (live (drop k ?t))" by blast
  let ?I = "{i. k \<le> i \<and> i < DENYFS_POINTERS_PER_BLOCK \<and> ?t ! i \<noteq> DENYFS_INVALID_BLOCK}"
  have "{s \<in> kids q k. slot_ok s \<and> data_slot s \<and> sval f nd s \<noteq> DENYFS_INVALID_BLOCK} = h ` ?I"
    unfolding h(1) using h(3,4,5) by auto
  then have "gone f nd (kids q k) = card ?I"
    unfolding gone_def using card_image [OF inj_on_subset [OF h(2)]] by simp
  also have "\<dots> = card {i. i < length (drop k ?t) \<and> drop k ?t ! i \<noteq> DENYFS_INVALID_BLOCK}"
  proof (rule bij_betw_same_card [of "\<lambda>i. i - k"])
    show "bij_betw (\<lambda>i. i - k) ?I {i. i < length (drop k ?t) \<and> drop k ?t ! i \<noteq> DENYFS_INVALID_BLOCK}"
      by (rule bij_betw_byWitness [of _ "\<lambda>i. k + i"]) auto
  qed
  also have "\<dots> = length (live (drop k ?t))" by (simp add: live_def length_filter_conv_card)
  finally show "gone f nd (kids q k) = length (live (drop k ?t))" .
qed

lemma trunc_direct:
  assumes "goes E v U f n u" "owned f n U" "ino < length n" "distinct is" "set is \<subseteq> {..<DENYFS_DIRECT_BLOCKS}"
  shows "\<exists>m V. goes E v V f m (truncate_direct u ino nbc is) \<and> trims ino {Direct i | i. i \<in> set is \<and> nbc \<le> i} f n U f m V"
  using assms
proof (induction "is" arbitrary: u U n)
  case Nil
  then show ?case using trims_void [of "{}" f n ino U] by auto
next
  case (Cons i "is")
  let ?b = "i_direct (n ! ino) ! i" and ?D = "{Direct j | j. j \<in> set is \<and> nbc \<le> j}"
  have nd: "inode_at u ino = n ! ino" using Cons.prems(1) by (simp add: goes_def inode_at_def)
  have i: "i < DENYFS_DIRECT_BLOCKS" "i \<notin> set is" "distinct is" "set is \<subseteq> {..<DENYFS_DIRECT_BLOCKS}" using Cons.prems by auto
  have D: "{Direct j | j. j \<in> set (i # is) \<and> nbc \<le> j} = (if nbc \<le> i then {Direct i} else {}) \<union> ?D" by auto
  show ?case
  proof (cases "nbc \<le> i \<and> ?b \<noteq> DENYFS_INVALID_BLOCK")
    case False
    have v: "trims ino (if nbc \<le> i then {Direct i} else {}) f n U f n U" using False by (intro trims_void) (auto split: if_split_asm)
    from Cons.IH [OF Cons.prems(1-3) i(3,4)] obtain m V where
      m: "goes E v V f m (truncate_direct u ino nbc is)" "trims ino ?D f n U f m V" by blast
    have e: "truncate_direct u ino nbc (i # is) = truncate_direct u ino nbc is" using False by (auto simp: nd Let_def)
    show ?thesis unfolding D e using m(1) trims_trans [OF v m(2) Cons.prems(3)] by blast
  next
    case True
    let ?set = "\<lambda>nd. nd\<lparr>i_direct := (i_direct nd)[i := DENYFS_INVALID_BLOCK]\<rparr>"
    let ?u = "upd_inode (drop_block u ino ?b) ino ?set"
    let ?l = "less_count n ino 1"
    let ?n = "?l[ino := ?set (?l ! ino)]"
    have ok: "inode_ok (n ! ino)" using goes_inode_ok [OF Cons.prems(1,3)] .
    have g: "goes E v (U - {unat ?b}) f ?n ?u"
      using goes_upd [OF goes_drop [OF Cons.prems(1)], of ?set] by (simp add: inode_ok_def)
    have "?set (nd\<lparr>i_block_count := x\<rparr>) = (?set nd)\<lparr>i_block_count := x\<rparr>" for nd :: inode and x by (cases nd) simp
    then have sw: "?n = less_count (n[ino := ?set (n ! ino)]) ino 1" using Cons.prems(3) by (intro less_count_upd) simp_all
    have vl: "vals f (n ! ino) {Direct i} = {unat ?b}" using True i(1) by (auto simp: in_vals)
    have "cuts ino {Direct i} f n U f ?n (U - {unat ?b})"
      using cut_less [OF cut_direct [OF ok Cons.prems(3) i(1)], of f U 1] unfolding sw vl .
    moreover have "gone f (n ! ino) {Direct i} = 1"
    proof -
      have "{s \<in> {Direct i}. slot_ok s \<and> data_slot s \<and> sval f (n ! ino) s \<noteq> DENYFS_INVALID_BLOCK} = {Direct i}"
        using True i(1) by auto
      then show ?thesis by (simp add: gone_def)
    qed
    ultimately have t: "trims ino {Direct i} f n U f ?n (U - {unat ?b})"
      using Cons.prems(3) by (simp add: trims_def less_count_same)
    have o: "owned f ?n (U - {unat ?b})" using trims_owned [OF Cons.prems(2) t Cons.prems(3)] .
    have ln: "ino < length ?n" using Cons.prems(3) by simp
    from Cons.IH [OF g o ln i(3,4)] obtain m V where
      m: "goes E v V f m (truncate_direct ?u ino nbc is)" "trims ino ?D f ?n (U - {unat ?b}) f m V" by blast
    have e: "truncate_direct u ino nbc (i # is) = truncate_direct ?u ino nbc is" using True by (simp add: nd Let_def)
    have "{Direct j | j. j \<in> set (i # is) \<and> nbc \<le> j} = {Direct i} \<union> ?D" using True by auto
    then show ?thesis unfolding e using m(1) trims_trans [OF t m(2) Cons.prems(3)] by (simp only:) blast
  qed
qed

lemma all_invalid_nth: "all_invalid ps \<longleftrightarrow> (\<forall>i < length ps. ps ! i = DENYFS_INVALID_BLOCK)"
  by (simp add: all_invalid_def list_all_length)

lemma all_invalid_cut: "all_invalid (cut_ptrs k ps) \<longleftrightarrow> (\<forall>i < length ps. i < k \<longrightarrow> ps ! i = DENYFS_INVALID_BLOCK)"
  by (auto simp: all_invalid_nth)

text \<open>
  Clearing the tail of the table below \<open>q\<close>: the blocks are freed first, the table is rewritten later.
\<close>

lemma trim_entries:
  assumes g: "goes E v U f n u" and q: "q = Single \<or> q = Child c" "slot_ok q" and i: "ino < length n"
    and ps: "ps = table f' (sval f' (n ! ino) q)"
  shows "\<exists>w. truncate_entries u ino nbc lg ps = (cut_ptrs (nbc - lg) ps, w) \<and>
    goes E v (U - vals f' (n ! ino) (kids q (nbc - lg))) f (less_count n ino (gone f' (n ! ino) (kids q (nbc - lg)))) w"
  using goes_truncate_entries [OF g, of ino nbc lg ps] vals_kids [OF q, of f' "n ! ino" "nbc - lg"] unfolding ps by simp

lemma gone_tables: "(\<And>s. s \<in> D' \<Longrightarrow> \<not> data_slot s) \<Longrightarrow> gone f nd (D \<union> D') = gone f nd D"
proof -
  assume "\<And>s. s \<in> D' \<Longrightarrow> \<not> data_slot s"
  then have "{s \<in> D \<union> D'. slot_ok s \<and> data_slot s \<and> sval f nd s \<noteq> DENYFS_INVALID_BLOCK} =
      {s \<in> D. slot_ok s \<and> data_slot s \<and> sval f nd s \<noteq> DENYFS_INVALID_BLOCK}" by blast
  then show ?thesis by (simp only: gone_def)
qed

lemma vals_one: "slot_ok s \<Longrightarrow> sval f nd s \<noteq> DENYFS_INVALID_BLOCK \<Longrightarrow> vals f nd {s} = {unat (sval f nd s)}"
  by (auto simp: in_vals)

lemma trimsI:
  assumes "cuts ino D f n U g m V" "gone f (n ! ino) D = k" "ino < length n" "i_block_count (m ! ino) = i_block_count (n ! ino)"
  shows "trims ino D f n U g (less_count m ino k) V"
  using cut_less [OF assms(1)] assms by (auto simp: trims_def cuts_def less_count_same)

lemma trunc_single:
  assumes g: "goes E v U f n u" and o: "owned f n U" and i: "ino < length n"
  shows "\<exists>w h m V D. truncate_single E u ino nbc = (Inr (), w) \<and> goes E v V h m w \<and> trims ino D f n U h m V \<and>
    (\<forall>s. data_slot s \<longrightarrow> (s \<in> D \<longleftrightarrow> s \<in> kids Single (nbc - DENYFS_DIRECT_BLOCKS))) \<and>
    D \<subseteq> kids Single 0 \<union> {Single} \<and>
    (sval h (m ! ino) Single \<noteq> DENYFS_INVALID_BLOCK \<longrightarrow>
      (\<exists>j < DENYFS_POINTERS_PER_BLOCK. sval h (m ! ino) (Entry j) \<noteq> DENYFS_INVALID_BLOCK))"
proof -
  let ?k = "nbc - DENYFS_DIRECT_BLOCKS" and ?t = "i_indirect (n ! ino)"
  let ?D = "kids Single ?k"
  have nd: "inode_at u ino = n ! ino" using g by (simp add: goes_def inode_at_def)
  have sub: "?D \<subseteq> kids Single 0 \<union> {Single}" by auto
  show ?thesis
  proof (cases "?t = DENYFS_INVALID_BLOCK")
    case True
    have "trims ino ?D f n U f n U" using True by (intro trims_void) auto
    moreover have "truncate_single E u ino nbc = (Inr (), u)" using True by (simp add: truncate_single_def Let_def nd)
    ultimately show ?thesis using g sub True by (intro exI [of _ u] exI [of _ f] exI [of _ n] exI [of _ U] exI [of _ ?D]) simp
  next
    case False
    have t: "unat ?t \<in> U" using ownedD [OF o i, of Single] False by simp
    let ?ps = "table f ?t"
    obtain x where x: "truncate_entries u ino nbc DENYFS_DIRECT_BLOCKS ?ps = (cut_ptrs ?k ?ps, x)"
      "goes E v (U - vals f (n ! ino) ?D) f (less_count n ino (gone f (n ! ino) ?D)) x"
      using trim_entries [OF g, of Single _ ino ?ps f nbc DENYFS_DIRECT_BLOCKS] i by auto
    let ?l = "gone f (n ! ino) ?D"
    have P: "points f n ino Single" using i False by (simp add: points_def)
    show ?thesis
    proof (cases "all_invalid (cut_ptrs ?k ?ps)")
      case True
      let ?clr = "\<lambda>nd :: inode. nd\<lparr>i_indirect := DENYFS_INVALID_BLOCK\<rparr>"
      let ?D' = "?D \<union> {Single}" and ?m = "n[ino := ?clr (n ! ino)]"
      have e: "sval f (n ! ino) (Entry j) = DENYFS_INVALID_BLOCK" if "j < ?k" "j < DENYFS_POINTERS_PER_BLOCK" for j
        using True that by (simp add: all_invalid_cut)
      have "sval f (?m ! j) s = (if j = ino \<and> s \<in> ?D' then DENYFS_INVALID_BLOCK else sval f (n ! j) s)"
        if "j < length n" "slot_ok s" for j s
        using that i e by (cases "j = ino"; cases s) auto
      moreover have "U - vals f (n ! ino) ?D - {unat ?t} = U - vals f (n ! ino) ?D'"
        using vals_one [of Single f "n ! ino"] False unfolding vals_Un by auto
      ultimately have "cuts ino ?D' f n U f ?m (U - vals f (n ! ino) ?D - {unat ?t})"
        using i unfolding cuts_def by simp
      from trimsI [OF this gone_tables i] have tr: "trims ino ?D' f n U f (less_count ?m ino ?l) (U - vals f (n ! ino) ?D - {unat ?t})"
        using i by simp
      have "goes E v (U - vals f (n ! ino) ?D - {unat ?t}) f (less_count ?m ino ?l) (upd_inode (free_block x ?t) ino ?clr)"
      proof -
        have "?clr (nd\<lparr>i_block_count := y\<rparr>) = (?clr nd)\<lparr>i_block_count := y\<rparr>" for nd :: inode and y by (cases nd) simp
        then have "(less_count n ino ?l)[ino := ?clr (less_count n ino ?l ! ino)] = less_count ?m ino ?l"
          using i by (intro less_count_upd) simp_all
        with goes_upd [OF goes_free [OF x(2), of ?t], of ?clr ino] show ?thesis by (simp add: inode_ok_def)
      qed
      moreover have "truncate_single E u ino nbc = (Inr (), upd_inode (free_block x ?t) ino ?clr)"
        using False goes_read_table [OF g t] x(1) True by (simp add: truncate_single_def Let_def nd)
      moreover have "sval f (less_count ?m ino ?l ! ino) Single = DENYFS_INVALID_BLOCK"
        unfolding sval_less_count using i by simp
      moreover have "\<forall>s. data_slot s \<longrightarrow> (s \<in> ?D' \<longleftrightarrow> s \<in> ?D)" "?D' \<subseteq> kids Single 0 \<union> {Single}" by auto
      ultimately show ?thesis using tr by blast
    next
      case nz: False
      let ?h = "f(?t := ptrs_enc (cut_ptrs ?k ?ps))"
      have "unat ?t \<notin> vals f (n ! ino) ?D" using owned_vals [OF o P i, of ?D] by auto
      then have tv: "unat ?t \<in> U - vals f (n ! ino) ?D" using t by simp
      obtain w where w: "write_block E x ?t (ptrs_enc (cut_ptrs ?k ?ps)) = (Inr (), w)"
        "goes E v (U - vals f (n ! ino) ?D) ?h (less_count n ino ?l) w"
        using goes_write [OF x(2) tv, of "ptrs_enc (cut_ptrs ?k ?ps)"] by auto
      have "cuts ino ?D f n U ?h n (U - vals f (n ! ino) ?D)"
        using cut_table [OF o i, of Single _ ?t ?k] False by simp
      from trimsI [OF this refl i refl] have "trims ino ?D f n U ?h (less_count n ino ?l) (U - vals f (n ! ino) ?D)" .
      moreover have "truncate_single E u ino nbc = (Inr (), w)"
        using False goes_read_table [OF g t] x(1) nz w(1) by (simp add: truncate_single_def Let_def nd)
      moreover obtain j where "j < DENYFS_POINTERS_PER_BLOCK" "cut_ptrs ?k ?ps ! j \<noteq> DENYFS_INVALID_BLOCK"
        using nz by (auto simp: all_invalid_nth)
      then have "\<exists>j < DENYFS_POINTERS_PER_BLOCK. sval ?h (less_count n ino ?l ! ino) (Entry j) \<noteq> DENYFS_INVALID_BLOCK"
        unfolding sval_less_count using False by auto
      ultimately show ?thesis using w(2) sub by blast
    qed
  qed
qed

text \<open>The double-indirect tree, with the root's pointers in memory: \<open>f\<close> is then the plaintext with the root as
it will be written.\<close>

lemma cut_child:
  assumes o: "owned f n U" and i: "ino < length n" "c < DENYFS_POINTERS_PER_BLOCK" and r: "r = i_double (n ! ino)" "r \<noteq> DENYFS_INVALID_BLOCK"
    and t: "t = table f r ! c" "t \<noteq> DENYFS_INVALID_BLOCK"
    and e: "\<And>j. j < DENYFS_POINTERS_PER_BLOCK \<Longrightarrow> j < k \<Longrightarrow> table f t ! j = DENYFS_INVALID_BLOCK"
  shows "cuts ino (kids (Child c) k \<union> {Child c}) f n U (f(r := ptrs_enc ((table f r)[c := DENYFS_INVALID_BLOCK]))) n
    (U - vals f (n ! ino) (kids (Child c) k) - {unat t})"
proof -
  let ?d = "ptrs_enc ((table f r)[c := DENYFS_INVALID_BLOCK])"
  let ?g = "f(r := ?d)" and ?D = "kids (Child c) k \<union> {Child c}"
  have rd: "sval f (n ! ino) Double = r" using r by simp
  have tr: "table ?g r = (table f r)[c := DENYFS_INVALID_BLOCK]" using r(2) by simp
  have sv: "sval ?g (n ! j) s = (if j = ino \<and> s \<in> ?D then DENYFS_INVALID_BLOCK else sval f (n ! j) s)"
    if j: "j < length n" "slot_ok s" for j s
  proof (cases "j = ino \<and> Double \<in> tables_of s")
    case False
    then have "\<not> (j = ino \<and> s \<in> ?D)" by auto
    moreover have "sval (f(sval f (n ! ino) Double := ?d)) (n ! j) s = sval f (n ! j) s"
      using r by (intro table_write_sval [OF o i(1) _ _ j False]) simp_all
    ultimately show ?thesis unfolding rd by auto
  next
    case True
    have cr: "table f r ! b \<noteq> r" if "b < DENYFS_POINTERS_PER_BLOCK" "table f r ! b \<noteq> DENYFS_INVALID_BLOCK" for b
      using owned_inj [OF o i(1) i(1), of "Child b" Double] that r by auto
    from True consider b where "s = Child b" | b l where "s = Leaf b l" by (cases s) auto
    then show ?thesis
    proof cases
      case 1
      with True j(2) i(2) tr show ?thesis by (auto simp: r(1) [symmetric] nth_list_update)
    next
      case (2 b l)
      show ?thesis
      proof (cases "b = c")
        case True
        with 2 \<open>j = ino \<and> _\<close> j(2) i(2) tr e [of l] show ?thesis by (auto simp: r(1) [symmetric] t(1) [symmetric])
      next
        case False
        have "table ?g (table f r ! b) = table f (table f r ! b)"
          using cr [of b] 2 j(2) by (intro table_agree) simp
        with False 2 \<open>j = ino \<and> _\<close> j(2) tr show ?thesis by (simp add: r(1) [symmetric])
      qed
    qed
  qed
  have cell: "?g (sval ?g (n ! j) s) = f (sval ?g (n ! j) s)" if "points ?g n j s" "data_slot s" for j s
  proof -
    have p: "j < length n" "slot_ok s" "sval ?g (n ! j) s = sval f (n ! j) s" "sval f (n ! j) s \<noteq> DENYFS_INVALID_BLOCK"
      using that(1) sv [of j s] by (auto simp: points_def split: if_split_asm)
    then have "sval f (n ! j) s \<noteq> r"
      using owned_inj [OF o p(1) i(1) p(2), of Double] rd that(2) by auto
    then show ?thesis using p(3) by simp
  qed
  have vl: "U - vals f (n ! ino) (kids (Child c) k) - {unat t} = U - vals f (n ! ino) ?D"
    using vals_one [of "Child c" f "n ! ino"] i(2) t r unfolding vals_Un by auto
  show ?thesis unfolding cuts_def vl using sv cell by blast
qed

definition leaf_base :: "nat \<Rightarrow> nat" where
  "leaf_base c = DENYFS_DIRECT_BLOCKS + DENYFS_POINTERS_PER_BLOCK + c * DENYFS_POINTERS_PER_BLOCK"

text \<open>One child of the root.\<close>

definition child_cut :: "nat \<Rightarrow> nat \<Rightarrow> slot set \<Rightarrow> bool" where
  "child_cut nbc c D \<longleftrightarrow> (\<forall>s. data_slot s \<longrightarrow> (s \<in> D \<longleftrightarrow> s \<in> kids (Child c) (nbc - leaf_base c))) \<and>
     D \<subseteq> kids (Child c) 0 \<union> {Child c}"

lemma trim_child:
  assumes g: "goes E v U f n u" and o: "owned fv n U" and fv: "fv = f(r := ptrs_enc rs)"
    and i: "ino < length n" "c < DENYFS_POINTERS_PER_BLOCK" and r: "i_double (n ! ino) = r" "r \<noteq> DENYFS_INVALID_BLOCK"
    and rs: "length rs = DENYFS_POINTERS_PER_BLOCK" "rs ! c \<noteq> DENYFS_INVALID_BLOCK"
  defines "t \<equiv> rs ! c"
  shows "\<exists>x. read_pointer_table E u t = (Inr (table f t), u) \<and>
    truncate_entries u ino nbc (leaf_base c) (table f t) = (cut_ptrs (nbc - leaf_base c) (table f t), x) \<and>
    (if all_invalid (cut_ptrs (nbc - leaf_base c) (table f t))
     then \<exists>m V D. goes E v V f m (free_block x t) \<and> i_double (m ! ino) = r \<and> child_cut nbc c D \<and>
       trims ino D fv n U (f(r := ptrs_enc (rs[c := DENYFS_INVALID_BLOCK]))) m V
     else \<exists>h w m V D. write_block E x t (ptrs_enc (cut_ptrs (nbc - leaf_base c) (table f t))) = (Inr (), w) \<and>
       goes E v V h m w \<and> i_double (m ! ino) = r \<and> child_cut nbc c D \<and>
       trims ino D fv n U (h(r := ptrs_enc rs)) m V \<and>
       (\<exists>j < DENYFS_POINTERS_PER_BLOCK. sval (h(r := ptrs_enc rs)) (m ! ino) (Leaf c j) \<noteq> DENYFS_INVALID_BLOCK))"
proof -
  let ?k = "nbc - leaf_base c"
  let ?D = "kids (Child c) ?k"
  have tab: "table fv r = rs" using r(2) rs(1) by (simp add: fv)
  have tc: "sval fv (n ! ino) (Child c) = t" by (simp add: r(1) tab t_def)
  have tv: "t \<noteq> DENYFS_INVALID_BLOCK" using rs(2) by (simp add: t_def)
  have P: "points fv n ino (Child c)" using i tc tv by (simp add: points_def)
  have t: "unat t \<in> U" using ownedD [OF o i(1), of "Child c"] i(2) tc tv by simp
  have tr: "t \<noteq> r" using owned_inj [OF o i(1) i(1), of "Child c" Double] i(2) tc tv r(1) by auto
  have ft: "table fv t = table f t" using tr by (intro table_agree) (simp add: fv)
  obtain x where x: "truncate_entries u ino nbc (leaf_base c) (table f t) = (cut_ptrs ?k (table f t), x)"
    "goes E v (U - vals fv (n ! ino) ?D) f (less_count n ino (gone fv (n ! ino) ?D)) x"
    using trim_entries [OF g, of "Child c" c ino "table f t" fv nbc "leaf_base c"] i tc ft by auto
  let ?l = "gone fv (n ! ino) ?D"
  have dbl: "i_double (less_count n ino ?l ! ino) = r" using r(1) i(1) by (simp add: less_count_same)
  have cc: "child_cut nbc c ?D" "child_cut nbc c (?D \<union> {Child c})" by (auto simp: child_cut_def)
  show ?thesis
  proof (cases "all_invalid (cut_ptrs ?k (table f t))")
    case True
    have "cuts ino (?D \<union> {Child c}) fv n U (fv(r := ptrs_enc ((table fv r)[c := DENYFS_INVALID_BLOCK]))) n
        (U - vals fv (n ! ino) ?D - {unat t})"
    proof (rule cut_child [OF o i r(1) [symmetric] r(2) _ tv])
      show "t = table fv r ! c" by (simp add: tab t_def)
      show "table fv t ! j = DENYFS_INVALID_BLOCK" if "j < DENYFS_POINTERS_PER_BLOCK" "j < ?k" for j
        using True that by (simp add: all_invalid_cut ft)
    qed
    from trimsI [OF this gone_tables i(1) refl]
    have "trims ino (?D \<union> {Child c}) fv n U (f(r := ptrs_enc (rs[c := DENYFS_INVALID_BLOCK]))) (less_count n ino ?l)
        (U - vals fv (n ! ino) ?D - {unat t})" unfolding tab by (simp add: fv)
    with goes_free [OF x(2), of t] cc(2) dbl x(1) goes_read_table [OF g t] show ?thesis unfolding if_P [OF True] by blast
  next
    case False
    have "unat t \<notin> vals fv (n ! ino) ?D" using owned_vals [OF o P i(1), of ?D] tc by auto
    then have tu: "unat t \<in> U - vals fv (n ! ino) ?D" using t by simp
    let ?d = "ptrs_enc (cut_ptrs ?k (table f t))"
    obtain w where w: "write_block E x t ?d = (Inr (), w)" "goes E v (U - vals fv (n ! ino) ?D) (f(t := ?d)) (less_count n ino ?l) w"
      using goes_write [OF x(2) tu, of ?d] by auto
    have eq: "f(t := ?d, r := ptrs_enc rs) = fv(t := ?d)" unfolding fv using tr by (rule fun_upd_twist)
    have "cuts ino ?D fv n U (fv(t := ?d)) n (U - vals fv (n ! ino) ?D)"
      using cut_table [OF o i(1), of "Child c" c t ?k] i(2) tc tv ft by simp
    from trimsI [OF this refl i(1) refl]
    have tm: "trims ino ?D fv n U (f(t := ?d, r := ptrs_enc rs)) (less_count n ino ?l) (U - vals fv (n ! ino) ?D)" unfolding eq .
    obtain j where j: "j < DENYFS_POINTERS_PER_BLOCK" "cut_ptrs ?k (table f t) ! j \<noteq> DENYFS_INVALID_BLOCK"
      using False by (auto simp: all_invalid_nth)
    have "sval (fv(t := ?d)) (n ! ino) (Leaf c j) = cut_ptrs ?k (table f t) ! j"
    proof -
      have "table (fv(t := ?d)) r = rs" "table (fv(t := ?d)) t = cut_ptrs ?k (table f t)" using tr tab tv by auto
      then show ?thesis by (simp add: r(1) t_def [symmetric])
    qed
    then have "sval (f(t := ?d, r := ptrs_enc rs)) (less_count n ino ?l ! ino) (Leaf c j) \<noteq> DENYFS_INVALID_BLOCK"
      unfolding sval_less_count eq using j(2) by simp
    with j(1) have "\<exists>j < DENYFS_POINTERS_PER_BLOCK.
        sval (f(t := ?d, r := ptrs_enc rs)) (less_count n ino ?l ! ino) (Leaf c j) \<noteq> DENYFS_INVALID_BLOCK" by blast
    with w tm cc(1) dbl x(1) goes_read_table [OF g t] show ?thesis unfolding if_not_P [OF False] by blast
  qed
qed

definition roots_cut :: "nat \<Rightarrow> nat \<Rightarrow> slot set \<Rightarrow> bool" where
  "roots_cut nbc o' D \<longleftrightarrow> (\<forall>s. data_slot s \<longrightarrow> slot_ok s \<longrightarrow>
       (s \<in> D \<longleftrightarrow> (\<exists>c. o' \<le> c \<and> s \<in> kids (Child c) (nbc - leaf_base c)))) \<and>
     (\<forall>s \<in> D. \<exists>c. o' \<le> c \<and> s \<in> kids (Child c) 0 \<union> {Child c})"

lemma roots_cut_step:
  assumes "child_cut nbc o' D" "roots_cut nbc (Suc o') D'"
  shows "roots_cut nbc o' (D \<union> D')"
proof -
  have sp: "(\<exists>c \<ge> o'. Q c) \<longleftrightarrow> Q o' \<or> (\<exists>c \<ge> Suc o'. Q c)" for Q
    by (metis Suc_le_eq le_eq_less_or_eq order_refl)
  have "s \<in> D \<union> D' \<longleftrightarrow> (\<exists>c. o' \<le> c \<and> s \<in> kids (Child c) (nbc - leaf_base c))" if "data_slot s" "slot_ok s" for s
    using assms that sp [of "\<lambda>c. s \<in> kids (Child c) (nbc - leaf_base c)"]
    unfolding child_cut_def roots_cut_def by blast
  moreover have "\<exists>c. o' \<le> c \<and> s \<in> kids (Child c) 0 \<union> {Child c}" if "s \<in> D \<union> D'" for s
  proof -
    have "s \<in> kids (Child o') 0 \<union> {Child o'} \<or> (\<exists>c. Suc o' \<le> c \<and> s \<in> kids (Child c) 0 \<union> {Child c})"
      using assms that unfolding child_cut_def roots_cut_def by blast
    then show ?thesis by (metis Suc_leD order_refl)
  qed
  ultimately show ?thesis unfolding roots_cut_def by blast
qed

lemma trunc_roots:
  assumes "goes E v U f n u" "owned (f(r := ptrs_enc (ds @ cs))) n U" "ino < length n" "i_double (n ! ino) = r"
    "r \<noteq> DENYFS_INVALID_BLOCK" "length (ds @ cs) = DENYFS_POINTERS_PER_BLOCK"
  shows "\<exists>rs h w m V D. truncate_roots E u ino nbc (length ds) cs = (Inr rs, w) \<and> length rs = length cs \<and>
    goes E v V h m w \<and> i_double (m ! ino) = r \<and> roots_cut nbc (length ds) D \<and>
    trims ino D (f(r := ptrs_enc (ds @ cs))) n U (h(r := ptrs_enc (ds @ rs))) m V \<and>
    (\<forall>c < DENYFS_POINTERS_PER_BLOCK. length ds \<le> c \<longrightarrow> (ds @ rs) ! c \<noteq> DENYFS_INVALID_BLOCK \<longrightarrow>
      (\<exists>j < DENYFS_POINTERS_PER_BLOCK. sval (h(r := ptrs_enc (ds @ rs))) (m ! ino) (Leaf c j) \<noteq> DENYFS_INVALID_BLOCK))"
  using assms
proof (induction cs arbitrary: u U f n ds)
  case Nil
  have "roots_cut nbc (length ds) {}"
    using Nil.prems(6) by (auto simp: roots_cut_def)
  moreover have "trims ino {} (f(r := ptrs_enc (ds @ []))) n U (f(r := ptrs_enc (ds @ []))) n U" by (rule trims_void) simp
  ultimately show ?case
    using Nil.prems
    by (intro exI [of _ "[] :: u32 list"] exI [of _ f] exI [of _ u] exI [of _ n] exI [of _ U] exI [of _ "{}"]) (simp add: fun_upd_def)
next
  case (Cons c cs)
  let ?o = "length ds" and ?P = DENYFS_POINTERS_PER_BLOCK
  let ?fv = "f(r := ptrs_enc (ds @ c # cs))"
  have o: "?o < ?P" using Cons.prems(6) by simp
  have ci: "(ds @ c # cs) ! ?o = c" by simp
  text \<open>What the rest of the loop adds to the outcome of this child.\<close>
  have finish: "\<exists>rs h w m V D. truncate_roots E u ino nbc ?o (c # cs) = (Inr rs, w) \<and> length rs = length (c # cs) \<and>
    goes E v V h m w \<and> i_double (m ! ino) = r \<and> roots_cut nbc ?o D \<and>
    trims ino D ?fv n U (h(r := ptrs_enc (ds @ rs))) m V \<and>
    (\<forall>b < ?P. ?o \<le> b \<longrightarrow> (ds @ rs) ! b \<noteq> DENYFS_INVALID_BLOCK \<longrightarrow>
      (\<exists>j < ?P. sval (h(r := ptrs_enc (ds @ rs))) (m ! ino) (Leaf b j) \<noteq> DENYFS_INVALID_BLOCK))"
    if x: "goes E v W g k x" "i_double (k ! ino) = r" "child_cut nbc ?o D"
      "trims ino D ?fv n U (g(r := ptrs_enc (ds @ d # cs))) k W"
      "d \<noteq> DENYFS_INVALID_BLOCK \<Longrightarrow>
        \<exists>j < ?P. sval (g(r := ptrs_enc (ds @ d # cs))) (k ! ino) (Leaf ?o j) \<noteq> DENYFS_INVALID_BLOCK"
      "truncate_roots E u ino nbc ?o (c # cs) =
        (case truncate_roots E x ino nbc (Suc ?o) cs of (Inl e, y) \<Rightarrow> (Inl e, y) | (Inr rs, y) \<Rightarrow> (Inr (d # rs), y))"
    for W g k x D d
  proof -
    have ap: "ds @ d # cs = (ds @ [d]) @ cs" by simp
    have ln: "ino < length k" using trims_length [OF x(4)] Cons.prems(3) by simp
    have ow: "owned (g(r := ptrs_enc ((ds @ [d]) @ cs))) k W"
      using trims_owned [OF Cons.prems(2) x(4) Cons.prems(3)] unfolding ap .
    have l6: "length ((ds @ [d]) @ cs) = ?P" using Cons.prems(6) by simp
    have ap2: "(ds @ [d]) @ xs = ds @ d # xs" "length (ds @ [d]) = Suc ?o" for xs by simp_all
    from Cons.IH [OF x(1) ow ln x(2) Cons.prems(5) l6, unfolded ap2] obtain rs h w m V D' where
      w: "truncate_roots E x ino nbc (Suc ?o) cs = (Inr rs, w)" "length rs = length cs" "goes E v V h m w"
      "i_double (m ! ino) = r" "roots_cut nbc (Suc ?o) D'"
      "trims ino D' (g(r := ptrs_enc (ds @ d # cs))) k W (h(r := ptrs_enc (ds @ d # rs))) m V"
      "\<forall>b < ?P. Suc ?o \<le> b \<longrightarrow> (ds @ d # rs) ! b \<noteq> DENYFS_INVALID_BLOCK \<longrightarrow>
        (\<exists>j < ?P. sval (h(r := ptrs_enc (ds @ d # rs))) (m ! ino) (Leaf b j) \<noteq> DENYFS_INVALID_BLOCK)"
      by blast
    have tidy: "\<exists>j < ?P. sval (h(r := ptrs_enc (ds @ d # rs))) (m ! ino) (Leaf b j) \<noteq> DENYFS_INVALID_BLOCK"
      if b: "b < ?P" "?o \<le> b" "(ds @ d # rs) ! b \<noteq> DENYFS_INVALID_BLOCK" for b
    proof (cases "b = ?o")
      case False
      with w(7) b show ?thesis by auto
    next
      case True
      then have "d \<noteq> DENYFS_INVALID_BLOCK" using b(3) by simp
      then obtain j where j: "j < ?P" "sval (g(r := ptrs_enc (ds @ d # cs))) (k ! ino) (Leaf ?o j) \<noteq> DENYFS_INVALID_BLOCK"
        using x(5) by blast
      have "Leaf ?o j \<notin> D'" using w(5) unfolding roots_cut_def by fastforce
      then have "sval (h(r := ptrs_enc (ds @ d # rs))) (m ! ino) (Leaf ?o j) = sval (g(r := ptrs_enc (ds @ d # cs))) (k ! ino) (Leaf ?o j)"
        using trims_sval [OF w(6) ln, of "Leaf ?o j"] j(1) o by simp
      with j True show ?thesis by metis
    qed
    have "truncate_roots E u ino nbc ?o (c # cs) = (Inr (d # rs), w)" using x(6) w(1) by simp
    moreover have "trims ino (D \<union> D') ?fv n U (h(r := ptrs_enc (ds @ d # rs))) m V"
      by (rule trims_trans [OF x(4) w(6) Cons.prems(3)])
    moreover have "length (d # rs) = length (c # cs)" using w(2) by simp
    ultimately show ?thesis using w(3,4) roots_cut_step [OF x(3) w(5)] tidy by blast
  qed
  show ?case
  proof (cases "c = DENYFS_INVALID_BLOCK")
    case True
    let ?D = "kids (Child ?o) (nbc - leaf_base ?o)"
    have tab: "table ?fv r = ds @ c # cs" using Cons.prems(5,6) by simp
    have "trims ino ?D ?fv n U ?fv n U"
    proof (rule trims_void)
      fix s assume "s \<in> ?D" "slot_ok s"
      then obtain j where "s = Leaf ?o j" "j < ?P" by auto
      then show "sval ?fv (n ! ino) s = DENYFS_INVALID_BLOCK" using Cons.prems(4) tab True by simp
    qed
    moreover have "child_cut nbc ?o ?D" by (auto simp: child_cut_def)
    moreover have "truncate_roots E u ino nbc ?o (c # cs) =
        (case truncate_roots E u ino nbc (Suc ?o) cs of (Inl e, y) \<Rightarrow> (Inl e, y) | (Inr rs, y) \<Rightarrow> (Inr (c # rs), y))"
      using True by (simp add: Let_def cong: sum.case_cong)
    ultimately show ?thesis using finish [OF Cons.prems(1,4)] True by blast
  next
    case False
    have nz: "(ds @ c # cs) ! ?o \<noteq> DENYFS_INVALID_BLOCK" using False by simp
    let ?q = "cut_ptrs (nbc - leaf_base ?o) (table f c)"
    from trim_child [OF Cons.prems(1,2) refl Cons.prems(3) o Cons.prems(4,5,6) nz, unfolded ci, of nbc] obtain x where
      x: "read_pointer_table E u c = (Inr (table f c), u)" "truncate_entries u ino nbc (leaf_base ?o) (table f c) = (?q, x)"
      "if all_invalid ?q
       then \<exists>m V D. goes E v V f m (free_block x c) \<and> i_double (m ! ino) = r \<and> child_cut nbc ?o D \<and>
         trims ino D ?fv n U (f(r := ptrs_enc ((ds @ c # cs)[?o := DENYFS_INVALID_BLOCK]))) m V
       else \<exists>h w m V D. write_block E x c (ptrs_enc ?q) = (Inr (), w) \<and>
         goes E v V h m w \<and> i_double (m ! ino) = r \<and> child_cut nbc ?o D \<and>
         trims ino D ?fv n U (h(r := ptrs_enc (ds @ c # cs))) m V \<and>
         (\<exists>j < ?P. sval (h(r := ptrs_enc (ds @ c # cs))) (m ! ino) (Leaf ?o j) \<noteq> DENYFS_INVALID_BLOCK)"
      by blast
    show ?thesis
    proof (cases "all_invalid ?q")
      case True
      have up: "(ds @ c # cs)[?o := DENYFS_INVALID_BLOCK] = ds @ DENYFS_INVALID_BLOCK # cs" by simp
      obtain m V D where y: "goes E v V f m (free_block x c)" "i_double (m ! ino) = r" "child_cut nbc ?o D"
        "trims ino D ?fv n U (f(r := ptrs_enc (ds @ DENYFS_INVALID_BLOCK # cs))) m V"
        using x(3) unfolding if_P [OF True] up by blast
      show ?thesis
        by (rule finish [OF y]) (use False x(1,2) True in \<open>simp_all add: Let_def leaf_base_def\<close>)
    next
      case nt: False
      obtain h w m V D where y: "write_block E x c (ptrs_enc ?q) = (Inr (), w)" "goes E v V h m w" "i_double (m ! ino) = r"
        "child_cut nbc ?o D" "trims ino D ?fv n U (h(r := ptrs_enc (ds @ c # cs))) m V"
        "\<exists>j < ?P. sval (h(r := ptrs_enc (ds @ c # cs))) (m ! ino) (Leaf ?o j) \<noteq> DENYFS_INVALID_BLOCK"
        using x(3) unfolding if_not_P [OF nt] by blast
      show ?thesis
        by (rule finish [OF y(2-6)]) (use False x(1,2) nt y(1) in \<open>simp add: Let_def leaf_base_def\<close>)
    qed
  qed
qed

lemma trunc_double:
  assumes g: "goes E v U f n u" and o: "owned f n U" and i: "ino < length n"
  shows "\<exists>w h m V D. truncate_double E u ino nbc = (Inr (), w) \<and> goes E v V h m w \<and> trims ino D f n U h m V \<and>
    (\<forall>s. data_slot s \<longrightarrow> slot_ok s \<longrightarrow> (s \<in> D \<longleftrightarrow> (\<exists>c. s \<in> kids (Child c) (nbc - leaf_base c)))) \<and>
    (\<forall>s \<in> D. s = Double \<or> Double \<in> tables_of s) \<and>
    (\<forall>q. slot_ok q \<longrightarrow> \<not> data_slot q \<longrightarrow> q \<noteq> Single \<longrightarrow> sval h (m ! ino) q \<noteq> DENYFS_INVALID_BLOCK \<longrightarrow>
      (\<exists>s. slot_ok s \<and> data_slot s \<and> q \<in> tables_of s \<and> sval h (m ! ino) s \<noteq> DENYFS_INVALID_BLOCK))"
proof -
  let ?r = "i_double (n ! ino)" and ?P = DENYFS_POINTERS_PER_BLOCK
  have nd: "inode_at u ino = n ! ino" using g by (simp add: goes_def inode_at_def)
  show ?thesis
  proof (cases "?r = DENYFS_INVALID_BLOCK")
    case True
    let ?D = "{s. \<exists>c. s \<in> kids (Child c) (nbc - leaf_base c)}"
    have "trims ino ?D f n U f n U" using True by (intro trims_void) auto
    moreover have "truncate_double E u ino nbc = (Inr (), u)" using True by (simp add: truncate_double_def Let_def nd)
    moreover have "sval f (n ! ino) q = DENYFS_INVALID_BLOCK" if "slot_ok q" "\<not> data_slot q" "q \<noteq> Single" for q
      using that True by (cases q) auto
    ultimately show ?thesis using g by (intro exI [of _ u] exI [of _ f] exI [of _ n] exI [of _ U] exI [of _ ?D]) auto
  next
    case False
    let ?rs = "table f ?r"
    have t: "unat ?r \<in> U" using ownedD [OF o i, of Double] False by simp
    have rd: "read_pointer_table E u ?r = (Inr ?rs, u)" using goes_read_table [OF g t] .
    have "length (f ?r) = SECTOR_SIZE" using goes_read(2) [OF g t] .
    then have fr: "f(?r := ptrs_enc ?rs) = f" using False by (simp add: table_def ptrs_enc_dec)
    have "owned (f(?r := ptrs_enc ([] @ ?rs))) n U" using o fr by simp
    from trunc_roots [OF g this i refl False, of nbc] obtain rs h w m V D where
      x: "truncate_roots E u ino nbc 0 ?rs = (Inr rs, w)" "length rs = ?P" "goes E v V h m w" "i_double (m ! ino) = ?r"
      "roots_cut nbc 0 D" "trims ino D f n U (h(?r := ptrs_enc rs)) m V"
      "\<forall>c < ?P. rs ! c \<noteq> DENYFS_INVALID_BLOCK \<longrightarrow>
        (\<exists>j < ?P. sval (h(?r := ptrs_enc rs)) (m ! ino) (Leaf c j) \<noteq> DENYFS_INVALID_BLOCK)"
      by (auto simp: fr)
    let ?h = "h(?r := ptrs_enc rs)"
    have ln: "ino < length m" using trims_length [OF x(6)] i by simp
    have ow: "owned ?h m V" using trims_owned [OF o x(6) i] .
    have P: "points ?h m ino Double" using ln x(4) False by (simp add: points_def)
    have r: "unat ?r \<in> V" using ownedD [OF ow ln, of Double] x(4) False by simp
    have tab: "table ?h ?r = rs" using False x(2) by simp
    have cutD: "s \<in> D \<longleftrightarrow> (\<exists>c. s \<in> kids (Child c) (nbc - leaf_base c))" if "data_slot s" "slot_ok s" for s
      using x(5) that unfolding roots_cut_def by blast
    have below: "Double \<in> tables_of s" if "s \<in> D" for s
    proof -
      have "\<forall>s \<in> D. \<exists>c. 0 \<le> c \<and> s \<in> kids (Child c) 0 \<union> {Child c}"
        using x(5) unfolding roots_cut_def by (rule conjunct2)
      from bspec [OF this that] show ?thesis by auto
    qed
    show ?thesis
    proof (cases "all_invalid rs")
      case True
      let ?clr = "\<lambda>nd :: inode. nd\<lparr>i_double := DENYFS_INVALID_BLOCK\<rparr>"
      let ?m = "m[ino := ?clr (m ! ino)]"
      have inv: "rs ! c = DENYFS_INVALID_BLOCK" if "c < ?P" for c using True that x(2) by (simp add: all_invalid_nth)
      have agr: "sval h (m ! j) s = sval ?h (m ! j) s" if "j < length m" "slot_ok s" "\<not> (j = ino \<and> Double \<in> tables_of s)" for j s
        using table_write_sval [OF ow ln, of Double j s "h ?r"] that x(4) False by simp
      have sv: "sval h (?m ! j) s = (if j = ino \<and> s \<in> {Double} then DENYFS_INVALID_BLOCK else sval ?h (m ! j) s)"
        if j: "j < length m" "slot_ok s" for j s
      proof (cases "j = ino")
        case False
        then show ?thesis using agr [OF j] by simp
      next
        case True
        have e: "sval ?h (m ! ino) (Child c) = DENYFS_INVALID_BLOCK" "sval ?h (m ! ino) (Leaf c l) = DENYFS_INVALID_BLOCK"
          if "c < ?P" "l < ?P" for c l
          using that inv by (simp_all add: x(4) tab)
        show ?thesis
          using True ln j(2) e(1) e(2) agr [OF ln j(2)] inv tab x(4) by (cases s) auto
      qed
      have cell: "h (sval h (?m ! j) s) = ?h (sval h (?m ! j) s)" if "points h ?m j s" "data_slot s" for j s
      proof -
        have p: "j < length m" "slot_ok s" "sval h (?m ! j) s = sval ?h (m ! j) s" "sval ?h (m ! j) s \<noteq> DENYFS_INVALID_BLOCK"
          using that sv [of j s] by (auto simp: points_def split: if_split_asm)
        then have "sval ?h (m ! j) s \<noteq> ?r"
          using owned_inj [OF ow p(1) ln p(2), of Double] that(2) x(4) by auto
        then show ?thesis using p(3) by simp
      qed
      have vl: "V - {unat ?r} = V - vals ?h (m ! ino) {Double}"
        using vals_one [of Double ?h "m ! ino"] x(4) False by simp
      have c0: "cuts ino {Double} ?h m V h ?m (V - {unat ?r})"
        unfolding cuts_def vl using sv cell ln by simp
      have "gone ?h (m ! ino) {Double} = 0" using gone_tables [of "{Double}" ?h "m ! ino" "{}"] by (simp add: gone_def)
      with c0 ln have "trims ino {Double} ?h m V h ?m (V - {unat ?r})" by (simp add: trims_def)
      from trims_trans [OF x(6) this i] have tm: "trims ino (D \<union> {Double}) f n U h ?m (V - {unat ?r})" .
      have gf: "goes E v (V - {unat ?r}) h ?m (upd_inode (free_block w ?r) ino ?clr)"
        using goes_upd [OF goes_free [OF x(3), of ?r], of ?clr ino] by (simp add: inode_ok_def)
      have td: "truncate_double E u ino nbc = (Inr (), upd_inode (free_block w ?r) ino ?clr)"
        using False rd x(1) True by (simp add: truncate_double_def Let_def nd)
      have none: "sval h (?m ! ino) q = DENYFS_INVALID_BLOCK" if "slot_ok q" "\<not> data_slot q" "q \<noteq> Single" for q
        using that ln by (cases q) auto
      show ?thesis
      proof (intro exI conjI)
        show "\<forall>s. data_slot s \<longrightarrow> slot_ok s \<longrightarrow> (s \<in> D \<union> {Double} \<longleftrightarrow> (\<exists>c. s \<in> kids (Child c) (nbc - leaf_base c)))"
          using cutD by auto
        show "\<forall>s \<in> D \<union> {Double}. s = Double \<or> Double \<in> tables_of s" using below by blast
      qed (use td gf tm none in auto)
    next
      case nt: False
      obtain y where y: "write_block E w ?r (ptrs_enc rs) = (Inr (), y)" "goes E v V ?h m y"
        using goes_write [OF x(3) r, of "ptrs_enc rs"] x(2) by auto
      have td: "truncate_double E u ino nbc = (Inr (), y)"
        using False rd x(1) nt y(1) by (simp add: truncate_double_def Let_def nd)
      have tidy: "\<exists>s. slot_ok s \<and> data_slot s \<and> q \<in> tables_of s \<and> sval ?h (m ! ino) s \<noteq> DENYFS_INVALID_BLOCK"
        if q: "slot_ok q" "\<not> data_slot q" "q \<noteq> Single" "sval ?h (m ! ino) q \<noteq> DENYFS_INVALID_BLOCK" for q
      proof -
        have "\<exists>c < ?P. rs ! c \<noteq> DENYFS_INVALID_BLOCK \<and> (q = Double \<or> q = Child c)"
        proof (cases q)
          case Double
          then show ?thesis using nt x(2) by (auto simp: all_invalid_nth)
        next
          case (Child c)
          then show ?thesis using q x(4) tab by auto
        qed (use q in auto)
        then obtain c where c: "c < ?P" "rs ! c \<noteq> DENYFS_INVALID_BLOCK" "q = Double \<or> q = Child c" by blast
        then obtain j where "j < ?P" "sval ?h (m ! ino) (Leaf c j) \<noteq> DENYFS_INVALID_BLOCK" using x(7) by blast
        with c show ?thesis by (intro exI [of _ "Leaf c j"]) auto
      qed
      show ?thesis
      proof (intro exI conjI)
        show "\<forall>s. data_slot s \<longrightarrow> slot_ok s \<longrightarrow> (s \<in> D \<longleftrightarrow> (\<exists>c. s \<in> kids (Child c) (nbc - leaf_base c)))"
          using cutD by auto
        show "\<forall>s \<in> D. s = Double \<or> Double \<in> tables_of s" using below by blast
      qed (use td y(2) x(6) tidy in auto)
    qed
  qed
qed

text \<open>
  \<open>keeps_below nbc ino\<close>: file \<open>ino\<close> keeps its blocks below \<open>nbc\<close> with their contents and loses the others,
  the other files keep theirs.
\<close>

definition keeps_below :: "nat \<Rightarrow> nat \<Rightarrow> (u32 \<Rightarrow> bytes) \<Rightarrow> inode list \<Rightarrow> (u32 \<Rightarrow> bytes) \<Rightarrow> inode list \<Rightarrow> bool" where
  "keeps_below nbc ino f n h m \<longleftrightarrow> length m = length n \<and> (\<forall>j < length n. j \<noteq> ino \<longrightarrow> m ! j = n ! j) \<and>
     i_type (m ! ino) = i_type (n ! ino) \<and> i_size (m ! ino) = i_size (n ! ino) \<and> i_mtime (m ! ino) = i_mtime (n ! ino) \<and>
     (\<forall>j < length n. \<forall>l < DENYFS_MAX_FILE_BLOCKS. file_block h (m ! j) l =
        (if j = ino \<and> nbc \<le> l then DENYFS_INVALID_BLOCK else file_block f (n ! j) l)) \<and>
     (\<forall>j < length n. \<forall>l < DENYFS_MAX_FILE_BLOCKS. file_block h (m ! j) l \<noteq> DENYFS_INVALID_BLOCK \<longrightarrow>
        h (file_block h (m ! j) l) = f (file_block h (m ! j) l))"

lemma trims_keeps:
  assumes t: "trims ino D f n U h m V" and i: "ino < length n"
    and D: "\<And>l. l < DENYFS_MAX_FILE_BLOCKS \<Longrightarrow> slot_of l \<in> D \<longleftrightarrow> nbc \<le> l"
  shows "keeps_below nbc ino f n h m"
proof -
  have c: "cuts ino D f n U h m V" using t by (simp add: trims_def)
  have l: "length m = length n" using trims_length [OF t] .
  have sv: "file_block h (m ! j) l = (if j = ino \<and> nbc \<le> l then DENYFS_INVALID_BLOCK else file_block f (n ! j) l)"
    if "j < length n" "l < DENYFS_MAX_FILE_BLOCKS" for j l
    using trims_sval [OF t that(1) slot_of_ok [OF that(2)]] D [OF that(2)] by (simp add: file_block_def)
  have "h (file_block h (m ! j) l) = f (file_block h (m ! j) l)"
    if "j < length n" "l < DENYFS_MAX_FILE_BLOCKS" "file_block h (m ! j) l \<noteq> DENYFS_INVALID_BLOCK" for j l
  proof -
    have "points h m j (slot_of l)" using that l slot_of_ok [OF that(2)] by (simp add: points_def file_block_def)
    moreover have "\<forall>j s. points h m j s \<longrightarrow> data_slot s \<longrightarrow> h (sval h (m ! j) s) = f (sval h (m ! j) s)"
      using c unfolding cuts_def by blast
    ultimately show ?thesis unfolding file_block_def by simp
  qed
  with c sv show ?thesis unfolding keeps_below_def cuts_def by blast
qed

lemma trims_trees:
  assumes t: "trims ino D f n U h m V" and i: "ino < length n" and tr: "trees f n"
    and D: "\<And>l. l < DENYFS_MAX_FILE_BLOCKS \<Longrightarrow> slot_of l \<in> D \<longleftrightarrow> nbc \<le> l"
    and tidy: "\<And>q. slot_ok q \<Longrightarrow> \<not> data_slot q \<Longrightarrow> sval h (m ! ino) q \<noteq> DENYFS_INVALID_BLOCK \<Longrightarrow>
      \<exists>s. slot_ok s \<and> data_slot s \<and> q \<in> tables_of s \<and> sval h (m ! ino) s \<noteq> DENYFS_INVALID_BLOCK"
  shows "trees h m"
  unfolding trees_def
proof (intro allI impI)
  fix j assume "j < length m"
  then have j: "j < length n" using trims_length [OF t] by simp
  show "tree_ok h (m ! j)"
  proof (cases "j = ino")
    case False
    have "m ! j = n ! j" using t j False by (simp add: trims_def cuts_def)
    moreover have "sval h (m ! j) s = sval f (n ! j) s" if "slot_ok s" for s using trims_sval [OF t j that] False by simp
    ultimately have "tree_ok h (m ! j) = tree_ok f (n ! j)" by (intro tree_ok_same) simp_all
    with tr j show ?thesis by (simp add: trees_def)
  next
    case True
    let ?B = "blocks_of f (n ! ino)" and ?G = "{l \<in> blocks_of f (n ! ino). nbc \<le> l}"
    note kb = trims_keeps [OF t i D]
    have "file_block h (m ! ino) l = (if nbc \<le> l then DENYFS_INVALID_BLOCK else file_block f (n ! ino) l)"
      if "l < DENYFS_MAX_FILE_BLOCKS" for l
      using kb i that by (simp add: keeps_below_def)
    then have "l \<in> blocks_of h (m ! ino) \<longleftrightarrow> l \<in> ?B - ?G" for l by (auto simp: blocks_of_def split: if_split_asm)
    then have bl: "blocks_of h (m ! ino) = ?B - ?G" by blast
    have "{s \<in> D. slot_ok s \<and> data_slot s \<and> sval f (n ! ino) s \<noteq> DENYFS_INVALID_BLOCK} = slot_of ` ?G"
    proof (intro set_eqI iffI)
      fix s assume "s \<in> {s \<in> D. slot_ok s \<and> data_slot s \<and> sval f (n ! ino) s \<noteq> DENYFS_INVALID_BLOCK}"
      then have s: "s \<in> D" "slot_ok s" "data_slot s" "sval f (n ! ino) s \<noteq> DENYFS_INVALID_BLOCK" by simp_all
      obtain l where "l < DENYFS_MAX_FILE_BLOCKS" "slot_of l = s" using slot_of_surj [OF s(2,3)] by blast
      with s D [of l] show "s \<in> slot_of ` ?G" by (auto simp: blocks_of_def file_block_def)
    qed (use D slot_of_ok in \<open>auto simp: blocks_of_def file_block_def\<close>)
    moreover have "inj_on slot_of ?G" using slot_of_inj by (auto simp: inj_on_def)
    ultimately have gn: "gone f (n ! ino) D = card ?G" unfolding gone_def by (simp only: card_image)
    have fin: "finite ?G" "?G \<subseteq> ?B" by auto
    have cn: "unat (i_block_count (n ! ino)) = card ?B" using tr i by (simp add: trees_def tree_ok_def)
    have le: "card ?G \<le> card ?B" using card_mono [OF finite_blocks_of fin(2)] .
    have small: "card ?G < 2 ^ 32"
      using le card_blocks_of [of f "n ! ino"] by (simp add: DENYFS_MAX_FILE_BLOCKS_def layout_sizes)
    have "i_block_count (m ! ino) = i_block_count (n ! ino) - of_nat (card ?G)" using t gn by (simp add: trims_def)
    moreover have "unat (of_nat (card ?G) :: u32) = card ?G" using small by (simp add: unsigned_of_nat take_bit_nat_eq_self)
    ultimately have "unat (i_block_count (m ! ino)) = card ?B - card ?G"
      using cn le by (simp add: unat_sub word_le_nat_alt)
    also have "\<dots> = card (?B - ?G)" using card_Diff_subset [OF fin] by simp
    finally have "unat (i_block_count (m ! ino)) = card (blocks_of h (m ! ino))" by (simp only: bl)
    moreover have "\<exists>l \<in> blocks_of h (m ! ino). q \<in> tables_of (slot_of l)"
      if q: "slot_ok q" "\<not> data_slot q" "sval h (m ! ino) q \<noteq> DENYFS_INVALID_BLOCK" for q
    proof -
      obtain s where s: "slot_ok s" "data_slot s" "q \<in> tables_of s" "sval h (m ! ino) s \<noteq> DENYFS_INVALID_BLOCK"
        using tidy [OF q] by blast
      obtain l where "l < DENYFS_MAX_FILE_BLOCKS" "slot_of l = s" using slot_of_surj [OF s(1,2)] by blast
      with s show ?thesis by (intro bexI [of _ l]) (simp_all add: blocks_of_def file_block_def)
    qed
    ultimately show ?thesis unfolding tree_ok_def True by blast
  qed
qed

lemma slot_of_leaf_base: "slot_of l \<in> kids (Child c) (nbc - leaf_base c) \<longleftrightarrow>
    (\<exists>i. l = DENYFS_DIRECT_BLOCKS + DENYFS_POINTERS_PER_BLOCK + i \<and> c = i div DENYFS_POINTERS_PER_BLOCK \<and> nbc \<le> l)"
proof (cases l rule: slot_of_cases)
  case (leaf i)
  have "leaf_base (i div DENYFS_POINTERS_PER_BLOCK) + i mod DENYFS_POINTERS_PER_BLOCK = l"
    using div_mult_mod_eq [of i DENYFS_POINTERS_PER_BLOCK] by (simp add: leaf_base_def leaf(1))
  then have "nbc - leaf_base (i div DENYFS_POINTERS_PER_BLOCK) \<le> i mod DENYFS_POINTERS_PER_BLOCK \<longleftrightarrow> nbc \<le> l"
    by linarith
  with leaf show ?thesis by auto
qed auto

lemma truncate_blocks:
  assumes g: "goes E v U f n u" and o: "owned f n U" and i: "ino < length n" and tr: "trees f n"
  shows "\<exists>w h m V. truncate_file_blocks E u ino nbc = (Inr (), w) \<and> goes E v V h m w \<and> owned h m V \<and> trees h m \<and>
    V \<subseteq> U \<and> keeps_below nbc ino f n h m"
proof -
  let ?D1 = "{Direct i | i. i \<in> set [0..<DENYFS_DIRECT_BLOCKS] \<and> nbc \<le> i}"
  have "distinct [0..<DENYFS_DIRECT_BLOCKS]" "set [0..<DENYFS_DIRECT_BLOCKS] \<subseteq> {..<DENYFS_DIRECT_BLOCKS}" by auto
  from trunc_direct [OF g o i this, of nbc] obtain n1 U1 where
    1: "goes E v U1 f n1 (truncate_direct u ino nbc [0..<DENYFS_DIRECT_BLOCKS])" "trims ino ?D1 f n U f n1 U1" by blast
  have o1: "owned f n1 U1" and i1: "ino < length n1" using trims_owned [OF o 1(2) i] trims_length [OF 1(2)] i by simp_all
  from trunc_single [OF 1(1) o1 i1, of nbc] obtain w2 h2 n2 U2 D2 where
    2: "truncate_single E (truncate_direct u ino nbc [0..<DENYFS_DIRECT_BLOCKS]) ino nbc = (Inr (), w2)"
    "goes E v U2 h2 n2 w2" "trims ino D2 f n1 U1 h2 n2 U2"
    "\<forall>s. data_slot s \<longrightarrow> (s \<in> D2 \<longleftrightarrow> s \<in> kids Single (nbc - DENYFS_DIRECT_BLOCKS))" "D2 \<subseteq> kids Single 0 \<union> {Single}"
    "sval h2 (n2 ! ino) Single \<noteq> DENYFS_INVALID_BLOCK \<longrightarrow>
      (\<exists>j < DENYFS_POINTERS_PER_BLOCK. sval h2 (n2 ! ino) (Entry j) \<noteq> DENYFS_INVALID_BLOCK)" by blast
  have o2: "owned h2 n2 U2" and i2: "ino < length n2" using trims_owned [OF o1 2(3) i1] trims_length [OF 2(3)] i1 by simp_all
  from trunc_double [OF 2(2) o2 i2, of nbc] obtain w3 h3 n3 U3 D3 where
    3: "truncate_double E w2 ino nbc = (Inr (), w3)" "goes E v U3 h3 n3 w3" "trims ino D3 h2 n2 U2 h3 n3 U3"
    "\<forall>s. data_slot s \<longrightarrow> slot_ok s \<longrightarrow> (s \<in> D3 \<longleftrightarrow> (\<exists>c. s \<in> kids (Child c) (nbc - leaf_base c)))"
    "\<forall>s \<in> D3. s = Double \<or> Double \<in> tables_of s"
    "\<forall>q. slot_ok q \<longrightarrow> \<not> data_slot q \<longrightarrow> q \<noteq> Single \<longrightarrow> sval h3 (n3 ! ino) q \<noteq> DENYFS_INVALID_BLOCK \<longrightarrow>
      (\<exists>s. slot_ok s \<and> data_slot s \<and> q \<in> tables_of s \<and> sval h3 (n3 ! ino) s \<noteq> DENYFS_INVALID_BLOCK)" by blast
  let ?D = "?D1 \<union> D2 \<union> D3"
  have t: "trims ino ?D f n U h3 n3 U3" by (rule trims_trans [OF trims_trans [OF 1(2) 2(3) i] 3(3) i])
  have D: "slot_of l \<in> ?D \<longleftrightarrow> nbc \<le> l" if l: "l < DENYFS_MAX_FILE_BLOCKS" for l
  proof -
    have s2: "slot_of l \<in> D2 \<longleftrightarrow> slot_of l \<in> kids Single (nbc - DENYFS_DIRECT_BLOCKS)"
      and s3: "slot_of l \<in> D3 \<longleftrightarrow> (\<exists>c. slot_of l \<in> kids (Child c) (nbc - leaf_base c))"
      using 2(4) 3(4) slot_of_data [of l] slot_of_ok [OF l] by blast+
    show ?thesis unfolding Un_iff s2 s3 slot_of_leaf_base
      by (cases l rule: slot_of_cases) auto
  qed
  have tidy: "\<exists>s. slot_ok s \<and> data_slot s \<and> q \<in> tables_of s \<and> sval h3 (n3 ! ino) s \<noteq> DENYFS_INVALID_BLOCK"
    if q: "slot_ok q" "\<not> data_slot q" "sval h3 (n3 ! ino) q \<noteq> DENYFS_INVALID_BLOCK" for q
  proof (cases "q = Single")
    case False
    with q 3(6) show ?thesis by blast
  next
    case True
    have same: "sval h3 (n3 ! ino) s = sval h2 (n2 ! ino) s" if "slot_ok s" "s \<noteq> Double" "Double \<notin> tables_of s" for s
      using trims_sval [OF 3(3) i2 that(1)] 3(5) that by auto
    obtain j where "j < DENYFS_POINTERS_PER_BLOCK" "sval h2 (n2 ! ino) (Entry j) \<noteq> DENYFS_INVALID_BLOCK"
      using 2(6) same [of Single] q True by auto
    with same [of "Entry j"] True show ?thesis by (intro exI [of _ "Entry j"]) auto
  qed
  have "truncate_file_blocks E u ino nbc = (Inr (), w3)" using 2(1) 3(1) by (simp add: truncate_file_blocks_def)
  moreover have "U3 \<subseteq> U" using t by (auto simp: trims_def cuts_def)
  ultimately show ?thesis
    using 3(2) trims_owned [OF o t i] trims_trees [OF t i tr D tidy] trims_keeps [OF t i D] by blast
qed

end
