(* ===== verification/Resize.thy ===== *)
theory Resize
  imports Shrink
begin

text \<open>
  \<open>denyfs_vol_truncate\<close> of \<open>src/src/fs.c\<close> on a mounted file: the bytes below the new size stay, every byte
  above it reads as zero from then on, and no block is left beyond the new end.
\<close>

definition blocks_for :: "nat \<Rightarrow> nat" where
  "blocks_for n = (n + SECTOR_SIZE - 1) div SECTOR_SIZE"

lemma blocks_for_bounds: "n \<le> blocks_for n * SECTOR_SIZE" "blocks_for n * SECTOR_SIZE < n + SECTOR_SIZE"
proof -
  have "(n + SECTOR_SIZE - 1) mod SECTOR_SIZE < SECTOR_SIZE" by simp
  then show "n \<le> blocks_for n * SECTOR_SIZE" "blocks_for n * SECTOR_SIZE < n + SECTOR_SIZE"
    using div_mult_mod_eq [of "n + SECTOR_SIZE - 1" SECTOR_SIZE] SECTOR_SIZE_pos unfolding blocks_for_def by linarith+
qed

lemma blocks_for_tail:
  assumes "n mod SECTOR_SIZE \<noteq> 0"
  shows "n + (SECTOR_SIZE - n mod SECTOR_SIZE) = blocks_for n * SECTOR_SIZE" "blocks_for n = Suc (n div SECTOR_SIZE)"
proof -
  let ?q = "n div SECTOR_SIZE" and ?r = "n mod SECTOR_SIZE"
  have r: "0 < ?r" "?r < SECTOR_SIZE" using assms by simp_all
  have n: "n = ?q * SECTOR_SIZE + ?r" by simp
  show b: "blocks_for n = Suc ?q"
    unfolding blocks_for_def
  proof (rule div_nat_eqI)
    show "SECTOR_SIZE * Suc ?q \<le> n + SECTOR_SIZE - 1" "n + SECTOR_SIZE - 1 < SECTOR_SIZE * Suc (Suc ?q)"
      using n r unfolding mult_Suc_right mult.commute [of SECTOR_SIZE ?q] by linarith+
  qed
  show "n + (SECTOR_SIZE - ?r) = blocks_for n * SECTOR_SIZE"
    using n r unfolding b mult_Suc by linarith
qed

lemma blocks_for_mod:
  assumes "n mod SECTOR_SIZE = 0"
  shows "blocks_for n * SECTOR_SIZE = n"
proof -
  have n: "n = n div SECTOR_SIZE * SECTOR_SIZE" using assms by (metis add.right_neutral div_mult_mod_eq)
  have "blocks_for n = n div SECTOR_SIZE"
    unfolding blocks_for_def
  proof (rule div_nat_eqI)
    show "SECTOR_SIZE * (n div SECTOR_SIZE) \<le> n + SECTOR_SIZE - 1"
      "n + SECTOR_SIZE - 1 < SECTOR_SIZE * Suc (n div SECTOR_SIZE)"
      using n SECTOR_SIZE_pos unfolding mult_Suc_right mult.commute [of SECTOR_SIZE "n div SECTOR_SIZE"] by linarith+
  qed
  with n show ?thesis by simp
qed

section \<open>Zeroing the rest of the last block\<close>

lemma zero_tail_bytes:
  assumes g: "goes E v U f n u" and o: "owned f n U" and i: "ino < length n" and tr: "trees f n" and ns: "ns < MAX_BYTES"
  shows "\<exists>w h. zero_tail E u ino ns = (Inr (), w) \<and> goes E v U h n w \<and> owned h n U \<and> trees h n \<and>
    (\<forall>j < length n. \<forall>l < DENYFS_MAX_FILE_BLOCKS. file_block h (n ! j) l = file_block f (n ! j) l) \<and>
    (\<forall>j < length n. \<forall>p < MAX_BYTES. file_byte h (n ! j) p =
      (if j = ino \<and> ns \<le> p \<and> p < blocks_for ns * SECTOR_SIZE then 0 else file_byte f (n ! j) p))"
proof (cases "ns mod SECTOR_SIZE = 0")
  case True
  then have "zero_tail E u ino ns = (Inr (), u)" by (simp add: zero_tail_def)
  moreover have "\<not> (ns \<le> p \<and> p < blocks_for ns * SECTOR_SIZE)" for p unfolding blocks_for_mod [OF True] by simp
  ultimately show ?thesis using g o tr by (intro exI [of _ u] exI [of _ f]) auto
next
  case False
  let ?lb = "ns div SECTOR_SIZE" and ?z = "replicate (SECTOR_SIZE - ns mod SECTOR_SIZE) (0 :: u8)"
  have lb: "?lb < DENYFS_MAX_FILE_BLOCKS" by (rule MAX_BYTES_div [OF ns])
  note get = get_block [OF g o i lb]
  have c: "ns mod SECTOR_SIZE + length ?z \<le> SECTOR_SIZE" by simp
  have rng: "ns \<le> p \<and> p < ns + length ?z \<longleftrightarrow> ns \<le> p \<and> p < blocks_for ns * SECTOR_SIZE" for p
    using blocks_for_tail [OF False] by simp
  show ?thesis
  proof (cases "file_block f (n ! ino) ?lb = DENYFS_INVALID_BLOCK")
    case True
    have "zero_tail E u ino ns = (Inr (), u)" using False get True by (simp add: zero_tail_def)
    moreover have "file_byte f (n ! ino) p = 0" if "ns \<le> p" "p < blocks_for ns * SECTOR_SIZE" for p
    proof -
      have "p div SECTOR_SIZE = ?lb" using that chunk_range [OF c, of p] rng [of p] by blast
      then show ?thesis using True by (simp add: file_byte_def block_bytes_def)
    qed
    ultimately show ?thesis using g o tr by (intro exI [of _ u] exI [of _ f]) auto
  next
    case nz: False
    obtain w h where w: "modify_block E u (file_block f (n ! ino) ?lb) (ns mod SECTOR_SIZE) ?z = (Inr (), w)"
      "goes E v U h n w" "owned h n U" "writes ino ns ?z f n h n"
      using modify_chunk [OF g o i lb refl nz c] by blast
    have "zero_tail E u ino ns = (Inr (), w)" using False get nz w(1) by (simp add: zero_tail_def)
    moreover have "trees h n" using w(4) tr by (simp add: writes_def)
    moreover have "file_block h (n ! j) l = file_block f (n ! j) l"
      if "j < length n" "l < DENYFS_MAX_FILE_BLOCKS" for j l
    proof (cases "file_block f (n ! j) l = DENYFS_INVALID_BLOCK")
      case False
      with w(4) that show ?thesis by (simp add: writes_def)
    next
      case True
      have "\<not> (j = ino \<and> (\<exists>p. ns \<le> p \<and> p < ns + length ?z \<and> p div SECTOR_SIZE = l))"
      proof (intro notI, elim conjE exE)
        fix p assume p: "j = ino" "ns \<le> p" "p < ns + length ?z" "p div SECTOR_SIZE = l"
        then have "l = ?lb" using chunk_range [OF c, of p] by simp
        with True nz p(1) show False by simp
      qed
      moreover have "file_block h (n ! j) l \<noteq> DENYFS_INVALID_BLOCK \<longleftrightarrow> file_block f (n ! j) l \<noteq> DENYFS_INVALID_BLOCK \<or>
          j = ino \<and> (\<exists>p. ns \<le> p \<and> p < ns + length ?z \<and> p div SECTOR_SIZE = l)"
        using w(4) that by (simp only: writes_def)
      ultimately show ?thesis using True by argo
    qed
    moreover have "file_byte h (n ! j) p =
        (if j = ino \<and> ns \<le> p \<and> p < blocks_for ns * SECTOR_SIZE then 0 else file_byte f (n ! j) p)"
      if "j < length n" "p < MAX_BYTES" for j p
    proof -
      have "file_byte h (n ! j) p =
          (if j = ino \<and> ns \<le> p \<and> p < ns + length ?z then ?z ! (p - ns) else file_byte f (n ! j) p)"
        using w(4) that by (simp add: writes_def)
      moreover have "?z ! (p - ns) = 0" if "ns \<le> p" "p < ns + length ?z" by (rule nth_replicate) (use that in simp)
      ultimately show ?thesis using rng [of p] by presburger
    qed
    ultimately show ?thesis using w(2,3) by blast
  qed
qed

section \<open>Truncating a mounted file\<close>

text \<open>
  \<open>resized E v w ino s\<close>: \<open>w\<close> is mounted like \<open>v\<close>, file \<open>ino\<close> has size \<open>s\<close>; nothing is left of it beyond \<open>s\<close>
  when that is a shrink, and no other byte of any file has changed.
\<close>

definition resized :: "env \<Rightarrow> volume \<Rightarrow> volume \<Rightarrow> nat \<Rightarrow> nat \<Rightarrow> bool" where
  "resized E v w ino s \<longleftrightarrow> mounted E w \<and> stat v w \<and> used w \<subseteq> used v \<and>
     i_type (inode_at w ino) = i_type (inode_at v ino) \<and> unat (i_size (inode_at w ino)) = s \<and>
     (\<forall>j < DENYFS_MAX_INODES. j \<noteq> ino \<longrightarrow> inode_at w j = inode_at v j) \<and>
     (\<forall>j < DENYFS_MAX_INODES. \<forall>p < MAX_BYTES. file_byte (cells E w) (inode_at w j) p =
       (if j = ino \<and> s < unat (i_size (inode_at v ino)) \<and> s \<le> p then 0 else file_byte (cells E v) (inode_at v j) p)) \<and>
     (\<forall>j < DENYFS_MAX_INODES. \<forall>l < DENYFS_MAX_FILE_BLOCKS. file_block (cells E w) (inode_at w j) l =
       (if j = ino \<and> s < unat (i_size (inode_at v ino)) \<and> blocks_for s \<le> l then DENYFS_INVALID_BLOCK
        else file_block (cells E v) (inode_at v j) l))"

text \<open>The shrink before the size is set.\<close>

lemma shrink_bytes:
  assumes g: "goes E v U f n u" and o: "owned f n U" and i: "ino < length n" and tr: "trees f n" and s: "s < MAX_BYTES"
  shows "\<exists>w h m V. shrink_file E u ino s = (Inr (), w) \<and> goes E v V h m w \<and> owned h m V \<and> trees h m \<and> V \<subseteq> U \<and>
    length m = length n \<and> (\<forall>j < length n. j \<noteq> ino \<longrightarrow> m ! j = n ! j) \<and>
    i_type (m ! ino) = i_type (n ! ino) \<and> i_size (m ! ino) = i_size (n ! ino) \<and>
    (\<forall>j < length n. \<forall>l < DENYFS_MAX_FILE_BLOCKS. file_block h (m ! j) l =
      (if j = ino \<and> blocks_for s \<le> l then DENYFS_INVALID_BLOCK else file_block f (n ! j) l)) \<and>
    (\<forall>j < length n. \<forall>p < MAX_BYTES. file_byte h (m ! j) p = (if j = ino \<and> s \<le> p then 0 else file_byte f (n ! j) p))"
proof -
  obtain x h where x: "zero_tail E u ino s = (Inr (), x)" "goes E v U h n x" "owned h n U" "trees h n"
    "\<forall>j < length n. \<forall>l < DENYFS_MAX_FILE_BLOCKS. file_block h (n ! j) l = file_block f (n ! j) l"
    "\<forall>j < length n. \<forall>p < MAX_BYTES. file_byte h (n ! j) p =
      (if j = ino \<and> s \<le> p \<and> p < blocks_for s * SECTOR_SIZE then 0 else file_byte f (n ! j) p)"
    using zero_tail_bytes [OF g o i tr s] by blast
  obtain w k m V where w: "truncate_file_blocks E x ino (blocks_for s) = (Inr (), w)" "goes E v V k m w" "owned k m V"
    "trees k m" "V \<subseteq> U" "keeps_below (blocks_for s) ino h n k m"
    using truncate_blocks [OF x(2,3) i x(4), of "blocks_for s"] by blast
  have "shrink_file E u ino s = (Inr (), w)"
    using x(1) w(1) by (simp add: shrink_file_def blocks_for_def)
  moreover have bl: "file_block k (m ! j) l = (if j = ino \<and> blocks_for s \<le> l then DENYFS_INVALID_BLOCK else file_block f (n ! j) l)"
    "file_block k (m ! j) l \<noteq> DENYFS_INVALID_BLOCK \<Longrightarrow> k (file_block k (m ! j) l) = h (file_block k (m ! j) l)"
    if "j < length n" "l < DENYFS_MAX_FILE_BLOCKS" for j l
  proof -
    have "\<forall>j < length n. \<forall>l < DENYFS_MAX_FILE_BLOCKS. file_block k (m ! j) l =
        (if j = ino \<and> blocks_for s \<le> l then DENYFS_INVALID_BLOCK else file_block h (n ! j) l)"
      "\<forall>j < length n. \<forall>l < DENYFS_MAX_FILE_BLOCKS. file_block k (m ! j) l \<noteq> DENYFS_INVALID_BLOCK \<longrightarrow>
        k (file_block k (m ! j) l) = h (file_block k (m ! j) l)"
      using w(6) unfolding keeps_below_def by blast+
    with x(5) that show "file_block k (m ! j) l = (if j = ino \<and> blocks_for s \<le> l then DENYFS_INVALID_BLOCK else file_block f (n ! j) l)"
      "file_block k (m ! j) l \<noteq> DENYFS_INVALID_BLOCK \<Longrightarrow> k (file_block k (m ! j) l) = h (file_block k (m ! j) l)"
      by (metis, blast)
  qed
  moreover have "file_byte k (m ! j) p = (if j = ino \<and> s \<le> p then 0 else file_byte f (n ! j) p)"
    if jp: "j < length n" "p < MAX_BYTES" for j p
  proof -
    let ?l = "p div SECTOR_SIZE"
    have l: "?l < DENYFS_MAX_FILE_BLOCKS" using jp(2) by (rule MAX_BYTES_div)
    have side: "blocks_for s \<le> ?l \<longleftrightarrow> blocks_for s * SECTOR_SIZE \<le> p" by (simp add: less_eq_div_iff_mult_less_eq)
    have hp: "file_byte h (n ! j) p = (if j = ino \<and> s \<le> p \<and> p < blocks_for s * SECTOR_SIZE then 0 else file_byte f (n ! j) p)"
      using x(6) jp by blast
    show ?thesis
    proof (cases "j = ino \<and> blocks_for s \<le> ?l")
      case True
      then have "s \<le> p" using side blocks_for_bounds(1) [of s] by linarith
      then show ?thesis using bl(1) [OF jp(1) l] True by (simp add: file_byte_def block_bytes_def)
    next
      case False
      then have e: "file_block k (m ! j) ?l = file_block h (n ! j) ?l" 
        using bl(1) [OF jp(1) l] x(5) jp(1) l unfolding if_not_P [OF False] by metis
      have "file_byte k (m ! j) p = file_byte h (n ! j) p"
        using bl(2) [OF jp(1) l] e by (simp add: file_byte_def block_bytes_def)
      then show ?thesis using hp False side by auto
    qed
  qed
  moreover have "length m = length n" "\<forall>j < length n. j \<noteq> ino \<longrightarrow> m ! j = n ! j"
    "i_type (m ! ino) = i_type (n ! ino)" "i_size (m ! ino) = i_size (n ! ino)"
    using w(6) by (simp_all add: keeps_below_def)
  ultimately show ?thesis using w(2-5) by blast
qed

lemma vol_truncate_contents:
  assumes m: "mounted E v" and h: "hmac_works E"
    and i: "ino < DENYFS_MAX_INODES" "i_type (inode_at v ino) = DENYFS_ITYPE_FILE"
    and sz: "unat new_size \<le> DENYFS_MAX_FILE_SIZE"
  shows "\<exists>w. vol_truncate E now v ino new_size = (Inr (), w) \<and> resized E v w ino (unat new_size) \<and>
    (new_size = i_size (inode_at v ino) \<longrightarrow> w = v) \<and> (new_size \<noteq> i_size (inode_at v ino) \<longrightarrow> synced E w)"
proof (cases "new_size = i_size (inode_at v ino)")
  case True
  then have "vol_truncate E now v ino new_size = (Inr (), v)" using i sz by (simp add: vol_truncate_def)
  moreover have "resized E v v ino (unat new_size)" using m True by (simp add: resized_def)
  ultimately show ?thesis using True by simp
next
  case False
  note g = mounted_goes [OF m]
  let ?f = "cells E v" and ?n = "v_inodes v" and ?U = "used v" and ?s = "unat new_size"
  have len: "length ?n = DENYFS_MAX_INODES" using g by blast
  have ln: "ino < length ?n" using len i(1) by simp
  let ?shr = "new_size < i_size (inode_at v ino)"
  have sm: "?shr \<longleftrightarrow> ?s < unat (i_size (inode_at v ino))" by (simp add: word_less_nat_alt)
  have mx: "?s < MAX_BYTES" if ?shr
    using that sm mounted_size [OF m i(1)] MAX_FILE_SIZE_bytes by linarith
  have so: "\<forall>j < length ?n. unat (i_size (?n ! j)) \<le> DENYFS_MAX_FILE_SIZE"
    using mounted_size [OF m] len by (simp add: inode_at_def)
  obtain w h' n' V where w: "(if ?shr then shrink_file E v ino ?s else (Inr (), v)) = (Inr (), w)"
    "goes E v V h' n' w" "owned h' n' V" "trees h' n'" "V \<subseteq> ?U" "length n' = length ?n"
    "\<forall>j < length ?n. j \<noteq> ino \<longrightarrow> n' ! j = ?n ! j" "i_type (n' ! ino) = i_type (?n ! ino)"
    "i_size (n' ! ino) = i_size (?n ! ino)"
    "\<forall>j < length ?n. \<forall>l < DENYFS_MAX_FILE_BLOCKS. file_block h' (n' ! j) l =
       (if j = ino \<and> ?shr \<and> blocks_for ?s \<le> l then DENYFS_INVALID_BLOCK else file_block ?f (?n ! j) l)"
    "\<forall>j < length ?n. \<forall>p < MAX_BYTES. file_byte h' (n' ! j) p =
       (if j = ino \<and> ?shr \<and> ?s \<le> p then 0 else file_byte ?f (?n ! j) p)"
  proof (cases ?shr)
    case True
    have "goes E v ?U ?f ?n v" "owned ?f ?n ?U" "trees ?f ?n" using g by blast+
    from shrink_bytes [OF this(1,2) ln this(3) mx [OF True]] obtain w h' n' V where
      a: "shrink_file E v ino ?s = (Inr (), w)" "goes E v V h' n' w" "owned h' n' V" "trees h' n'" "V \<subseteq> ?U"
      "length n' = length ?n" "\<forall>j < length ?n. j \<noteq> ino \<longrightarrow> n' ! j = ?n ! j" "i_type (n' ! ino) = i_type (?n ! ino)"
      "i_size (n' ! ino) = i_size (?n ! ino)"
      "\<forall>j < length ?n. \<forall>l < DENYFS_MAX_FILE_BLOCKS. file_block h' (n' ! j) l =
         (if j = ino \<and> blocks_for ?s \<le> l then DENYFS_INVALID_BLOCK else file_block ?f (?n ! j) l)"
      "\<forall>j < length ?n. \<forall>p < MAX_BYTES. file_byte h' (n' ! j) p =
         (if j = ino \<and> ?s \<le> p then 0 else file_byte ?f (?n ! j) p)" by blast
    show thesis by (rule that [OF _ a(2-9)]) (use True a(1,10,11) in simp_all)
  next
    case False
    then show thesis using that [of v ?U ?f ?n] g by simp
  qed
  have s: "\<forall>j < length n'. unat (i_size (n' ! j)) \<le> DENYFS_MAX_FILE_SIZE" using so w(6,7,9) by metis
  let ?nd = "(n' ! ino)\<lparr>i_size := new_size, i_mtime := now\<rparr>"
  have in': "ino < length n'" using ln w(6) by simp
  obtain x where x: "vol_flush E (upd_inode w ino (\<lambda>nd. nd\<lparr>i_size := new_size, i_mtime := now\<rparr>)) = (Inr (), x)"
    "mounted E x" "synced E x" "v_inodes x = n'[ino := ?nd]" "stat v x" "used x = V"
    "\<forall>j < length n'. \<forall>p < MAX_BYTES. file_byte (cells E x) (n'[ino := ?nd] ! j) p = file_byte h' (n' ! j) p"
    "\<forall>j < length n'. \<forall>l < DENYFS_MAX_FILE_BLOCKS. file_block (cells E x) (n'[ino := ?nd] ! j) l = file_block h' (n' ! j) l"
    using set_size_flush [OF w(2,3,4) in' h s sz] by blast
  have vt: "vol_truncate E now v ino new_size = (Inr (), x)"
    using i sz False w(1) x(1) by (simp add: vol_truncate_def)
  have at: "inode_at x j = n'[ino := ?nd] ! j" "inode_at v j = ?n ! j" for j by (simp_all add: inode_at_def x(4))
  have "resized E v x ino ?s"
    unfolding resized_def
  proof (intro conjI allI impI)
    show "mounted E x" "stat v x" "used x \<subseteq> used v" using x w(5) by simp_all
    show "i_type (inode_at x ino) = i_type (inode_at v ino)" "unat (i_size (inode_at x ino)) = ?s"
      using in' w(8) by (simp_all add: at)
    show "inode_at x j = inode_at v j" if "j < DENYFS_MAX_INODES" "j \<noteq> ino" for j
      using that w(7) len by (simp add: at)
    show "file_byte (cells E x) (inode_at x j) p = (if j = ino \<and> ?s < unat (i_size (inode_at v ino)) \<and> ?s \<le> p then 0
        else file_byte (cells E v) (inode_at v j) p)" if "j < DENYFS_MAX_INODES" "p < MAX_BYTES" for j p
    proof -
      have "file_byte (cells E x) (inode_at x j) p = file_byte h' (n' ! j) p"
        using x(7) that len w(6) unfolding at by simp
      also have "\<dots> = (if j = ino \<and> ?shr \<and> ?s \<le> p then 0 else file_byte ?f (?n ! j) p)"
        by (rule w(11) [unfolded len, rule_format, OF that])
      finally show ?thesis unfolding word_less_nat_alt at(2) .
    qed
    show "file_block (cells E x) (inode_at x j) l = (if j = ino \<and> ?s < unat (i_size (inode_at v ino)) \<and> blocks_for ?s \<le> l
        then DENYFS_INVALID_BLOCK else file_block (cells E v) (inode_at v j) l)"
      if "j < DENYFS_MAX_INODES" "l < DENYFS_MAX_FILE_BLOCKS" for j l
    proof -
      have "file_block (cells E x) (inode_at x j) l = file_block h' (n' ! j) l"
        using x(8) that len w(6) unfolding at by simp
      also have "\<dots> = (if j = ino \<and> ?shr \<and> blocks_for ?s \<le> l then DENYFS_INVALID_BLOCK else file_block ?f (?n ! j) l)"
        by (rule w(10) [unfolded len, rule_format, OF that])
      finally show ?thesis unfolding word_less_nat_alt at(2) .
    qed
  qed
  with vt False x(3) show ?thesis by blast
qed

text \<open>What a truncation does to the contents of the file, and to the others.\<close>

lemma resized_contents:
  assumes r: "resized E v w ino s" and i: "ino < DENYFS_MAX_INODES"
    and t: "unat (i_size (inode_at v ino)) < s \<Longrightarrow> tail_zero E v ino"
  shows "contents E w ino = take s (contents E v ino) @ replicate (s - unat (i_size (inode_at v ino))) 0"
proof (rule nth_equalityI)
  have sz: "unat (i_size (inode_at w ino)) = s" using r by (simp add: resized_def)
  then show "length (contents E w ino) = length (take s (contents E v ino) @ replicate (s - unat (i_size (inode_at v ino))) 0)"
    by (simp add: min_def)
  fix p assume "p < length (contents E w ino)"
  then have p: "p < s" by (simp add: sz)
  have "s \<le> DENYFS_MAX_FILE_SIZE" using r mounted_size [of E w ino] i by (simp add: resized_def)
  then have pm: "p < MAX_BYTES" using p MAX_FILE_SIZE_bytes by linarith
  have "\<forall>j < DENYFS_MAX_INODES. \<forall>p < MAX_BYTES. file_byte (cells E w) (inode_at w j) p =
      (if j = ino \<and> s < unat (i_size (inode_at v ino)) \<and> s \<le> p then 0 else file_byte (cells E v) (inode_at v j) p)"
    using r unfolding resized_def by blast
  then have b: "file_byte (cells E w) (inode_at w ino) p = file_byte (cells E v) (inode_at v ino) p"
    using i pm p by simp
  have z: "file_byte (cells E v) (inode_at v ino) p = 0" if "unat (i_size (inode_at v ino)) \<le> p"
    using t that p pm by (simp add: tail_zero_def)
  show "contents E w ino ! p = (take s (contents E v ino) @ replicate (s - unat (i_size (inode_at v ino))) 0) ! p"
    using p sz b z by (simp add: contents_def nth_append)
qed

lemma resized_tail:
  assumes r: "resized E v w ino s" and i: "ino < DENYFS_MAX_INODES"
    and t: "unat (i_size (inode_at v ino)) \<le> s \<Longrightarrow> tail_zero E v ino"
  shows "tail_zero E w ino"
  unfolding tail_zero_def
proof (intro allI impI)
  fix p assume p: "unat (i_size (inode_at w ino)) \<le> p" "p < MAX_BYTES"
  have sz: "unat (i_size (inode_at w ino)) = s" using r by (simp add: resized_def)
  have "\<forall>j < DENYFS_MAX_INODES. \<forall>p < MAX_BYTES. file_byte (cells E w) (inode_at w j) p =
      (if j = ino \<and> s < unat (i_size (inode_at v ino)) \<and> s \<le> p then 0 else file_byte (cells E v) (inode_at v j) p)"
    using r unfolding resized_def by blast
  then have "file_byte (cells E w) (inode_at w ino) p =
      (if s < unat (i_size (inode_at v ino)) then 0 else file_byte (cells E v) (inode_at v ino) p)"
    using i p sz by simp
  then show "file_byte (cells E w) (inode_at w ino) p = 0"
    using t p sz by (auto simp: tail_zero_def)
qed

lemma resized_fits:
  assumes r: "resized E v w ino s" and i: "ino < DENYFS_MAX_INODES" and f: "unat (i_size (inode_at v ino)) \<le> s \<Longrightarrow> fits E v ino"
  shows "fits E w ino"
  unfolding fits_def
proof (intro allI impI)
  fix l assume l: "l < DENYFS_MAX_FILE_BLOCKS" "file_block (cells E w) (inode_at w ino) l \<noteq> DENYFS_INVALID_BLOCK"
  have sz: "unat (i_size (inode_at w ino)) = s" using r by (simp add: resized_def)
  have "\<forall>j < DENYFS_MAX_INODES. \<forall>l < DENYFS_MAX_FILE_BLOCKS. file_block (cells E w) (inode_at w j) l =
      (if j = ino \<and> s < unat (i_size (inode_at v ino)) \<and> blocks_for s \<le> l then DENYFS_INVALID_BLOCK
       else file_block (cells E v) (inode_at v j) l)"
    using r unfolding resized_def by blast
  then have b: "file_block (cells E w) (inode_at w ino) l = (if s < unat (i_size (inode_at v ino)) \<and> blocks_for s \<le> l
      then DENYFS_INVALID_BLOCK else file_block (cells E v) (inode_at v ino) l)"
    using i l(1) by simp
  show "l * SECTOR_SIZE < unat (i_size (inode_at w ino))"
  proof (cases "s < unat (i_size (inode_at v ino))")
    case True
    then have "Suc l \<le> blocks_for s" using l(2) b by (simp split: if_split_asm)
    then have "Suc l * SECTOR_SIZE \<le> blocks_for s * SECTOR_SIZE" by (rule mult_le_mono1)
    then show ?thesis using blocks_for_bounds(2) [of s] sz by simp
  next
    case False
    then have "l * SECTOR_SIZE < unat (i_size (inode_at v ino))" using f l b by (simp add: fits_def)
    then show ?thesis using False sz by simp
  qed
qed

lemma resized_others:
  assumes r: "resized E v w ino s" and j: "j < DENYFS_MAX_INODES" "j \<noteq> ino"
  shows "contents E w j = contents E v j" "tail_zero E w j = tail_zero E v j" "fits E w j = fits E v j"
proof -
  have nd: "inode_at w j = inode_at v j" using r j by (simp add: resized_def)
  have m: "mounted E w" using r by (simp add: resized_def)
  have by': "file_byte (cells E w) (inode_at w j) p = file_byte (cells E v) (inode_at v j) p" if "p < MAX_BYTES" for p
    using r j that unfolding resized_def by metis
  have bl: "file_block (cells E w) (inode_at w j) l = file_block (cells E v) (inode_at v j) l" if "l < DENYFS_MAX_FILE_BLOCKS" for l
    using r j that unfolding resized_def by metis
  have "unat (i_size (inode_at w j)) \<le> MAX_BYTES" using mounted_size [OF m j(1)] MAX_FILE_SIZE_bytes by simp
  then show "contents E w j = contents E v j" by (intro contents_eq by') (simp_all add: nd)
  show "tail_zero E w j = tail_zero E v j" using by' by (simp add: tail_zero_def nd)
  show "fits E w j = fits E v j" using bl by (simp add: fits_def nd)
qed

end
