(* ===== verification/Release.thy ===== *)
theory Release
  imports Resize
begin

text \<open>
  \<open>free_inode\<close> of \<open>src/src/fs.c\<close> on a mounted volume: every block of the file's tree, data and tables
  alike, is given back, and nothing else changes but the inode and the two counters.
\<close>

section \<open>The direct blocks\<close>

lemma free_direct_cuts:
  assumes "goes E v U f n u" "owned f n U" "ino < length n" "distinct is" "set is \<subseteq> {..<DENYFS_DIRECT_BLOCKS}"
  shows "\<exists>m V. goes E v V f m (free_direct u ino is) \<and> cuts ino {Direct i | i. i \<in> set is} f n U f m V"
  using assms
proof (induction "is" arbitrary: u U n)
  case Nil
  then show ?case by (intro exI [of _ n] exI [of _ U]) simp
next
  case (Cons i "is")
  let ?b = "i_direct (n ! ino) ! i" and ?D = "{Direct j | j. j \<in> set is}"
  have nd: "inode_at u ino = n ! ino" using Cons.prems(1) by (simp add: goes_def inode_at_def)
  have i: "i < DENYFS_DIRECT_BLOCKS" "i \<notin> set is" "distinct is" "set is \<subseteq> {..<DENYFS_DIRECT_BLOCKS}" using Cons.prems by auto
  have D: "{Direct j | j. j \<in> set (i # is)} = {Direct i} \<union> ?D" by auto
  show ?case
  proof (cases "?b = DENYFS_INVALID_BLOCK")
    case True
    have "trims ino {Direct i} f n U f n U" using True by (intro trims_void) auto
    then have v: "cuts ino {Direct i} f n U f n U" by (simp add: trims_def)
    from Cons.IH [OF Cons.prems(1-3) i(3,4)] obtain m V where
      m: "goes E v V f m (free_direct u ino is)" "cuts ino ?D f n U f m V" by blast
    have e: "free_direct u ino (i # is) = free_direct u ino is" using True by (simp add: nd Let_def)
    show ?thesis unfolding D e using m(1) cut_trans [OF v m(2) Cons.prems(3)] by blast
  next
    case False
    let ?set = "\<lambda>nd. nd\<lparr>i_direct := (i_direct nd)[i := DENYFS_INVALID_BLOCK]\<rparr>"
    let ?u = "upd_inode (free_block u ?b) ino ?set"
    let ?n = "n[ino := ?set (n ! ino)]"
    have g: "goes E v (U - {unat ?b}) f ?n ?u"
      using goes_upd [OF goes_free [OF Cons.prems(1)], of ?set] by (simp add: inode_ok_def)
    have vl: "vals f (n ! ino) {Direct i} = {unat ?b}" using False i(1) by (auto simp: in_vals)
    have t: "cuts ino {Direct i} f n U f ?n (U - {unat ?b})"
      using cut_direct [OF goes_inode_ok [OF Cons.prems(1,3)] Cons.prems(3) i(1), of f U] unfolding vl .
    have o: "owned f ?n (U - {unat ?b})" using cut_owned [OF Cons.prems(2) t Cons.prems(3)] .
    have ln: "ino < length ?n" using Cons.prems(3) by simp
    from Cons.IH [OF g o ln i(3,4)] obtain m V where
      m: "goes E v V f m (free_direct ?u ino is)" "cuts ino ?D f ?n (U - {unat ?b}) f m V" by blast
    have e: "free_direct u ino (i # is) = free_direct ?u ino is" using False by (simp add: nd Let_def)
    show ?thesis unfolding D e using m(1) cut_trans [OF t m(2) Cons.prems(3)] by blast
  qed
qed

section \<open>The single-indirect table\<close>

lemma cut_all_single:
  assumes "ino < length n" "i_indirect (n ! ino) \<noteq> DENYFS_INVALID_BLOCK"
  shows "cuts ino (kids Single 0 \<union> {Single}) f n U f (n[ino := (n ! ino)\<lparr>i_indirect := DENYFS_INVALID_BLOCK\<rparr>])
    (U - unat ` set (live (table f (i_indirect (n ! ino)))) - {unat (i_indirect (n ! ino))})"
proof -
  let ?m = "n[ino := (n ! ino)\<lparr>i_indirect := DENYFS_INVALID_BLOCK\<rparr>]"
  have "sval f (?m ! j) s = (if j = ino \<and> s \<in> kids Single 0 \<union> {Single} then DENYFS_INVALID_BLOCK else sval f (n ! j) s)"
    if "j < length n" "slot_ok s" for j s
    using that assms(1) by (cases "j = ino"; cases s) auto
  moreover have "U - unat ` set (live (table f (i_indirect (n ! ino)))) - {unat (i_indirect (n ! ino))} =
      U - vals f (n ! ino) (kids Single 0 \<union> {Single})"
    using vals_kids(1) [of Single _ f "n ! ino" 0] vals_one [of Single f "n ! ino"] assms(2) unfolding vals_Un by auto
  ultimately show ?thesis using assms(1) unfolding cuts_def by simp
qed

section \<open>The double-indirect tree\<close>

definition under :: "nat \<Rightarrow> slot set" where
  "under c = kids (Child c) 0 \<union> {Child c}"

lemma free_children_vals:
  assumes "goes E v V f n u" "owned f n U" "ino < length n" "length cs + k = DENYFS_POINTERS_PER_BLOCK"
    "\<And>i. i < length cs \<Longrightarrow> cs ! i = sval f (n ! ino) (Child (k + i))"
    "\<And>c. k \<le> c \<Longrightarrow> points f n ino (Child c) \<Longrightarrow> unat (sval f (n ! ino) (Child c)) \<in> V"
  shows "\<exists>w. free_children E u cs = (Inr (), w) \<and> goes E v (V - vals f (n ! ino) (\<Union>c \<in> {k..}. under c)) f n w"
  using assms
proof (induction cs arbitrary: u V k)
  case Nil
  have "vals f (n ! ino) (\<Union>c \<in> {k..}. under c) = {}" using Nil.prems(4) by (auto simp: in_vals under_def)
  then show ?case using Nil.prems(1) by simp
next
  case (Cons c cs)
  let ?nd = "n ! ino" and ?P = DENYFS_POINTERS_PER_BLOCK
  have k: "k < ?P" "length cs + Suc k = ?P" using Cons.prems(4) by simp_all
  have c: "c = sval f ?nd (Child k)" using Cons.prems(5) [of 0] by simp
  have rest: "\<And>i. i < length cs \<Longrightarrow> cs ! i = sval f ?nd (Child (Suc k + i))" using Cons.prems(5) [of "Suc i" for i] by simp
  have un: "(\<Union>c \<in> {k..}. under c) = under k \<union> (\<Union>c \<in> {Suc k..}. under c)"
    by (metis UN_insert atLeast_Suc_greaterThan ivl_disj_un_singleton(1) Un_insert_left sup_bot_left)
  show ?case
  proof (cases "c = DENYFS_INVALID_BLOCK")
    case True
    have "sval f ?nd s = DENYFS_INVALID_BLOCK" if "s \<in> under k" "slot_ok s" for s
      using that True c by (auto simp: under_def)
    then have "vals f ?nd (under k) = {}" by (auto simp: in_vals)
    moreover obtain w where "free_children E u cs = (Inr (), w)" "goes E v (V - vals f ?nd (\<Union>c \<in> {Suc k..}. under c)) f n w"
      using Cons.IH [OF Cons.prems(1-3) k(2) rest] Cons.prems(6) by auto
    ultimately show ?thesis using True unfolding un vals_Un by simp
  next
    case False
    have P: "points f n ino (Child k)" using False c Cons.prems(3) k(1) by (simp add: points_def)
    have cV: "unat c \<in> V" using Cons.prems(6) [OF order_refl P] c by simp
    have rd: "read_pointer_table E u c = (Inr (table f c), u)" using goes_read_table [OF Cons.prems(1) cV] .
    let ?V = "V - vals f ?nd (under k)"
    have "?V = V - unat ` set (live (table f c)) - {unat c}"
      using vals_kids(1) [of "Child k" k f ?nd 0] vals_one [of "Child k" f ?nd] k(1) False c unfolding under_def vals_Un by auto
    then have g: "goes E v ?V f n (free_block (free_pointers u (table f c)) c)"
      using goes_free [OF goes_free_pointers [OF Cons.prems(1), of "table f c"], of c] by simp
    have keep: "unat (sval f ?nd (Child d)) \<in> ?V" if d: "Suc k \<le> d" "points f n ino (Child d)" for d
    proof -
      have "Child d \<notin> under k" using d(1) by (auto simp: under_def)
      then show ?thesis using owned_vals [OF Cons.prems(2) d(2) Cons.prems(3), of "under k"] Cons.prems(6) [of d] d by simp
    qed
    obtain w where w: "free_children E (free_block (free_pointers u (table f c)) c) cs = (Inr (), w)"
      "goes E v (?V - vals f ?nd (\<Union>c \<in> {Suc k..}. under c)) f n w"
      using Cons.IH [OF g Cons.prems(2,3) k(2) rest keep] by blast
    have "?V - vals f ?nd (\<Union>c \<in> {Suc k..}. under c) = V - vals f ?nd (\<Union>c \<in> {k..}. under c)"
      unfolding un vals_Un by blast
    with w rd False show ?thesis by simp
  qed
qed

lemma cut_all_double:
  assumes "ino < length n" "i_double (n ! ino) \<noteq> DENYFS_INVALID_BLOCK"
  shows "cuts ino ((\<Union>c \<in> {0..}. under c) \<union> {Double}) f n U f (n[ino := (n ! ino)\<lparr>i_double := DENYFS_INVALID_BLOCK\<rparr>])
    (U - vals f (n ! ino) (\<Union>c \<in> {0..}. under c) - {unat (i_double (n ! ino))})"
proof -
  let ?m = "n[ino := (n ! ino)\<lparr>i_double := DENYFS_INVALID_BLOCK\<rparr>]" and ?D = "\<Union>c \<in> {0..}. under c"
  have "Child c \<in> ?D" "Leaf c l \<in> ?D" "Direct i \<notin> ?D" "Entry i \<notin> ?D" "Single \<notin> ?D" for c l i
    by (auto simp: under_def)
  then have "sval f (?m ! j) s = (if j = ino \<and> s \<in> ?D \<union> {Double} then DENYFS_INVALID_BLOCK else sval f (n ! j) s)"
    if "j < length n" "slot_ok s" for j s
    using that assms(1) by (cases "j = ino"; cases s) (auto simp del: UN_iff)
  moreover have "U - vals f (n ! ino) ?D - {unat (i_double (n ! ino))} = U - vals f (n ! ino) (?D \<union> {Double})"
    using vals_one [of Double f "n ! ino"] assms(2) unfolding vals_Un by auto
  ultimately show ?thesis using assms(1) unfolding cuts_def by simp
qed

section \<open>The whole inode\<close>

text \<open>The free-inode counter is the one part of \<open>stat\<close> that changes.\<close>

definition like :: "volume \<Rightarrow> volume \<Rightarrow> bool" where
  "like v w \<longleftrightarrow> same_config v w \<and> same_shape v w \<and> pool w = pool v"

lemma like_refl [simp]: "like v v"
  by (simp add: like_def same_config_def same_shape_def)

lemma like_trans: "like u v \<Longrightarrow> like v w \<Longrightarrow> like u w"
  unfolding like_def using sh.R_trans by (auto simp: same_config_def)

lemma stat_like: "stat v w \<Longrightarrow> like v w"
  by (simp add: stat_def like_def)

lemma validate_counter:
  assumes "validate_superblock sb n" "unat k < DENYFS_MAX_INODES"
  shows "validate_superblock (sb\<lparr>sb_free_inodes := k\<rparr>) n"
  using assms by (simp add: validate_superblock_def Let_def split: if_splits)

lemma core_counter:
  assumes c: "core E v" and k: "unat k < DENYFS_MAX_INODES"
  defines "w \<equiv> v\<lparr>v_sb := (v_sb v)\<lparr>sb_free_inodes := k\<rparr>\<rparr>"
  shows "core E w" "like v w" "used w = used v" "cells E w = cells E v" "v_inodes w = v_inodes v"
proof -
  have us: "used w = used v" "pool w = pool v" "bitmap_inv w = bitmap_inv v" "small_volume w = small_volume v"
    by (simp_all add: w_def used_def pool_def bitmap_inv_def small_volume_def)
  have ce: "cells E w = cells E v" by (rule ext) (simp add: w_def cells_def)
  have sh: "same_shape v w" unfolding w_def by (rule sh.R_free_inodes)
  have "same_config v w" by (simp add: same_config_def w_def)
  then show "like v w" using sh us by (simp add: like_def)
  have rd: "ready E w" using sr.R_free_inodes [of E v k] c by (simp add: stays_ready_def core_def w_def)
  have "wf v" using c by (simp add: core_def)
  then have "wf w" using validate_counter [OF _ k] by (simp add: wf_def w_def inodes_ok_def)
  moreover have "clean_synced E w"
    using c ce by (simp add: core_def clean_synced_def bitmap_on_disk_def w_def)
  ultimately show "core E w" using rd us c by (simp add: core_def)
  show "used w = used v" "cells E w = cells E v" "v_inodes w = v_inodes v" using us ce by (simp_all add: w_def)
qed

text \<open>A free inode: no blocks, no size.\<close>

definition blank :: "(u32 \<Rightarrow> bytes) \<Rightarrow> inode \<Rightarrow> bool" where
  "blank f nd \<longleftrightarrow> i_size nd = 0 \<and> i_block_count nd = 0 \<and> (\<forall>s. slot_ok s \<longrightarrow> sval f nd s = DENYFS_INVALID_BLOCK)"

lemma release_blank:
  assumes g: "goes E v V f m u" and o: "owned f m V" and i: "ino < length m"
    and z: "\<And>s. slot_ok s \<Longrightarrow> sval f (m ! ino) s = DENYFS_INVALID_BLOCK"
    and k: "unat (sb_free_inodes (v_sb v)) + 1 < DENYFS_MAX_INODES"
  defines "w \<equiv> release_inode u ino"
  shows "core E w" "like v w" "used w = V" "cells E w = f" "length (v_inodes w) = length m"
    "\<forall>j < length m. j \<noteq> ino \<longrightarrow> v_inodes w ! j = m ! j"
    "blank f (v_inodes w ! ino)" "i_type (v_inodes w ! ino) = DENYFS_ITYPE_FREE" "owned f (v_inodes w) V"
    "sb_free_inodes (v_sb w) = sb_free_inodes (v_sb v) + 1"
proof -
  let ?h = "\<lambda>nd :: inode. nd\<lparr>i_type := DENYFS_ITYPE_FREE, i_size := 0, i_block_count := 0, i_mtime := 0\<rparr>"
  let ?m = "m[ino := ?h (m ! ino)]" and ?x = "upd_inode u ino ?h"
  have x: "goes E v V f ?m ?x" using goes_upd [OF g, of ?h ino] by (simp add: inode_ok_def)
  have cx: "core E ?x" "stat v ?x" "used ?x = V" "cells E ?x = f" "v_inodes ?x = ?m" using x by (simp_all add: goes_def)
  let ?k = "sb_free_inodes (v_sb ?x) + 1"
  have sk: "sb_free_inodes (v_sb ?x) = sb_free_inodes (v_sb v)" using cx(2) by (simp add: stat_def)
  have uk: "unat ?k < DENYFS_MAX_INODES" using k unfolding sk by (simp add: unat_word_ariths DENYFS_MAX_INODES_def)
  have r: "w = ?x\<lparr>v_sb := (v_sb ?x)\<lparr>sb_free_inodes := ?k\<rparr>\<rparr>" by (simp add: w_def release_inode_def Let_def)
  note w = core_counter [OF cx(1) uk, folded r]
  have sh: "sval f (?h nd) s = sval f nd s" for nd s by (cases s) simp_all
  have ow: "owned f ?m V"
  proof (rule owned_same [OF o])
    show "sval f (?m ! j) s = sval f (m ! j) s" if "j < length m" "slot_ok s" for j s
      using that i sh by (cases "j = ino") simp_all
  qed simp
  show "core E w" "like v w" by (rule w(1), rule like_trans [OF stat_like [OF cx(2)] w(2)])
  show "used w = V" "cells E w = f" "length (v_inodes w) = length m" "\<forall>j < length m. j \<noteq> ino \<longrightarrow> v_inodes w ! j = m ! j"
    "owned f (v_inodes w) V"
    using w(3-5) cx(3-5) ow by simp_all
  show "blank f (v_inodes w ! ino)" "i_type (v_inodes w ! ino) = DENYFS_ITYPE_FREE"
    using i z by (simp_all add: w(5) cx(5) blank_def sh)
  show "sb_free_inodes (v_sb w) = sb_free_inodes (v_sb v) + 1" using sk by (simp add: r)
qed

text \<open>Every slot is cut when the three parts of the tree are.\<close>

lemma all_slots_cut:
  "slot_ok s \<Longrightarrow> s \<in> {Direct i | i. i \<in> set [0..<DENYFS_DIRECT_BLOCKS]} \<union> (kids Single 0 \<union> {Single}) \<union>
     ((\<Union>c \<in> {0..}. under c) \<union> {Double})"
  by (cases s) (auto simp: under_def)

lemma vals_total: "(\<And>s. slot_ok s \<Longrightarrow> s \<in> D) \<Longrightarrow> vals f nd D = vals f nd UNIV"
  by (auto simp: vals_def)

lemma free_inode_all:
  assumes g: "goes E v U f n u" and o: "owned f n U" and i: "ino < length n"
    and k: "unat (sb_free_inodes (v_sb v)) + 1 < DENYFS_MAX_INODES"
  shows "\<exists>w. free_inode E u ino = (Inr (), w) \<and> core E w \<and> like v w \<and>
    used w = U - vals f (n ! ino) UNIV \<and> cells E w = f \<and>
    length (v_inodes w) = length n \<and> (\<forall>j < length n. j \<noteq> ino \<longrightarrow> v_inodes w ! j = n ! j) \<and>
    blank f (v_inodes w ! ino) \<and> i_type (v_inodes w ! ino) = DENYFS_ITYPE_FREE \<and> owned f (v_inodes w) (used w) \<and>
    sb_free_inodes (v_sb w) = sb_free_inodes (v_sb v) + 1"
proof -
  let ?D1 = "{Direct i | i. i \<in> set [0..<DENYFS_DIRECT_BLOCKS]}" and ?D2 = "kids Single 0 \<union> {Single}"
  let ?D3 = "(\<Union>c \<in> {0..}. under c) \<union> {Double}"
  have "distinct [0..<DENYFS_DIRECT_BLOCKS]" "set [0..<DENYFS_DIRECT_BLOCKS] \<subseteq> {..<DENYFS_DIRECT_BLOCKS}" by auto
  from free_direct_cuts [OF g o i this] obtain n1 U1 where
    1: "goes E v U1 f n1 (free_direct u ino [0..<DENYFS_DIRECT_BLOCKS])" "cuts ino ?D1 f n U f n1 U1" by blast
  let ?u1 = "free_direct u ino [0..<DENYFS_DIRECT_BLOCKS]"
  have o1: "owned f n1 U1" and i1: "ino < length n1" using cut_owned [OF o 1(2) i] 1(2) i by (simp_all add: cuts_def)
  have nd1: "inode_at ?u1 ino = n1 ! ino" using 1(1) by (simp add: goes_def inode_at_def)
  obtain u2 n2 U2 where 2: "goes E v U2 f n2 u2" "cuts ino ?D2 f n1 U1 f n2 U2"
    "free_inode E u ino = free_double E u2 ino"
  proof (cases "i_indirect (n1 ! ino) = DENYFS_INVALID_BLOCK")
    case True
    have "trims ino ?D2 f n1 U1 f n1 U1" using True by (intro trims_void) auto
    moreover have "free_inode E u ino = free_double E ?u1 ino" using True nd1 by (simp add: free_inode_def Let_def)
    ultimately show thesis using that 1(1) by (simp add: trims_def)
  next
    case False
    let ?t = "i_indirect (n1 ! ino)" and ?clr = "\<lambda>nd :: inode. nd\<lparr>i_indirect := DENYFS_INVALID_BLOCK\<rparr>"
    have t: "unat ?t \<in> U1" using ownedD [OF o1 i1, of Single] False by simp
    note rd = goes_read_table [OF 1(1) t]
    have "goes E v (U1 - unat ` set (live (table f ?t)) - {unat ?t}) f (n1[ino := ?clr (n1 ! ino)])
        (upd_inode (free_block (free_pointers ?u1 (table f ?t)) ?t) ino ?clr)"
      using goes_upd [OF goes_free [OF goes_free_pointers [OF 1(1), of "table f ?t"], of ?t], of ?clr ino]
      by (simp add: inode_ok_def)
    moreover have "free_inode E u ino = free_double E (upd_inode (free_block (free_pointers ?u1 (table f ?t)) ?t) ino ?clr) ino"
      using False nd1 rd by (simp add: free_inode_def Let_def)
    ultimately show thesis using that cut_all_single [OF i1 False, of f U1] by blast
  qed
  have o2: "owned f n2 U2" and i2: "ino < length n2" using cut_owned [OF o1 2(2) i1] 2(2) i1 by (simp_all add: cuts_def)
  have nd2: "inode_at u2 ino = n2 ! ino" using 2(1) by (simp add: goes_def inode_at_def)
  obtain u3 n3 U3 where 3: "goes E v U3 f n3 u3" "cuts ino ?D3 f n2 U2 f n3 U3"
    "free_double E u2 ino = (Inr (), release_inode u3 ino)"
  proof (cases "i_double (n2 ! ino) = DENYFS_INVALID_BLOCK")
    case True
    have "trims ino ?D3 f n2 U2 f n2 U2" using True by (intro trims_void) (auto simp: under_def)
    moreover have "free_double E u2 ino = (Inr (), release_inode u2 ino)" using True nd2 by (simp add: free_double_def Let_def)
    ultimately show thesis using that 2(1) by (simp add: trims_def)
  next
    case False
    let ?r = "i_double (n2 ! ino)" and ?clr = "\<lambda>nd :: inode. nd\<lparr>i_double := DENYFS_INVALID_BLOCK\<rparr>"
    have r: "unat ?r \<in> U2" using ownedD [OF o2 i2, of Double] False by simp
    note rd = goes_read_table [OF 2(1) r]
    have ch: "unat (sval f (n2 ! ino) (Child c)) \<in> U2" if "points f n2 ino (Child c)" for c
      using ownedD [OF o2 i2, of "Child c"] that by (simp add: points_def)
    obtain x where x: "free_children E u2 (table f ?r) = (Inr (), x)"
      "goes E v (U2 - vals f (n2 ! ino) (\<Union>c \<in> {0..}. under c)) f n2 x"
      using free_children_vals [OF 2(1) o2 i2, of "table f ?r" 0] ch by auto
    have "goes E v (U2 - vals f (n2 ! ino) (\<Union>c \<in> {0..}. under c) - {unat ?r}) f (n2[ino := ?clr (n2 ! ino)])
        (upd_inode (free_block x ?r) ino ?clr)"
      using goes_upd [OF goes_free [OF x(2), of ?r], of ?clr ino] by (simp add: inode_ok_def)
    moreover have "free_double E u2 ino = (Inr (), release_inode (upd_inode (free_block x ?r) ino ?clr) ino)"
      using False nd2 rd x(1) by (simp add: free_double_def Let_def)
    ultimately show thesis using that cut_all_double [OF i2 False, of f U2] by blast
  qed
  let ?D = "?D1 \<union> ?D2 \<union> ?D3"
  have c: "cuts ino ?D f n U f n3 U3" by (rule cut_trans [OF cut_trans [OF 1(2) 2(2) i] 3(2) i])
  have i3: "ino < length n3" and l3: "length n3 = length n" using c i by (simp_all add: cuts_def)
  have z: "sval f (n3 ! ino) s = DENYFS_INVALID_BLOCK" if "slot_ok s" for s
    using cut_sval [OF c i that] all_slots_cut [OF that] by simp
  have "vals f (n ! ino) ?D = vals f (n ! ino) UNIV" by (intro vals_total all_slots_cut)
  then have U3: "U3 = U - vals f (n ! ino) UNIV" using c by (simp add: cuts_def)
  have oth: "\<forall>j < length n. j \<noteq> ino \<longrightarrow> n3 ! j = n ! j" using c unfolding cuts_def by blast
  note w = release_blank [OF 3(1) cut_owned [OF o c i] i3 z k]
  have e: "free_inode E u ino = (Inr (), release_inode u3 ino)" using 2(3) 3(3) by simp
  have ot: "\<forall>j < length n. j \<noteq> ino \<longrightarrow> v_inodes (release_inode u3 ino) ! j = n ! j" using w(6) oth l3 by simp
  have us: "used (release_inode u3 ino) = U - vals f (n ! ino) UNIV" using w(3) unfolding U3 .
  have ow: "owned f (v_inodes (release_inode u3 ino)) (used (release_inode u3 ino))" using w(9) unfolding us U3 .
  have ln: "length (v_inodes (release_inode u3 ino)) = length n" using w(5) l3 by simp
  show ?thesis by (intro exI [of _ "release_inode u3 ino"] conjI)
    (use e w(1,2,4,7,8,10) us ln ot ow in simp_all)
qed

end
