(* ===== verification/Names.thy ===== *)
theory Names
  imports Release "HOL-Library.Multiset"
begin

text \<open>
  The directory of \<open>src/src/fs.c\<close> as a map from names to inode numbers. \<open>listing\<close> is the list of the live
  entries in block order; \<open>denyfs_vol_lookup\<close> finds in it, \<open>add_dirent\<close> adds one element to it and
  \<open>remove_dirent\<close> takes one out, wherever in the blocks they do so.
\<close>

section \<open>Entries and listings\<close>

definition name_of :: "dirent \<Rightarrow> bytes" where
  "name_of e = take (unat (de_name_len e)) (de_name e)"

definition pair_of :: "dirent \<Rightarrow> bytes \<times> u32" where
  "pair_of e = (name_of e, de_inode e)"

definition listing_of :: "dirent list \<Rightarrow> (bytes \<times> u32) list" where
  "listing_of es = map pair_of (filter (\<lambda>e. \<not> entry_free e) es)"

definition block_entries :: "(u32 \<Rightarrow> bytes) \<Rightarrow> u32 list \<Rightarrow> dirent list" where
  "block_entries f bs = concat (map (\<lambda>b. dirents_dec (f b)) (live bs))"

definition listing :: "(u32 \<Rightarrow> bytes) \<Rightarrow> inode \<Rightarrow> (bytes \<times> u32) list" where
  "listing f nd = listing_of (block_entries f (i_direct nd))"

text \<open>Names a directory can hold.\<close>

definition good_name :: "bytes \<Rightarrow> bool" where
  "good_name name \<longleftrightarrow> name \<noteq> [] \<and> length name < DENYFS_MAX_NAME_LEN \<and> 0 \<notin> set name \<and> of_char CHR ''/'' \<notin> set name \<and>
     name \<noteq> map of_char ''.'' \<and> name \<noteq> map of_char ''..''"

lemma listing_of_append: "listing_of (as @ bs) = listing_of as @ listing_of bs"
  by (simp add: listing_of_def)

lemma mset_listing_of: "mset (listing_of es) = image_mset pair_of (filter_mset (\<lambda>e. \<not> entry_free e) (mset es))"
  by (simp add: listing_of_def)

lemma live_append: "live (as @ bs) = live as @ live bs"
  by (simp add: live_def)

lemma block_entries_Nil [simp]: "block_entries f [] = []"
  by (simp add: block_entries_def live_def)

lemma block_entries_Cons:
  "block_entries f (b # bs) = (if b = DENYFS_INVALID_BLOCK then [] else dirents_dec (f b)) @ block_entries f bs"
  by (simp add: block_entries_def live_def)

lemma block_entries_append: "block_entries f (as @ bs) = block_entries f as @ block_entries f bs"
  by (simp add: block_entries_def live_append)

lemma block_entries_agree: "(\<And>b. b \<in> set (live bs) \<Longrightarrow> g b = f b) \<Longrightarrow> block_entries g bs = block_entries f bs"
  by (simp add: block_entries_def cong: map_cong)

lemma valid_len: "valid_dirent e \<Longrightarrow> unat (de_name_len e) < DENYFS_MAX_NAME_LEN"
  by (auto simp: valid_dirent_def layout_sizes split: if_splits)

lemma match_name:
  assumes "valid_dirent e" "dirent_ok e" "length name < DENYFS_MAX_NAME_LEN"
  shows "lookup_match name e \<longleftrightarrow> \<not> entry_free e \<and> name_of e = name"
    "remove_match name e \<longleftrightarrow> \<not> entry_free e \<and> name_of e = name"
proof -
  have l: "unat (de_name_len e) < DENYFS_MAX_NAME_LEN" "length (de_name e) = DENYFS_MAX_NAME_LEN"
    using assms valid_len by (auto simp: dirent_ok_def)
  have n: "length (name_of e) = unat (de_name_len e)" using l by (simp add: name_of_def)
  have w: "de_name_len e = of_nat (length name) \<longleftrightarrow> unat (de_name_len e) = length name"
    using assms(3) by (auto simp: word_unat_eq_iff unsigned_of_nat take_bit_nat_eq_self layout_sizes)
  have "unat (de_name_len e) = length name \<and> take (length name) (de_name e) = name \<longleftrightarrow> name_of e = name"
    using n by (auto simp: name_of_def)
  then show "lookup_match name e \<longleftrightarrow> \<not> entry_free e \<and> name_of e = name"
    "remove_match name e \<longleftrightarrow> \<not> entry_free e \<and> name_of e = name"
    by (auto simp: lookup_match_def remove_match_def entry_free_def w)
qed

lemma free_entry_free [simp]: "entry_free free_entry" "valid_dirent free_entry"
  by (simp_all add: entry_free_def free_entry_def valid_dirent_def)

lemma new_entry_facts:
  assumes g: "good_name name" and i: "0 < ino" "ino < DENYFS_MAX_INODES"
  shows "dirent_ok (new_entry name (of_nat ino))" "name_of (new_entry name (of_nat ino)) = name"
    "\<not> entry_free (new_entry name (of_nat ino))" "valid_dirent (new_entry name (of_nat ino))"
proof -
  let ?e = "new_entry name (of_nat ino)"
  have l: "length name < 251" "name \<noteq> []" using g by (simp_all add: good_name_def layout_sizes)
  have len: "unat (de_name_len ?e) = length name"
    using l by (simp add: new_entry_def unsigned_of_nat take_bit_nat_eq_self)
  have nm: "de_name ?e = name @ replicate (251 - length name) 0"
    using l by (simp add: new_entry_def overwrite_def layout_sizes)
  show "dirent_ok ?e" using l by (simp add: dirent_ok_def nm layout_sizes)
  show "name_of ?e = name" unfolding name_of_def len nm by simp
  have di: "unat (de_inode ?e) = ino"
    using i by (simp add: new_entry_def unsigned_of_nat take_bit_nat_eq_self layout_sizes)
  have ne: "de_inode ?e \<noteq> DENYFS_INVALID_INO" "de_inode ?e \<noteq> 0"
    using di i by (auto simp: DENYFS_INVALID_INO_def layout_sizes)
  then show "\<not> entry_free ?e" by (simp add: entry_free_def)
  have nth: "de_name ?e ! k = name ! k" if "k < length name" for k using that by (simp add: nm nth_append)
  have nz: "de_name_len ?e \<noteq> 0" using len l by auto
  have tm: "de_name ?e ! unat (de_name_len ?e) = 0" unfolding len nm using l by (simp add: nth_append)
  have chars: "\<not> list_ex (\<lambda>k. de_name ?e ! k = 0 \<or> de_name ?e ! k = of_char CHR ''/'') [0..<unat (de_name_len ?e)]"
    using g nth by (auto simp: list_ex_iff len good_name_def in_set_conv_nth)
  have dot: "\<not> (de_name_len ?e = 1 \<and> de_name ?e ! 0 = of_char CHR ''.'')"
  proof
    assume a: "de_name_len ?e = 1 \<and> de_name ?e ! 0 = of_char CHR ''.''"
    then have "length name = 1" using len by simp
    with a g nth [of 0] show False by (cases name) (auto simp: good_name_def)
  qed
  have dots: "\<not> (de_name_len ?e = 2 \<and> de_name ?e ! 0 = of_char CHR ''.'' \<and> de_name ?e ! 1 = of_char CHR ''.'')"
  proof
    assume a: "de_name_len ?e = 2 \<and> de_name ?e ! 0 = of_char CHR ''.'' \<and> de_name ?e ! 1 = of_char CHR ''.''"
    then have l2: "length name = 2" using len by simp
    then obtain x y where "name = [x, y]" by (auto simp: numeral_2_eq_2 length_Suc_conv)
    with a g nth [of 0] nth [of 1] show False by (auto simp: good_name_def)
  qed
  show "valid_dirent ?e"
    using ne nz tm chars dot dots di i l unfolding valid_dirent_def len by (simp add: layout_sizes)
qed

section \<open>Scanning a block\<close>

lemma scan_entries_all:
  assumes "\<forall>e \<in> set es. valid_dirent e"
  shows "scan_entries P es k =
    Inr (if list_ex P es then Some (k + length (takeWhile (\<lambda>e. \<not> P e) es)) else None)"
  using assms by (induction es arbitrary: k) auto

text \<open>What the search for an entry with \<open>P\<close> gives.\<close>

lemma scan_found:
  assumes "\<forall>e \<in> set es. valid_dirent e"
  obtains (none) "scan_entries P es 0 = Inr None" "\<forall>e \<in> set es. \<not> P e"
  | (some) i where "scan_entries P es 0 = Inr (Some i)" "i < length es" "P (es ! i)" "\<forall>e \<in> set (take i es). \<not> P e"
proof (cases "list_ex P es")
  case False
  then have "scan_entries P es 0 = Inr None" "\<forall>e \<in> set es. \<not> P e"
    using scan_entries_all [OF assms, of P 0] by (simp_all add: list_ex_iff)
  then show ?thesis by (rule none)
next
  case True
  let ?i = "length (takeWhile (\<lambda>e. \<not> P e) es)"
  have "?i < length es" using True by (induction es) auto
  moreover from nth_length_takeWhile [OF this] have "P (es ! ?i)" by simp
  moreover have "\<forall>e \<in> set (take ?i es). \<not> P e"
    unfolding takeWhile_eq_take [symmetric] by (blast dest: set_takeWhileD)
  moreover have "scan_entries P es 0 = Inr (Some ?i)" using scan_entries_all [OF assms, of P 0] True by simp
  ultimately show ?thesis using some by blast
qed

text \<open>The blocks of a directory: readable, with valid entries.\<close>

definition dir_blocks_ok :: "(u32 \<Rightarrow> bytes) \<Rightarrow> nat set \<Rightarrow> u32 list \<Rightarrow> bool" where
  "dir_blocks_ok f U bs \<longleftrightarrow> (\<forall>b \<in> set (live bs). unat b \<in> U) \<and> (\<forall>e \<in> set (block_entries f bs). valid_dirent e)"

lemma dir_blocks_Cons:
  "dir_blocks_ok f U (b # bs) \<longleftrightarrow> dir_blocks_ok f U bs \<and>
     (b \<noteq> DENYFS_INVALID_BLOCK \<longrightarrow> unat b \<in> U \<and> (\<forall>e \<in> set (dirents_dec (f b)). valid_dirent e))"
  by (auto simp: dir_blocks_ok_def live_def block_entries_Cons)

section \<open>Lookup\<close>

lemma lookup_blocks_find:
  assumes "goes E v U f n u" "dir_blocks_ok f U bs" "length name < DENYFS_MAX_NAME_LEN"
  shows "lookup_blocks E u name bs =
    (case map_of (listing_of (block_entries f bs)) name of None \<Rightarrow> Inl ENOENT | Some i \<Rightarrow> Inr i, u)"
  using assms(2)
proof (induction bs)
  case Nil
  then show ?case by (simp add: listing_of_def)
next
  case (Cons b bs)
  show ?case
  proof (cases "b = DENYFS_INVALID_BLOCK")
    case True
    with Cons show ?thesis by (simp add: dir_blocks_Cons block_entries_Cons)
  next
    case False
    have ok: "dir_blocks_ok f U bs" "unat b \<in> U" "\<forall>e \<in> set (dirents_dec (f b)). valid_dirent e"
      using Cons.prems False by (simp_all add: dir_blocks_Cons)
    note rd = goes_read [OF assms(1) ok(2)]
    let ?es = "dirents_dec (f b)"
    have mt: "lookup_match name e \<longleftrightarrow> \<not> entry_free e \<and> name_of e = name" if "e \<in> set ?es" for e
      using match_name(1) [OF _ _ assms(3)] ok(3) dirents_dec_ok [OF rd(2)] that by blast
    from ok(3) show ?thesis
    proof (cases rule: scan_found [of ?es "lookup_match name"])
      case none
      have "name \<notin> fst ` set (listing_of ?es)" using none(2) mt by (auto simp: listing_of_def pair_of_def)
      then have "map_of (listing_of ?es) name = None" by (simp add: map_of_eq_None_iff)
      with Cons.IH [OF ok(1)] rd(1) none(1) False show ?thesis
        by (simp add: block_entries_Cons listing_of_append map_add_def split: option.split)
    next
      case (some i)
      have es: "?es = take i ?es @ ?es ! i # drop (Suc i) ?es" using some(2) by (rule id_take_nth_drop)
      have e: "\<not> entry_free (?es ! i)" "name_of (?es ! i) = name" using mt [OF nth_mem [OF some(2)]] some(3) by auto
      have "name \<notin> fst ` set (listing_of (take i ?es))"
        using some(4) mt in_set_takeD by (fastforce simp: listing_of_def pair_of_def)
      then have "map_of (listing_of (take i ?es)) name = None" by (simp add: map_of_eq_None_iff)
      then have "map_of (listing_of ?es) name = Some (de_inode (?es ! i))"
        using e by (subst es) (simp add: listing_of_def pair_of_def map_add_def)
      with rd(1) some(1) False show ?thesis
        by (simp add: block_entries_Cons listing_of_append map_add_def)
    qed
  qed
qed

section \<open>Changing one entry\<close>

text \<open>\<open>put_entry f b i e\<close>: entry \<open>i\<close> of directory block \<open>b\<close> becomes \<open>e\<close>.\<close>

definition put_entry :: "(u32 \<Rightarrow> bytes) \<Rightarrow> u32 \<Rightarrow> nat \<Rightarrow> dirent \<Rightarrow> (u32 \<Rightarrow> bytes)" where
  "put_entry f b i e = f(b := dirents_enc ((dirents_dec (f b))[i := e]))"

lemma put_entry_block:
  assumes "length (f b) = SECTOR_SIZE" "dirent_ok e"
  shows "dirents_dec (put_entry f b i e b) = (dirents_dec (f b))[i := e]"
    "length (dirents_enc ((dirents_dec (f b))[i := e])) = SECTOR_SIZE"
proof -
  have ok: "\<forall>x \<in> set ((dirents_dec (f b))[i := e]). dirent_ok x"
    using assms dirents_dec_ok [OF assms(1)] set_update_subset_insert by fastforce
  then show "dirents_dec (put_entry f b i e b) = (dirents_dec (f b))[i := e]"
    by (simp add: put_entry_def dirents_dec_enc)
  show "length (dirents_enc ((dirents_dec (f b))[i := e])) = SECTOR_SIZE"
    using length_dirents_enc [OF ok] by (simp add: layout_sizes)
qed

lemma put_entry_mset:
  assumes bs: "bs = pre @ b # post" "distinct (live bs)" "b \<noteq> DENYFS_INVALID_BLOCK"
    and f: "length (f b) = SECTOR_SIZE" "dirent_ok e" and i: "i < DENYFS_DIRENTS_PER_BLOCK"
  shows "mset (block_entries (put_entry f b i e) bs) =
      add_mset e (mset (block_entries f bs) - {#dirents_dec (f b) ! i#})"
    "dirents_dec (f b) ! i \<in> set (block_entries f bs)"
proof -
  let ?g = "put_entry f b i e" and ?es = "dirents_dec (f b)"
  have d: "b \<notin> set (live pre)" "b \<notin> set (live post)" using bs by (auto simp: live_def)
  have same: "block_entries ?g pre = block_entries f pre" "block_entries ?g post = block_entries f post"
    using d by (auto intro!: block_entries_agree simp: put_entry_def)
  have g: "block_entries ?g bs = block_entries f pre @ ?es[i := e] @ block_entries f post"
    and h: "block_entries f bs = block_entries f pre @ ?es @ block_entries f post"
    using bs(3) same put_entry_block(1) [where f = f and b = b, OF f] by (simp_all add: bs(1) block_entries_append block_entries_Cons)
  have i': "i < length ?es" using i by simp
  have mem: "?es ! i \<in># mset ?es" using i' by simp
  show "?es ! i \<in> set (block_entries f bs)" using i' by (simp add: h)
  show "mset (block_entries ?g bs) = add_mset e (mset (block_entries f bs) - {#?es ! i#})"
    unfolding g h mset_append mset_update [OF i'] using mem
    by (simp add: multiset_eq_iff)
qed

lemma put_entry_ok:
  assumes "bs = pre @ b # post" "distinct (live bs)" "b \<noteq> DENYFS_INVALID_BLOCK"
    and "length (f b) = SECTOR_SIZE" "dirent_ok e" and "i < DENYFS_DIRENTS_PER_BLOCK"
    and ok: "dir_blocks_ok f U bs" "valid_dirent e"
  shows "dir_blocks_ok (put_entry f b i e) U bs"
proof -
  have "x = e \<or> x \<in> set (block_entries f bs)" if "x \<in> set (block_entries (put_entry f b i e) bs)" for x
  proof -
    have "x \<in># add_mset e (mset (block_entries f bs) - {#dirents_dec (f b) ! i#})"
      using that unfolding put_entry_mset(1) [where f = f and b = b, OF assms(1-6), symmetric] by simp
    then show ?thesis by (auto dest: in_diffD)
  qed
  with ok show ?thesis unfolding dir_blocks_ok_def by blast
qed

section \<open>Adding and removing\<close>

lemma put_entry_write:
  assumes "goes E v U f n u" "unat b \<in> U" "dirent_ok e"
  shows "\<exists>w. write_block E u b (dirents_enc ((dirents_dec (f b))[i := e])) = (Inr (), w) \<and>
    goes E v U (put_entry f b i e) n w"
  using goes_write [OF assms(1,2) put_entry_block(2) [where f = f and b = b, OF goes_read(2) [OF assms(1,2)] assms(3)]]
  unfolding put_entry_def by blast

lemma add_blocks_cases:
  assumes g: "goes E v U f n u" and ok: "dir_blocks_ok f U bs" and e: "dirent_ok (new_entry name ino)"
  obtains (full) "add_blocks E u name ino bs = (None, u)"
      "\<forall>e \<in> set (block_entries f (takeWhile (\<lambda>b. b \<noteq> DENYFS_INVALID_BLOCK) bs)). \<not> entry_free e"
  | (slot) pre b post i w where "bs = pre @ b # post" "b \<noteq> DENYFS_INVALID_BLOCK" "unat b \<in> U"
      "i < DENYFS_DIRENTS_PER_BLOCK" "entry_free (dirents_dec (f b) ! i)"
      "add_blocks E u name ino bs = (Some (Inr ()), w)" "goes E v U (put_entry f b i (new_entry name ino)) n w"
  using ok
proof (induction bs arbitrary: thesis)
  case Nil
  show ?case by (rule Nil.prems(1)) simp_all
next
  case (Cons b bs)
  show ?case
  proof (cases "b = DENYFS_INVALID_BLOCK")
    case True
    then show ?thesis by (intro Cons.prems(1)) simp_all
  next
    case False
    have ok: "dir_blocks_ok f U bs" "unat b \<in> U" "\<forall>e \<in> set (dirents_dec (f b)). valid_dirent e"
      using Cons.prems(3) False by (simp_all add: dir_blocks_Cons)
    note rd = goes_read [OF g ok(2)]
    let ?es = "dirents_dec (f b)"
    from ok(3) show ?thesis
    proof (cases rule: scan_found [of ?es entry_free])
      case none
      have st: "add_blocks E u name ino (b # bs) = add_blocks E u name ino bs" using rd(1) none(1) False by simp
      show ?thesis
      proof (rule Cons.IH [OF _ _ ok(1)])
        assume "add_blocks E u name ino bs = (None, u)"
          "\<forall>e \<in> set (block_entries f (takeWhile (\<lambda>b. b \<noteq> DENYFS_INVALID_BLOCK) bs)). \<not> entry_free e"
        then show ?thesis using st none(2) False by (intro Cons.prems(1)) (simp_all add: block_entries_Cons ball_Un)
      next
        fix pre c post i w
        assume a: "bs = pre @ c # post" "c \<noteq> DENYFS_INVALID_BLOCK" "unat c \<in> U" "i < DENYFS_DIRENTS_PER_BLOCK"
          "entry_free (dirents_dec (f c) ! i)" "add_blocks E u name ino bs = (Some (Inr ()), w)"
          "goes E v U (put_entry f c i (new_entry name ino)) n w"
        show ?thesis by (rule Cons.prems(2) [of "b # pre" c post i w]) (use a st in simp_all)
      qed
    next
      case (some i)
      obtain w where w: "write_block E u b (dirents_enc (?es[i := new_entry name ino])) = (Inr (), w)"
        "goes E v U (put_entry f b i (new_entry name ino)) n w"
        using put_entry_write [OF g ok(2) e] by blast
      show ?thesis
        by (rule Cons.prems(2) [of "[]" b bs i w]) (use w some rd(1) ok(2) False in simp_all)
    qed
  qed
qed

lemma remove_blocks_cases:
  assumes g: "goes E v U f n u" and ok: "dir_blocks_ok f U bs" and l: "length name < DENYFS_MAX_NAME_LEN"
  obtains (absent) "remove_blocks E u name bs = (Inl ENOENT, u)" "name \<notin> fst ` set (listing_of (block_entries f bs))"
  | (found) pre b post i w where "bs = pre @ b # post" "b \<noteq> DENYFS_INVALID_BLOCK" "unat b \<in> U"
      "i < DENYFS_DIRENTS_PER_BLOCK" "\<not> entry_free (dirents_dec (f b) ! i)" "name_of (dirents_dec (f b) ! i) = name"
      "remove_blocks E u name bs = (Inr (), w)" "goes E v U (put_entry f b i free_entry) n w"
  using ok
proof (induction bs arbitrary: thesis)
  case Nil
  show ?case by (rule Nil.prems(1)) (simp_all add: listing_of_def)
next
  case (Cons b bs)
  have rec: thesis if st: "remove_blocks E u name (b # bs) = remove_blocks E u name bs" and ok: "dir_blocks_ok f U bs"
    and nm: "name \<notin> fst ` set (listing_of (if b = DENYFS_INVALID_BLOCK then [] else dirents_dec (f b)))"
  proof (rule Cons.IH [OF _ _ ok])
    assume "remove_blocks E u name bs = (Inl ENOENT, u)" "name \<notin> fst ` set (listing_of (block_entries f bs))"
    then show ?thesis
      using st nm by (intro Cons.prems(1)) (simp_all add: block_entries_Cons listing_of_append image_Un split: if_split_asm)
  next
    fix pre c post i w
    assume a: "bs = pre @ c # post" "c \<noteq> DENYFS_INVALID_BLOCK" "unat c \<in> U" "i < DENYFS_DIRENTS_PER_BLOCK"
      "\<not> entry_free (dirents_dec (f c) ! i)" "name_of (dirents_dec (f c) ! i) = name"
      "remove_blocks E u name bs = (Inr (), w)" "goes E v U (put_entry f c i free_entry) n w"
    show ?thesis by (rule Cons.prems(2) [of "b # pre" c post i w]) (use a st in simp_all)
  qed
  show ?case
  proof (cases "b = DENYFS_INVALID_BLOCK")
    case True
    then show ?thesis using Cons.prems(3) by (intro rec) (simp_all add: dir_blocks_Cons listing_of_def)
  next
    case False
    have ok: "dir_blocks_ok f U bs" "unat b \<in> U" "\<forall>e \<in> set (dirents_dec (f b)). valid_dirent e"
      using Cons.prems(3) False by (simp_all add: dir_blocks_Cons)
    note rd = goes_read [OF g ok(2)]
    let ?es = "dirents_dec (f b)"
    have mt: "remove_match name e \<longleftrightarrow> \<not> entry_free e \<and> name_of e = name" if "e \<in> set ?es" for e
      using match_name(2) [OF _ _ l] ok(3) dirents_dec_ok [OF rd(2)] that by blast
    from ok(3) show ?thesis
    proof (cases rule: scan_found [of ?es "remove_match name"])
      case none
      show ?thesis
        by (rule rec) (use none mt rd(1) ok(1) False in \<open>auto simp: listing_of_def pair_of_def\<close>)
    next
      case (some i)
      have e: "\<not> entry_free (?es ! i)" "name_of (?es ! i) = name" using mt [OF nth_mem [OF some(2)]] some(3) by auto
      obtain w where w: "write_block E u b (dirents_enc (?es[i := free_entry])) = (Inr (), w)"
        "goes E v U (put_entry f b i free_entry) n w"
        using put_entry_write [OF g ok(2) free_entry_ok] by blast
      show ?thesis
        by (rule Cons.prems(2) [of "[]" b bs i w]) (use w some e rd(1) ok(2) False in simp_all)
    qed
  qed
qed

section \<open>Changing the directory and nothing else\<close>

text \<open>\<open>kept ino\<close>: every inode but \<open>ino\<close> keeps its record, its tree and its data.\<close>

definition kept :: "nat \<Rightarrow> (u32 \<Rightarrow> bytes) \<Rightarrow> inode list \<Rightarrow> (u32 \<Rightarrow> bytes) \<Rightarrow> inode list \<Rightarrow> bool" where
  "kept ino f n g m \<longleftrightarrow> length m = length n \<and> (\<forall>j < length n. j \<noteq> ino \<longrightarrow> m ! j = n ! j \<and>
     (\<forall>s. slot_ok s \<longrightarrow> sval g (n ! j) s = sval f (n ! j) s) \<and>
     (\<forall>s. slot_ok s \<longrightarrow> data_slot s \<longrightarrow> sval f (n ! j) s \<noteq> DENYFS_INVALID_BLOCK \<longrightarrow>
       g (sval f (n ! j) s) = f (sval f (n ! j) s)))"

lemma kept_refl [simp]: "kept ino f n f n"
  by (simp add: kept_def)

lemma kept_trans:
  assumes "kept ino f n g m" "kept ino g m h k"
  shows "kept ino f n h k"
proof -
  have l: "length m = length n" "length k = length n" using assms by (simp_all add: kept_def)
  have "k ! j = n ! j \<and> (\<forall>s. slot_ok s \<longrightarrow> sval h (n ! j) s = sval f (n ! j) s) \<and>
      (\<forall>s. slot_ok s \<longrightarrow> data_slot s \<longrightarrow> sval f (n ! j) s \<noteq> DENYFS_INVALID_BLOCK \<longrightarrow> h (sval f (n ! j) s) = f (sval f (n ! j) s))"
    if "j < length n" "j \<noteq> ino" for j
  proof -
    have m: "m ! j = n ! j" using assms(1) that by (simp add: kept_def)
    show ?thesis using assms that l unfolding kept_def by (metis m)
  qed
  with l show ?thesis unfolding kept_def by blast
qed

lemma kept_file:
  assumes "kept ino f n g m" "j < length n" "j \<noteq> ino"
  shows "l < DENYFS_MAX_FILE_BLOCKS \<Longrightarrow> file_block g (m ! j) l = file_block f (n ! j) l"
    "p < MAX_BYTES \<Longrightarrow> file_byte g (m ! j) p = file_byte f (n ! j) p"
proof -
  have m: "m ! j = n ! j" using assms by (simp add: kept_def)
  show b: "file_block g (m ! j) l = file_block f (n ! j) l" if "l < DENYFS_MAX_FILE_BLOCKS" for l
    using assms slot_of_ok [OF that] by (simp add: kept_def file_block_def)
  assume "p < MAX_BYTES"
  then have l: "p div SECTOR_SIZE < DENYFS_MAX_FILE_BLOCKS" by (rule MAX_BYTES_div)
  have "file_block f (n ! j) (p div SECTOR_SIZE) \<noteq> DENYFS_INVALID_BLOCK \<Longrightarrow>
      g (file_block f (n ! j) (p div SECTOR_SIZE)) = f (file_block f (n ! j) (p div SECTOR_SIZE))"
    using assms slot_of_ok [OF l] by (simp add: kept_def file_block_def)
  then show "file_byte g (m ! j) p = file_byte f (n ! j) p" by (simp add: file_byte_def b [OF l] block_bytes_def)
qed

lemma data_write_kept:
  assumes o: "owned f n U" "ino < length n" "slot_ok s" "data_slot s" "sval f (n ! ino) s = b" "b \<noteq> DENYFS_INVALID_BLOCK"
  shows "kept ino f n (f(b := d)) n" "owned (f(b := d)) n U" "trees f n \<Longrightarrow> trees (f(b := d)) n"
    "\<And>t. slot_ok t \<Longrightarrow> sval (f(b := d)) (n ! ino) t = sval f (n ! ino) t"
proof -
  have sv: "sval (f(b := d)) (n ! j) t = sval f (n ! j) t" if "j < length n" "slot_ok t" for j t
    using data_write_sval [OF o(1-4) _ that, of d] o(5,6) by simp
  then show "\<And>t. slot_ok t \<Longrightarrow> sval (f(b := d)) (n ! ino) t = sval f (n ! ino) t" using o(2) by blast
  have "(f(b := d)) (sval f (n ! j) t) = f (sval f (n ! j) t)"
    if "j < length n" "j \<noteq> ino" "slot_ok t" "sval f (n ! j) t \<noteq> DENYFS_INVALID_BLOCK" for j t
    using owned_inj [OF o(1) that(1) o(2) that(3) o(3)] o(5) that(2,4) by auto
  with sv show "kept ino f n (f(b := d)) n" by (simp add: kept_def)
  show "owned (f(b := d)) n U" using data_write_owned [OF o(1-4), of d] o(5,6) by simp
  show "trees (f(b := d)) n" if "trees f n" using that tree_ok_same [OF sv refl] by (simp add: trees_def)
qed

section \<open>The root directory\<close>

definition root_ok :: "(u32 \<Rightarrow> bytes) \<Rightarrow> nat set \<Rightarrow> inode \<Rightarrow> bool" where
  "root_ok f U nd \<longleftrightarrow> root_inode_ok nd \<and>
     (\<forall>i < DENYFS_DIRECT_BLOCKS. i_direct nd ! i \<noteq> DENYFS_INVALID_BLOCK \<longleftrightarrow> i < unat (i_block_count nd)) \<and>
     dir_blocks_ok f U (i_direct nd) \<and> distinct (map fst (listing f nd)) \<and> distinct (map snd (listing f nd))"

lemma root_direct:
  "root_ok f U nd \<Longrightarrow> i < DENYFS_DIRECT_BLOCKS \<Longrightarrow> i_direct nd ! i \<noteq> DENYFS_INVALID_BLOCK \<longleftrightarrow> i < unat (i_block_count nd)"
  by (simp add: root_ok_def)

lemma distinct_live:
  assumes "\<And>i j. i < length ps \<Longrightarrow> j < length ps \<Longrightarrow> ps ! i = ps ! j \<Longrightarrow> ps ! i \<noteq> DENYFS_INVALID_BLOCK \<Longrightarrow> i = j"
  shows "distinct (live ps)"
  using assms
proof (induction ps)
  case (Cons p ps)
  have "distinct (live ps)"
  proof (rule Cons.IH)
    fix i j assume "i < length ps" "j < length ps" "ps ! i = ps ! j" "ps ! i \<noteq> DENYFS_INVALID_BLOCK"
    then show "i = j" using Cons.prems [of "Suc i" "Suc j"] by simp
  qed
  moreover have "p \<notin> set (live ps)" if "p \<noteq> DENYFS_INVALID_BLOCK"
  proof
    assume "p \<in> set (live ps)"
    then obtain j where "j < length ps" "ps ! j = p" by (auto simp: live_def in_set_conv_nth)
    then show False using Cons.prems [of 0 "Suc j"] that by simp
  qed
  ultimately show ?case by (auto simp: live_def)
qed (simp add: live_def)

lemma root_distinct:
  assumes "owned f n U" "ino < length n" "inode_ok (n ! ino)"
  shows "distinct (live (i_direct (n ! ino)))"
proof (rule distinct_live)
  fix i j assume "i < length (i_direct (n ! ino))" "j < length (i_direct (n ! ino))"
    "i_direct (n ! ino) ! i = i_direct (n ! ino) ! j" "i_direct (n ! ino) ! i \<noteq> DENYFS_INVALID_BLOCK"
  then show "i = j"
    using owned_inj [OF assms(1,2,2), of "Direct i" "Direct j"] assms(3) by (simp add: inode_ok_def)
qed

lemma root_prefix:
  assumes "root_ok f U nd" "inode_ok nd"
  shows "i_direct nd = take (unat (i_block_count nd)) (i_direct nd) @
      replicate (DENYFS_DIRECT_BLOCKS - unat (i_block_count nd)) DENYFS_INVALID_BLOCK"
    "live (i_direct nd) = take (unat (i_block_count nd)) (i_direct nd)"
    "unat (i_block_count nd) \<le> DENYFS_DIRECT_BLOCKS"
    "live (take (unat (i_block_count nd)) (i_direct nd)) = take (unat (i_block_count nd)) (i_direct nd)"
proof -
  let ?c = "unat (i_block_count nd)" and ?d = "i_direct nd"
  have l: "length ?d = DENYFS_DIRECT_BLOCKS" using assms(2) by (simp add: inode_ok_def)
  have p: "?d ! i \<noteq> DENYFS_INVALID_BLOCK \<longleftrightarrow> i < ?c" if "i < DENYFS_DIRECT_BLOCKS" for i
    using assms(1) that by (simp add: root_ok_def)
  show c: "?c \<le> DENYFS_DIRECT_BLOCKS" using assms(1) by (simp add: root_ok_def root_inode_ok_def)
  show e: "?d = take ?c ?d @ replicate (DENYFS_DIRECT_BLOCKS - ?c) DENYFS_INVALID_BLOCK"
    by (rule nth_equalityI) (use l c p in \<open>auto simp: nth_append min_def\<close>)
  show "live (take ?c ?d) = take ?c ?d"
    unfolding live_def
  proof (intro filter_True ballI)
    fix x assume "x \<in> set (take ?c ?d)"
    then obtain i where "i < ?c" "?d ! i = x" by (auto simp: in_set_conv_nth)
    then show "x \<noteq> DENYFS_INVALID_BLOCK" using p [of i] c by simp
  qed
  moreover have "live (replicate k DENYFS_INVALID_BLOCK) = []" for k by (simp add: live_def)
  ultimately show "live ?d = take ?c ?d" by (subst e) (simp add: live_append)
qed

section \<open>Adding and removing a name\<close>

text \<open>What an operation on the directory does to the rest of the volume.\<close>

definition dir_step :: "env \<Rightarrow> volume \<Rightarrow> (u32 \<Rightarrow> bytes) \<Rightarrow> inode list \<Rightarrow> (bytes \<times> u32) multiset \<Rightarrow> nat set \<Rightarrow> volume \<Rightarrow> bool" where
  "dir_step E v f n L U w \<longleftrightarrow> (\<exists>g m V. goes E v V g m w \<and> owned g m V \<and> trees g m \<and> root_ok g V (m ! 0) \<and>
     kept 0 f n g m \<and> mset (listing g (m ! 0)) = L \<and> U \<subseteq> V)"

lemma listing_mset: "mset (listing f nd) = image_mset pair_of (filter_mset (\<lambda>e. \<not> entry_free e) (mset (block_entries f (i_direct nd))))"
  by (simp add: listing_def mset_listing_of)

text \<open>One entry of an existing block is rewritten.\<close>

lemma entry_step:
  assumes g: "goes E v U (put_entry f b i e) n w" and o: "owned f n U" and tr: "trees f n" and l0: "0 < length n"
    and r: "root_ok f U (n ! 0)" and f: "length (f b) = SECTOR_SIZE"
    and bs: "i_direct (n ! 0) = pre @ b # post" "b \<noteq> DENYFS_INVALID_BLOCK" and i: "i < DENYFS_DIRENTS_PER_BLOCK"
    and e: "dirent_ok e" "valid_dirent e"
    and L: "mset (listing (put_entry f b i e) (n ! 0)) = L" "distinct (map fst L')" "distinct (map snd L')" "mset L' = L"
  shows "dir_step E v f n L U w"
proof -
  have ok: "inode_ok (n ! 0)" using goes_inode_ok [OF g l0] .
  have len: "length (i_direct (n ! 0)) = DENYFS_DIRECT_BLOCKS" using ok by (simp add: inode_ok_def)
  have k: "slot_ok (Direct (length pre))" "sval f (n ! 0) (Direct (length pre)) = b" using bs(1) len by auto
  note dw = data_write_kept [where d = "dirents_enc ((dirents_dec (f b))[i := e])", OF o l0 k(1) _ k(2) bs(2), folded put_entry_def, simplified]
  have d: "distinct (live (i_direct (n ! 0)))" by (rule root_distinct [OF o l0 ok])
  have "dir_blocks_ok (put_entry f b i e) U (i_direct (n ! 0))"
    using put_entry_ok [where f = f and b = b, OF bs(1) d bs(2) f e(1) i _ e(2), of U] r by (simp add: root_ok_def)
  moreover have "distinct (map fst (listing (put_entry f b i e) (n ! 0)))" "distinct (map snd (listing (put_entry f b i e) (n ! 0)))"
    using L mset_eq_imp_distinct_iff [of "map fst (listing (put_entry f b i e) (n ! 0))" "map fst L'"]
      mset_eq_imp_distinct_iff [of "map snd (listing (put_entry f b i e) (n ! 0))" "map snd L'"] by simp_all
  ultimately have "root_ok (put_entry f b i e) U (n ! 0)" using r by (simp add: root_ok_def)
  then show ?thesis using g dw(1,2) dw(3) [OF tr] L(1) unfolding dir_step_def by blast
qed

text \<open>A new directory block.\<close>

lemma new_block_step:
  assumes g: "goes E v (insert (unat d) U) f n u" and d: "unat d \<notin> U" and o: "owned f n U" and tr: "trees f n"
    and l0: "0 < length n" and r: "root_ok f U (n ! 0)" and c: "unat (i_block_count (n ! 0)) < DENYFS_DIRECT_BLOCKS"
    and e: "dirent_ok e" "valid_dirent e" "\<not> entry_free e"
    and L: "name_of e \<notin> fst ` set (listing f (n ! 0))" "de_inode e \<notin> snd ` set (listing f (n ! 0))"
  shows "\<exists>w. write_block E (upd_inode u 0 (\<lambda>root. root\<lparr>
      i_direct := (i_direct root)[unat (i_block_count root) := d], i_block_count := i_block_count root + 1\<rparr>)) d
      (dirents_enc ((replicate DENYFS_DIRENTS_PER_BLOCK free_entry)[0 := e])) = (Inr (), w) \<and>
    dir_step E v f n (add_mset (pair_of e) (mset (listing f (n ! 0)))) U w"
proof -
  let ?nd = "n ! 0" and ?c = "unat (i_block_count (n ! 0))"
  let ?h = "\<lambda>root. root\<lparr>i_direct := (i_direct root)[unat (i_block_count root) := d], i_block_count := i_block_count root + 1\<rparr>"
  let ?m = "n[0 := ?h ?nd]" and ?es = "(replicate DENYFS_DIRENTS_PER_BLOCK free_entry)[0 := e]"
  let ?img = "dirents_enc ?es"
  have ok: "inode_ok ?nd" using goes_inode_ok [OF g l0] .
  have len: "length (i_direct ?nd) = DENYFS_DIRECT_BLOCKS" using ok by (simp add: inode_ok_def)
  have dv: "d \<noteq> DENYFS_INVALID_BLOCK" using goes_used [OF g] by blast
  have esok: "\<forall>x \<in> set ?es. dirent_ok x" using e(1) set_update_subset_insert by fastforce
  have il: "length ?img = SECTOR_SIZE" using length_dirents_enc [OF esok] by (simp add: layout_sizes)
  have inv: "sval f ?nd (Direct ?c) = DENYFS_INVALID_BLOCK" using root_direct [OF r c] by simp
  have ad: "addable f ?nd U (Direct ?c) d" using c inv d dv by (simp add: addable_def)
  have p: "put f ?nd (Direct ?c) d = (f, ?nd\<lparr>i_direct := (i_direct ?nd)[?c := d]\<rparr>)" by simp
  let ?k = "n[0 := ?nd\<lparr>i_direct := (i_direct ?nd)[?c := d]\<rparr>]"
  have mk: "?m = count_block ?k 0" using l0 by (simp add: count_block_def)
  have svk: "sval f (?k ! j) t = (if j = 0 \<and> t = Direct ?c then d else sval f (n ! j) t)" if "j < length n" "slot_ok t" for j t
    using put_sval [OF o l0 ok that p ad] .
  have svm: "sval f (?m ! j) t = (if j = 0 \<and> t = Direct ?c then d else sval f (n ! j) t)" if "j < length n" "slot_ok t" for j t
    unfolding mk using count_nth [of 0 ?k f j t] l0 svk [OF that] by simp
  have om: "owned f ?m (insert (unat d) U)"
    unfolding mk using put_owned [OF o l0 ok p ad] l0 by (simp add: owned_count)
  have km: "kept 0 f n f ?m" using svm by (simp add: kept_def)
  text \<open>The trees, with the new block still unwritten.\<close>
  let ?z = "f(d := replicate SECTOR_SIZE 0)"
  have d0: "slot_ok (Direct ?c)" "sval f (?m ! 0) (Direct ?c) = d" using c svm [OF l0, of "Direct ?c"] by simp_all
  have lm: "0 < length ?m" using l0 by simp
  note dz = data_write_kept [where d = "replicate SECTOR_SIZE 0", OF om lm d0(1) _ d0(2) dv, simplified]
  note dw = data_write_kept [where d = ?img, OF om lm d0(1) _ d0(2) dv]
  have t0: "tables_of (Direct ?c) = {}" by simp
  have trm: "trees f ?m"
    unfolding trees_def
  proof (intro allI impI)
    fix j assume "j < length ?m"
    then have j: "j < length n" by simp
    have tj: "tree_ok f (n ! j)" using tr j by (simp add: trees_def)
    show "tree_ok f (?m ! j)"
    proof (cases "j = 0")
      case False
      with tj show ?thesis by simp
    next
      case True
      have cm: "?c < DENYFS_MAX_FILE_BLOCKS" "slot_of ?c = Direct ?c" using c by (simp_all add: DENYFS_MAX_FILE_BLOCKS_def slot_of_def)
      have fb: "file_block f (?m ! 0) l = (if l = ?c then d else file_block f ?nd l)" if "l < DENYFS_MAX_FILE_BLOCKS" for l
        using svm [OF l0 slot_of_ok [OF that]] slot_of_inj [of l ?c] cm(2) by (auto simp: file_block_def)
      have "l \<in> blocks_of f (?m ! 0) \<longleftrightarrow> l \<in> insert ?c (blocks_of f ?nd)" for l
      proof (cases "l < DENYFS_MAX_FILE_BLOCKS")
        case True
        show ?thesis unfolding blocks_of_def mem_Collect_eq insert_iff fb [OF True] using True dv by auto
      qed (use cm(1) in \<open>auto simp: blocks_of_def\<close>)
      then have bl: "blocks_of f (?m ! 0) = insert ?c (blocks_of f ?nd)" by blast
      have "?c \<notin> blocks_of f ?nd" using inv cm(2) by (simp add: blocks_of_def file_block_def)
      then have "card (blocks_of f (?m ! 0)) = Suc ?c" using tj True bl by (simp add: tree_ok_def)
      moreover have "unat (i_block_count (?m ! 0)) = Suc ?c"
        using l0 c by (simp add: unat_word_ariths layout_sizes)
      moreover have "sval f (?m ! 0) q = DENYFS_INVALID_BLOCK" if "slot_ok q" "\<not> data_slot q" for q
      proof -
        have "sval f (?m ! 0) q = sval f ?nd q" using svm [OF l0 that(1)] that(2) by auto
        also have "\<dots> = DENYFS_INVALID_BLOCK" using r that by (cases q) (auto simp: root_ok_def root_inode_ok_def)
        finally show ?thesis .
      qed
      ultimately show ?thesis using True by (simp add: tree_ok_def)
    qed
  qed
  let ?g = "f(d := ?img)"
  have up: "goes E v (insert (unat d) U) f ?m (upd_inode u 0 ?h)"
    using goes_upd [OF g, of ?h 0] by (simp add: inode_ok_def)
  obtain w where w: "write_block E (upd_inode u 0 ?h) d ?img = (Inr (), w)" "goes E v (insert (unat d) U) ?g ?m w"
    using goes_write [OF up insertI1 il] by blast
  text \<open>The listing.\<close>
  have lv: "live (i_direct (?m ! 0)) = live (i_direct ?nd) @ [d]"
  proof -
    have "i_direct (?m ! 0) = take ?c (i_direct ?nd) @ d # replicate (DENYFS_DIRECT_BLOCKS - Suc ?c) DENYFS_INVALID_BLOCK"
      using l0 len c root_prefix(1) [OF r ok] by (simp add: upd_conv_take_nth_drop) (metis add_diff_cancel_left' append_eq_conv_conj drop_replicate length_take less_imp_le_nat min.absorb2 plus_1_eq_Suc drop_drop)
    moreover have "live (d # replicate k DENYFS_INVALID_BLOCK) = [d]" for k using dv by (simp add: live_def)
    ultimately show ?thesis using root_prefix(2,4) [OF r ok] by (simp add: live_append)
  qed
  have dn: "d \<notin> set (live (i_direct ?nd))" using r d by (auto simp: root_ok_def dir_blocks_ok_def)
  have be: "block_entries ?g (i_direct (?m ! 0)) = block_entries f (i_direct ?nd) @ ?es"
  proof -
    have a: "map (\<lambda>b. dirents_dec (?g b)) (live (i_direct ?nd)) = map (\<lambda>b. dirents_dec (f b)) (live (i_direct ?nd))"
      using dn by (intro map_cong) auto
    have b: "dirents_dec ?img = ?es" using esok by (simp add: dirents_dec_enc)
    show ?thesis unfolding block_entries_def lv map_append concat_append a by (simp add: b)
  qed
  have les: "listing_of ?es = [pair_of e]"
  proof -
    obtain k where k: "DENYFS_DIRENTS_PER_BLOCK = Suc k" using not0_implies_Suc [of DENYFS_DIRENTS_PER_BLOCK] by (auto simp: layout_sizes)
    show ?thesis unfolding k using e(3) by (simp add: listing_of_def)
  qed
  have ls: "listing ?g (?m ! 0) = listing f ?nd @ [pair_of e]" by (simp add: listing_def be listing_of_append les)
  have "dir_blocks_ok ?g (insert (unat d) U) (i_direct (?m ! 0))"
    using r e(2) unfolding dir_blocks_ok_def be lv
    by (auto simp: root_ok_def dir_blocks_ok_def dest!: set_update_subset_insert [THEN subsetD])
  moreover have "root_inode_ok (?m ! 0)"
    using r l0 c by (simp add: root_ok_def root_inode_ok_def word_unat_eq_iff unat_word_ariths layout_sizes)
  moreover have "i_direct (?m ! 0) ! i \<noteq> DENYFS_INVALID_BLOCK \<longleftrightarrow> i < unat (i_block_count (?m ! 0))" if "i < DENYFS_DIRECT_BLOCKS" for i
  proof -
    have "unat (i_block_count (?m ! 0)) = Suc ?c" using l0 c by (simp add: unat_word_ariths layout_sizes)
    moreover have "i_direct ?nd ! i \<noteq> DENYFS_INVALID_BLOCK \<longleftrightarrow> i < ?c" using root_direct [OF r that] .
    ultimately show ?thesis using l0 len c dv that by (auto simp: nth_list_update)
  qed
  moreover have "distinct (map fst (listing ?g (?m ! 0)))" "distinct (map snd (listing ?g (?m ! 0)))"
    using r L by (simp_all add: ls root_ok_def pair_of_def)
  ultimately have ro: "root_ok ?g (insert (unat d) U) (?m ! 0)" by (simp add: root_ok_def)
  have kp: "kept 0 f n ?g ?m" using kept_trans [OF km dw(1)] by simp
  have ow: "owned ?g ?m (insert (unat d) U)" using dw(2) by simp
  have tg: "trees ?g ?m" using dw(3) trm by simp
  have ml: "mset (listing ?g (?m ! 0)) = add_mset (pair_of e) (mset (listing f ?nd))" by (simp add: ls)
  have "dir_step E v f n (add_mset (pair_of e) (mset (listing f ?nd))) U w"
    unfolding dir_step_def using w(2) ow tg ro kp ml by blast
  with w(1) show ?thesis by blast
qed

text \<open>The loop over the direct pointers stops behind the last directory block.\<close>

lemma root_take_blocks:
  assumes "root_ok f U nd" "inode_ok nd"
  shows "block_entries f (takeWhile (\<lambda>b. b \<noteq> DENYFS_INVALID_BLOCK) (i_direct nd)) = block_entries f (i_direct nd)"
proof -
  note p = root_prefix [OF assms]
  let ?t = "take (unat (i_block_count nd)) (i_direct nd)"
  have "\<forall>b \<in> set ?t. b \<noteq> DENYFS_INVALID_BLOCK" using p(4) by (auto simp: live_def filter_id_conv)
  then have "takeWhile (\<lambda>b. b \<noteq> DENYFS_INVALID_BLOCK) (i_direct nd) = ?t"
    by (subst p(1)) (simp add: takeWhile_append2 takeWhile_replicate)
  then show ?thesis using p(2,4) by (simp add: block_entries_def)
qed

text \<open>A directory without room has twenty blocks of sixteen names.\<close>

lemma full_listing:
  assumes g: "goes E v U f n u" and l0: "0 < length n" and r: "root_ok f U (n ! 0)"
    and c: "DENYFS_DIRECT_BLOCKS \<le> unat (i_block_count (n ! 0))"
    and e: "\<forall>e \<in> set (block_entries f (takeWhile (\<lambda>b. b \<noteq> DENYFS_INVALID_BLOCK) (i_direct (n ! 0)))). \<not> entry_free e"
  shows "DENYFS_DIRECT_BLOCKS * DENYFS_DIRENTS_PER_BLOCK \<le> length (listing f (n ! 0))"
proof -
  let ?d = "i_direct (n ! 0)"
  have ok: "length ?d = DENYFS_DIRECT_BLOCKS" using goes_inode_ok [OF g l0] by (simp add: inode_ok_def)
  have nz: "\<forall>b \<in> set ?d. b \<noteq> DENYFS_INVALID_BLOCK"
    using root_direct [OF r] c ok by (auto simp: in_set_conv_nth)
  have tw: "takeWhile (\<lambda>b. b \<noteq> DENYFS_INVALID_BLOCK) ?d = ?d" using nz by (simp add: takeWhile_eq_all_conv)
  have "listing f (n ! 0) = map pair_of (block_entries f ?d)"
    using e unfolding tw listing_def listing_of_def by (simp add: filter_True)
  moreover have "length (block_entries f ?d) = DENYFS_DIRECT_BLOCKS * DENYFS_DIRENTS_PER_BLOCK"
  proof -
    have "live ?d = ?d" using nz by (simp add: live_def filter_True)
    then have "length (block_entries f ?d) = sum_list (map (\<lambda>b. DENYFS_DIRENTS_PER_BLOCK) ?d)"
      by (simp add: block_entries_def length_concat comp_def)
    then show ?thesis by (simp add: sum_list_triv ok)
  qed
  ultimately show ?thesis by simp
qed

lemma add_dirent_ok:
  assumes g: "goes E v U f n u" and o: "owned f n U" and tr: "trees f n" and l0: "0 < length n"
    and r: "root_ok f U (n ! 0)" and nm: "good_name name" and i: "0 < ino" "ino < DENYFS_MAX_INODES"
    and L: "name \<notin> fst ` set (listing f (n ! 0))" "of_nat ino \<notin> snd ` set (listing f (n ! 0))"
  shows "(\<exists>w. add_dirent E u name (of_nat ino) = (Inl ENOSPC, w) \<and> goes E v U f n w \<and>
      (U = pool v \<or> DENYFS_DIRECT_BLOCKS * DENYFS_DIRENTS_PER_BLOCK \<le> length (listing f (n ! 0)))) \<or>
    (\<exists>w. add_dirent E u name (of_nat ino) = (Inr (), w) \<and>
      ((\<exists>e \<in> set (block_entries f (i_direct (n ! 0))). entry_free e) \<longrightarrow> used w = U) \<and>
      dir_step E v f n (add_mset (name, of_nat ino) (mset (listing f (n ! 0)))) U w)"
proof -
  let ?e = "new_entry name (of_nat ino)" and ?bs = "i_direct (n ! 0)"
  note e = new_entry_facts [OF nm i]
  have pe: "pair_of ?e = (name, of_nat ino)" using e(2) by (simp add: pair_of_def new_entry_def)
  have ln: "\<not> (length name = 0 \<or> DENYFS_MAX_NAME_LEN \<le> length name)" using nm by (auto simp: good_name_def)
  have nd: "inode_at u 0 = n ! 0" using g by (simp add: goes_def inode_at_def)
  have ok: "dir_blocks_ok f U ?bs" using r by (simp add: root_ok_def)
  from g ok e(1) show ?thesis
  proof (cases rule: add_blocks_cases [of E v U f n u ?bs name "of_nat ino"])
    case (slot pre b post k w)
    have rd: "length (f b) = SECTOR_SIZE" using goes_read(2) [OF g slot(3)] .
    have d: "distinct (live ?bs)" by (rule root_distinct [OF o l0 goes_inode_ok [OF g l0]])
    have "mset (listing (put_entry f b k ?e) (n ! 0)) = add_mset (name, of_nat ino) (mset (listing f (n ! 0)))"
    proof -
      have "filter_mset (\<lambda>e. \<not> entry_free e) (M - {#x#}) = filter_mset (\<lambda>e. \<not> entry_free e) M" if "entry_free x" for M :: "dirent multiset" and x
        using that by (auto simp: multiset_eq_iff)
      then show ?thesis
        unfolding listing_mset put_entry_mset(1) [where f = f and b = b, OF slot(1) d slot(2) rd e(1) slot(4)]
        using slot(5) e(3) pe by simp
    qed
    from entry_step [OF slot(7) o tr l0 r rd slot(1,2,4) e(1,4) this, of "(name, of_nat ino) # listing f (n ! 0)"]
    have "dir_step E v f n (add_mset (name, of_nat ino) (mset (listing f (n ! 0)))) U w"
      using L r by (simp add: root_ok_def)
    moreover have "add_dirent E u name (of_nat ino) = (Inr (), w)"
      using ln slot(6) by (simp add: add_dirent_def nd)
    moreover have "used w = U" using slot(7) by (simp add: goes_def)
    ultimately show ?thesis by blast
  next
    case full
    have nofree: "\<not> (\<exists>e \<in> set (block_entries f ?bs). entry_free e)"
      using full(2) unfolding root_take_blocks [OF r goes_inode_ok [OF g l0]] by blast
    show ?thesis
    proof (cases "DENYFS_DIRECT_BLOCKS \<le> unat (i_block_count (n ! 0))")
      case True
      then have "add_dirent E u name (of_nat ino) = (Inl ENOSPC, u)" using ln full(1) by (simp add: add_dirent_def nd)
      moreover have "DENYFS_DIRECT_BLOCKS * DENYFS_DIRENTS_PER_BLOCK \<le> length (listing f (n ! 0))"
        by (rule full_listing [OF g l0 r True full(2)])
      ultimately show ?thesis using g by blast
    next
      case False
      then have c: "unat (i_block_count (n ! 0)) < DENYFS_DIRECT_BLOCKS" by simp
      from goes_alloc [OF g] show ?thesis
      proof (elim disjE exE conjE)
        assume a: "alloc_block u = (- 1, u)" "U = pool v"
        then have "add_dirent E u name (of_nat ino) = (Inl ENOSPC, u)" using ln full(1) c by (simp add: add_dirent_def nd)
        with g a(2) show ?thesis by blast
      next
        fix k :: int and d :: u32 and x
        assume a: "alloc_block u = (k, x)" "0 \<le> k" "d = of_int k" "unat d \<notin> U" "goes E v (insert (unat d) U) f n x"
        have "name_of ?e \<notin> fst ` set (listing f (n ! 0))" "de_inode ?e \<notin> snd ` set (listing f (n ! 0))"
          using L e(2) by (simp_all add: new_entry_def)
        from new_block_step [OF a(5,4) o tr l0 r c e(1,4,3) this] obtain w where
          w: "write_block E (upd_inode x 0 (\<lambda>root. root\<lparr>
            i_direct := (i_direct root)[unat (i_block_count root) := d], i_block_count := i_block_count root + 1\<rparr>)) d
            (dirents_enc ((replicate DENYFS_DIRENTS_PER_BLOCK free_entry)[0 := ?e])) = (Inr (), w)"
          "dir_step E v f n (add_mset (name, of_nat ino) (mset (listing f (n ! 0)))) U w"
          unfolding pe by blast
        have "add_dirent E u name (of_nat ino) = (Inr (), w)"
          using ln full(1) c a(1,2) w(1) unfolding a(3) by (simp add: add_dirent_def nd Let_def)
        with w(2) nofree show ?thesis by blast
      qed
    qed
  qed
qed

lemma remove_dirent_ok:
  assumes g: "goes E v U f n u" and o: "owned f n U" and tr: "trees f n" and l0: "0 < length n"
    and r: "root_ok f U (n ! 0)" and ln: "length name < DENYFS_MAX_NAME_LEN" and L: "(name, ino) \<in> set (listing f (n ! 0))"
  shows "\<exists>w. remove_dirent E u name = (Inr (), w) \<and> used w = U \<and>
    dir_step E v f n (mset (listing f (n ! 0)) - {#(name, ino)#}) U w"
proof -
  let ?bs = "i_direct (n ! 0)" and ?L = "listing f (n ! 0)"
  have nd: "inode_at u 0 = n ! 0" using g by (simp add: goes_def inode_at_def)
  have ok: "dir_blocks_ok f U ?bs" using r by (simp add: root_ok_def)
  have df: "distinct (map fst ?L)" "distinct (map snd ?L)" using r by (simp_all add: root_ok_def)
  have L2: "(name, ino) \<in> set (listing_of (block_entries f ?bs))" using L by (simp add: listing_def)
  from g ok ln show ?thesis
  proof (cases rule: remove_blocks_cases [of E v U f n u ?bs name])
    case absent
    then show ?thesis using L2 by force
  next
    case (found pre b post k w)
    let ?e = "dirents_dec (f b) ! k"
    have rd: "length (f b) = SECTOR_SIZE" using goes_read(2) [OF g found(3)] .
    have d: "distinct (live ?bs)" by (rule root_distinct [OF o l0 goes_inode_ok [OF g l0]])
    note pm = put_entry_mset [where f = f and b = b, OF found(1) d found(2) rd free_entry_ok found(4)]
    have "pair_of ?e \<in> set ?L" using pm(2) found(5) by (simp add: listing_def listing_of_def)
    moreover have "fst (pair_of ?e) = name" using found(6) by (simp add: pair_of_def)
    ultimately have pe: "pair_of ?e = (name, ino)" using L df(1) by (metis eq_key_imp_eq_value prod.collapse)
    have M: "mset (listing (put_entry f b k free_entry) (n ! 0)) = mset ?L - {#(name, ino)#}"
    proof -
      have "filter_mset (\<lambda>e. \<not> entry_free e) (M - {#x#}) = filter_mset (\<lambda>e. \<not> entry_free e) M - {#x#}"
        if "\<not> entry_free x" for M :: "dirent multiset" and x
        using that by (auto simp: multiset_eq_iff)
      moreover have "?e \<in># filter_mset (\<lambda>e. \<not> entry_free e) (mset (block_entries f ?bs))" using pm(2) found(5) by simp
      ultimately show ?thesis unfolding listing_mset pm(1) using found(5) pe by (simp add: image_mset_Diff)
    qed
    have "mset (remove1 (name, ino) ?L) = mset ?L - {#(name, ino)#}" by simp
    moreover have "distinct (map fst (remove1 (name, ino) ?L))" "distinct (map snd (remove1 (name, ino) ?L))"
      using df by (auto simp: distinct_map intro: inj_on_diff)
    ultimately have "dir_step E v f n (mset ?L - {#(name, ino)#}) U w"
      using entry_step [OF found(8) o tr l0 r rd found(1,2,4) free_entry_ok free_entry_free(2) M] by blast
    moreover have "remove_dirent E u name = (Inr (), w)" using found(7) by (simp add: remove_dirent_def nd)
    moreover have "used w = U" using found(8) by (simp add: goes_def)
    ultimately show ?thesis by blast
  qed
qed

end
