(* ===== verification/FileSys.thy ===== *)
theory FileSys
  imports Names
begin

text \<open>
  The mounted file system as a whole: \<open>sound\<close> is the invariant that relates the directory, the inode
  table, the block trees and the counters, and every operation of \<open>src/src/fs.c\<close> keeps it. \<open>dir\<close> is
  the directory as a map; create and unlink change it at one name.
\<close>

section \<open>The invariant\<close>

text \<open>\<open>fsys\<close>: the inodes other than the root are files with one directory entry, or blank and free.\<close>

definition fsys :: "(u32 \<Rightarrow> bytes) \<Rightarrow> inode list \<Rightarrow> nat set \<Rightarrow> bool" where
  "fsys f n U \<longleftrightarrow> owned f n U \<and> trees f n \<and> root_ok f U (n ! 0) \<and>
     (\<forall>i < length n. unat (i_size (n ! i)) \<le> DENYFS_MAX_FILE_SIZE) \<and>
     (\<forall>i < length n. 0 < i \<longrightarrow> (if of_nat i \<in> snd ` set (listing f (n ! 0)) then i_type (n ! i) = DENYFS_ITYPE_FILE
        else i_type (n ! i) = DENYFS_ITYPE_FREE \<and> blank f (n ! i)))"

definition dir :: "env \<Rightarrow> volume \<Rightarrow> bytes \<rightharpoonup> u32" where
  "dir E v = map_of (listing (cells E v) (inode_at v 0))"

definition sound :: "env \<Rightarrow> volume \<Rightarrow> bool" where
  "sound E v \<longleftrightarrow> core E v \<and> fsys (cells E v) (v_inodes v) (used v) \<and>
     unat (sb_free_inodes (v_sb v)) + length (listing (cells E v) (inode_at v 0)) + 1 = DENYFS_MAX_INODES"

lemma core_length: "core E v \<Longrightarrow> length (v_inodes v) = DENYFS_MAX_INODES"
  by (simp add: core_def wf_def inodes_ok_def)

lemma sound_mounted: "sound E v \<Longrightarrow> mounted E v"
  using core_length [of E v] by (simp add: sound_def fsys_def mounted_def inode_at_def)

lemma sound_length: "sound E v \<Longrightarrow> length (v_inodes v) = DENYFS_MAX_INODES"
  unfolding sound_def by (elim conjE) (rule core_length)

lemma sound_root: "sound E v \<Longrightarrow> root_ok (cells E v) (used v) (inode_at v 0)"
  by (simp add: sound_def fsys_def inode_at_def)

lemma sound_distinct:
  assumes "sound E v"
  shows "distinct (map fst (listing (cells E v) (inode_at v 0)))" "distinct (map snd (listing (cells E v) (inode_at v 0)))"
  using sound_root [OF assms] by (simp_all add: root_ok_def)

text \<open>A listed inode number is in range.\<close>

lemma listing_range:
  assumes r: "root_ok f U nd" and e: "(name, i) \<in> set (listing f nd)"
  shows "0 < unat i" "unat i < DENYFS_MAX_INODES" "i = of_nat (unat i)"
proof -
  obtain d where d: "d \<in> set (block_entries f (i_direct nd))" "\<not> entry_free d" "de_inode d = i"
    using e by (auto simp: listing_def listing_of_def pair_of_def)
  have "valid_dirent d" using r d(1) by (simp add: root_ok_def dir_blocks_ok_def)
  then have "i \<noteq> 0" "unat i < DENYFS_MAX_INODES" using d(2,3) by (auto simp: valid_dirent_def entry_free_def split: if_splits)
  then show "0 < unat i" "unat i < DENYFS_MAX_INODES" "i = of_nat (unat i)" by (simp_all add: unat_gt_0)
qed

lemma dir_listing: "dir E v name = Some i \<Longrightarrow> (name, i) \<in> set (listing (cells E v) (inode_at v 0))"
  unfolding dir_def by (rule map_of_SomeD)

lemma dir_file:
  assumes s: "sound E v" and d: "dir E v name = Some i"
  shows "0 < unat i" "unat i < DENYFS_MAX_INODES" "i_type (inode_at v (unat i)) = DENYFS_ITYPE_FILE"
proof -
  note e = dir_listing [OF d]
  note r = listing_range [OF sound_root [OF s] e]
  show l: "0 < unat i" "unat i < DENYFS_MAX_INODES" using r by simp_all
  have "unat i < length (v_inodes v)" using r(2) unfolding sound_length [OF s] .
  moreover have "i \<in> snd ` set (listing (cells E v) (inode_at v 0))" using e by force
  ultimately show "i_type (inode_at v (unat i)) = DENYFS_ITYPE_FILE"
    using s l by (simp add: sound_def fsys_def inode_at_def)
qed

text \<open>Two names never share a file.\<close>

lemma dir_inj:
  assumes "sound E v" "dir E v a = Some i" "dir E v b = Some i"
  shows "a = b"
proof -
  have "inj_on snd (set (listing (cells E v) (inode_at v 0)))"
    using sound_distinct(2) [OF assms(1)] by (simp add: distinct_map)
  from inj_onD [OF this _ dir_listing [OF assms(2)] dir_listing [OF assms(3)]] show ?thesis by simp
qed

lemma map_of_mset:
  assumes "distinct (map fst xs)" "mset ys = mset xs"
  shows "map_of ys = map_of xs"
proof -
  have "distinct (map fst ys)" using assms mset_eq_imp_distinct_iff [of "map fst ys" "map fst xs"] by simp
  moreover have "set ys = set xs" using assms(2) by (metis set_mset_mset)
  ultimately show ?thesis using assms(1) by (simp add: map_of_inject_set)
qed

section \<open>Agreement\<close>

text \<open>Whatever a flush does to the metadata blocks, the file system does not notice.\<close>

lemma listing_agree:
  assumes "dir_blocks_ok f U (i_direct nd)" "\<And>c. unat c \<in> U \<Longrightarrow> g c = f c"
  shows "listing g nd = listing f nd" "block_entries g (i_direct nd) = block_entries f (i_direct nd)"
proof -
  show "block_entries g (i_direct nd) = block_entries f (i_direct nd)"
    by (rule block_entries_agree) (use assms in \<open>auto simp: dir_blocks_ok_def\<close>)
  then show "listing g nd = listing f nd" by (simp add: listing_def)
qed

lemma root_ok_agree:
  assumes "root_ok f U nd" "\<And>c. unat c \<in> U \<Longrightarrow> g c = f c"
  shows "root_ok g U nd"
  using assms(1) listing_agree [of f U nd g] assms(2) by (simp add: root_ok_def dir_blocks_ok_def)

lemma blank_fields:
  assumes "inode_ok nd"
  shows "blank f nd \<longleftrightarrow> i_size nd = 0 \<and> i_block_count nd = 0 \<and>
    i_direct nd = replicate DENYFS_DIRECT_BLOCKS DENYFS_INVALID_BLOCK \<and> i_indirect nd = DENYFS_INVALID_BLOCK \<and>
    i_double nd = DENYFS_INVALID_BLOCK" (is "_ \<longleftrightarrow> ?r")
proof
  assume b: "blank f nd"
  have l: "length (i_direct nd) = DENYFS_DIRECT_BLOCKS" using assms by (simp add: inode_ok_def)
  have s: "sval f nd s = DENYFS_INVALID_BLOCK" if "slot_ok s" for s using b that by (simp add: blank_def)
  have "i_direct nd = replicate DENYFS_DIRECT_BLOCKS DENYFS_INVALID_BLOCK"
    by (rule nth_equalityI) (use l s [of "Direct i" for i] in auto)
  then show ?r using b s [of Single] s [of Double] by (simp add: blank_def)
next
  assume r: ?r
  have "sval f nd s = DENYFS_INVALID_BLOCK" if "slot_ok s" for s
    using that r by (cases s) simp_all
  then show "blank f nd" using r by (simp add: blank_def)
qed

lemma blank_any: "inode_ok nd \<Longrightarrow> blank f nd \<Longrightarrow> blank g nd"
  by (simp add: blank_fields)

lemma fsys_agree:
  assumes s: "fsys f n U" and n: "0 < length n" "\<forall>nd \<in> set n. inode_ok nd" and g: "\<And>c. unat c \<in> U \<Longrightarrow> g c = f c"
  shows "fsys g n U" "listing g (n ! 0) = listing f (n ! 0)"
proof -
  have o: "owned f n U" and r: "root_ok f U (n ! 0)" and t: "trees f n" using s by (simp_all add: fsys_def)
  show ls: "listing g (n ! 0) = listing f (n ! 0)"
    using listing_agree(1) [of f U "n ! 0" g] r g by (simp add: root_ok_def)
  have b: "blank g (n ! i) = blank f (n ! i)" if "i < length n" for i
    using n(2) that blank_any nth_mem by blast
  show "fsys g n U"
    using s owned_agree [OF o g] trees_agree [OF o g t] root_ok_agree [OF r g] b ls by (simp add: fsys_def)
qed

section \<open>Files that an operation leaves alone\<close>

definition same_file :: "env \<Rightarrow> volume \<Rightarrow> volume \<Rightarrow> nat \<Rightarrow> bool" where
  "same_file E v w j \<longleftrightarrow> inode_at w j = inode_at v j \<and>
     (\<forall>l < DENYFS_MAX_FILE_BLOCKS. file_block (cells E w) (inode_at v j) l \<noteq> DENYFS_INVALID_BLOCK \<longrightarrow>
       file_block (cells E v) (inode_at v j) l \<noteq> DENYFS_INVALID_BLOCK) \<and>
     (\<forall>p < MAX_BYTES. file_byte (cells E w) (inode_at v j) p = file_byte (cells E v) (inode_at v j) p)"

lemma same_file_refl [simp]: "same_file E v v j"
  by (simp add: same_file_def)

lemma same_file_trans: "same_file E u v j \<Longrightarrow> same_file E v w j \<Longrightarrow> same_file E u w j"
  by (simp add: same_file_def)

lemma same_file_facts:
  assumes "same_file E v w j"
  shows "fits E v j \<Longrightarrow> fits E w j" "tail_zero E w j = tail_zero E v j"
    "unat (i_size (inode_at v j)) \<le> DENYFS_MAX_FILE_SIZE \<Longrightarrow> contents E w j = contents E v j"
proof -
  have i: "inode_at w j = inode_at v j" using assms by (simp add: same_file_def)
  have b: "file_block (cells E v) (inode_at v j) l \<noteq> DENYFS_INVALID_BLOCK"
    if "l < DENYFS_MAX_FILE_BLOCKS" "file_block (cells E w) (inode_at w j) l \<noteq> DENYFS_INVALID_BLOCK" for l
    using assms that by (simp add: same_file_def i)
  have p: "file_byte (cells E w) (inode_at w j) p = file_byte (cells E v) (inode_at v j) p" if "p < MAX_BYTES" for p
    using assms that by (simp add: same_file_def i)
  show "fits E v j \<Longrightarrow> fits E w j" using b i by (simp add: fits_def)
  show "tail_zero E w j = tail_zero E v j" using p i by (simp add: tail_zero_def)
  show "contents E w j = contents E v j" if "unat (i_size (inode_at v j)) \<le> DENYFS_MAX_FILE_SIZE"
    by (rule contents_eq) (use p i that MAX_FILE_SIZE_bytes in simp_all)
qed

lemma file_block_direct: "i < DENYFS_DIRECT_BLOCKS \<Longrightarrow> file_block f nd i = i_direct nd ! i"
  by (simp add: file_block_def slot_of_def)

text \<open>The root directory is such a file for every operation on other files.\<close>

lemma same_root:
  assumes m: "mounted E v" "mounted E w" and s: "same_file E v w 0"
    and r: "root_ok (cells E v) (used v) (inode_at v 0)"
  shows "root_ok (cells E w) (used w) (inode_at w 0)" "listing (cells E w) (inode_at w 0) = listing (cells E v) (inode_at v 0)"
proof -
  let ?nd = "inode_at v 0" and ?f = "cells E v" and ?g = "cells E w"
  have i: "inode_at w 0 = ?nd" using s by (simp add: same_file_def)
  note mv = mounted_goes [OF m(1)] and mw = mounted_goes [OF m(2)]
  have l0: "0 < length (v_inodes v)" "0 < length (v_inodes w)" using mv mw by (simp_all add: DENYFS_MAX_INODES_def)
  have ok: "inode_ok ?nd" using goes_inode_ok [OF conjunct1 [OF mv] l0(1)] by (simp add: inode_at_def)
  have len: "length (i_direct ?nd) = DENYFS_DIRECT_BLOCKS" using ok by (simp add: inode_ok_def)
  have cell: "?g d = ?f d \<and> unat d \<in> used w" if d: "d \<in> set (live (i_direct ?nd))" for d
  proof -
    obtain k where k: "k < DENYFS_DIRECT_BLOCKS" "i_direct ?nd ! k = d" "d \<noteq> DENYFS_INVALID_BLOCK"
      using d len by (auto simp: live_def in_set_conv_nth)
    have u: "unat d \<in> used v" using r d by (simp add: root_ok_def dir_blocks_ok_def)
    have "sval ?g (v_inodes w ! 0) (Direct k) = d" using k i by (simp add: inode_at_def)
    then have w: "unat d \<in> used w" using ownedD [OF _ l0(2), of ?g "used w" "Direct k"] mw k by simp
    have "?g d = ?f d"
    proof (rule nth_equalityI)
      have lv: "length (?f d) = SECTOR_SIZE" using goes_read(2) [OF conjunct1 [OF mv] u] .
      have lw: "length (?g d) = SECTOR_SIZE" using goes_read(2) [OF conjunct1 [OF mw] w] .
      show "length (?g d) = length (?f d)" by (simp add: lv lw)
      fix q assume "q < length (?g d)"
      then have q: "q < SECTOR_SIZE" by (simp add: lw)
      have dm: "(k * SECTOR_SIZE + q) div SECTOR_SIZE = k" "(k * SECTOR_SIZE + q) mod SECTOR_SIZE = q"
        using q by (simp_all add: div_mult_self3)
      have "k * SECTOR_SIZE + q < MAX_BYTES"
        using q k(1) by (simp add: MAX_BYTES_def DENYFS_MAX_FILE_BLOCKS_def layout_sizes)
      then have "file_byte ?g ?nd (k * SECTOR_SIZE + q) = file_byte ?f ?nd (k * SECTOR_SIZE + q)"
        using s by (simp add: same_file_def)
      then show "?g d ! q = ?f d ! q"
        unfolding file_byte_def dm i file_block_direct [OF k(1)] k(2) using k(3) by (simp add: block_bytes_def)
    qed
    with w show ?thesis by blast
  qed
  have be: "block_entries ?g (i_direct ?nd) = block_entries ?f (i_direct ?nd)"
    by (rule block_entries_agree) (use cell in blast)
  then show ls: "listing ?g (inode_at w 0) = listing ?f ?nd" by (simp add: i listing_def)
  show "root_ok ?g (used w) (inode_at w 0)"
    using r be ls cell unfolding i root_ok_def dir_blocks_ok_def by simp
qed

text \<open>An operation on one file that leaves the others alone keeps the invariant.\<close>

lemma sound_file_step:
  assumes s: "sound E v" and m: "mounted E w" and st: "stat v w"
    and i: "0 < ino" "ino < DENYFS_MAX_INODES" "i_type (inode_at v ino) = DENYFS_ITYPE_FILE"
      "i_type (inode_at w ino) = DENYFS_ITYPE_FILE"
    and o: "\<And>j. j < DENYFS_MAX_INODES \<Longrightarrow> j \<noteq> ino \<Longrightarrow> same_file E v w j"
  shows "sound E w" "dir E w = dir E v"
proof -
  note lv = sound_length [OF s] and mw = mounted_goes [OF m]
  have s0: "same_file E v w 0" using o [of 0] i(1) by (simp add: DENYFS_MAX_INODES_def)
  note r = same_root [OF sound_mounted [OF s] m s0 sound_root [OF s]]
  show "dir E w = dir E v" by (simp add: dir_def r(2))
  have nd: "inode_at w j = inode_at v j" if "j < DENYFS_MAX_INODES" "j \<noteq> ino" for j using o [OF that] by (simp add: same_file_def)
  have inn: "if of_nat j \<in> snd ` set (listing (cells E w) (v_inodes w ! 0)) then i_type (v_inodes w ! j) = DENYFS_ITYPE_FILE
        else i_type (v_inodes w ! j) = DENYFS_ITYPE_FREE \<and> blank (cells E w) (v_inodes w ! j)"
    if j: "j < DENYFS_MAX_INODES" "0 < j" for j
  proof -
    have p: "if of_nat j \<in> snd ` set (listing (cells E v) (v_inodes v ! 0)) then i_type (v_inodes v ! j) = DENYFS_ITYPE_FILE
        else i_type (v_inodes v ! j) = DENYFS_ITYPE_FREE \<and> blank (cells E v) (v_inodes v ! j)"
      using s j lv by (simp add: sound_def fsys_def)
    have ls: "listing (cells E w) (v_inodes w ! 0) = listing (cells E v) (v_inodes v ! 0)" using r(2) by (simp add: inode_at_def)
    show ?thesis
    proof (cases "j = ino")
      case True
      have "DENYFS_ITYPE_FILE \<noteq> DENYFS_ITYPE_FREE" by (simp add: DENYFS_ITYPE_FILE_def DENYFS_ITYPE_FREE_def)
      with True p i show ?thesis unfolding ls by (simp add: inode_at_def split: if_split_asm)
    next
      case False
      have q: "v_inodes w ! j = v_inodes v ! j" using nd [OF j(1) False] by (simp add: inode_at_def)
      have ok: "inode_ok (v_inodes v ! j)"
        using goes_inode_ok [OF conjunct1 [OF mounted_goes [OF sound_mounted [OF s]]]] j lv by simp
      show ?thesis using p unfolding ls q by (auto split: if_split_asm intro: blank_any [OF ok])
    qed
  qed
  have "fsys (cells E w) (v_inodes w) (used w)"
    unfolding fsys_def
  proof (intro conjI)
    show "owned (cells E w) (v_inodes w) (used w)" "trees (cells E w) (v_inodes w)" using mw by simp_all
    show "root_ok (cells E w) (used w) (v_inodes w ! 0)" using r(1) by (simp add: inode_at_def)
    show "\<forall>i < length (v_inodes w). unat (i_size (v_inodes w ! i)) \<le> DENYFS_MAX_FILE_SIZE"
      using mounted_size [OF m] mw by (simp add: inode_at_def)
    show "\<forall>i<length (v_inodes w). 0 < i \<longrightarrow>
        (if of_nat i \<in> snd ` set (listing (cells E w) (v_inodes w ! 0)) then i_type (v_inodes w ! i) = DENYFS_ITYPE_FILE
         else i_type (v_inodes w ! i) = DENYFS_ITYPE_FREE \<and> blank (cells E w) (v_inodes w ! i))"
      using inn conjunct1 [OF conjunct2 [OF conjunct2 [OF mw]]] by simp
  qed
  moreover have "sb_free_inodes (v_sb w) = sb_free_inodes (v_sb v)" using st by (simp add: stat_def)
  moreover have "core E w" using m by (simp add: mounted_def)
  ultimately show "sound E w" using s r(2) by (simp add: sound_def)
qed

section \<open>Lookup, read, write and truncate\<close>

lemma sound_goes:
  assumes "sound E v"
  shows "goes E v (used v) (cells E v) (v_inodes v) v" "owned (cells E v) (v_inodes v) (used v)"
    "trees (cells E v) (v_inodes v)" "root_ok (cells E v) (used v) (v_inodes v ! 0)" "0 < length (v_inodes v)"
    "\<forall>nd \<in> set (v_inodes v). inode_ok nd"
proof -
  note m = mounted_goes [OF sound_mounted [OF assms]]
  show g: "goes E v (used v) (cells E v) (v_inodes v) v" using m by simp
  show "owned (cells E v) (v_inodes v) (used v)" "trees (cells E v) (v_inodes v)" using m by simp_all
  show "root_ok (cells E v) (used v) (v_inodes v ! 0)" using sound_root [OF assms] by (simp add: inode_at_def)
  show "0 < length (v_inodes v)" using m by (simp add: DENYFS_MAX_INODES_def)
  show "\<forall>nd \<in> set (v_inodes v). inode_ok nd" using goes_inode_ok [OF g] by (auto simp: in_set_conv_nth)
qed

lemma vol_lookup_dir:
  assumes s: "sound E v"
  shows "vol_lookup E v name =
    (if name = [] \<or> DENYFS_MAX_NAME_LEN \<le> length name then Inl EINVAL
     else case dir E v name of None \<Rightarrow> Inl ENOENT | Some i \<Rightarrow> Inr i, v)"
proof (cases "name = [] \<or> DENYFS_MAX_NAME_LEN \<le> length name")
  case False
  have "dir_blocks_ok (cells E v) (used v) (i_direct (inode_at v 0))"
    using sound_root [OF s] by (simp add: root_ok_def)
  from lookup_blocks_find [OF sound_goes(1) [OF s] this, of name] False show ?thesis
    by (simp add: vol_lookup_def dir_def listing_def)
qed (simp add: vol_lookup_def)

lemma wrote_same:
  assumes w: "wrote E v w ino off bs" and j: "j < DENYFS_MAX_INODES" "j \<noteq> ino"
  shows "same_file E v w j"
proof -
  have i: "inode_at w j = inode_at v j" using w j unfolding wrote_def by blast
  have "\<forall>j < DENYFS_MAX_INODES. \<forall>p < MAX_BYTES. file_byte (cells E w) (inode_at w j) p =
      (if j = ino \<and> off \<le> p \<and> p < off + length bs then bs ! (p - off) else file_byte (cells E v) (inode_at v j) p)"
    using w unfolding wrote_def by blast
  then have "file_byte (cells E w) (inode_at w j) p = file_byte (cells E v) (inode_at v j) p" if "p < MAX_BYTES" for p
    using j that by simp
  moreover have "file_block (cells E v) (inode_at v j) l \<noteq> DENYFS_INVALID_BLOCK"
    if "l < DENYFS_MAX_FILE_BLOCKS" "file_block (cells E w) (inode_at w j) l \<noteq> DENYFS_INVALID_BLOCK" for l
    using w j that unfolding wrote_def by blast
  ultimately show ?thesis using i by (simp add: same_file_def)
qed

lemma resized_same:
  assumes w: "resized E v w ino s" and j: "j < DENYFS_MAX_INODES" "j \<noteq> ino"
  shows "same_file E v w j"
proof -
  have i: "inode_at w j = inode_at v j" using w j unfolding resized_def by blast
  have b: "\<forall>j < DENYFS_MAX_INODES. \<forall>p < MAX_BYTES. file_byte (cells E w) (inode_at w j) p =
      (if j = ino \<and> s < unat (i_size (inode_at v ino)) \<and> s \<le> p then 0 else file_byte (cells E v) (inode_at v j) p)"
    "\<forall>j < DENYFS_MAX_INODES. \<forall>l < DENYFS_MAX_FILE_BLOCKS. file_block (cells E w) (inode_at w j) l =
      (if j = ino \<and> s < unat (i_size (inode_at v ino)) \<and> blocks_for s \<le> l then DENYFS_INVALID_BLOCK
       else file_block (cells E v) (inode_at v j) l)"
    using w unfolding resized_def by blast+
  have "file_byte (cells E w) (inode_at w j) p = file_byte (cells E v) (inode_at v j) p" if "p < MAX_BYTES" for p
    using b(1) j that by simp
  moreover have "file_block (cells E w) (inode_at w j) l = file_block (cells E v) (inode_at v j) l"
    if "l < DENYFS_MAX_FILE_BLOCKS" for l
    using b(2) j that by simp
  ultimately show ?thesis using i by (simp add: same_file_def)
qed

lemma wrote_sound:
  assumes s: "sound E v" and w: "wrote E v w ino off bs"
    and i: "0 < ino" "ino < DENYFS_MAX_INODES" "i_type (inode_at v ino) = DENYFS_ITYPE_FILE"
  shows "sound E w" "dir E w = dir E v"
proof -
  have "mounted E w" "stat v w" "i_type (inode_at w ino) = DENYFS_ITYPE_FILE"
    using w i(3) by (simp_all add: wrote_def)
  from sound_file_step [OF s this(1,2) i(1-3) this(3)] wrote_same [OF w]
  show "sound E w" "dir E w = dir E v" by blast+
qed

lemma resized_sound:
  assumes s: "sound E v" and w: "resized E v w ino k"
    and i: "0 < ino" "ino < DENYFS_MAX_INODES" "i_type (inode_at v ino) = DENYFS_ITYPE_FILE"
  shows "sound E w" "dir E w = dir E v"
proof -
  have "mounted E w" "stat v w" "i_type (inode_at w ino) = DENYFS_ITYPE_FILE"
    using w i(3) by (simp_all add: resized_def)
  from sound_file_step [OF s this(1,2) i(1-3) this(3)] resized_same [OF w]
  show "sound E w" "dir E w = dir E v" by blast+
qed

section \<open>Directory steps\<close>

text \<open>The files of a volume other than those an operation works on.\<close>

definition others_same :: "env \<Rightarrow> volume \<Rightarrow> volume \<Rightarrow> nat set \<Rightarrow> bool" where
  "others_same E v w X \<longleftrightarrow> (\<forall>j < DENYFS_MAX_INODES. j \<notin> X \<longrightarrow> same_file E v w j)"

lemma others_same_refl [simp]: "others_same E v v X"
  by (simp add: others_same_def)

lemma others_same_trans: "others_same E u v X \<Longrightarrow> others_same E v w Y \<Longrightarrow> others_same E u w (X \<union> Y)"
  unfolding others_same_def using same_file_trans by blast

lemma others_same_mono: "others_same E v w X \<Longrightarrow> X \<subseteq> Y \<Longrightarrow> others_same E v w Y"
  unfolding others_same_def by blast

lemma kept_same:
  assumes "kept ino f n (cells E w) (v_inodes w)" "cells E v = f" "v_inodes v = n" "length n = DENYFS_MAX_INODES"
  shows "others_same E v w {ino}"
  unfolding others_same_def
proof (intro allI impI)
  fix j assume "j < DENYFS_MAX_INODES" "j \<notin> {ino}"
  then have j: "j < length n" "j \<noteq> ino" using assms(4) by simp_all
  have i: "inode_at w j = inode_at v j" using assms(1) j by (simp add: kept_def inode_at_def assms(3))
  then show "same_file E v w j"
    using kept_file [OF assms(1) j] by (simp add: same_file_def inode_at_def assms(2,3))
qed

lemma flush_sound:
  assumes s: "sound E y" and h: "hmac_works E"
  shows "\<exists>w. vol_flush E y = (Inr (), w) \<and> sound E w \<and> synced E w \<and> dir E w = dir E y \<and> used w = used y \<and>
    others_same E y w {} \<and> (\<forall>j < DENYFS_MAX_INODES. \<forall>l < DENYFS_MAX_FILE_BLOCKS.
      file_block (cells E w) (inode_at w j) l = file_block (cells E y) (inode_at y j) l)"
proof -
  note g = sound_goes [OF s]
  obtain w c where w: "vol_flush E y = (Inr (), w)" "goes E y (used y) c (v_inodes y) w" "synced E w"
    "\<forall>d. unat d \<in> used y \<longrightarrow> c d = cells E y d"
    using goes_flush [OF g(1) h] by blast
  have ws: "core E w" "stat y w" "used w = used y" "cells E w = c" "v_inodes w = v_inodes y" using w(2) by (simp_all add: goes_def)
  have ag: "\<And>d. unat d \<in> used y \<Longrightarrow> c d = cells E y d" using w(4) by blast
  have fs: "fsys (cells E y) (v_inodes y) (used y)" using s by (simp add: sound_def)
  note fa = fsys_agree [OF fs g(5,6) ag]
  have sf: "sb_free_inodes (v_sb w) = sb_free_inodes (v_sb y)" using ws(2) by (simp add: stat_def)
  have "sound E w" using ws fa sf s by (simp add: sound_def inode_at_def)
  moreover have "dir E w = dir E y" using fa(2) by (simp add: dir_def inode_at_def ws)
  moreover have "others_same E y w {}"
    unfolding others_same_def
  proof (intro allI impI)
    fix j assume "j < DENYFS_MAX_INODES"
    then have j: "j < length (v_inodes y)" by (simp add: sound_length [OF s])
    note a = file_block_agree [OF g(2) ag j]
    show "same_file E y w j"
      using a MAX_BYTES_div by (simp add: same_file_def inode_at_def ws file_byte_def)
  qed
  moreover have "\<forall>j < DENYFS_MAX_INODES. \<forall>l < DENYFS_MAX_FILE_BLOCKS.
      file_block (cells E w) (inode_at w j) l = file_block (cells E y) (inode_at y j) l"
    using file_block_agree(1) [OF g(2) ag] by (simp add: ws inode_at_def sound_length [OF s])
  ultimately show ?thesis using w(1,3) ws(3) by blast
qed

text \<open>A directory step on a state whose other inodes fit the new listing.\<close>

lemma dir_step_fsys:
  assumes d: "dir_step E v f n L U w" and ok: "\<forall>nd \<in> set n. inode_ok nd" and l0: "0 < length n"
    and i: "\<And>i. i < length n \<Longrightarrow> 0 < i \<Longrightarrow> (if of_nat i \<in> snd ` set_mset L then i_type (n ! i) = DENYFS_ITYPE_FILE
        else i_type (n ! i) = DENYFS_ITYPE_FREE \<and> blank f (n ! i)) \<and> unat (i_size (n ! i)) \<le> DENYFS_MAX_FILE_SIZE"
  shows "fsys (cells E w) (v_inodes w) (used w)" "core E w" "stat v w" "mset (listing (cells E w) (inode_at w 0)) = L"
    "kept 0 f n (cells E w) (v_inodes w)" "U \<subseteq> used w"
proof -
  obtain g m V where w: "goes E v V g m w" "owned g m V" "trees g m" "root_ok g V (m ! 0)" "kept 0 f n g m"
    "mset (listing g (m ! 0)) = L" "U \<subseteq> V" using d unfolding dir_step_def by blast
  have ws: "core E w" "stat v w" "used w = V" "cells E w = g" "v_inodes w = m" using w(1) by (simp_all add: goes_def)
  show "core E w" "stat v w" "mset (listing (cells E w) (inode_at w 0)) = L"
    "kept 0 f n (cells E w) (v_inodes w)" "U \<subseteq> used w"
    using ws w by (simp_all add: inode_at_def)
  have lm: "length m = length n" using w(5) by (simp add: kept_def)
  have mj: "m ! j = n ! j" if "j < length n" "0 < j" for j using w(5) that by (simp add: kept_def)
  have ls: "set (listing g (m ! 0)) = set_mset L" using w(6) by (metis set_mset_mset)
  have r0: "i_size (m ! 0) = 0" using w(4) by (simp add: root_ok_def root_inode_ok_def)
  have sz: "unat (i_size (m ! j)) \<le> DENYFS_MAX_FILE_SIZE" if "j < length m" for j
    using r0 i [of j] mj [of j] that lm by (cases "j = 0") simp_all
  have ty: "if of_nat j \<in> snd ` set (listing g (m ! 0)) then i_type (m ! j) = DENYFS_ITYPE_FILE
      else i_type (m ! j) = DENYFS_ITYPE_FREE \<and> blank g (m ! j)" if "j < length m" "0 < j" for j
  proof -
    have j: "j < length n" using that lm by simp
    have "inode_ok (n ! j)" using ok j nth_mem by blast
    then show ?thesis using i [OF j that(2)] unfolding ls mj [OF j that(2)] by (auto split: if_split_asm intro: blank_any)
  qed
  show "fsys (cells E w) (v_inodes w) (used w)"
    unfolding fsys_def ws using w(2-4) sz ty by blast
qed

section \<open>Create\<close>

lemma sound_inode:
  assumes s: "sound E v" and j: "j < DENYFS_MAX_INODES" "0 < j"
  shows "if of_nat j \<in> snd ` set (listing (cells E v) (v_inodes v ! 0)) then i_type (v_inodes v ! j) = DENYFS_ITYPE_FILE
      else i_type (v_inodes v ! j) = DENYFS_ITYPE_FREE \<and> blank (cells E v) (v_inodes v ! j)"
    "unat (i_size (v_inodes v ! j)) \<le> DENYFS_MAX_FILE_SIZE"
  using s j sound_length [OF s] by (simp_all add: sound_def fsys_def)

text \<open>A number that is not listed leaves room in the counter.\<close>

lemma unlisted_room:
  assumes s: "sound E v" and j: "j < DENYFS_MAX_INODES" "0 < j" "of_nat j \<notin> snd ` set (listing (cells E v) (inode_at v 0))"
  shows "length (listing (cells E v) (inode_at v 0)) + 2 \<le> DENYFS_MAX_INODES" "0 < unat (sb_free_inodes (v_sb v))"
proof -
  let ?l = "listing (cells E v) (inode_at v 0)"
  have "inj_on unat (snd ` set ?l)" by (rule inj_onI) (simp add: word_unat_eq_iff)
  then have "card (unat ` snd ` set ?l) = card (snd ` set ?l)" by (rule card_image)
  also have "\<dots> = length ?l" using distinct_card [OF sound_distinct(2) [OF s]] by simp
  finally have c: "card (unat ` snd ` set ?l) = length ?l" .
  have "unat ` snd ` set ?l \<subseteq> {1..<DENYFS_MAX_INODES} - {j}"
  proof
    fix k assume "k \<in> unat ` snd ` set ?l"
    then obtain a i where a: "(a, i) \<in> set ?l" "k = unat i" by force
    have "i \<in> snd ` set ?l" using a(1) by force
    moreover have "of_nat (unat i) = i" by simp
    ultimately have "k \<noteq> j" using j(3) a(2) by metis
    then show "k \<in> {1..<DENYFS_MAX_INODES} - {j}" using listing_range [OF sound_root [OF s] a(1)] a(2) by simp
  qed
  from card_mono [OF _ this] have "length ?l \<le> DENYFS_MAX_INODES - 2" using j unfolding c by simp
  then show l: "length ?l + 2 \<le> DENYFS_MAX_INODES" by (simp add: DENYFS_MAX_INODES_def)
  have "unat (sb_free_inodes (v_sb v)) + length ?l + 1 = DENYFS_MAX_INODES" using s by (simp add: sound_def)
  then show "0 < unat (sb_free_inodes (v_sb v))" using l by linarith
qed

lemma init_sval: "slot_ok s \<Longrightarrow> sval f (init_inode now nd) s = DENYFS_INVALID_BLOCK"
  by (cases s) (simp_all add: init_inode_def)

lemma init_blank: "blank f (init_inode now nd)"
  using init_sval by (simp add: blank_def) (simp add: init_inode_def)

lemma blank_file:
  assumes "blank (cells E v) (inode_at v j)"
  shows "contents E v j = []" "tail_zero E v j" "fits E v j"
proof -
  have b: "file_block (cells E v) (inode_at v j) l = DENYFS_INVALID_BLOCK" if "l < DENYFS_MAX_FILE_BLOCKS" for l
    using assms slot_of_ok [OF that] by (simp add: blank_def file_block_def)
  show "contents E v j = []" using assms by (simp add: contents_def blank_def)
  show "fits E v j" using b by (simp add: fits_def)
  have "p mod SECTOR_SIZE < SECTOR_SIZE" for p by (simp add: SECTOR_SIZE_def)
  then show "tail_zero E v j" using b MAX_BYTES_div by (simp add: tail_zero_def file_byte_def block_bytes_def)
qed

text \<open>A blank inode may be replaced by any blank inode.\<close>

lemma blank_swap:
  assumes o: "owned f n U" and t: "trees f n" and i: "ino < length n" "blank f (n ! ino)" "blank f nd"
  shows "owned f (n[ino := nd]) U" "trees f (n[ino := nd])"
proof -
  have sv: "sval f (n[ino := nd] ! j) s = sval f (n ! j) s" if "j < length n" "slot_ok s" for j s
    using that i by (cases "j = ino") (simp_all add: blank_def)
  show "owned f (n[ino := nd]) U" by (rule owned_same [OF o _ sv]) simp_all
  have "tree_ok f (n[ino := nd] ! j) = tree_ok f (n ! j)" if "j < length n" for j
  proof (rule tree_ok_same [OF sv])
    show "i_block_count (n[ino := nd] ! j) = i_block_count (n ! j)"
      using that i by (cases "j = ino") (simp_all add: blank_def)
  qed (use that in simp_all)
  then show "trees f (n[ino := nd])" using t by (simp add: trees_def)
qed

lemma alloc_inode_cases:
  obtains (full) "alloc_inode v = (None, v)"
      "\<And>i. 0 < i \<Longrightarrow> i < DENYFS_MAX_INODES \<Longrightarrow> i_type (inode_at v i) \<noteq> DENYFS_ITYPE_FREE"
  | (found) ino where "alloc_inode v = (Some ino, v\<lparr>v_sb := (v_sb v)\<lparr>sb_free_inodes := sb_free_inodes (v_sb v) - 1\<rparr>\<rparr>)"
      "0 < ino" "ino < DENYFS_MAX_INODES" "i_type (inode_at v ino) = DENYFS_ITYPE_FREE"
proof (cases "List.find (\<lambda>i. i_type (inode_at v i) = DENYFS_ITYPE_FREE) [1..<DENYFS_MAX_INODES]")
  case None
  then have "\<forall>i \<in> set [1..<DENYFS_MAX_INODES]. i_type (inode_at v i) \<noteq> DENYFS_ITYPE_FREE"
    by (simp add: find_None_iff)
  with None show ?thesis by (intro full) (simp_all add: alloc_inode_def)
next
  case (Some ino)
  then have "ino \<in> set [1..<DENYFS_MAX_INODES]" "i_type (inode_at v ino) = DENYFS_ITYPE_FREE"
    by (auto simp: find_Some_iff in_set_conv_nth)
  with Some show ?thesis by (intro found [of ino]) (simp_all add: alloc_inode_def)
qed

text \<open>The state in which the directory entry is added: the inode is taken and initialised.\<close>

lemma taken_inode:
  fixes now :: u64
  assumes s: "sound E v" and ino: "0 < ino" "ino < DENYFS_MAX_INODES" "i_type (inode_at v ino) = DENYFS_ITYPE_FREE"
  defines "x \<equiv> v\<lparr>v_sb := (v_sb v)\<lparr>sb_free_inodes := sb_free_inodes (v_sb v) - 1\<rparr>\<rparr>"
    and "n1 \<equiv> (v_inodes v)[ino := init_inode now (v_inodes v ! ino)]"
  shows "goes E x (used v) (cells E v) n1 (upd_inode x ino (init_inode now))"
    "owned (cells E v) n1 (used v)" "trees (cells E v) n1" "n1 ! 0 = v_inodes v ! 0"
    "of_nat ino \<notin> snd ` set (listing (cells E v) (n1 ! 0))"
    "unat (sb_free_inodes (v_sb x)) + length (listing (cells E v) (n1 ! 0)) + 2 = DENYFS_MAX_INODES"
    "blank (cells E v) (v_inodes v ! ino)"
proof -
  note g = sound_goes [OF s] and lv = sound_length [OF s]
  have ty: "DENYFS_ITYPE_FILE \<noteq> DENYFS_ITYPE_FREE" by (simp add: DENYFS_ITYPE_FILE_def DENYFS_ITYPE_FREE_def)
  show n0: "n1 ! 0 = v_inodes v ! 0" using ino(1) by (simp add: n1_def)
  have un: "of_nat ino \<notin> snd ` set (listing (cells E v) (v_inodes v ! 0))" "blank (cells E v) (v_inodes v ! ino)"
    using sound_inode(1) [OF s ino(2,1)] ino(3) ty by (auto simp: inode_at_def split: if_split_asm)
  then show "of_nat ino \<notin> snd ` set (listing (cells E v) (n1 ! 0))" "blank (cells E v) (v_inodes v ! ino)" by (simp_all add: n0)
  note room = unlisted_room(2) [OF s ino(2,1) un(1) [folded inode_at_def]]
  have k: "unat (sb_free_inodes (v_sb v) - 1) = unat (sb_free_inodes (v_sb v)) - 1"
    using room by (simp add: unat_sub word_le_nat_alt)
  have tot: "unat (sb_free_inodes (v_sb v)) + length (listing (cells E v) (inode_at v 0)) + 1 = DENYFS_MAX_INODES"
    using s by (simp add: sound_def)
  show "unat (sb_free_inodes (v_sb x)) + length (listing (cells E v) (n1 ! 0)) + 2 = DENYFS_MAX_INODES"
    using tot room k by (simp add: x_def n0 inode_at_def)
  have "unat (sb_free_inodes (v_sb v) - 1) < DENYFS_MAX_INODES" using k tot by linarith
  note x = core_counter [where v = v and E = E, OF _ this, folded x_def]
  have cx: "core E x" "used x = used v" "cells E x = cells E v" "v_inodes x = v_inodes v"
    using x s by (simp_all add: sound_def)
  show "goes E x (used v) (cells E v) n1 (upd_inode x ino (init_inode now))"
    using goes_upd [OF goes_refl [OF cx(1)], of "init_inode now" ino] cx(2-4)
    by (simp add: n1_def init_inode_def inode_ok_def)
  note b = blank_swap [OF g(2,3) _ un(2) init_blank [of _ now "v_inodes v ! ino"]]
  show "owned (cells E v) n1 (used v)" "trees (cells E v) n1" using b ino(2) lv by (simp_all add: n1_def)
qed

text \<open>Undoing the allocation after a failed \<open>add_dirent\<close>.\<close>

lemma untake_inode:
  fixes now :: u64
  assumes s: "sound E v" and ino: "0 < ino" "ino < DENYFS_MAX_INODES" "i_type (inode_at v ino) = DENYFS_ITYPE_FREE"
  defines "x \<equiv> v\<lparr>v_sb := (v_sb v)\<lparr>sb_free_inodes := sb_free_inodes (v_sb v) - 1\<rparr>\<rparr>"
    and "n1 \<equiv> (v_inodes v)[ino := init_inode now (v_inodes v ! ino)]"
  assumes g: "goes E x (used v) (cells E v) n1 y"
  defines "z \<equiv> upd_inode y ino (\<lambda>nd. nd\<lparr>i_type := DENYFS_ITYPE_FREE\<rparr>)"
  defines "w \<equiv> z\<lparr>v_sb := (v_sb z)\<lparr>sb_free_inodes := sb_free_inodes (v_sb z) + 1\<rparr>\<rparr>"
  shows "sound E w" "dir E w = dir E v" "others_same E v w {ino}" "used w = used v"
proof -
  note lv = sound_length [OF s] and v = sound_goes [OF s]
  note t = taken_inode(1-6) [where now = now, OF s ino, folded x_def n1_def]
  let ?f = "cells E v" and ?h = "\<lambda>nd :: inode. nd\<lparr>i_type := DENYFS_ITYPE_FREE\<rparr>"
  let ?n2 = "n1[ino := ?h (n1 ! ino)]"
  have l1: "length n1 = DENYFS_MAX_INODES" by (simp add: n1_def lv)
  have z: "goes E x (used v) ?f ?n2 z" using goes_upd [OF g, of ?h ino] by (simp add: z_def inode_ok_def)
  have zs: "core E z" "stat x z" "used z = used v" "cells E z = ?f" "v_inodes z = ?n2" using z by (simp_all add: goes_def)
  have fz: "sb_free_inodes (v_sb z) = sb_free_inodes (v_sb v) - 1" using zs(2) by (simp add: stat_def x_def)
  then have k1: "sb_free_inodes (v_sb z) + 1 = sb_free_inodes (v_sb v)" by simp
  have tot: "unat (sb_free_inodes (v_sb v)) + length (listing ?f (inode_at v 0)) + 1 = DENYFS_MAX_INODES"
    using s by (simp add: sound_def)
  have ub: "unat (sb_free_inodes (v_sb z) + 1) < DENYFS_MAX_INODES" using tot unfolding k1 by linarith
  note w = core_counter [OF zs(1) ub, folded w_def]
  have ws: "core E w" "used w = used v" "cells E w = ?f" "v_inodes w = ?n2" using w zs by simp_all
  have free: "sb_free_inodes (v_sb w) = sb_free_inodes (v_sb v)" by (simp add: w_def k1)
  have n2: "?n2 ! ino = ?h (init_inode now (v_inodes v ! ino))" "\<And>j. j \<noteq> ino \<Longrightarrow> ?n2 ! j = v_inodes v ! j"
    using ino(2) lv by (simp_all add: n1_def)
  have n20: "?n2 ! 0 = v_inodes v ! 0" by (rule n2(2)) (use ino(1) in simp)
  have hs: "sval ?f (?h nd) q = sval ?f nd q" for nd q by (cases q) simp_all
  have bh: "blank ?f (?h nd) = blank ?f nd" for nd by (simp add: blank_def hs)
  have bl: "blank ?f (?n2 ! ino)" unfolding n2(1) bh by (rule init_blank)
  have b1: "blank ?f (n1 ! ino)" using ino(2) lv init_blank by (simp add: n1_def)
  have bs: "owned ?f ?n2 (used v)" "trees ?f ?n2"
    using blank_swap [OF t(2,3) _ b1, of "?h (n1 ! ino)"] b1 ino(2) l1 unfolding bh by simp_all
  have un: "of_nat ino \<notin> snd ` set (listing ?f (v_inodes v ! 0))" using t(5) by (simp add: t(4))
  have "fsys ?f ?n2 (used v)"
    unfolding fsys_def
  proof (intro conjI)
    show "root_ok ?f (used v) (?n2 ! 0)" unfolding n20 by (rule v(4))
    show "\<forall>i < length ?n2. unat (i_size (?n2 ! i)) \<le> DENYFS_MAX_FILE_SIZE"
    proof (intro allI impI)
      fix i assume "i < length ?n2"
      then have "i < DENYFS_MAX_INODES" by (simp add: l1)
      then show "unat (i_size (?n2 ! i)) \<le> DENYFS_MAX_FILE_SIZE"
        using mounted_size [OF sound_mounted [OF s]] n2(2) [of i] bl by (cases "i = ino") (simp_all add: inode_at_def blank_def)
    qed
    show "\<forall>i<length ?n2. 0 < i \<longrightarrow> (if of_nat i \<in> snd ` set (listing ?f (?n2 ! 0)) then i_type (?n2 ! i) = DENYFS_ITYPE_FILE
        else i_type (?n2 ! i) = DENYFS_ITYPE_FREE \<and> blank ?f (?n2 ! i))"
    proof (intro allI impI)
      fix i assume i: "i < length ?n2" "0 < i"
      then have i': "i < DENYFS_MAX_INODES" by (simp add: l1)
      show "if of_nat i \<in> snd ` set (listing ?f (?n2 ! 0)) then i_type (?n2 ! i) = DENYFS_ITYPE_FILE
        else i_type (?n2 ! i) = DENYFS_ITYPE_FREE \<and> blank ?f (?n2 ! i)"
      proof (cases "i = ino")
        case True
        with un bl show ?thesis unfolding n20 by (simp add: n2(1))
      next
        case False
        show ?thesis using sound_inode(1) [OF s i' i(2)] unfolding n20 n2(2) [OF False] .
      qed
    qed
  qed (use bs in simp_all)
  then show "sound E w" using ws tot free n20 by (simp add: sound_def inode_at_def)
  show "dir E w = dir E v" using n20 by (simp add: dir_def inode_at_def ws)
  show "others_same E v w {ino}" using n2(2) by (simp add: others_same_def same_file_def inode_at_def ws)
  show "used w = used v" by (rule ws(2))
qed

text \<open>Creating a file: a fresh empty file under the new name and nothing else, or nothing at all.\<close>

definition created :: "env \<Rightarrow> volume \<Rightarrow> volume \<Rightarrow> bytes \<Rightarrow> u32 \<Rightarrow> bool" where
  "created E v w name ino \<longleftrightarrow> sound E w \<and> dir E w = (dir E v)(name \<mapsto> ino) \<and> ino \<notin> ran (dir E v) \<and>
     others_same E v w {0, unat ino} \<and> contents E w (unat ino) = [] \<and> tail_zero E w (unat ino) \<and> fits E w (unat ino)"

definition refused :: "env \<Rightarrow> volume \<Rightarrow> volume \<Rightarrow> bool" where
  "refused E v w \<longleftrightarrow> sound E w \<and> dir E w = dir E v \<and> used w = used v \<and>
     (\<forall>i \<in> ran (dir E v). same_file E v w (unat i))"

lemma good_name_check:
  "good_name name \<Longrightarrow> \<not> (name = [] \<or> DENYFS_MAX_NAME_LEN \<le> length name \<or> of_char CHR ''/'' \<in> set name \<or>
    name = map of_char ''.'' \<or> name = map of_char ''..'')"
  by (simp add: good_name_def)

lemma ran_dir: "i \<in> ran (dir E v) \<Longrightarrow> i \<in> snd ` set (listing (cells E v) (inode_at v 0))"
  by (auto simp: ran_def dest!: dir_listing) force

lemma vol_create_new:
  assumes s: "sound E v" and h: "hmac_works E" and nm: "good_name name" and d: "dir E v name = None"
  shows "(\<exists>w. vol_create E now v name = (Inl ENOSPC, w) \<and> refused E v w \<and>
      (used v = pool v \<or> (\<forall>i. 0 < i \<longrightarrow> i < DENYFS_MAX_INODES \<longrightarrow> i_type (inode_at v i) = DENYFS_ITYPE_FILE))) \<or>
    (\<exists>w ino. vol_create E now v name = (Inr ino, w) \<and> created E v w name ino \<and> synced E w \<and>
      ((\<exists>e \<in> set (block_entries (cells E v) (i_direct (inode_at v 0))). entry_free e) \<longrightarrow> used w = used v))"
proof -
  note gc = good_name_check [OF nm]
  have lk: "vol_lookup E v name = (Inl ENOENT, v)" using vol_lookup_dir [OF s, of name] d gc by simp
  show ?thesis
  proof (cases rule: alloc_inode_cases [of v])
    case full
    have "vol_create E now v name = (Inl ENOSPC, v)" using gc by (simp add: vol_create_def lk full(1))
    moreover have "refused E v v" using s by (simp add: refused_def)
    moreover have "i_type (inode_at v i) = DENYFS_ITYPE_FILE" if "0 < i" "i < DENYFS_MAX_INODES" for i
      using sound_inode(1) [OF s that(2,1)] full(2) [OF that] by (simp add: inode_at_def split: if_split_asm)
    ultimately show ?thesis by blast
  next
    case (found ino)
    let ?x = "v\<lparr>v_sb := (v_sb v)\<lparr>sb_free_inodes := sb_free_inodes (v_sb v) - 1\<rparr>\<rparr>" and ?f = "cells E v"
    let ?n1 = "(v_inodes v)[ino := init_inode now (v_inodes v ! ino)]" and ?u = "upd_inode ?x ino (init_inode now)"
    note ino = found(2-4)
    note t = taken_inode(1-6) [where now = now, OF s ino]
    note lv = sound_length [OF s]
    let ?L = "listing ?f (inode_at v 0)"
    have n0: "?n1 ! 0 = inode_at v 0" using t(4) by (simp add: inode_at_def)
    have l1: "0 < length ?n1" by (simp add: lv DENYFS_MAX_INODES_def)
    have l2: "length ?n1 = DENYFS_MAX_INODES" by (simp add: lv)
    have r1: "root_ok ?f (used v) (?n1 ! 0)" unfolding n0 by (rule sound_root [OF s])
    have nn: "name \<notin> fst ` set (listing ?f (?n1 ! 0))" using d unfolding n0 by (simp add: dir_def map_of_eq_None_iff)
    have un: "of_nat ino \<notin> ran (dir E v)" using t(5) ran_dir [of _ E v] unfolding n0 by blast
    have nr: "unat i \<noteq> ino" if "i \<in> ran (dir E v)" for i using un that by auto
    from add_dirent_ok [OF t(1-3) l1 r1 nm ino(1,2) nn t(5)] show ?thesis
    proof (elim disjE exE)
      fix y assume A: "add_dirent E ?u name (of_nat ino) = (Inl ENOSPC, y) \<and> goes E ?x (used v) ?f ?n1 y \<and>
        (used v = pool ?x \<or> DENYFS_DIRECT_BLOCKS * DENYFS_DIRENTS_PER_BLOCK \<le> length (listing ?f (?n1 ! 0)))"
      have a: "add_dirent E ?u name (of_nat ino) = (Inl ENOSPC, y)" "goes E ?x (used v) ?f ?n1 y"
        "used v = pool ?x \<or> DENYFS_DIRECT_BLOCKS * DENYFS_DIRENTS_PER_BLOCK \<le> length (listing ?f (?n1 ! 0))"
        using A by simp_all
      have "length ?L \<le> DENYFS_MAX_INODES" using t(6) unfolding n0 by linarith
      then have "used v = pool v" using a(3) unfolding n0 by (simp add: layout_sizes pool_def)
      let ?z = "upd_inode y ino (\<lambda>nd. nd\<lparr>i_type := DENYFS_ITYPE_FREE\<rparr>)"
      let ?w = "?z\<lparr>v_sb := (v_sb ?z)\<lparr>sb_free_inodes := sb_free_inodes (v_sb ?z) + 1\<rparr>\<rparr>"
      note w = untake_inode [OF s ino a(2)]
      have "refused E v ?w" unfolding refused_def
        using w dir_file(2) [OF s] nr by (auto simp: others_same_def ran_def)
      moreover have "vol_create E now v name = (Inl ENOSPC, ?w)"
        using gc by (simp add: vol_create_def lk found(1) a(1) Let_def)
      ultimately show ?thesis using \<open>used v = pool v\<close> by blast
    next
      fix y assume A: "add_dirent E ?u name (of_nat ino) = (Inr (), y) \<and>
        ((\<exists>e \<in> set (block_entries ?f (i_direct (?n1 ! 0))). entry_free e) \<longrightarrow> used y = used v) \<and>
        dir_step E ?x ?f ?n1 (add_mset (name, of_nat ino) (mset (listing ?f (?n1 ! 0)))) (used v) y"
      have a: "add_dirent E ?u name (of_nat ino) = (Inr (), y)"
        "dir_step E ?x ?f ?n1 (add_mset (name, of_nat ino) (mset (listing ?f (?n1 ! 0)))) (used v) y"
        using A by blast+
      have us: "(\<exists>e \<in> set (block_entries ?f (i_direct (inode_at v 0))). entry_free e) \<longrightarrow> used y = used v"
        using A unfolding n0 by blast
      have ok1: "\<forall>nd \<in> set ?n1. inode_ok nd" using goes_inode_ok [OF t(1)] by (auto simp: in_set_conv_nth)
      have cond: "(if of_nat i \<in> snd ` set_mset (add_mset (name, of_nat ino) (mset (listing ?f (?n1 ! 0)))) then i_type (?n1 ! i) = DENYFS_ITYPE_FILE
          else i_type (?n1 ! i) = DENYFS_ITYPE_FREE \<and> blank ?f (?n1 ! i)) \<and> unat (i_size (?n1 ! i)) \<le> DENYFS_MAX_FILE_SIZE"
        if i: "i < length ?n1" "0 < i" for i
      proof (cases "i = ino")
        case True
        then show ?thesis using ino lv by (simp add: init_inode_def)
      next
        case False
        have i': "i < DENYFS_MAX_INODES" using i(1) lv by simp
        have "(of_nat i :: u32) \<noteq> of_nat ino"
          using False i' ino(2) by (simp add: word_unat_eq_iff unsigned_of_nat take_bit_nat_eq_self DENYFS_MAX_INODES_def)
        moreover have "?n1 ! i = v_inodes v ! i" using False by simp
        ultimately show ?thesis using sound_inode [OF s i' i(2)] by (simp add: n0 inode_at_def)
      qed
      note st = dir_step_fsys [OF a(2) ok1 l1 cond]
      have cx: "cells E ?u = ?f" "v_inodes ?u = ?n1" using t(1) by (simp_all add: goes_def)
      have "length (listing (cells E y) (inode_at y 0)) = Suc (length ?L)" using arg_cong [OF st(4), of size] by (simp add: n0)
      moreover have "sb_free_inodes (v_sb y) = sb_free_inodes (v_sb ?x)" using st(3) by (simp add: stat_def)
      ultimately have sy: "sound E y" using st(1,2) t(6) by (simp add: sound_def n0)
      have dy: "dir E y = (dir E v)(name \<mapsto> of_nat ino)"
        using map_of_mset [of "(name, of_nat ino) # ?L" "listing (cells E y) (inode_at y 0)"] st(4) nn sound_distinct(1) [OF s]
        by (simp add: dir_def n0)
      have su: "others_same E v ?u {ino}" by (simp add: others_same_def same_file_def inode_at_def cx)
      have uy: "others_same E ?u y {0}" by (rule kept_same [OF st(5) cx l2])
      have bu: "blank (cells E ?u) (inode_at ?u ino)" using ino(2) lv by (simp add: inode_at_def cx init_blank)
      obtain w where w: "vol_flush E y = (Inr (), w)" "sound E w" "synced E w" "dir E w = dir E y" "others_same E y w {}"
        "used w = used y" using flush_sound [OF sy h] by blast
      have uw: "others_same E ?u w {0}" using others_same_trans [OF uy w(5)] by simp
      have ui: "unat (of_nat ino :: u32) = ino" using ino(2) by (simp add: unsigned_of_nat take_bit_nat_eq_self DENYFS_MAX_INODES_def)
      have sf: "same_file E ?u w ino" using uw ino by (simp add: others_same_def)
      have "unat (i_size (inode_at ?u ino)) \<le> DENYFS_MAX_FILE_SIZE" using bu by (simp add: blank_def)
      note nf = same_file_facts [OF sf] blank_file [OF bu] this
      have "others_same E v w {0, ino}" using others_same_trans [OF su uw] by (simp add: insert_commute)
      then have "created E v w name (of_nat ino)"
        unfolding created_def ui using w(2,4) dy un nf by simp
      moreover have "vol_create E now v name = (Inr (of_nat ino), w)"
        using gc by (simp add: vol_create_def lk found(1) a(1) w(1))
      ultimately show ?thesis using w(3,6) us by auto
    qed
  qed
qed

lemma vol_create_exists:
  assumes s: "sound E v" and nm: "good_name name" and d: "dir E v name = Some i"
  shows "vol_create E now v name = (Inl EEXIST, v)"
  using good_name_check [OF nm] vol_lookup_dir [OF s, of name] d by (simp add: vol_create_def)

section \<open>Unlink\<close>

lemma listed_name:
  assumes r: "root_ok f U nd" and f: "\<And>b. b \<in> set (live (i_direct nd)) \<Longrightarrow> length (f b) = SECTOR_SIZE"
    and e: "(name, i) \<in> set (listing f nd)"
  shows "good_name name"
proof -
  obtain b d where d: "b \<in> set (live (i_direct nd))" "d \<in> set (dirents_dec (f b))" "\<not> entry_free d" "name_of d = name"
    using e by (auto simp: listing_def listing_of_def pair_of_def block_entries_def)
  have "d \<in> set (block_entries f (i_direct nd))" using d(1,2) by (auto simp: block_entries_def)
  then have v: "valid_dirent d" using r by (simp add: root_ok_def dir_blocks_ok_def)
  have ok: "dirent_ok d" using dirents_dec_ok [OF f [OF d(1)]] d(2) by blast
  let ?k = "unat (de_name_len d)" and ?s = "of_char CHR ''/'' :: u8" and ?p = "of_char CHR ''.'' :: u8"
  have k: "0 < ?k" "?k < DENYFS_MAX_NAME_LEN"
    using v d(3) by (auto simp: valid_dirent_def entry_free_def unat_gt_0 split: if_splits)
  have l: "length (de_name d) = DENYFS_MAX_NAME_LEN" using ok by (simp add: dirent_ok_def)
  have nm: "name = take ?k (de_name d)" using d(4) by (simp add: name_of_def)
  have ln: "length name = ?k" using nm l k by simp
  have nth: "name ! j = de_name d ! j" if "j < ?k" for j using nm that by simp
  have ch: "\<forall>j < ?k. de_name d ! j \<noteq> 0 \<and> de_name d ! j \<noteq> ?s"
    using v d(3) by (auto simp: valid_dirent_def entry_free_def list_ex_iff split: if_splits)
  then have c: "0 \<notin> set name" "?s \<notin> set name" using ln nth by (auto simp: in_set_conv_nth)
  have u: "de_name_len d = 1 \<longleftrightarrow> ?k = 1" "de_name_len d = 2 \<longleftrightarrow> ?k = 2" by (simp_all add: word_unat_eq_iff)
  have dots: "\<not> (?k = 1 \<and> de_name d ! 0 = ?p)" "\<not> (?k = 2 \<and> de_name d ! 0 = ?p \<and> de_name d ! 1 = ?p)"
    using v d(3) unfolding valid_dirent_def entry_free_def u by (simp_all split: if_split_asm)
  have "name \<noteq> map of_char ''.''" "name \<noteq> map of_char ''..''"
  proof -
    show "name \<noteq> map of_char ''.''" using dots(1) ln nth [of 0] by auto
    show "name \<noteq> map of_char ''..''" using dots(2) ln nth [of 0] nth [of 1] by auto
  qed
  with k c ln show ?thesis by (auto simp: good_name_def)
qed

lemma root_block_lengths:
  assumes g: "goes E v U f n u" and r: "root_ok f U nd" and b: "b \<in> set (live (i_direct nd))"
  shows "length (f b) = SECTOR_SIZE"
  using goes_read(2) [OF g] r b by (simp add: root_ok_def dir_blocks_ok_def)

lemma dir_good_name:
  assumes s: "sound E v" and d: "dir E v name = Some i"
  shows "good_name name"
proof -
  note g = sound_goes(1,4) [OF s]
  show ?thesis
    using listed_name [OF g(2) root_block_lengths [OF g]] dir_listing [OF d] by (simp add: inode_at_def)
qed

lemma root_ok_used:
  assumes r: "root_ok f U (n ! 0)" and o: "owned f n V" and n: "0 < length n" "inode_ok (n ! 0)"
  shows "root_ok f V (n ! 0)"
proof -
  have "unat b \<in> V" if "b \<in> set (live (i_direct (n ! 0)))" for b
  proof -
    have b: "b \<in> set (i_direct (n ! 0))" "b \<noteq> DENYFS_INVALID_BLOCK" using that by (simp_all add: live_def)
    moreover have "length (i_direct (n ! 0)) = DENYFS_DIRECT_BLOCKS" using n(2) by (simp add: inode_ok_def)
    ultimately obtain k where "k < DENYFS_DIRECT_BLOCKS" "i_direct (n ! 0) ! k = b" "b \<noteq> DENYFS_INVALID_BLOCK"
      unfolding in_set_conv_nth by metis
    then show ?thesis using ownedD [OF o n(1), of "Direct k"] by simp
  qed
  then show ?thesis using r by (simp add: root_ok_def dir_blocks_ok_def)
qed

lemma blank_tree: "blank f nd \<Longrightarrow> tree_ok f nd"
  using slot_of_ok by (auto simp: blank_def tree_ok_def blocks_of_def file_block_def)

text \<open>The blocks of a file's tree, its pointer tables included.\<close>

definition tree_blocks :: "env \<Rightarrow> volume \<Rightarrow> nat \<Rightarrow> nat set" where
  "tree_blocks E v ino = vals (cells E v) (inode_at v ino) UNIV"

definition unlinked :: "env \<Rightarrow> volume \<Rightarrow> volume \<Rightarrow> bytes \<Rightarrow> u32 \<Rightarrow> bool" where
  "unlinked E v w name ino \<longleftrightarrow> sound E w \<and> dir E w = (dir E v)(name := None) \<and>
     others_same E v w {0, unat ino} \<and> used w = used v - tree_blocks E v (unat ino)"

text \<open>Freeing the inode of an entry just removed.\<close>

lemma free_removed:
  assumes s: "sound E v" and i: "dir E v name = Some i"
    and x: "used x = used v"
      "dir_step E v (cells E v) (v_inodes v) (mset (listing (cells E v) (v_inodes v ! 0)) - {#(name, i)#}) (used v) x"
  shows "\<exists>y. free_inode E x (unat i) = (Inr (), y) \<and> unlinked E v y name i"
proof -
  let ?f = "cells E v" and ?n = "v_inodes v" and ?U = "used v" and ?ino = "unat i"
  let ?L = "listing ?f (?n ! 0)"
  note lv = sound_length [OF s] and sg = sound_goes [OF s]
  obtain g m where g: "goes E v ?U g m x" "owned g m ?U" "trees g m" "root_ok g ?U (m ! 0)" "kept 0 ?f ?n g m"
    "mset (listing g (m ! 0)) = mset ?L - {#(name, i)#}"
    using x unfolding dir_step_def goes_def by auto
  have lm: "length m = DENYFS_MAX_INODES" using g(5) lv by (simp add: kept_def)
  have mj: "m ! j = ?n ! j" "\<And>q. slot_ok q \<Longrightarrow> sval g (?n ! j) q = sval ?f (?n ! j) q"
    if "j < DENYFS_MAX_INODES" "0 < j" for j using g(5) that lv by (simp_all add: kept_def)
  note fi = dir_file [OF s i]
  have e: "(name, i) \<in> set ?L" using dir_listing [OF i] by (simp add: inode_at_def)
  then have lp: "0 < length ?L" by auto
  have tot: "unat (sb_free_inodes (v_sb v)) + length ?L + 1 = DENYFS_MAX_INODES" using s by (simp add: sound_def inode_at_def)
  have k: "unat (sb_free_inodes (v_sb v)) + 1 < DENYFS_MAX_INODES" using lp tot by linarith
  obtain y where y: "free_inode E x ?ino = (Inr (), y)" "core E y" "like v y" "used y = ?U - vals g (m ! ?ino) UNIV"
    "cells E y = g" "length (v_inodes y) = length m" "\<forall>j < length m. j \<noteq> ?ino \<longrightarrow> v_inodes y ! j = m ! j"
    "blank g (v_inodes y ! ?ino)" "i_type (v_inodes y ! ?ino) = DENYFS_ITYPE_FREE" "owned g (v_inodes y) (used y)"
    "sb_free_inodes (v_sb y) = sb_free_inodes (v_sb v) + 1"
    using free_inode_all [OF g(1,2) _ k, of ?ino] fi(2) lm by metis
  have y0: "v_inodes y ! 0 = m ! 0" using y(7) fi(1) lm by (simp add: DENYFS_MAX_INODES_def)
  have yj: "v_inodes y ! j = ?n ! j" if "j < DENYFS_MAX_INODES" "0 < j" "j \<noteq> ?ino" for j
    using y(7) mj(1) [OF that(1,2)] that lm by simp
  have l0: "0 < length (v_inodes y)" using y(6) lm by (simp add: DENYFS_MAX_INODES_def)
  have ok: "inode_ok (v_inodes y ! j)" if "j < DENYFS_MAX_INODES" for j
    using goes_inode_ok [OF goes_refl [OF y(2)]] that y(6) lm by simp
  have ls: "mset (listing g (v_inodes y ! 0)) = mset ?L - {#(name, i)#}" by (simp add: y0 g(6))
  have "distinct ?L" "distinct (map snd ?L)" using sound_distinct(2) [OF s] by (simp_all add: inode_at_def distinct_map)
  then have li: "set (listing g (v_inodes y ! 0)) = set ?L - {(name, i)}"
    using ls by (metis mset_remove1 set_mset_mset set_remove1_eq)
  have sn: "of_nat j \<in> snd ` set (listing g (v_inodes y ! 0)) \<longleftrightarrow> j \<noteq> ?ino \<and> of_nat j \<in> snd ` set ?L"
    if j: "j < DENYFS_MAX_INODES" for j
  proof -
    have inj: "inj_on snd (set ?L)" using \<open>distinct (map snd ?L)\<close> by (simp add: distinct_map)
    have "snd ` (set ?L - {(name, i)}) = snd ` set ?L - {i}" using inj_on_image_set_diff [OF inj, of "set ?L" "{(name, i)}"] e by auto
    moreover have "of_nat j = i \<longleftrightarrow> j = ?ino"
      using j by (auto simp: word_unat_eq_iff unsigned_of_nat take_bit_nat_eq_self DENYFS_MAX_INODES_def)
    ultimately show ?thesis unfolding li by auto
  qed
  have tr: "trees g (v_inodes y)"
    unfolding trees_def
  proof (intro allI impI)
    fix j assume "j < length (v_inodes y)"
    then show "tree_ok g (v_inodes y ! j)"
      using y(7) y(6) g(3) blank_tree [OF y(8)] by (cases "j = ?ino") (simp_all add: trees_def)
  qed
  have ty: "if of_nat j \<in> snd ` set (listing g (v_inodes y ! 0)) then i_type (v_inodes y ! j) = DENYFS_ITYPE_FILE
      else i_type (v_inodes y ! j) = DENYFS_ITYPE_FREE \<and> blank g (v_inodes y ! j)"
    if j: "j < DENYFS_MAX_INODES" "0 < j" for j
  proof (cases "j = ?ino")
    case True
    then show ?thesis using y(8,9) sn [OF j(1)] by simp
  next
    case False
    have b: "inode_ok (?n ! j)" using sg(6) j lv by simp
    show ?thesis
      using sound_inode(1) [OF s j] unfolding sn [OF j(1)] yj [OF j False] using False
      by (auto split: if_split_asm intro: blank_any [OF b])
  qed
  have sz: "unat (i_size (v_inodes y ! j)) \<le> DENYFS_MAX_FILE_SIZE" if j: "j < DENYFS_MAX_INODES" for j
  proof -
    consider "j = 0" | "j = ?ino" | "0 < j" "j \<noteq> ?ino" by blast
    then show ?thesis
    proof cases
      case 1
      then show ?thesis using g(4) by (simp add: y0 root_ok_def root_inode_ok_def)
    next
      case 2
      then show ?thesis using y(8) by (simp add: blank_def)
    next
      case 3
      then show ?thesis using sound_inode(2) [OF s j 3(1)] by (simp add: yj [OF j 3])
    qed
  qed
  have ro: "root_ok g (used y) (v_inodes y ! 0)"
    by (rule root_ok_used [OF g(4) [folded y0] y(10) l0 ok]) (simp add: DENYFS_MAX_INODES_def)
  have "fsys g (v_inodes y) (used y)"
    unfolding fsys_def using y(10) tr ro sz ty lm y(6) by simp
  moreover have "unat (sb_free_inodes (v_sb y)) + length (listing g (v_inodes y ! 0)) + 1 = DENYFS_MAX_INODES"
  proof -
    have "length (listing g (v_inodes y ! 0)) + 1 = length ?L"
      using arg_cong [OF ls, of size] e lp by (simp add: size_Diff_singleton)
    moreover have "unat (sb_free_inodes (v_sb v) + 1) = unat (sb_free_inodes (v_sb v)) + 1"
      using k by (simp add: unat_word_ariths DENYFS_MAX_INODES_def)
    ultimately show ?thesis using tot y(11) by simp
  qed
  ultimately have sy: "sound E y" using y(2,5) by (simp add: sound_def inode_at_def)
  have dy: "dir E y = (dir E v)(name := None)"
  proof -
    have "dir E y = map_of (remove1 (name, i) ?L)"
      unfolding dir_def inode_at_def y(5)
      by (rule map_of_mset) (use ls sound_distinct(1) [OF s] in \<open>auto simp: inode_at_def distinct_map intro: inj_on_diff\<close>)
    moreover have "map_of (remove1 (name, i) xs) = (map_of xs)(name := None)" if "distinct (map fst xs)" "(name, i) \<in> set xs" for xs
      using that
    proof (induction xs)
      case (Cons a xs)
      show ?case
      proof (cases "a = (name, i)")
        case True
        then have "map_of xs name = None" using Cons.prems(1) by (simp add: map_of_eq_None_iff)
        then show ?thesis using True by auto
      next
        case False
        with Cons.prems have "fst a \<noteq> name" by (auto simp: image_iff)
        with False Cons show ?thesis by (cases a) auto
      qed
    qed simp
    ultimately show ?thesis using e sound_distinct(1) [OF s] by (simp add: dir_def inode_at_def)
  qed
  have os: "others_same E v y {0, ?ino}"
  proof -
    have a: "same_file E v x j" if "j < DENYFS_MAX_INODES" "j \<noteq> 0" for j
      using kept_same [of 0 ?f ?n E x v] g(1,5) that lv by (simp add: goes_def others_same_def)
    have "same_file E x y j" if "j < DENYFS_MAX_INODES" "j \<noteq> 0" "j \<noteq> ?ino" for j
      using g(1) y(5,7) that lm by (simp add: same_file_def goes_def inode_at_def)
    then show ?thesis using a same_file_trans unfolding others_same_def by blast
  qed
  have "used y = used v - tree_blocks E v ?ino"
    unfolding y(4) tree_blocks_def inode_at_def mj(1) [OF fi(2,1)]
    by (rule arg_cong [of _ _ "\<lambda>X. used v - X"]) (use mj(2) [OF fi(2,1)] in \<open>force simp: vals_def\<close>)
  then show ?thesis using y(1) sy dy os by (auto simp: unlinked_def)
qed

lemma unlinked_trans:
  assumes "unlinked E v y name i" "sound E w" "dir E w = dir E y" "used w = used y" "others_same E y w {}"
  shows "unlinked E v w name i"
  using assms others_same_trans [of E v y "{0, unat i}" w "{}"] by (simp add: unlinked_def)

lemma vol_unlink_name:
  assumes s: "sound E v" and h: "hmac_works E" and i: "dir E v name = Some i"
  shows "\<exists>w. vol_unlink E v name = (Inr (), w) \<and> unlinked E v w name i \<and> synced E w"
proof -
  have nm: "name \<noteq> []" "length name < DENYFS_MAX_NAME_LEN" using dir_good_name [OF s i] by (simp_all add: good_name_def)
  have lk: "vol_lookup E v name = (Inr i, v)" using vol_lookup_dir [OF s, of name] nm i by simp
  note g = sound_goes [OF s]
  have e: "(name, i) \<in> set (listing (cells E v) (v_inodes v ! 0))" using dir_listing [OF i] by (simp add: inode_at_def)
  obtain x where x: "remove_dirent E v name = (Inr (), x)" "used x = used v"
    "dir_step E v (cells E v) (v_inodes v) (mset (listing (cells E v) (v_inodes v ! 0)) - {#(name, i)#}) (used v) x"
    using remove_dirent_ok [OF g(1,2,3,5,4) nm(2) e] by blast
  obtain y where y: "free_inode E x (unat i) = (Inr (), y)" "unlinked E v y name i"
    using free_removed [OF s i x(2,3)] by blast
  have sy: "sound E y" using y(2) by (simp add: unlinked_def)
  obtain w where w: "vol_flush E y = (Inr (), w)" "sound E w" "synced E w" "dir E w = dir E y" "used w = used y"
    "others_same E y w {}" using flush_sound [OF sy h] by blast
  have "vol_unlink E v name = (Inr (), w)" using x(1) y(1) w(1) by (simp add: vol_unlink_def lk)
  then show ?thesis using unlinked_trans [OF y(2) w(2,4-6)] w(3) by blast
qed

lemma vol_unlink_absent:
  assumes "sound E v" "dir E v name = None"
  shows "vol_unlink E v name = (Inl ENOENT, v)"
  using vol_lookup_dir [OF assms(1), of name] assms(2) by (auto simp: vol_unlink_def)

section \<open>Listing the directory\<close>

text \<open>The C string in a valid entry is the name of its length.\<close>

lemma entry_name:
  assumes v: "valid_dirent e" and ok: "dirent_ok e" and f: "\<not> entry_free e"
  shows "takeWhile (\<lambda>c. c \<noteq> 0) (de_name e) = name_of e"
proof -
  let ?k = "unat (de_name_len e)"
  have k: "?k < DENYFS_MAX_NAME_LEN" "de_name e ! ?k = 0" "\<forall>i < ?k. de_name e ! i \<noteq> 0"
    using v f by (auto simp: valid_dirent_def entry_free_def list_ex_iff split: if_splits)
  have l: "length (de_name e) = DENYFS_MAX_NAME_LEN" using ok by (simp add: dirent_ok_def)
  have "de_name e = take ?k (de_name e) @ 0 # drop (Suc ?k) (de_name e)"
    using id_take_nth_drop [of ?k "de_name e"] k l by simp
  moreover have "\<forall>c \<in> set (take ?k (de_name e)). c \<noteq> 0" using k l by (auto simp: in_set_conv_nth)
  ultimately have "takeWhile (\<lambda>c. c \<noteq> 0) (de_name e) = take ?k (de_name e)"
    by (metis (mono_tags, lifting) takeWhile_append2 takeWhile.simps(2) append_Nil2)
  then show ?thesis by (simp add: name_of_def)
qed

text \<open>A callback that never stops sees every live entry in order.\<close>

lemma readdir_entries_all:
  assumes "\<And>name i s. \<not> fst (cb name i s)" "\<forall>e \<in> set es. valid_dirent e \<and> dirent_ok e"
  shows "readdir_entries cb es s = (Inr False, fold (\<lambda>(name, i) s. snd (cb name i s)) (listing_of es) s)"
  using assms(2)
proof (induction es arbitrary: s)
  case (Cons e es)
  show ?case
  proof (cases "entry_free e")
    case True
    with Cons show ?thesis by (simp add: listing_of_def entry_free_def)
  next
    case False
    obtain b t where c: "cb (name_of e) (de_inode e) s = (b, t)" by (cases "cb (name_of e) (de_inode e) s")
    have "\<not> b" using assms(1) [of "name_of e" "de_inode e" s] by (simp add: c)
    then show ?thesis
      using Cons False c entry_name [of e] by (simp add: listing_of_def entry_free_def pair_of_def)
  qed
qed (simp add: listing_of_def)

lemma readdir_blocks_all:
  assumes g: "goes E v U f n u" and cb: "\<And>name i s. \<not> fst (cb name i s)" and ok: "dir_blocks_ok f U bs"
  shows "readdir_blocks E u cb bs s =
    ((Inr (), fold (\<lambda>(name, i) s. snd (cb name i s)) (listing_of (block_entries f bs)) s), u)"
  using ok
proof (induction bs arbitrary: s)
  case Nil
  then show ?case by (simp add: listing_of_def)
next
  case (Cons b bs)
  show ?case
  proof (cases "b = DENYFS_INVALID_BLOCK")
    case True
    with Cons show ?thesis by (simp add: dir_blocks_Cons block_entries_Cons)
  next
    case False
    have ok: "dir_blocks_ok f U bs" "unat b \<in> U" "\<forall>e \<in> set (dirents_dec (f b)). valid_dirent e"
      using Cons.prems False by (simp_all add: dir_blocks_Cons)
    note rd = goes_read [OF g ok(2)]
    have "\<forall>e \<in> set (dirents_dec (f b)). valid_dirent e \<and> dirent_ok e" using ok(3) dirents_dec_ok [OF rd(2)] by blast
    from readdir_entries_all [OF cb this] Cons.IH [OF ok(1)] rd(1) False show ?thesis
      by (simp add: block_entries_Cons listing_of_append)
  qed
qed

lemma vol_readdir_listing:
  assumes s: "sound E v" and cb: "\<And>name i s. \<not> fst (cb name i s)"
  shows "vol_readdir E v cb s =
    ((Inr (), fold (\<lambda>(name, i) s. snd (cb name i s)) (listing (cells E v) (inode_at v 0)) s), v)"
proof -
  have "dir_blocks_ok (cells E v) (used v) (i_direct (inode_at v 0))"
    using sound_root [OF s] by (simp add: root_ok_def)
  from readdir_blocks_all [OF sound_goes(1) [OF s] cb this, where s = s] show ?thesis
    by (simp add: vol_readdir_def listing_def)
qed

lemma dom_dir: "dom (dir E v) = set (map fst (listing (cells E v) (inode_at v 0)))"
  by (simp add: dir_def dom_map_of_conv_image_fst)

end
