(* ===== verification/Newborn.thy ===== *)
theory Newborn
  imports FileSys
begin

text \<open>
  A freshly formatted volume satisfies the invariant \<open>sound\<close> with an empty directory, so every state a
  session reaches from a new container is sound; and the concrete states the witnesses use.
\<close>

section \<open>The inodes of a new volume\<close>

lemma fmt_inodes_sval:
  assumes j: "j < DENYFS_MAX_INODES" "slot_ok s"
  shows "sval f (fmt_inodes d now ! j) s = (if j = 0 \<and> s = Direct 0 then d else DENYFS_INVALID_BLOCK)"
  using j by (cases s) (auto simp: fmt_inodes_nth blank_inode_def nth_list_update)

lemma length_fmt_inodes [simp]: "length (fmt_inodes d now) = DENYFS_MAX_INODES"
  using fmt_inodes_ok [of d now] by (simp add: fmt_inodes_def)

lemma fmt_owned:
  assumes "d \<noteq> DENYFS_INVALID_BLOCK"
  shows "owned f (fmt_inodes d now) {unat d}"
proof -
  have "points f (fmt_inodes d now) 0 (Direct 0)" "sval f (fmt_inodes d now ! 0) (Direct 0) = d"
    using assms fmt_inodes_sval [of 0 "Direct 0" f d now] by (simp_all add: points_def layout_sizes)
  then have "\<exists>i s. points f (fmt_inodes d now) i s \<and> unat (sval f (fmt_inodes d now ! i) s) = a" if "a \<in> {unat d}" for a
    using that by (intro exI [of _ 0] exI [of _ "Direct 0"]) simp
  moreover have "j = i \<and> s = t" if "j < DENYFS_MAX_INODES" "i < DENYFS_MAX_INODES" "slot_ok s" "slot_ok t"
    "sval f (fmt_inodes d now ! j) s = sval f (fmt_inodes d now ! i) t"
    "sval f (fmt_inodes d now ! j) s \<noteq> DENYFS_INVALID_BLOCK" for i j s t
    using that by (simp add: fmt_inodes_sval split: if_split_asm)
  moreover have "unat (sval f (fmt_inodes d now ! j) s) \<in> {unat d}" if "j < DENYFS_MAX_INODES" "slot_ok s"
    "sval f (fmt_inodes d now ! j) s \<noteq> DENYFS_INVALID_BLOCK" for j s
    using that by (simp add: fmt_inodes_sval split: if_split_asm)
  ultimately show ?thesis unfolding owned_def length_fmt_inodes by blast
qed

lemma fmt_blank: "0 < j \<Longrightarrow> j < DENYFS_MAX_INODES \<Longrightarrow> blank f (fmt_inodes d now ! j)"
  using fmt_inodes_sval [of j _ f d now] by (simp add: blank_def fmt_inodes_nth) (simp add: blank_inode_def)

lemma fmt_root:
  "i_type (fmt_inodes d now ! 0) = DENYFS_ITYPE_DIR" "i_size (fmt_inodes d now ! 0) = 0"
  "i_block_count (fmt_inodes d now ! 0) = 1" "i_indirect (fmt_inodes d now ! 0) = DENYFS_INVALID_BLOCK"
  "i_double (fmt_inodes d now ! 0) = DENYFS_INVALID_BLOCK"
  "i_direct (fmt_inodes d now ! 0) = d # replicate 19 DENYFS_INVALID_BLOCK"
  by (simp_all add: fmt_inodes_nth DENYFS_MAX_INODES_def blank_inode_def DENYFS_DIRECT_BLOCKS_def numeral_eq_Suc)

lemma fmt_trees:
  assumes "d \<noteq> DENYFS_INVALID_BLOCK"
  shows "trees f (fmt_inodes d now)"
  unfolding trees_def length_fmt_inodes
proof (intro allI impI)
  fix j assume j: "j < DENYFS_MAX_INODES"
  show "tree_ok f (fmt_inodes d now ! j)"
  proof (cases "j = 0")
    case False
    then show ?thesis using fmt_blank [of j f d now] blank_tree j by blast
  next
    case True
    have fb: "file_block f (fmt_inodes d now ! 0) l = (if l = 0 then d else DENYFS_INVALID_BLOCK)"
      if "l < DENYFS_MAX_FILE_BLOCKS" for l
    proof -
      have "slot_of 0 = Direct 0" by (simp add: slot_of_def layout_sizes)
      then have "slot_of l = Direct 0 \<longleftrightarrow> l = 0" using slot_of_inj [of l 0] by auto
      then show ?thesis using fmt_inodes_sval [of 0 "slot_of l" f d now] slot_of_ok [OF that] j True by (simp add: file_block_def)
    qed
    have "l \<in> blocks_of f (fmt_inodes d now ! 0) \<longleftrightarrow> l = 0" for l
      using fb [of l] assms by (auto simp: blocks_of_def DENYFS_MAX_FILE_BLOCKS_def layout_sizes split: if_split_asm)
    then have "blocks_of f (fmt_inodes d now ! 0) = {0}" by blast
    moreover have "sval f (fmt_inodes d now ! 0) q = DENYFS_INVALID_BLOCK" if "slot_ok q" "\<not> data_slot q" for q
      using fmt_inodes_sval [of 0 q f d now] j True that by auto
    ultimately show ?thesis using True by (simp add: tree_ok_def fmt_root)
  qed
qed

lemma first_sound:
  assumes c: "core E w" and i: "v_inodes w = fmt_inodes d now" and u: "used w = {unat d}"
    and e: "cells E w d = empty_dir" and k: "sb_free_inodes (v_sb w) = 63"
  shows "sound E w" "dir E w = Map.empty"
proof -
  let ?f = "cells E w" and ?n = "fmt_inodes d now"
  have d: "d \<noteq> DENYFS_INVALID_BLOCK" using core_used [OF c, of d] u by simp
  have lv: "live (i_direct (?n ! 0)) = [d]" using d by (simp add: fmt_root live_def)
  have be: "block_entries ?f (i_direct (?n ! 0)) = replicate DENYFS_DIRENTS_PER_BLOCK free_entry"
    by (simp add: block_entries_def lv e dirents_empty_dir)
  have ls: "listing ?f (?n ! 0) = []" by (simp add: listing_def listing_of_def be)
  have "root_ok ?f {unat d} (?n ! 0)"
    unfolding root_ok_def dir_blocks_ok_def lv be ls
    using d by (auto simp: root_inode_ok_def fmt_root nth_Cons layout_sizes split: nat.split)
  moreover have "unat (i_size (?n ! j)) \<le> DENYFS_MAX_FILE_SIZE" if "j < DENYFS_MAX_INODES" for j
    using fmt_blank [of j ?f d now] that by (cases "j = 0") (simp_all add: fmt_root blank_def)
  moreover have "i_type (?n ! j) = DENYFS_ITYPE_FREE" if "j < DENYFS_MAX_INODES" "0 < j" for j
    using that by (simp add: fmt_inodes_nth blank_inode_def)
  ultimately have "fsys ?f ?n {unat d}"
    using fmt_owned [OF d, of ?f now] fmt_trees [OF d, of ?f now] fmt_blank [of _ ?f d now] ls by (simp add: fsys_def)
  then show "sound E w" using c i u k ls by (simp add: sound_def inode_at_def DENYFS_MAX_INODES_def)
  show "dir E w = Map.empty" using i ls by (simp add: dir_def inode_at_def)
qed

lemma fresh_core:
  assumes r: "ready E v" and sz: "formattable (v_size v)" and hl: "length h = DENYFS_HMAC_SIZE"
    and s: "synced E (fresh h now v)" and sm: "vol_blocks v \<le> 2 ^ 31"
  shows "core E (fresh h now v)"
proof -
  let ?w = "fresh h now v" and ?b = "fmt_total_blocks (v_size v)"
  let ?root = "fmt_data_start ?b"
  note wf = fresh_wf [OF sz hl, of now]
  note g = wf_facts [OF wf, simplified] and us = fresh_used [OF sz, of h now]
  have lt: "unat ?root < vol_blocks v" by (rule fresh_root [OF sz])
  have tb: "unat ?b = vol_blocks v" by (rule fmt_total_blocks_eq [OF sz])
  have free: "unat (?b - ?root - 1) = unat ?b - unat ?root - 1"
    using lt tb by (subst unat_minus_one_u32) (simp_all add: unat_sub word_le_nat_alt)
  have "pool ?w - used ?w = {Suc (unat ?root)..<vol_blocks v}" unfolding us by auto
  then have "bitmap_inv ?w" using free g(2,9) tb by (simp add: bitmap_inv_def)
  moreover have "small_volume ?w" using sm tb by (simp add: small_volume_def)
  moreover have "clean_synced E ?w" using s by (simp add: clean_synced_def synced_def)
  ultimately show ?thesis using r wf by (simp add: core_def)
qed

lemma fresh_sound:
  assumes "ready E v" "formattable (v_size v)" "length h = DENYFS_HMAC_SIZE" "synced E (fresh h now v)"
    "vol_blocks v \<le> 2 ^ 31" "cells E v (fmt_data_start (fmt_total_blocks (v_size v))) = empty_dir"
  shows "sound E (fresh h now v)" "dir E (fresh h now v) = Map.empty"
  using first_sound [OF fresh_core [OF assms(1-5)], of "fmt_data_start (fmt_total_blocks (v_size v))" now]
    fresh_used(1) [OF assms(2), of h now] assms(6) by simp_all

end
