(* ===== verification/Store.thy ===== *)
theory Store
  imports Newborn
begin

text \<open>
  The abstract specification of a mounted volume: a finite map from names to byte strings. \<open>files\<close> reads
  it off a volume, \<open>serve\<close> is a FUSE request on the path of a name, and \<open>answers\<close> says which replies and
  which successor maps the specification allows. The FUSE callbacks of \<open>src/src/fuse_ops.c\<close> over the
  operations of \<open>src/src/fs.c\<close> refine it, request by request and for whole sessions.
\<close>

section \<open>The abstract state\<close>

definition files :: "env \<Rightarrow> volume \<Rightarrow> bytes \<rightharpoonup> bytes" where
  "files E v name = map_option (\<lambda>i. contents E v (unat i)) (dir E v name)"

text \<open>Sound, and no file has data or blocks beyond its end.\<close>

definition store :: "env \<Rightarrow> volume \<Rightarrow> bool" where
  "store E v \<longleftrightarrow> sound E v \<and> (\<forall>i \<in> ran (dir E v). tail_zero E v (unat i) \<and> fits E v (unat i))"

lemma dom_files [simp]: "dom (files E v) = dom (dir E v)"
  by (auto simp: files_def)

lemma files_dir: "dir E v name = Some i \<Longrightarrow> files E v name = Some (contents E v (unat i))"
  by (simp add: files_def)

lemma files_None: "files E v name = None \<longleftrightarrow> dir E v name = None"
  by (simp add: files_def)

lemma store_sound: "store E v \<Longrightarrow> sound E v"
  by (simp add: store_def)

lemma store_file:
  assumes "store E v" "dir E v name = Some i"
  shows "tail_zero E v (unat i)" "fits E v (unat i)"
  using assms by (auto simp: store_def ran_def)

lemma sound_same_contents:
  assumes "sound E v" "j < DENYFS_MAX_INODES" "same_file E v w j"
  shows "contents E w j = contents E v j"
  by (rule same_file_facts(3) [OF assms(3) mounted_size [OF sound_mounted [OF assms(1)] assms(2)]])

text \<open>The map changes at one name when the other files are the same.\<close>

lemma files_change:
  assumes s: "sound E v" and d: "dir E w = (dir E v)(name := x)"
    and o: "\<And>a j. dir E v a = Some j \<Longrightarrow> a \<noteq> name \<Longrightarrow> same_file E v w (unat j)"
  shows "files E w = (files E v)(name := map_option (\<lambda>i. contents E w (unat i)) x)"
proof
  fix a
  show "files E w a = ((files E v)(name := map_option (\<lambda>i. contents E w (unat i)) x)) a"
  proof (cases "a = name")
    case False
    show ?thesis
    proof (cases "dir E v a")
      case (Some j)
      show ?thesis using sound_same_contents [OF s dir_file(2) [OF s Some] o [OF Some False]] Some False
        by (simp add: files_def d)
    qed (use False in \<open>simp add: files_def d\<close>)
  qed (simp add: files_def d)
qed

lemma store_change:
  assumes v: "store E v" and w: "sound E w" and d: "dir E w = (dir E v)(name := x)"
    and o: "\<And>a j. dir E v a = Some j \<Longrightarrow> a \<noteq> name \<Longrightarrow> same_file E v w (unat j)"
    and n: "\<And>i. x = Some i \<Longrightarrow> tail_zero E w (unat i) \<and> fits E w (unat i)"
  shows "store E w"
proof -
  have "tail_zero E w (unat j) \<and> fits E w (unat j)" if "dir E w a = Some j" for a j
  proof (cases "a = name")
    case True
    then show ?thesis using that n d by simp
  next
    case False
    then have dj: "dir E v a = Some j" using that d by simp
    show ?thesis using same_file_facts(1,2) [OF o [OF dj False]] store_file [OF v dj] by simp
  qed
  then show ?thesis using w by (auto simp: store_def ran_def)
qed

lemma files_update:
  assumes v: "store E v" and i: "dir E v name = Some i"
    and w: "sound E w" "dir E w = dir E v" and o: "others_same E v w {unat i}"
    and n: "contents E w (unat i) = d" "tail_zero E w (unat i)" "fits E w (unat i)"
  shows "store E w" "files E w = (files E v)(name \<mapsto> d)"
proof -
  note s = store_sound [OF v]
  have ne: "unat j \<noteq> unat i" if "dir E v a = Some j" "a \<noteq> name" for a j
    using dir_inj [OF s that(1), of name] i that(2) by (auto simp: word_unat_eq_iff)
  have o: "same_file E v w (unat j)" if "dir E v a = Some j" "a \<noteq> name" for a j
    using o dir_file(2) [OF s that(1)] ne [OF that] by (simp add: others_same_def)
  have d: "dir E w = (dir E v)(name := Some i)" using w(2) i by (simp add: fun_upd_idem)
  show "store E w" by (rule store_change [OF v w(1) d o]) (use n in simp_all)
  show "files E w = (files E v)(name \<mapsto> d)" using files_change [OF s d o] n(1) by simp
qed

section \<open>Read, write and truncate\<close>

lemma store_read:
  assumes v: "store E v" and i: "dir E v name = Some i" and sz: "sz \<le> INT_MAX"
  shows "vol_read E v (unat i) sz off = (Inr (slice (unat off) sz (the (files E v name))), v)"
  using vol_read_contents [OF sound_mounted [OF store_sound [OF v]] dir_file(2,3) [OF store_sound [OF v] i] sz]
  by (simp add: files_dir [OF i])

lemma store_write:
  assumes v: "store E v" and h: "hmac_works E" and i: "dir E v name = Some i"
    and sz: "length buf \<le> INT_MAX" "unat off + length buf \<le> DENYFS_MAX_FILE_SIZE"
  shows "(\<exists>w. vol_write E now v (unat i) buf off = (Inr (length buf), w) \<and> store E w \<and> synced E w \<and>
      files E w = (files E v)(name \<mapsto> overwrite (unat off) buf (the (files E v name)))) \<or>
    (\<exists>w k. vol_write E now v (unat i) buf off = (Inl ENOSPC, w) \<and> k < length buf \<and> scarce v (used w) \<and>
      (if k = 0 then used w = used v else SECTOR_SIZE dvd unat off + k) \<and>
      i_size (inode_at w (unat i)) = i_size (inode_at v (unat i)) \<and> wrote E v w (unat i) (unat off) (take k buf) \<and> sound E w \<and> dir E w = dir E v \<and> others_same E v w {unat i})"
proof -
  note s = store_sound [OF v]
  note f = dir_file [OF s i]
  obtain w k where w: "wrote E v w (unat i) (unat off) (take k buf)"
    "vol_write E now v (unat i) buf off = (Inr (length buf), w) \<and> k = length buf \<and> synced E w \<and>
       unat (i_size (inode_at w (unat i))) = max (unat (i_size (inode_at v (unat i)))) (unat off + k) \<or>
     vol_write E now v (unat i) buf off = (Inl ENOSPC, w) \<and> k < length buf \<and> scarce v (used w) \<and>
      (if k = 0 then used w = used v else SECTOR_SIZE dvd unat off + k) \<and>
       i_size (inode_at w (unat i)) = i_size (inode_at v (unat i))"
    using vol_write_contents [OF sound_mounted [OF s] h f(2,3) sz] by blast
  note ws = wrote_sound [OF s w(1) f]
  have o: "others_same E v w {unat i}" using wrote_same [OF w(1)] by (simp add: others_same_def)
  from w(2) show ?thesis
  proof (elim disjE conjE)
    assume a: "vol_write E now v (unat i) buf off = (Inr (length buf), w)" "k = length buf" "synced E w"
      "unat (i_size (inode_at w (unat i))) = max (unat (i_size (inode_at v (unat i)))) (unat off + k)"
    have tk: "take k buf = buf" using a(2) by simp
    have sz: "unat (i_size (inode_at w (unat i))) = max (unat (i_size (inode_at v (unat i)))) (unat off + length buf)"
      using a(2,4) by simp
    note c = wrote_contents [OF w(1) [unfolded tk] f(2) store_file(1) [OF v i] sz]
    note fi = wrote_fits [OF w(1) [unfolded tk] f(2) store_file(2) [OF v i] sz]
    from files_update [OF v i ws o c fi] a(1,3) show ?thesis by (simp add: files_dir [OF i])
  next
    assume "vol_write E now v (unat i) buf off = (Inl ENOSPC, w)" "k < length buf" "scarce v (used w)"
      "if k = 0 then used w = used v else SECTOR_SIZE dvd unat off + k"
      "i_size (inode_at w (unat i)) = i_size (inode_at v (unat i))"
    then show ?thesis using w(1) ws o by blast
  qed
qed

lemma store_truncate:
  assumes v: "store E v" and h: "hmac_works E" and i: "dir E v name = Some i"
    and sz: "unat n \<le> DENYFS_MAX_FILE_SIZE"
  shows "\<exists>w. vol_truncate E now v (unat i) n = (Inr (), w) \<and> store E w \<and> dir E w = dir E v \<and>
    files E w = (files E v)(name \<mapsto> take (unat n) (the (files E v name)) @
      replicate (unat n - length (the (files E v name))) 0)"
proof -
  note s = store_sound [OF v]
  note f = dir_file [OF s i]
  obtain w where w: "vol_truncate E now v (unat i) n = (Inr (), w)" "resized E v w (unat i) (unat n)"
    using vol_truncate_contents [OF sound_mounted [OF s] h f(2,3) sz] by blast
  note ws = resized_sound [OF s w(2) f]
  have o: "others_same E v w {unat i}" using resized_same [OF w(2)] by (simp add: others_same_def)
  note st = store_file [OF v i]
  from files_update [OF v i ws o resized_contents [OF w(2) f(2) st(1)] resized_tail [OF w(2) f(2) st(1)]
      resized_fits [OF w(2) f(2) st(2)]] w(1) ws(2)
  show ?thesis by (simp add: files_dir [OF i])
qed

section \<open>Create and unlink\<close>

lemma created_store:
  assumes v: "store E v" and c: "created E v w name ino"
  shows "store E w" "files E w = (files E v)(name \<mapsto> [])"
proof -
  note s = store_sound [OF v]
  have c: "sound E w" "dir E w = (dir E v)(name := Some ino)" "ino \<notin> ran (dir E v)" "others_same E v w {0, unat ino}"
    "contents E w (unat ino) = []" "tail_zero E w (unat ino)" "fits E w (unat ino)"
    using c by (simp_all add: created_def)
  have o: "same_file E v w (unat j)" if "dir E v a = Some j" for a j
  proof -
    have "j \<noteq> ino" using c(3) ranI [of "dir E v", OF that] by blast
    then show ?thesis using c(4) dir_file(1,2) [OF s that] by (simp add: others_same_def word_unat_eq_iff)
  qed
  show "store E w" by (rule store_change [OF v c(1,2) o]) (use c in simp_all)
  show "files E w = (files E v)(name \<mapsto> [])" using files_change [OF s c(2) o] c(5) by simp
qed

lemma refused_store:
  assumes v: "store E v" and r: "refused E v w"
  shows "store E w" "files E w = files E v"
proof -
  note s = store_sound [OF v]
  have r: "sound E w" "dir E w = dir E v" "\<And>i. i \<in> ran (dir E v) \<Longrightarrow> same_file E v w (unat i)"
    using r by (simp_all add: refused_def)
  show "store E w" using v r same_file_facts(1,2) [OF r(3)] by (simp add: store_def)
  show "files E w = files E v"
  proof
    fix a
    show "files E w a = files E v a"
    proof (cases "dir E v a")
      case (Some j)
      show ?thesis using sound_same_contents [OF s dir_file(2) [OF s Some] r(3) [OF ranI [of "dir E v", OF Some]]] Some
        by (simp add: files_def r(2))
    qed (simp add: files_def r(2))
  qed
qed

lemma unlinked_store:
  assumes v: "store E v" and u: "unlinked E v w name i" and d: "dir E v name = Some i"
  shows "store E w" "files E w = (files E v)(name := None)"
proof -
  note s = store_sound [OF v]
  have u: "sound E w" "dir E w = (dir E v)(name := None)" "others_same E v w {0, unat i}"
    using u by (simp_all add: unlinked_def)
  have o: "same_file E v w (unat j)" if "dir E v a = Some j" "a \<noteq> name" for a j
  proof -
    have "j \<noteq> i" using dir_inj [OF s that(1), of name] d that(2) by auto
    then show ?thesis using u(3) dir_file(1,2) [OF s that(1)] by (simp add: others_same_def word_unat_eq_iff)
  qed
  show "store E w" by (rule store_change [OF v u(1,2) o]) simp_all
  show "files E w = (files E v)(name := None)" using files_change [OF s u(2) o] by simp
qed

section \<open>Requests\<close>

definition path_of :: "bytes \<Rightarrow> bytes" where
  "path_of name = of_char CHR ''/'' # name"

lemma path_of_name: "good_name name \<Longrightarrow> path_to_name (path_of name) = Some name \<and> path_of name \<noteq> root_path"
  by (auto simp: path_to_name_def path_of_def root_path_def good_name_def)

datatype request = MkFile bytes | RmFile bytes | GetData bytes nat u64 | PutData bytes bytes u64
  | SetSize bytes u64 | GetSize bytes

datatype reply = Done | Data bytes | Size u64 | Error err

fun req_name :: "request \<Rightarrow> bytes" where
  "req_name (MkFile x) = x"
| "req_name (RmFile x) = x"
| "req_name (GetData x n off) = x"
| "req_name (PutData x b off) = x"
| "req_name (SetSize x n) = x"
| "req_name (GetSize x) = x"

text \<open>The callback that serves a request on the file \<open>/name\<close>.\<close>

fun serve :: "env \<Rightarrow> u64 \<Rightarrow> volume \<Rightarrow> request \<Rightarrow> reply \<times> volume" where
  "serve E now v (MkFile x) =
     (case fuse_create E now v (path_of x) of (Inl e, w) \<Rightarrow> (Error e, w) | (Inr i, w) \<Rightarrow> (Done, w))"
| "serve E now v (RmFile x) =
     (case fuse_unlink E v (path_of x) of (Inl e, w) \<Rightarrow> (Error e, w) | (Inr i, w) \<Rightarrow> (Done, w))"
| "serve E now v (GetData x n off) =
     (case fuse_read E v (path_of x) n off of (Inl e, w) \<Rightarrow> (Error e, w) | (Inr d, w) \<Rightarrow> (Data d, w))"
| "serve E now v (PutData x b off) =
     (case fuse_write E now v (path_of x) b off of (Inl e, w) \<Rightarrow> (Error e, w) | (Inr k, w) \<Rightarrow> (Done, w))"
| "serve E now v (SetSize x n) =
     (case fuse_truncate E now v (path_of x) n of (Inl e, w) \<Rightarrow> (Error e, w) | (Inr i, w) \<Rightarrow> (Done, w))"
| "serve E now v (GetSize x) =
     (case fuse_getattr E v (path_of x) of (Inl e, w) \<Rightarrow> (Error e, w) | (Inr st, w) \<Rightarrow> (Size (st_size st), w))"

text \<open>The specification of a request on the map of files.\<close>

fun answers :: "(bytes \<rightharpoonup> bytes) \<Rightarrow> request \<Rightarrow> reply \<Rightarrow> (bytes \<rightharpoonup> bytes) \<Rightarrow> bool" where
  "answers F (MkFile x) r G \<longleftrightarrow>
     (case F x of Some d \<Rightarrow> r = Error EEXIST \<and> G = F
      | None \<Rightarrow> r = Done \<and> G = F(x \<mapsto> []) \<or> r = Error ENOSPC \<and> G = F)"
| "answers F (RmFile x) r G \<longleftrightarrow>
     (case F x of Some d \<Rightarrow> r = Done \<and> G = F(x := None) | None \<Rightarrow> r = Error ENOENT \<and> G = F)"
| "answers F (GetData x n off) r G \<longleftrightarrow> G = F \<and>
     (if sint off < 0 then r = Error EINVAL
      else case F x of None \<Rightarrow> r = Error ENOENT
      | Some d \<Rightarrow> if INT_MAX < n then r = Error EINVAL else r = Data (slice (unat off) n d))"
| "answers F (PutData x b off) r G \<longleftrightarrow>
     (if sint off < 0 then r = Error EINVAL \<and> G = F
      else case F x of None \<Rightarrow> r = Error ENOENT \<and> G = F
      | Some d \<Rightarrow> if INT_MAX < length b then r = Error EINVAL \<and> G = F
          else if DENYFS_MAX_FILE_SIZE < unat off + length b then r = Error ENOSPC \<and> G = F
          else r = Done \<and> G = F(x \<mapsto> overwrite (unat off) b d))"
| "answers F (SetSize x n) r G \<longleftrightarrow>
     (if sint n < 0 then r = Error EINVAL \<and> G = F
      else if DENYFS_MAX_FILE_SIZE < unat n then r = Error ENOSPC \<and> G = F
      else case F x of None \<Rightarrow> r = Error ENOENT \<and> G = F
      | Some d \<Rightarrow> r = Done \<and> G = F(x \<mapsto> take (unat n) d @ replicate (unat n - length d) 0))"
| "answers F (GetSize x) r G \<longleftrightarrow> G = F \<and>
     (case F x of None \<Rightarrow> r = Error ENOENT | Some d \<Rightarrow> r = Size (of_nat (length d)))"

text \<open>A write that the limits allow and that runs out of blocks half-way.\<close>

fun ran_out :: "request \<Rightarrow> reply \<Rightarrow> bool" where
  "ran_out (PutData x b off) r \<longleftrightarrow> unat off + length b \<le> DENYFS_MAX_FILE_SIZE \<and> r = Error ENOSPC"
| "ran_out q r \<longleftrightarrow> False"

section \<open>Refinement\<close>

lemma lookup_name:
  assumes "sound E v" "good_name x"
  shows "vol_lookup E v x = (case dir E v x of None \<Rightarrow> Inl ENOENT | Some i \<Rightarrow> Inr i, v)"
  using vol_lookup_dir [OF assms(1), of x] assms(2) by (simp add: good_name_def)

lemma serve_MkFile:
  assumes v: "store E v" and h: "hmac_works E" and n: "good_name x" and q: "serve E now v (MkFile x) = (r, w)"
  shows "answers (files E v) (MkFile x) r (files E w) \<and> store E w"
proof (cases "dir E v x")
  case (Some i)
  have "r = Error EEXIST" "w = v"
    using vol_create_exists [OF store_sound [OF v] n Some, of now] q path_of_name [OF n] by (simp_all add: fuse_create_def)
  then show ?thesis using v by (simp add: files_dir [OF Some])
next
  case None
  from vol_create_new [OF store_sound [OF v] h n None, of now] show ?thesis
  proof (elim disjE exE)
    fix u assume a: "vol_create E now v x = (Inl ENOSPC, u) \<and> refused E v u \<and>
      (used v = pool v \<or> (\<forall>i. 0 < i \<longrightarrow> i < DENYFS_MAX_INODES \<longrightarrow> i_type (inode_at v i) = DENYFS_ITYPE_FILE))"
    then have "r = Error ENOSPC" "w = u" using q path_of_name [OF n] by (simp_all add: fuse_create_def)
    then show ?thesis using refused_store [OF v, of u] a None by (simp add: files_def)
  next
    fix u i assume a: "vol_create E now v x = (Inr i, u) \<and> created E v u x i \<and> synced E u \<and>
      ((\<exists>e \<in> set (block_entries (cells E v) (i_direct (inode_at v 0))). entry_free e) \<longrightarrow> used u = used v)"
    then have "r = Done" "w = u" using q path_of_name [OF n] by (simp_all add: fuse_create_def)
    then show ?thesis using created_store [OF v, of u x i] a None by (simp add: files_def)
  qed
qed

lemma serve_RmFile:
  assumes v: "store E v" and h: "hmac_works E" and n: "good_name x" and q: "serve E now v (RmFile x) = (r, w)"
  shows "answers (files E v) (RmFile x) r (files E w) \<and> store E w"
proof (cases "dir E v x")
  case None
  from vol_unlink_absent [OF store_sound [OF v] None] q show ?thesis
    using v path_of_name [OF n] None by (simp add: fuse_unlink_def files_def)
next
  case (Some i)
  obtain u where u: "vol_unlink E v x = (Inr (), u)" "unlinked E v u x i"
    using vol_unlink_name [OF store_sound [OF v] h Some] by blast
  then have "r = Done" "w = u" using q path_of_name [OF n] by (simp_all add: fuse_unlink_def)
  then show ?thesis using unlinked_store [OF v u(2) Some] by (simp add: files_dir [OF Some])
qed

lemma serve_GetData:
  assumes v: "store E v" and n: "good_name x" and q: "serve E now v (GetData x k off) = (r, w)"
  shows "answers (files E v) (GetData x k off) r (files E w) \<and> store E w"
proof (cases "sint off < 0")
  case True
  with q v show ?thesis by (simp add: fuse_read_def)
next
  case off: False
  note lk = lookup_name [OF store_sound [OF v] n]
  show ?thesis
  proof (cases "dir E v x")
    case None
    with q v off lk path_of_name [OF n] show ?thesis by (simp add: fuse_read_def files_def)
  next
    case (Some i)
    have step: "serve E now v (GetData x k off) =
        (case vol_read E v (unat i) k off of (Inl e, w) \<Rightarrow> (Error e, w) | (Inr d, w) \<Rightarrow> (Data d, w))"
      using off lk path_of_name [OF n] Some by (simp add: fuse_read_def)
    show ?thesis
    proof (cases "INT_MAX < k")
      case True
      have "vol_read E v (unat i) k off = (Inl EINVAL, v)" using True by (simp add: vol_read_def)
      with q v off True files_dir [OF Some] show ?thesis unfolding step by simp
    next
      case False
      have "r = Data (slice (unat off) k (contents E v (unat i)))" "w = v"
        using store_read [OF v Some, of k off] q files_dir [OF Some] False unfolding step by auto
      then show ?thesis using v off False by (simp add: files_dir [OF Some])
    qed
  qed
qed

lemma serve_PutData:
  assumes v: "store E v" and h: "hmac_works E" and n: "good_name x" and q: "serve E now v (PutData x b off) = (r, w)"
    and ro: "\<not> ran_out (PutData x b off) r"
  shows "answers (files E v) (PutData x b off) r (files E w) \<and> store E w"
proof (cases "sint off < 0")
  case True
  with q v show ?thesis by (simp add: fuse_write_def)
next
  case off: False
  note lk = lookup_name [OF store_sound [OF v] n]
  show ?thesis
  proof (cases "dir E v x")
    case None
    with q v off lk path_of_name [OF n] show ?thesis by (simp add: fuse_write_def files_def)
  next
    case (Some i)
    note f = dir_file [OF store_sound [OF v] Some]
    have step: "serve E now v (PutData x b off) =
        (case vol_write E now v (unat i) b off of (Inl e, w) \<Rightarrow> (Error e, w) | (Inr d, w) \<Rightarrow> (Done, w))"
      using off lk path_of_name [OF n] Some by (simp add: fuse_write_def)
    consider "INT_MAX < length b" | "length b \<le> INT_MAX" "DENYFS_MAX_FILE_SIZE < unat off + length b"
      | "length b \<le> INT_MAX" "unat off + length b \<le> DENYFS_MAX_FILE_SIZE" by linarith
    then show ?thesis
    proof cases
      case 1
      have "vol_write E now v (unat i) b off = (Inl EINVAL, v)" using 1 f(2) by (simp add: vol_write_def)
      with q v off 1 files_dir [OF Some] show ?thesis unfolding step by simp
    next
      case 2
      have "DENYFS_MAX_FILE_SIZE < unat off \<or> DENYFS_MAX_FILE_SIZE - unat off < length b" using 2(2) by linarith
      then have "vol_write E now v (unat i) b off = (Inl ENOSPC, v)" using 2(1) f(2,3) by (simp add: vol_write_def)
      with q v off 2 files_dir [OF Some] show ?thesis unfolding step by simp
    next
      case 3
      from store_write [OF v h Some 3, of now] show ?thesis
      proof (elim disjE exE conjE)
        fix u assume a: "vol_write E now v (unat i) b off = (Inr (length b), u)" "store E u"
          "files E u = (files E v)(x \<mapsto> overwrite (unat off) b (the (files E v x)))"
        with q off 3 files_dir [OF Some] show ?thesis unfolding step by simp
      next
        fix u k assume "vol_write E now v (unat i) b off = (Inl ENOSPC, u)"
        with q 3(2) ro show ?thesis unfolding step by simp
      qed
    qed
  qed
qed

lemma serve_SetSize:
  assumes v: "store E v" and h: "hmac_works E" and n: "good_name x" and q: "serve E now v (SetSize x k) = (r, w)"
  shows "answers (files E v) (SetSize x k) r (files E w) \<and> store E w"
proof (cases "sint k < 0 \<or> DENYFS_MAX_FILE_SIZE < unat k")
  case True
  with q v show ?thesis by (auto simp: fuse_truncate_def split: if_split_asm)
next
  case off: False
  note lk = lookup_name [OF store_sound [OF v] n]
  show ?thesis
  proof (cases "dir E v x")
    case None
    with q v off lk path_of_name [OF n] show ?thesis by (simp add: fuse_truncate_def files_def)
  next
    case (Some i)
    obtain u where u: "vol_truncate E now v (unat i) k = (Inr (), u)" "store E u"
      "files E u = (files E v)(x \<mapsto> take (unat k) (the (files E v x)) @ replicate (unat k - length (the (files E v x))) 0)"
      using store_truncate [OF v h Some, of k now] off by auto
    then have "r = Done" "w = u" using q off lk path_of_name [OF n] Some by (simp_all add: fuse_truncate_def)
    then show ?thesis using u off by (simp add: files_dir [OF Some])
  qed
qed

lemma serve_GetSize:
  assumes v: "store E v" and n: "good_name x" and q: "serve E now v (GetSize x) = (r, w)"
  shows "answers (files E v) (GetSize x) r (files E w) \<and> store E w"
proof -
  note lk = lookup_name [OF store_sound [OF v] n]
  show ?thesis
  proof (cases "dir E v x")
    case None
    then have "r = Error ENOENT" "w = v" using q lk path_of_name [OF n] by (simp_all add: fuse_getattr_def)
    then show ?thesis using v None by (simp add: files_None [THEN iffD2])
  next
    case (Some i)
    then have "r = Size (i_size (inode_at v (unat i)))" "w = v"
      using q lk path_of_name [OF n] by (auto simp: fuse_getattr_def Let_def)
    then show ?thesis using v by (simp add: files_dir [OF Some])
  qed
qed

lemma serve_refines:
  assumes "store E v" "hmac_works E" "good_name (req_name q)" "serve E now v q = (r, w)" "\<not> ran_out q r"
  shows "answers (files E v) q r (files E w) \<and> store E w"
  using assms
proof (cases q)
  case (MkFile x)
  show ?thesis using serve_MkFile [OF assms(1,2)] assms(3,4) unfolding MkFile req_name.simps by blast
next
  case (RmFile x)
  show ?thesis using serve_RmFile [OF assms(1,2)] assms(3,4) unfolding RmFile req_name.simps by blast
next
  case (GetData x k off)
  show ?thesis using serve_GetData [OF assms(1)] assms(3,4) unfolding GetData req_name.simps by blast
next
  case (PutData x b off)
  show ?thesis using serve_PutData [OF assms(1,2)] assms(3-5) unfolding PutData req_name.simps by blast
next
  case (SetSize x k)
  show ?thesis using serve_SetSize [OF assms(1,2)] assms(3,4) unfolding SetSize req_name.simps by blast
next
  case (GetSize x)
  show ?thesis using serve_GetSize [OF assms(1)] assms(3,4) unfolding GetSize req_name.simps by blast
qed

section \<open>Sessions\<close>

text \<open>Runs of a labelled step relation, and the lifting of a simulation to them.\<close>

fun runs :: "('s \<Rightarrow> 'e \<Rightarrow> 's \<Rightarrow> bool) \<Rightarrow> 's \<Rightarrow> 'e list \<Rightarrow> 's \<Rightarrow> bool" where
  "runs R s [] t \<longleftrightarrow> t = s"
| "runs R s (e # es) t \<longleftrightarrow> (\<exists>u. R s e u \<and> runs R u es t)"

locale simulation =
  fixes inv :: "'s \<Rightarrow> bool" and abs :: "'s \<Rightarrow> 'a" and step :: "'s \<Rightarrow> 'e \<Rightarrow> 's \<Rightarrow> bool"
    and spec :: "'a \<Rightarrow> 'e \<Rightarrow> 'a \<Rightarrow> bool"
  assumes keeps: "inv s \<Longrightarrow> step s e t \<Longrightarrow> inv t"
    and allowed: "inv s \<Longrightarrow> step s e t \<Longrightarrow> spec (abs s) e (abs t)"
begin

lemma runs_refine: "inv s \<Longrightarrow> runs step s es t \<Longrightarrow> inv t \<and> runs spec (abs s) es (abs t)"
proof (induction es arbitrary: s)
  case (Cons e es)
  then obtain u where u: "step s e u" "runs step u es t" by auto
  from Cons.IH [OF keeps [OF Cons.prems(1) u(1)] u(2)] allowed [OF Cons.prems(1) u(1)] show ?case by auto
qed simp

end

type_synonym exchange = "u64 \<times> request \<times> reply"

definition served :: "env \<Rightarrow> volume \<Rightarrow> exchange \<Rightarrow> volume \<Rightarrow> bool" where
  "served E v x w \<longleftrightarrow> (case x of (now, q, r) \<Rightarrow> good_name (req_name q) \<and> serve E now v q = (r, w) \<and> \<not> ran_out q r)"

definition answered :: "(bytes \<rightharpoonup> bytes) \<Rightarrow> exchange \<Rightarrow> (bytes \<rightharpoonup> bytes) \<Rightarrow> bool" where
  "answered F x G \<longleftrightarrow> (case x of (now, q, r) \<Rightarrow> answers F q r G)"

interpretation sess: simulation "\<lambda>v. hmac_works E \<and> store E v" "files E" "served E" answered
  for E
proof unfold_locales
  fix s e t assume a: "hmac_works E \<and> store E s" "served E s e t"
  obtain now q r where e: "e = (now, q, r)" by (cases e)
  from a(2) have b: "good_name (req_name q)" "serve E now s q = (r, t)" "\<not> ran_out q r" by (simp_all add: served_def e)
  from serve_refines [OF _ _ b] a(1) show "hmac_works E \<and> store E t" "answered (files E s) e (files E t)"
    by (simp_all add: answered_def e)
qed

section \<open>The invariant under every request\<close>

lemma path_of_cases: "path_to_name (path_of x) = (if x = [] \<or> of_char CHR ''/'' \<in> set x then None else Some x)"
  by (auto simp: path_to_name_def path_of_def root_path_def)

lemma good_name_iff:
  "0 \<notin> set x \<Longrightarrow> good_name x \<longleftrightarrow> \<not> (x = [] \<or> DENYFS_MAX_NAME_LEN \<le> length x \<or> of_char CHR ''/'' \<in> set x \<or>
     x = map of_char ''.'' \<or> x = map of_char ''..'')"
  by (auto simp: good_name_def)

text \<open>A lookup finds a file or leaves the request unanswered, in both cases without touching the volume.\<close>

lemma lookup_cases:
  assumes "sound E v"
  obtains (absent) e where "vol_lookup E v x = (Inl e, v)"
  | (found) i where "vol_lookup E v x = (Inr i, v)" "dir E v x = Some i"
  using vol_lookup_dir [OF assms, of x] by (cases "dir E v x") (auto split: if_split_asm)

lemma vol_create_sound:
  assumes s: "sound E v" and h: "hmac_works E" and z: "0 \<notin> set x" and c: "vol_create E now v x = (r, w)"
  shows "sound E w"
proof (cases "good_name x")
  case False
  then have "vol_create E now v x = (Inl EINVAL, v)" using good_name_iff [OF z] by (simp add: vol_create_def)
  with c s show ?thesis by simp
next
  case True
  show ?thesis
  proof (cases "dir E v x")
    case (Some i)
    with vol_create_exists [OF s True Some, of now] c s show ?thesis by simp
  next
    case None
    from vol_create_new [OF s h True None, of now] c show ?thesis
      by (auto simp: refused_def created_def)
  qed
qed

lemma vol_unlink_sound:
  assumes s: "sound E v" and h: "hmac_works E" and c: "vol_unlink E v x = (r, w)"
  shows "sound E w"
proof (cases "dir E v x")
  case None
  with vol_unlink_absent [OF s None] c s show ?thesis by simp
next
  case (Some i)
  with vol_unlink_name [OF s h Some] c show ?thesis by (auto simp: unlinked_def)
qed

lemma vol_write_sound:
  assumes s: "sound E v" and h: "hmac_works E" and i: "dir E v x = Some i"
    and c: "vol_write E now v (unat i) b off = (r, w)"
  shows "sound E w"
proof -
  note f = dir_file [OF s i]
  show ?thesis
  proof (cases "INT_MAX < length b \<or> DENYFS_MAX_FILE_SIZE < unat off + length b")
    case True
    then have "w = v" using c f(2,3) by (auto simp: vol_write_def split: if_split_asm)
    with s show ?thesis by simp
  next
    case False
    then have "length b \<le> INT_MAX" "unat off + length b \<le> DENYFS_MAX_FILE_SIZE" by simp_all
    from vol_write_contents [OF sound_mounted [OF s] h f(2,3) this, of now] obtain u k where
      u: "wrote E v u (unat i) (unat off) (take k b)" "snd (vol_write E now v (unat i) b off) = u"
      by fastforce
    with wrote_sound(1) [OF s u(1) f] c show ?thesis by simp
  qed
qed

lemma vol_truncate_sound:
  assumes s: "sound E v" and h: "hmac_works E" and i: "dir E v x = Some i"
    and c: "vol_truncate E now v (unat i) n = (r, w)"
  shows "sound E w"
proof -
  note f = dir_file [OF s i]
  show ?thesis
  proof (cases "DENYFS_MAX_FILE_SIZE < unat n")
    case True
    then have "w = v" using c f(2,3) by (simp add: vol_truncate_def)
    with s show ?thesis by simp
  next
    case False
    then obtain u where "vol_truncate E now v (unat i) n = (Inr (), u)" "resized E v u (unat i) (unat n)"
      using vol_truncate_contents [OF sound_mounted [OF s] h f(2,3), of n now] by auto
    with resized_sound(1) [OF s _ f] c show ?thesis by simp
  qed
qed

lemma serve_sound:
  assumes s: "sound E v" and h: "hmac_works E" and z: "0 \<notin> set (req_name q)" and q: "serve E now v q = (r, w)"
  shows "sound E w"
proof -
  have lk: "sound E u" if "vol_lookup E v x = (e, u)" for x e u
    using lookup_cases [OF s, of x] that s by (metis prod.inject)
  show ?thesis
  proof (cases q)
    case (MkFile x)
    then show ?thesis
      using q z s vol_create_sound [OF s h, of x now]
      by (auto simp: fuse_create_def path_of_cases split: if_split_asm prod.splits sum.splits)
  next
    case (RmFile x)
    then show ?thesis
      using q s vol_unlink_sound [OF s h, of x]
      by (auto simp: fuse_unlink_def path_of_cases split: if_split_asm prod.splits sum.splits)
  next
    case (GetData x n off)
    from s show ?thesis
    proof (cases rule: lookup_cases [of E v x])
      case (absent e)
      with GetData q s show ?thesis by (auto simp: fuse_read_def path_of_cases split: if_split_asm)
    next
      case (found i)
      have "sound E u" if "vol_read E v (unat i) n off = (e, u)" for e u
      proof (cases "INT_MAX < n")
        case True
        with that s show ?thesis by (simp add: vol_read_def split: if_split_asm)
      next
        case False
        with vol_read_contents [OF sound_mounted [OF s] dir_file(2,3) [OF s found(2)], of n off] that s show ?thesis by simp
      qed
      with found GetData q s show ?thesis
        by (auto simp: fuse_read_def path_of_cases split: if_split_asm prod.splits sum.splits)
    qed
  next
    case (PutData x b off)
    from s show ?thesis
    proof (cases rule: lookup_cases [of E v x])
      case (absent e)
      with PutData q s show ?thesis by (auto simp: fuse_write_def path_of_cases split: if_split_asm)
    next
      case (found i)
      with PutData q s vol_write_sound [OF s h found(2), of now b off] show ?thesis
        by (auto simp: fuse_write_def path_of_cases split: if_split_asm prod.splits sum.splits)
    qed
  next
    case (SetSize x n)
    from s show ?thesis
    proof (cases rule: lookup_cases [of E v x])
      case (absent e)
      with SetSize q s show ?thesis by (auto simp: fuse_truncate_def path_of_cases split: if_split_asm)
    next
      case (found i)
      with SetSize q s vol_truncate_sound [OF s h found(2), of now n] show ?thesis
        by (auto simp: fuse_truncate_def path_of_cases split: if_split_asm prod.splits sum.splits)
    qed
  next
    case (GetSize x)
    from s show ?thesis
      by (cases rule: lookup_cases [of E v x])
        (use GetSize q s in \<open>auto simp: fuse_getattr_def path_of_cases Let_def split: if_split_asm option.splits\<close>)
  qed
qed

section \<open>New containers\<close>

lemma opened_store:
  assumes libs: "libs_work E" and hv: "has_volume E en g sz start now h" and sm: "unat sz \<le> 2 ^ 43"
  shows "store E (opened g en sz start hidden h now)" "files E (opened g en sz start hidden h now) = Map.empty"
proof -
  let ?v = "blank_volume g (clipped (new_payload en sz)) hidden start"
  have vs: "v_size ?v = sz" by (simp add: blank_volume_def clipped_def new_payload_def)
  have f: "formattable (v_size ?v)" "ready E ?v" "synced E (fresh h now ?v)"
    "cells E ?v (fmt_data_start (fmt_total_blocks (v_size ?v))) = empty_dir"
    using hv sits_blank [of g en sz start hidden] unfolding vs has_volume_def by blast+
  have hl: "length h = DENYFS_HMAC_SIZE"
    using hv libs_hmac [OF libs, of "en_hmac_key en" "fmt_bitmap (fmt_total_blocks sz)"] by (simp add: has_volume_def)
  have "vol_blocks ?v \<le> 2 ^ 31" using sm div_le_mono [of "unat sz" "2 ^ 43" SECTOR_SIZE]
    by (simp add: vol_blocks_def vs SECTOR_SIZE_def)
  note s = fresh_sound [OF f(2,1) hl f(3) this f(4)]
  show "store E (opened g en sz start hidden h now)" "files E (opened g en sz start hidden h now) = Map.empty"
    using s by (auto simp: store_def files_def opened_def)
qed

lemma hmac_libs: "libs_work E \<Longrightarrow> hmac_works E"
  using libs_hmac unfolding hmac_works_def by blast

section \<open>Facts for single operations\<close>

lemma wrote_byte:
  assumes "wrote E v w ino pos bs" "ino < DENYFS_MAX_INODES" "p < MAX_BYTES"
  shows "file_byte (cells E w) (inode_at w ino) p =
    (if pos \<le> p \<and> p < pos + length bs then bs ! (p - pos) else file_byte (cells E v) (inode_at v ino) p)"
proof -
  have "\<forall>j < DENYFS_MAX_INODES. \<forall>p < MAX_BYTES. file_byte (cells E w) (inode_at w j) p =
      (if j = ino \<and> pos \<le> p \<and> p < pos + length bs then bs ! (p - pos) else file_byte (cells E v) (inode_at v j) p)"
    using assms(1) unfolding wrote_def by blast
  then show ?thesis using assms(2,3) by simp
qed

lemma other_file_same:
  assumes s: "sound E v" and i: "dir E v name = Some i" and d: "dir E w = dir E v" and o: "others_same E v w {unat i}"
    and a: "a \<noteq> name"
  shows "files E w a = files E v a"
proof (cases "dir E v a")
  case (Some j)
  have "unat j \<noteq> unat i" using dir_inj [OF s Some, of name] i a by (auto simp: word_unat_eq_iff)
  then have "same_file E v w (unat j)" using o dir_file(2) [OF s Some] by (simp add: others_same_def)
  from sound_same_contents [OF s dir_file(2) [OF s Some] this] Some show ?thesis by (simp add: files_def d)
qed (simp add: files_def d)

lemma unlisted_free:
  assumes s: "sound E v" and i: "i \<notin> ran (dir E v)" "0 < unat i" "unat i < DENYFS_MAX_INODES"
  shows "i_type (inode_at v (unat i)) = DENYFS_ITYPE_FREE"
proof -
  have "i \<notin> snd ` set (listing (cells E v) (v_inodes v ! 0))"
  proof
    assume "i \<in> snd ` set (listing (cells E v) (v_inodes v ! 0))"
    then obtain a where "(a, i) \<in> set (listing (cells E v) (inode_at v 0))" by (auto simp: inode_at_def)
    then have "dir E v a = Some i" using sound_distinct(1) [OF s] by (simp add: dir_def)
    then show False using i(1) by (auto simp: ran_def)
  qed
  then show ?thesis using sound_inode(1) [OF s i(3,2)] by (simp add: inode_at_def)
qed

lemma one_owner:
  assumes o: "owned f n U" and b: "b \<in> U"
  shows "\<exists>!(i, s). i < length n \<and> slot_ok s \<and> sval f (n ! i) s \<noteq> DENYFS_INVALID_BLOCK \<and> unat (sval f (n ! i) s) = b"
proof -
  obtain i s where p: "points f n i s" "unat (sval f (n ! i) s) = b" using owned_reach [OF o b] by blast
  show ?thesis
  proof (rule ex1I [of _ "(i, s)"])
    show "case (i, s) of (i, s) \<Rightarrow> i < length n \<and> slot_ok s \<and> sval f (n ! i) s \<noteq> DENYFS_INVALID_BLOCK \<and> unat (sval f (n ! i) s) = b"
      using p by (simp add: points_def)
    fix x assume x: "case x of (i, s) \<Rightarrow> i < length n \<and> slot_ok s \<and> sval f (n ! i) s \<noteq> DENYFS_INVALID_BLOCK \<and> unat (sval f (n ! i) s) = b"
    obtain j t where jt: "x = (j, t)" by (cases x)
    have "sval f (n ! j) t = sval f (n ! i) s" using x p(2) by (simp add: jt word_unat_eq_iff)
    with owned_inj [OF o, of j i t s] x p(1) show "x = (i, s)" by (simp add: jt points_def)
  qed
qed

end
