(* ===== verification/Accept.thy ===== *)
theory Accept
  imports Store
begin

text \<open>
  \<open>validate_loaded_metadata\<close> of \<open>src/src/fs.c\<close> accepts exactly the consistent volumes: each loop is
  restated as a condition on the block trees and one list of claimed blocks, and the whole is compared
  with the invariant \<open>sound\<close> of the file system.
\<close>

section \<open>Claiming a list of blocks\<close>

fun claim_list :: "volume \<Rightarrow> claims \<Rightarrow> u32 list \<Rightarrow> claims option" where
  "claim_list v c [] = Some c"
| "claim_list v c (b # bs) = (case claim_metadata_block v c b of None \<Rightarrow> None | Some d \<Rightarrow> claim_list v d bs)"

lemma claim_list_append:
  "claim_list v c (as @ bs) = (case claim_list v c as of None \<Rightarrow> None | Some d \<Rightarrow> claim_list v d bs)"
  by (induction as arbitrary: c) (simp_all split: option.split)

text \<open>The claims \<open>c\<close> stand for the set \<open>A\<close>.\<close>

definition claims_are :: "volume \<Rightarrow> claims \<Rightarrow> nat set \<Rightarrow> bool" where
  "claims_are v c A \<longleftrightarrow> length (fst c) = length (v_bitmap v) \<and> A \<subseteq> used v \<and> snd c = card A \<and>
     (\<forall>i < 8 * length (v_bitmap v). bitmap_test (fst c) i \<longleftrightarrow> i \<in> A)"

lemma claim_block:
  assumes c: "claims_are v c A" and w: "total_blocks v \<le> 8 * length (v_bitmap v)"
  shows "unat b \<in> used v \<Longrightarrow> unat b \<notin> A \<Longrightarrow> \<exists>d. claim_metadata_block v c b = Some d \<and> claims_are v d (insert (unat b) A)"
    and "\<not> (unat b \<in> used v \<and> unat b \<notin> A) \<Longrightarrow> claim_metadata_block v c b = None"
proof -
  assume b: "unat b \<in> used v" "unat b \<notin> A"
  have r: "data_start v \<le> unat b" "unat b < total_blocks v" "bitmap_test (v_bitmap v) (unat b)"
    using b(1) by (auto simp: used_def pool_def)
  have l: "unat b div 8 < length (v_bitmap v)" "unat b < 8 * length (v_bitmap v)" using r(2) w by simp_all
  have "finite A" using c finite_subset [OF _ finite_used] unfolding claims_are_def by blast
  then have "claims_are v (bitmap_set (fst c) (unat b), snd c + 1) (insert (unat b) A)"
    using c b l by (auto simp: claims_are_def bitmap_test_set)
  then show "\<exists>d. claim_metadata_block v c b = Some d \<and> claims_are v d (insert (unat b) A)"
    using c b r l by (auto simp: claim_metadata_block_def claims_are_def)
next
  assume "\<not> (unat b \<in> used v \<and> unat b \<notin> A)"
  then show "claim_metadata_block v c b = None"
    using c w by (auto simp: claim_metadata_block_def claims_are_def used_def pool_def)
qed

lemma claim_list_iff:
  assumes "claims_are v c A" "total_blocks v \<le> 8 * length (v_bitmap v)"
  shows "distinct bs \<and> unat ` set bs \<subseteq> used v - A \<Longrightarrow>
      \<exists>d. claim_list v c bs = Some d \<and> claims_are v d (A \<union> unat ` set bs)"
    and "\<not> (distinct bs \<and> unat ` set bs \<subseteq> used v - A) \<Longrightarrow> claim_list v c bs = None"
proof -
  have "(distinct bs \<and> unat ` set bs \<subseteq> used v - A \<longrightarrow>
      (\<exists>d. claim_list v c bs = Some d \<and> claims_are v d (A \<union> unat ` set bs))) \<and>
    (\<not> (distinct bs \<and> unat ` set bs \<subseteq> used v - A) \<longrightarrow> claim_list v c bs = None)"
    using assms(1)
  proof (induction bs arbitrary: c A)
    case (Cons b bs)
    show ?case
    proof (cases "unat b \<in> used v \<and> unat b \<notin> A")
      case False
      then show ?thesis using claim_block(2) [OF Cons.prems assms(2) False] by auto
    next
      case True
      then obtain d where d: "claim_metadata_block v c b = Some d" "claims_are v d (insert (unat b) A)"
        using claim_block(1) [OF Cons.prems assms(2)] by blast
      have "distinct (b # bs) \<and> unat ` set (b # bs) \<subseteq> used v - A \<longleftrightarrow>
          distinct bs \<and> unat ` set bs \<subseteq> used v - insert (unat b) A"
        using True by (auto dest: unsigned_word_eqI)
      with Cons.IH [OF d(2)] d(1) show ?thesis by simp
    qed
  qed simp
  then show "distinct bs \<and> unat ` set bs \<subseteq> used v - A \<Longrightarrow>
      \<exists>d. claim_list v c bs = Some d \<and> claims_are v d (A \<union> unat ` set bs)"
    "\<not> (distinct bs \<and> unat ` set bs \<subseteq> used v - A) \<Longrightarrow> claim_list v c bs = None" by blast+
qed

lemma claim_used:
  assumes "claim_list v c bs = Some d" "b \<in> set bs"
  shows "unat b \<in> used v"
  using assms
  by (induction bs arbitrary: c)
    (auto simp: claim_metadata_block_def used_def pool_def split: option.splits if_splits)

section \<open>The loops\<close>

text \<open>The blocks of \<open>ps\<close>, logical blocks from \<open>base\<close> on, are inside a file of \<open>fb\<close> blocks.\<close>

fun within :: "nat \<Rightarrow> nat \<Rightarrow> u32 list \<Rightarrow> bool" where
  "within fb base [] \<longleftrightarrow> True"
| "within fb base (p # ps) \<longleftrightarrow> (p \<noteq> DENYFS_INVALID_BLOCK \<longrightarrow> base < fb) \<and> within fb (Suc base) ps"

lemma within_iff: "within fb base ps \<longleftrightarrow> (\<forall>k < length ps. ps ! k \<noteq> DENYFS_INVALID_BLOCK \<longrightarrow> base + k < fb)"
  by (induction ps arbitrary: base) (auto simp: less_Suc_eq_0_disj all_conj_distrib)

lemma live_Cons [simp]: "live (p # ps) = (if p = DENYFS_INVALID_BLOCK then live ps else p # live ps)"
  by (simp add: live_def)

lemma live_Nil [simp]: "live [] = []"
  by (simp add: live_def)

lemma claim_direct_file:
  "ino \<noteq> 0 \<Longrightarrow> claim_direct v ino fb i bs (c, a) =
    (if within fb i bs then map_option (\<lambda>d. (d, a + length (live bs))) (claim_list v c (live bs)) else None)"
  by (induction bs arbitrary: i c a) (auto split: option.splits)

lemma claim_direct_root:
  "claim_direct v 0 fb i bs (c, a) =
    (if \<forall>k < length bs. (i + k < unat (i_block_count (inode_at v 0))) \<longleftrightarrow> bs ! k \<noteq> DENYFS_INVALID_BLOCK
     then map_option (\<lambda>d. (d, a)) (claim_list v c (live bs)) else None)"
  by (induction bs arbitrary: i c a) (auto simp: All_less_Suc2 split: option.splits)

lemma claim_pointers_list:
  "claim_pointers v fb l ps (c, e) =
    (if within fb l ps then map_option (\<lambda>d. (d, e + length (live ps))) (claim_list v c (live ps)) else None)"
  by (induction ps arbitrary: l c e) (auto split: option.splits)

definition loadable :: "env \<Rightarrow> volume \<Rightarrow> bool" where
  "loadable E v \<longleftrightarrow> ready E v \<and> wf v"

lemma loadable_read:
  assumes "loadable E v" "unat b \<in> used v"
  shows "read_block E v b = (Inr (cells E v b), v)"
  using assms wf_facts [of v] by (auto simp: loadable_def bs.rd_ok used_def pool_def)

lemma loadable_table:
  assumes "loadable E v" "unat b \<in> used v" "b \<noteq> DENYFS_INVALID_BLOCK"
  shows "read_pointer_table E v b = (Inr (table (cells E v) b), v)"
  using assms(2,3) loadable_read [OF assms(1,2)]
  by (auto simp: read_pointer_table_def table_def used_def pool_def)

definition table_ptrs :: "(u32 \<Rightarrow> bytes) \<Rightarrow> u32 \<Rightarrow> u32 list" where
  "table_ptrs f t = t # live (table f t)"

lemma claim_table_list:
  assumes l: "loadable E v" and t: "t \<noteq> DENYFS_INVALID_BLOCK"
  shows "claim_table E v fb l t c =
    (if within fb l (table (cells E v) t) \<and> live (table (cells E v) t) \<noteq> []
     then map_option (\<lambda>d. (d, length (live (table (cells E v) t)))) (claim_list v c (table_ptrs (cells E v) t))
     else None, v)"
proof (cases "claim_metadata_block v c t")
  case None
  then show ?thesis by (simp add: claim_table_def table_ptrs_def)
next
  case (Some d)
  then have "unat t \<in> used v" using claim_used [of v c "[t]"] by simp
  then show ?thesis
    using Some loadable_table [OF l _ t]
    by (auto simp: claim_table_def table_ptrs_def claim_pointers_list split: option.splits)
qed

text \<open>The children of a double-indirect root.\<close>

abbreviation child_start :: "nat \<Rightarrow> nat" where
  "child_start outer \<equiv> DENYFS_DIRECT_BLOCKS + DENYFS_POINTERS_PER_BLOCK + outer * DENYFS_POINTERS_PER_BLOCK"

fun children_ok :: "(u32 \<Rightarrow> bytes) \<Rightarrow> nat \<Rightarrow> nat \<Rightarrow> u32 list \<Rightarrow> bool" where
  "children_ok f fb outer [] \<longleftrightarrow> True"
| "children_ok f fb outer (c # cs) \<longleftrightarrow> (c \<noteq> DENYFS_INVALID_BLOCK \<longrightarrow> child_start outer < fb \<and>
     within fb (child_start outer) (table f c) \<and> live (table f c) \<noteq> []) \<and> children_ok f fb (Suc outer) cs"

definition leaves :: "(u32 \<Rightarrow> bytes) \<Rightarrow> u32 list \<Rightarrow> nat" where
  "leaves f cs = sum_list (map (\<lambda>c. length (live (table f c))) (live cs))"

lemma claim_children_list:
  assumes l: "loadable E v"
  shows "claim_children E v fb outer cs (c, a, r) =
    (if children_ok (cells E v) fb outer cs
     then map_option (\<lambda>d. (d, a + leaves (cells E v) cs, r + length (live cs)))
       (claim_list v c (concat (map (table_ptrs (cells E v)) (live cs))))
     else None, v)"
proof (induction cs arbitrary: outer c a r)
  case (Cons t cs)
  show ?case
  proof (cases "t = DENYFS_INVALID_BLOCK")
    case True
    then show ?thesis using Cons.IH by (simp add: leaves_def)
  next
    case False
    then show ?thesis
      by (auto simp: Let_def claim_table_list [OF l False] Cons.IH claim_list_append leaves_def add.assoc
        split: option.splits)
  qed
qed (simp add: leaves_def)

section \<open>An inode\<close>

text \<open>Every block an inode leads to, in the order of the claims.\<close>

definition single_ptrs :: "(u32 \<Rightarrow> bytes) \<Rightarrow> u32 \<Rightarrow> u32 list" where
  "single_ptrs f t = (if t = DENYFS_INVALID_BLOCK then [] else table_ptrs f t)"

definition double_ptrs :: "(u32 \<Rightarrow> bytes) \<Rightarrow> u32 \<Rightarrow> u32 list" where
  "double_ptrs f t = (if t = DENYFS_INVALID_BLOCK then []
     else t # concat (map (table_ptrs f) (live (table f t))))"

definition tree_ptrs :: "(u32 \<Rightarrow> bytes) \<Rightarrow> inode \<Rightarrow> u32 list" where
  "tree_ptrs f nd = live (i_direct nd) @ single_ptrs f (i_indirect nd) @ double_ptrs f (i_double nd)"

definition single_ok :: "(u32 \<Rightarrow> bytes) \<Rightarrow> nat \<Rightarrow> u32 \<Rightarrow> bool" where
  "single_ok f fb t \<longleftrightarrow> (t \<noteq> DENYFS_INVALID_BLOCK \<longrightarrow>
     within fb DENYFS_DIRECT_BLOCKS (table f t) \<and> live (table f t) \<noteq> [])"

definition double_ok :: "(u32 \<Rightarrow> bytes) \<Rightarrow> nat \<Rightarrow> u32 \<Rightarrow> bool" where
  "double_ok f fb t \<longleftrightarrow> (t \<noteq> DENYFS_INVALID_BLOCK \<longrightarrow>
     children_ok f fb 0 (table f t) \<and> live (table f t) \<noteq> [])"

definition data_count :: "(u32 \<Rightarrow> bytes) \<Rightarrow> inode \<Rightarrow> nat" where
  "data_count f nd = length (live (i_direct nd)) + length (live (table f (i_indirect nd))) +
     leaves f (table f (i_double nd))"

lemma live_empty_table [simp]: "live empty_table = []"
  by (simp add: live_def empty_table_def)

lemma leaves_empty [simp]: "leaves f empty_table = 0"
  by (simp add: leaves_def)

lemma claim_single_list:
  assumes l: "loadable E v"
  shows "claim_single E v ino fb (c, a) =
    (if single_ok (cells E v) fb (i_indirect (inode_at v ino))
     then map_option (\<lambda>d. (d, a + length (live (table (cells E v) (i_indirect (inode_at v ino))))))
       (claim_list v c (single_ptrs (cells E v) (i_indirect (inode_at v ino))))
     else None, v)"
proof (cases "i_indirect (inode_at v ino) = DENYFS_INVALID_BLOCK")
  case False
  then show ?thesis
    by (auto simp: Let_def claim_single_def single_ok_def single_ptrs_def claim_table_list [OF l False] split: option.splits)
qed (simp add: claim_single_def single_ok_def single_ptrs_def)

lemma claim_double_list:
  assumes l: "loadable E v"
  shows "claim_double E v ino fb (c, a) =
    (if double_ok (cells E v) fb (i_double (inode_at v ino))
     then map_option (\<lambda>d. (d, a + leaves (cells E v) (table (cells E v) (i_double (inode_at v ino)))))
       (claim_list v c (double_ptrs (cells E v) (i_double (inode_at v ino))))
     else None, v)"
proof (cases "i_double (inode_at v ino) = DENYFS_INVALID_BLOCK")
  case False
  let ?t = "i_double (inode_at v ino)"
  show ?thesis
  proof (cases "claim_metadata_block v c ?t")
    case None
    with False show ?thesis by (simp add: claim_double_def double_ptrs_def)
  next
    case (Some d)
    then have u: "unat ?t \<in> used v" using claim_used [of v c "[?t]"] by simp
    show ?thesis
      using Some False loadable_table [OF l u False]
      by (auto simp: Let_def claim_double_def double_ok_def double_ptrs_def claim_children_list [OF l] split: option.splits)
  qed
qed (simp add: claim_double_def double_ok_def double_ptrs_def)

definition file_ok :: "(u32 \<Rightarrow> bytes) \<Rightarrow> inode \<Rightarrow> bool" where
  "file_ok f nd \<longleftrightarrow> (let fb = (unat (i_size nd) + SECTOR_SIZE - 1) div SECTOR_SIZE in
     i_type nd = DENYFS_ITYPE_FILE \<and> unat (i_size nd) \<le> DENYFS_MAX_FILE_SIZE \<and>
     unat (i_block_count nd) \<le> DENYFS_MAX_FILE_BLOCKS \<and> within fb 0 (i_direct nd) \<and>
     single_ok f fb (i_indirect nd) \<and> double_ok f fb (i_double nd) \<and>
     unat (i_block_count nd) = data_count f nd)"

lemma validate_file:
  assumes l: "loadable E v" and i: "ino \<noteq> 0"
  shows "validate_inode E v ino c =
    (if file_ok (cells E v) (inode_at v ino) then claim_list v c (tree_ptrs (cells E v) (inode_at v ino)) else None, v)"
  using i
  by (auto simp: validate_inode_def file_ok_def Let_def claim_direct_file [OF i] claim_single_list [OF l]
      claim_double_list [OF l] tree_ptrs_def claim_list_append data_count_def split: option.splits)

definition dir_ok :: "inode \<Rightarrow> bool" where
  "dir_ok nd \<longleftrightarrow> i_type nd = DENYFS_ITYPE_DIR \<and> unat (i_size nd) \<le> DENYFS_MAX_FILE_SIZE \<and>
     unat (i_block_count nd) \<le> DENYFS_MAX_FILE_BLOCKS \<and>
     (\<forall>k < length (i_direct nd). k < unat (i_block_count nd) \<longleftrightarrow> i_direct nd ! k \<noteq> DENYFS_INVALID_BLOCK)"

lemma validate_root:
  "validate_inode E v 0 c = (if dir_ok (inode_at v 0) then claim_list v c (live (i_direct (inode_at v 0))) else None, v)"
  by (auto simp: validate_inode_def dir_ok_def Let_def claim_direct_root split: option.splits)

section \<open>All inodes\<close>

definition inode_checks :: "env \<Rightarrow> volume \<Rightarrow> nat \<Rightarrow> bool" where
  "inode_checks E v i \<longleftrightarrow>
     (if i_type (inode_at v i) = DENYFS_ITYPE_FREE then free_inode_ok i (inode_at v i)
      else if i = 0 then dir_ok (inode_at v 0) else file_ok (cells E v) (inode_at v i))"

definition inode_ptrs :: "env \<Rightarrow> volume \<Rightarrow> nat \<Rightarrow> u32 list" where
  "inode_ptrs E v i =
     (if i_type (inode_at v i) = DENYFS_ITYPE_FREE then []
      else if i = 0 then live (i_direct (inode_at v 0)) else tree_ptrs (cells E v) (inode_at v i))"

definition occupied :: "volume \<Rightarrow> nat \<Rightarrow> bool" where
  "occupied v i \<longleftrightarrow> i_type (inode_at v i) \<noteq> DENYFS_ITYPE_FREE"

lemma validate_inodes_list:
  assumes l: "loadable E v"
  shows "validate_inodes E v is (c, n) =
    (if list_all (inode_checks E v) is
     then map_option (\<lambda>d. (d, n + length (filter (occupied v) is)))
       (claim_list v c (concat (map (inode_ptrs E v) is)))
     else None, v)"
proof (induction "is" arbitrary: c n)
  case (Cons i "is")
  show ?case
  proof (cases "i_type (inode_at v i) = DENYFS_ITYPE_FREE")
    case True
    then show ?thesis using Cons.IH by (simp add: inode_checks_def inode_ptrs_def occupied_def)
  next
    case False
    have "validate_inode E v i c =
        (if inode_checks E v i then claim_list v c (inode_ptrs E v i) else None, v)"
      using False validate_file [OF l, of i] validate_root [of E v c]
      by (cases "i = 0") (simp_all add: inode_checks_def inode_ptrs_def)
    moreover have "occupied v i" using False by (simp add: occupied_def)
    ultimately show ?thesis
      using False by (auto simp: claim_list_append Cons.IH split: option.splits)
  qed
qed simp

section \<open>The directory\<close>

definition listed_ok :: "volume \<Rightarrow> (bytes \<times> u32) list \<Rightarrow> dir_seen \<Rightarrow> bool" where
  "listed_ok v l st \<longleftrightarrow> list_all (\<lambda>(a, i). i_type (inode_at v (unat i)) = DENYFS_ITYPE_FILE) l \<and>
     distinct (map snd l) \<and> unat ` snd ` set l \<inter> set (fst st) = {} \<and>
     distinct (map fst l) \<and> fst ` set l \<inter> set (snd st) = {} \<and>
     (l = [] \<or> length (snd st) + length l \<le> DENYFS_MAX_INODES - 1)"

lemma check_entries_list:
  "check_entries v es st =
    (if list_all valid_dirent es \<and> listed_ok v (listing_of es) st
     then Some (rev (map (unat \<circ> snd) (listing_of es)) @ fst st, snd st @ map fst (listing_of es)) else None)"
proof (induction es arbitrary: st)
  case Nil
  show ?case by (cases st) (simp add: listing_of_def listed_ok_def)
next
  case (Cons e es)
  obtain ref names where st: "st = (ref, names)" by (cases st)
  show ?case
  proof (cases "entry_free e")
    case True
    then show ?thesis using Cons.IH by (simp add: st entry_free_def listing_of_def)
  next
    case False
    let ?i = "de_inode e" and ?l = "listing_of es"
    have l: "listing_of (e # es) = (name_of e, ?i) # ?l" using False by (simp add: listing_of_def pair_of_def)
    have inj: "unat j = unat ?i \<longleftrightarrow> j = ?i" "unat ?i = unat j \<longleftrightarrow> j = ?i" for j by (auto dest: unsigned_word_eqI)
    have step: "listed_ok v (listing_of (e # es)) st \<longleftrightarrow>
        i_type (inode_at v (unat ?i)) = DENYFS_ITYPE_FILE \<and> unat ?i \<notin> set ref \<and>
        \<not> DENYFS_MAX_INODES - 1 \<le> length names \<and> name_of e \<notin> set names \<and>
        listed_ok v ?l (unat ?i # ref, names @ [name_of e])"
      unfolding l listed_ok_def st by (cases "?l = []") (auto simp: inj image_iff)
    show ?thesis
      using False Cons.IH [of "(unat ?i # ref, names @ [name_of e])"] step
      by (auto simp: st l entry_free_def name_of_def Let_def)
  qed
qed

lemma check_entries_append:
  "check_entries v (as @ bs) st = (case check_entries v as st of None \<Rightarrow> None | Some st' \<Rightarrow> check_entries v bs st')"
proof (induction as arbitrary: st)
  case (Cons e as)
  obtain ref names where "st = (ref, names)" by (cases st)
  with Cons.IH show ?case by (simp add: Let_def)
qed simp

lemma check_dir_blocks_list:
  assumes l: "loadable E v"
  shows "unat ` set bs \<subseteq> used v \<Longrightarrow>
    check_dir_blocks E v bs st = (check_entries v (concat (map (\<lambda>b. dirents_dec (cells E v b)) bs)) st, v)"
proof (induction bs arbitrary: st)
  case (Cons b bs)
  then have "read_block E v b = (Inr (cells E v b), v)" by (intro loadable_read [OF l]) simp
  with Cons show ?case by (auto simp: check_entries_append split: option.splits)
qed simp

section \<open>The whole check\<close>

definition accepts :: "env \<Rightarrow> volume \<Rightarrow> bool" where
  "accepts E v \<longleftrightarrow> (let root = inode_at v 0; ptrs = concat (map (inode_ptrs E v) [0..<DENYFS_MAX_INODES]);
       l = listing (cells E v) root in
     root_inode_ok root \<and> list_all (inode_checks E v) [0..<DENYFS_MAX_INODES] \<and>
     distinct ptrs \<and> unat ` set ptrs \<subseteq> used v \<and>
     counters_ok v (length ptrs) (length (filter (occupied v) [0..<DENYFS_MAX_INODES])) \<and>
     list_all valid_dirent (block_entries (cells E v) (i_direct root)) \<and> listed_ok v l ([], []) \<and>
     (\<forall>i. 0 < i \<and> i < DENYFS_MAX_INODES \<longrightarrow>
       (i_type (inode_at v i) = DENYFS_ITYPE_FILE) = (i \<in> unat ` snd ` set l)))"

lemma root_live_prefix:
  assumes "dir_ok nd"
  shows "take (unat (i_block_count nd)) (i_direct nd) = live (i_direct nd)"
proof -
  let ?k = "unat (i_block_count nd)" and ?d = "i_direct nd"
  have p: "\<And>k. k < length ?d \<Longrightarrow> k < ?k \<longleftrightarrow> ?d ! k \<noteq> DENYFS_INVALID_BLOCK" using assms by (simp add: dir_ok_def)
  have "live (take ?k ?d) = take ?k ?d"
    unfolding live_def using p by (auto simp: filter_id_conv in_set_conv_nth)
  moreover have "live (drop ?k ?d) = []"
  proof -
    have "?d ! (?k + i) = DENYFS_INVALID_BLOCK" if "i < length ?d - ?k" for i using p [of "?k + i"] that by auto
    then show ?thesis unfolding live_def by (auto simp: filter_empty_conv in_set_conv_nth)
  qed
  ultimately show ?thesis using live_append [of "take ?k ?d" "drop ?k ?d"] by simp
qed

lemma claims_zero: "claims_are v (replicate (length (v_bitmap v)) 0, 0) {}"
  by (simp add: claims_are_def bitmap_test_bit less_mult_imp_div_less mult.commute)

lemma validate_accepts:
  assumes l: "loadable E v" and e: "e_alloc E Claimed_buffer"
  shows "validate_loaded_metadata E v = (accepts E v, v)"
proof -
  let ?root = "inode_at v 0" and ?c0 = "(replicate (length (v_bitmap v)) 0, 0) :: claims"
  let ?is = "[0..<DENYFS_MAX_INODES]"
  let ?ptrs = "concat (map (inode_ptrs E v) ?is)"
  let ?n = "length (filter (occupied v) ?is)"
  let ?k = "distinct ?ptrs \<and> unat ` set ?ptrs \<subseteq> used v - {}"
  have w: "total_blocks v \<le> 8 * length (v_bitmap v)" and t: "data_start v < vol_blocks v" "total_blocks v = vol_blocks v"
    using l wf_facts [of v] by (simp_all add: loadable_def)
  have bm: "length (v_bitmap v) \<noteq> 0" using w t by auto
  show ?thesis
  proof (cases "root_inode_ok ?root \<and> list_all (inode_checks E v) ?is \<and> ?k")
    case False
    have "claim_list v ?c0 ?ptrs = None" if "\<not> ?k" by (rule claim_list_iff(2) [OF claims_zero w that])
    with False show ?thesis using bm e
      by (auto simp: validate_loaded_metadata_def validate_inodes_list [OF l] accepts_def Let_def)
  next
    case True
    then obtain d where d: "claim_list v ?c0 ?ptrs = Some d" "claims_are v d ({} \<union> unat ` set ?ptrs)"
      using claim_list_iff(1) [OF claims_zero w] by blast
    obtain cb cn where cb: "d = (cb, cn)" by (cases d)
    have fin: "finite (set ?ptrs)" by simp
    have "card (unat ` set ?ptrs) = card (set ?ptrs)"
      by (rule card_image) (auto simp: inj_on_def dest: unsigned_word_eqI)
    also have "\<dots> = length ?ptrs" using True distinct_card by blast
    finally have cn: "cn = length ?ptrs" using d(2) cb by (simp add: claims_are_def)
    have "inode_checks E v 0" using True by (simp add: list_all_iff layout_sizes)
    moreover have ty: "i_type ?root = DENYFS_ITYPE_DIR" using True by (simp add: root_inode_ok_def)
    ultimately have dk: "dir_ok ?root" "inode_ptrs E v 0 = live (i_direct ?root)"
      by (simp_all add: inode_checks_def inode_ptrs_def DENYFS_ITYPE_DIR_def DENYFS_ITYPE_FREE_def)
    note tk = root_live_prefix [OF dk(1)]
    have "0 \<in> set ?is" by (simp add: layout_sizes)
    then have "set (inode_ptrs E v 0) \<subseteq> set ?ptrs" by auto
    then have us: "unat ` set (live (i_direct ?root)) \<subseteq> used v" using True dk(2) by auto
    note dirs = check_dir_blocks_list [OF l us, of "([], [])"]
    have ce: "concat (map (\<lambda>b. dirents_dec (cells E v b)) (live (i_direct ?root))) =
        block_entries (cells E v) (i_direct ?root)" by (simp add: block_entries_def)
    let ?l = "listing (cells E v) ?root"
    have fin: "list_all (\<lambda>i. (i_type (inode_at v i) = DENYFS_ITYPE_FILE) =
        (i \<in> set (rev (map (unat \<circ> snd) ?l) @ []))) [1..<DENYFS_MAX_INODES] \<longleftrightarrow>
      (\<forall>i. 0 < i \<and> i < DENYFS_MAX_INODES \<longrightarrow> (i_type (inode_at v i) = DENYFS_ITYPE_FILE) = (i \<in> unat ` snd ` set ?l))"
      by (simp add: list_all_iff image_image Ball_def Suc_le_eq)
    have val: "validate_inodes E v ?is (?c0, 0) = (Some ((cb, length ?ptrs), ?n), v)"
      using True d(1) by (simp add: validate_inodes_list [OF l] cb cn)
    have ck: "check_dir_blocks E v (take (unat (i_block_count ?root)) (i_direct ?root)) ([], []) =
        (if list_all valid_dirent (block_entries (cells E v) (i_direct ?root)) \<and> listed_ok v ?l ([], [])
         then Some (rev (map (unat \<circ> snd) ?l) @ [], map fst ?l) else None, v)"
      unfolding tk dirs ce check_entries_list by (simp add: listing_def)
    have acc: "accepts E v \<longleftrightarrow> counters_ok v (length ?ptrs) ?n \<and>
        (list_all valid_dirent (block_entries (cells E v) (i_direct ?root)) \<and> listed_ok v ?l ([], [])) \<and>
        (\<forall>i. 0 < i \<and> i < DENYFS_MAX_INODES \<longrightarrow>
          (i_type (inode_at v i) = DENYFS_ITYPE_FILE) = (i \<in> unat ` snd ` set ?l))"
      using True by (simp add: accepts_def Let_def)
    have "root_inode_ok ?root" using True by simp
    then show ?thesis
      unfolding acc fin [symmetric] validate_loaded_metadata_def Let_def val
      using bm e by (simp add: ck) blast
  qed
qed

end
