(* ===== verification/Census.thy ===== *)
theory Census
  imports Accept
begin

text \<open>
  The conditions that the checks of \<open>Accept\<close> amount to, compared with the invariant of the file system:
  the list of all blocks claimed is the list of the values of all slots, so that claiming each block of the
  bitmap exactly once is \<open>owned\<close>, and the per-inode checks are \<open>tree_ok\<close> and \<open>fits\<close>.
\<close>

section \<open>All slots of an inode\<close>

definition slots :: "slot list" where
  "slots = map Direct [0..<DENYFS_DIRECT_BLOCKS] @ (Single # map Entry [0..<DENYFS_POINTERS_PER_BLOCK]) @
     (Double # concat (map (\<lambda>c. Child c # map (Leaf c) [0..<DENYFS_POINTERS_PER_BLOCK])
       [0..<DENYFS_POINTERS_PER_BLOCK]))"

lemma set_slots: "s \<in> set slots \<longleftrightarrow> slot_ok s"
  by (cases s) (auto simp: slots_def image_iff)

lemma distinct_slots: "distinct slots"
proof -
  have "distinct (concat (map (\<lambda>c. Child c # map (Leaf c) [0..<k]) [0..<m]))" for k m
    by (induction m) (auto simp: distinct_map inj_on_def)
  then show ?thesis by (auto simp: slots_def distinct_map inj_on_def)
qed

lemma live_children:
  "live (concat (map (\<lambda>c. c # table f c) cs)) = concat (map (table_ptrs f) (live cs))"
  by (induction cs) (auto simp: live_append table_ptrs_def)

lemma tree_ptrs_slots:
  assumes "length (i_direct nd) = DENYFS_DIRECT_BLOCKS"
  shows "tree_ptrs f nd = live (map (sval f nd) slots)"
proof -
  have m: "map (\<lambda>i. xs ! i) [0..<k] = xs" if "length xs = k" for xs :: "u32 list" and k
    using that map_nth by blast
  let ?s = "i_indirect nd" and ?d = "i_double nd"
  have "map (sval f nd) (map Direct [0..<DENYFS_DIRECT_BLOCKS]) = i_direct nd"
    using m [OF assms] by (simp add: comp_def)
  moreover have "map (sval f nd) (Single # map Entry [0..<DENYFS_POINTERS_PER_BLOCK]) = ?s # table f ?s"
    using m [OF length_table [of f ?s]] by (simp add: comp_def)
  moreover have "map (sval f nd) (Double # concat (map (\<lambda>c. Child c # map (Leaf c) [0..<DENYFS_POINTERS_PER_BLOCK])
      [0..<DENYFS_POINTERS_PER_BLOCK])) = ?d # concat (map (\<lambda>c. c # table f c) (table f ?d))"
  proof -
    have "map (sval f nd) (concat (map (\<lambda>c. Child c # map (Leaf c) [0..<DENYFS_POINTERS_PER_BLOCK]) xs)) =
        concat (map (\<lambda>c. c # table f c) (map (\<lambda>c. table f ?d ! c) xs))" for xs
      by (induction xs) (simp_all add: comp_def m [OF length_table])
    from this [of "[0..<DENYFS_POINTERS_PER_BLOCK]"] show ?thesis
      unfolding m [OF length_table] by simp
  qed
  ultimately have "live (map (sval f nd) slots) = live (i_direct nd) @ live (?s # table f ?s) @
      live (?d # concat (map (\<lambda>c. c # table f c) (table f ?d)))"
    by (simp only: slots_def map_append live_append)
  moreover have "live (?s # table f ?s) = single_ptrs f ?s" by (simp add: single_ptrs_def table_ptrs_def)
  moreover have "live (?d # concat (map (\<lambda>c. c # table f c) (table f ?d))) = double_ptrs f ?d"
    unfolding live_Cons live_children by (simp add: double_ptrs_def)
  ultimately show ?thesis by (simp add: tree_ptrs_def)
qed

lemma live_map: "live (map h ys) = map h (filter (\<lambda>y. h y \<noteq> DENYFS_INVALID_BLOCK) ys)"
  by (induction ys) simp_all

text \<open>\<open>owned\<close> as a property of one list.\<close>

lemma owned_list:
  assumes "\<And>i. i < length n \<Longrightarrow> length (i_direct (n ! i)) = DENYFS_DIRECT_BLOCKS"
  shows "owned f n U \<longleftrightarrow> distinct (concat (map (\<lambda>i. tree_ptrs f (n ! i)) [0..<length n])) \<and>
    unat ` set (concat (map (\<lambda>i. tree_ptrs f (n ! i)) [0..<length n])) = U"
proof -
  let ?h = "\<lambda>(i, s). sval f (n ! i) s" and ?ys = "List.product [0..<length n] slots"
  let ?zs = "filter (\<lambda>y. ?h y \<noteq> DENYFS_INVALID_BLOCK) ?ys"
  have "concat (map (\<lambda>i. live (map (sval f (n ! i)) slots)) is) = live (map ?h (List.product is slots))" for "is"
    by (induction "is") (simp_all add: live_append comp_def)
  moreover have "map (\<lambda>i. tree_ptrs f (n ! i)) [0..<length n] =
      map (\<lambda>i. live (map (sval f (n ! i)) slots)) [0..<length n]"
    by (rule map_cong) (simp_all add: tree_ptrs_slots assms)
  ultimately have "concat (map (\<lambda>i. tree_ptrs f (n ! i)) [0..<length n]) = map ?h ?zs"
    by (simp only: live_map)
  moreover have "distinct ?zs" using distinct_slots by (simp add: distinct_product)
  moreover have zs: "(i, s) \<in> set ?zs \<longleftrightarrow> points f n i s" for i s
    by (auto simp: points_def set_slots)
  have "owned f n U \<longleftrightarrow> inj_on ?h (set ?zs) \<and> unat ` ?h ` set ?zs = U"
  proof
    assume o: "owned f n U"
    have "inj_on ?h (set ?zs)"
    proof (rule inj_onI)
      fix x y assume a: "x \<in> set ?zs" "y \<in> set ?zs" "?h x = ?h y"
      obtain i s j t where xy: "x = (i, s)" "y = (j, t)" by (cases x, cases y)
      have p: "points f n i s" "points f n j t" using a(1,2) zs unfolding xy by blast+
      have "sval f (n ! i) s = sval f (n ! j) t" using a(3) by (simp add: xy)
      then show "x = y" using owned_inj [OF o, of i j s t] p unfolding xy points_def by blast
    qed
    moreover have "unat ` ?h ` set ?zs = U"
    proof (intro equalityI subsetI)
      fix a assume "a \<in> unat ` ?h ` set ?zs"
      then obtain i s where "(i, s) \<in> set ?zs" "a = unat (sval f (n ! i) s)" by auto
      then show "a \<in> U" using zs o unfolding owned_def points_def by blast
    next
      fix a assume "a \<in> U"
      then obtain i s where "points f n i s" "unat (sval f (n ! i) s) = a" using o unfolding owned_def by blast
      then have "a = unat (?h (i, s))" "(i, s) \<in> set ?zs" using zs by simp_all
      then show "a \<in> unat ` ?h ` set ?zs" by blast
    qed
    ultimately show "inj_on ?h (set ?zs) \<and> unat ` ?h ` set ?zs = U" by blast
  next
    assume r: "inj_on ?h (set ?zs) \<and> unat ` ?h ` set ?zs = U"
    show "owned f n U"
      unfolding owned_def
    proof (intro conjI allI impI ballI)
      fix i s assume "i < length n" "slot_ok s" "sval f (n ! i) s \<noteq> DENYFS_INVALID_BLOCK"
      then have "(i, s) \<in> set ?zs" by (simp add: set_slots)
      then have "unat (?h (i, s)) \<in> unat ` ?h ` set ?zs" by blast
      then show "unat (sval f (n ! i) s) \<in> U" using r by simp
    next
      fix i j s t assume a: "i < length n" "j < length n" "slot_ok s" "slot_ok t"
        "sval f (n ! i) s = sval f (n ! j) t" "sval f (n ! i) s \<noteq> DENYFS_INVALID_BLOCK"
      then have "(i, s) \<in> set ?zs" "(j, t) \<in> set ?zs" "?h (i, s) = ?h (j, t)" by (simp_all add: set_slots)
      then have "(i, s) = (j, t)" using r inj_onD by metis
      then show "i = j" "s = t" by simp_all
    next
      fix a assume "a \<in> U"
      then obtain y where "y \<in> set ?zs" "a = unat (?h y)" using r by blast
      moreover obtain i s where "y = (i, s)" by (rule prod.exhaust)
      ultimately have "(i, s) \<in> set ?zs" "a = unat (?h (i, s))" by simp_all
      then show "\<exists>i s. points f n i s \<and> unat (sval f (n ! i) s) = a" unfolding zs by auto
    qed
  qed
  ultimately show ?thesis by (simp add: distinct_map)
qed

section \<open>One tree\<close>

lemma live_nonempty: "live ps \<noteq> [] \<longleftrightarrow> (\<exists>k < length ps. ps ! k \<noteq> DENYFS_INVALID_BLOCK)"
  unfolding live_def filter_empty_conv by (metis in_set_conv_nth)

lemma length_live: "length (live ps) = card {k. k < length ps \<and> ps ! k \<noteq> DENYFS_INVALID_BLOCK}"
  by (simp add: live_def length_filter_conv_card)

definition data_slots :: "slot list" where
  "data_slots = map Direct [0..<DENYFS_DIRECT_BLOCKS] @ map Entry [0..<DENYFS_POINTERS_PER_BLOCK] @
     concat (map (\<lambda>c. map (Leaf c) [0..<DENYFS_POINTERS_PER_BLOCK]) [0..<DENYFS_POINTERS_PER_BLOCK])"

lemma set_data_slots: "s \<in> set data_slots \<longleftrightarrow> slot_ok s \<and> data_slot s"
  by (cases s) (auto simp: data_slots_def image_iff)

lemma distinct_data_slots: "distinct data_slots"
proof -
  have "distinct (concat (map (\<lambda>c. map (Leaf c) [0..<k]) [0..<m]))" for k m
    by (induction m) (auto simp: distinct_map inj_on_def)
  then show ?thesis by (auto simp: data_slots_def distinct_map inj_on_def)
qed

lemma leaves_concat: "leaves f cs = length (live (concat (map (table f) cs)))"
  by (induction cs) (simp_all add: leaves_def live_append)

lemma data_count_blocks:
  assumes "length (i_direct nd) = DENYFS_DIRECT_BLOCKS"
  shows "data_count f nd = card (blocks_of f nd)"
proof -
  have m: "map (\<lambda>i. xs ! i) [0..<k] = xs" if "length xs = k" for xs :: "u32 list" and k
    using that map_nth by blast
  let ?d = "i_double nd" and ?ok = "\<lambda>s. sval f nd s \<noteq> DENYFS_INVALID_BLOCK"
  have "map (sval f nd) (concat (map (\<lambda>c. map (Leaf c) [0..<DENYFS_POINTERS_PER_BLOCK]) xs)) =
      concat (map (table f) (map (\<lambda>c. table f ?d ! c) xs))" for xs
    by (induction xs) (simp_all add: comp_def m [OF length_table])
  from this [of "[0..<DENYFS_POINTERS_PER_BLOCK]"]
  have "map (sval f nd) data_slots = i_direct nd @ table f (i_indirect nd) @ concat (map (table f) (table f ?d))"
    unfolding m [OF length_table] using m [OF assms] m [OF length_table [of f "i_indirect nd"]]
    by (simp add: data_slots_def comp_def)
  then have "data_count f nd = length (live (map (sval f nd) data_slots))"
    by (simp add: data_count_def live_append leaves_concat)
  also have "\<dots> = card (set (filter ?ok data_slots))"
    unfolding live_map length_map by (rule distinct_card [symmetric]) (simp add: distinct_data_slots)
  also have "set (filter ?ok data_slots) = slot_of ` blocks_of f nd"
  proof (intro equalityI subsetI)
    fix s assume "s \<in> set (filter ?ok data_slots)"
    then have s: "slot_ok s" "data_slot s" "?ok s" by (simp_all add: set_data_slots)
    then obtain l where "l < DENYFS_MAX_FILE_BLOCKS" "slot_of l = s" using slot_of_surj by metis
    with s(3) show "s \<in> slot_of ` blocks_of f nd" by (auto simp: blocks_of_def file_block_def)
  next
    fix s assume "s \<in> slot_of ` blocks_of f nd"
    then show "s \<in> set (filter ?ok data_slots)"
      by (auto simp: set_data_slots blocks_of_def file_block_def slot_of_ok)
  qed
  also have "card (slot_of ` blocks_of f nd) = card (blocks_of f nd)"
    by (rule card_image) (auto simp: inj_on_def dest: slot_of_inj)
  finally show ?thesis .
qed

lemma block_cases:
  "(\<forall>l < DENYFS_MAX_FILE_BLOCKS. P l) \<longleftrightarrow> (\<forall>i < DENYFS_DIRECT_BLOCKS. P i) \<and>
    (\<forall>i < DENYFS_POINTERS_PER_BLOCK. P (DENYFS_DIRECT_BLOCKS + i)) \<and>
    (\<forall>c < DENYFS_POINTERS_PER_BLOCK. \<forall>j < DENYFS_POINTERS_PER_BLOCK. P (child_start c + j))" (is "?a \<longleftrightarrow> ?b")
proof
  assume a: ?a
  have "child_start c + j < DENYFS_MAX_FILE_BLOCKS"
    if "c < DENYFS_POINTERS_PER_BLOCK" "j < DENYFS_POINTERS_PER_BLOCK" for c j
  proof -
    have "c * DENYFS_POINTERS_PER_BLOCK + j < Suc c * DENYFS_POINTERS_PER_BLOCK" using that(2) by simp
    also have "\<dots> \<le> DENYFS_POINTERS_PER_BLOCK * DENYFS_POINTERS_PER_BLOCK" using that(1) by (intro mult_le_mono) simp_all
    finally show ?thesis by (simp add: DENYFS_MAX_FILE_BLOCKS_def)
  qed
  with a show ?b by (simp add: DENYFS_MAX_FILE_BLOCKS_def)
next
  assume b: ?b
  show ?a
  proof (intro allI impI)
    fix l assume l: "l < DENYFS_MAX_FILE_BLOCKS"
    show "P l"
    proof (cases l rule: slot_of_cases)
      case (leaf i)
      let ?c = "i div DENYFS_POINTERS_PER_BLOCK" and ?j = "i mod DENYFS_POINTERS_PER_BLOCK"
      have "?c < DENYFS_POINTERS_PER_BLOCK" "?j < DENYFS_POINTERS_PER_BLOCK"
        using l leaf(1) by (simp_all add: DENYFS_MAX_FILE_BLOCKS_def less_mult_imp_div_less)
      then have "P (child_start ?c + ?j)" using b by blast
      then show ?thesis by (simp add: leaf(1) add.assoc)
    qed (use b in auto)
  qed
qed

lemma file_block_at:
  "i < DENYFS_DIRECT_BLOCKS \<Longrightarrow> file_block f nd i = i_direct nd ! i"
  "i < DENYFS_POINTERS_PER_BLOCK \<Longrightarrow> file_block f nd (DENYFS_DIRECT_BLOCKS + i) = table f (i_indirect nd) ! i"
  "j < DENYFS_POINTERS_PER_BLOCK \<Longrightarrow> file_block f nd (child_start c + j) = table f (table f (i_double nd) ! c) ! j"
  by (simp_all add: file_block_def slot_of_def Let_def add.assoc)

lemma children_ok_iff:
  "children_ok f fb k cs \<longleftrightarrow> (\<forall>c < length cs. cs ! c \<noteq> DENYFS_INVALID_BLOCK \<longrightarrow> child_start (k + c) < fb \<and>
     within fb (child_start (k + c)) (table f (cs ! c)) \<and> live (table f (cs ! c)) \<noteq> [])"
  by (induction cs arbitrary: k) (auto simp: All_less_Suc2)

text \<open>The range condition of the checks.\<close>

lemma within_blocks:
  assumes "length (i_direct nd) = DENYFS_DIRECT_BLOCKS"
  shows "(\<forall>l < DENYFS_MAX_FILE_BLOCKS. file_block f nd l \<noteq> DENYFS_INVALID_BLOCK \<longrightarrow> l < fb) \<longleftrightarrow>
    within fb 0 (i_direct nd) \<and> within fb DENYFS_DIRECT_BLOCKS (table f (i_indirect nd)) \<and>
    (\<forall>c < DENYFS_POINTERS_PER_BLOCK. within fb (child_start c) (table f (table f (i_double nd) ! c)))"
  unfolding block_cases within_iff using assms by (simp add: file_block_at)

text \<open>No pointer table without a block.\<close>

definition no_empty_table :: "(u32 \<Rightarrow> bytes) \<Rightarrow> inode \<Rightarrow> bool" where
  "no_empty_table f nd \<longleftrightarrow>
     (i_indirect nd \<noteq> DENYFS_INVALID_BLOCK \<longrightarrow> live (table f (i_indirect nd)) \<noteq> []) \<and>
     (i_double nd \<noteq> DENYFS_INVALID_BLOCK \<longrightarrow> live (table f (i_double nd)) \<noteq> []) \<and>
     (\<forall>c < DENYFS_POINTERS_PER_BLOCK. table f (i_double nd) ! c \<noteq> DENYFS_INVALID_BLOCK \<longrightarrow>
       live (table f (table f (i_double nd) ! c)) \<noteq> [])"

lemma reach_iff:
  "(\<exists>l \<in> blocks_of f nd. q \<in> tables_of (slot_of l)) \<longleftrightarrow>
   (\<exists>s. slot_ok s \<and> data_slot s \<and> sval f nd s \<noteq> DENYFS_INVALID_BLOCK \<and> q \<in> tables_of s)" (is "?a \<longleftrightarrow> ?b")
proof
  show "?a \<Longrightarrow> ?b" using slot_of_ok slot_of_data unfolding blocks_of_def file_block_def by blast
next
  assume ?b
  then obtain s where s: "slot_ok s" "data_slot s" "sval f nd s \<noteq> DENYFS_INVALID_BLOCK" "q \<in> tables_of s" by blast
  obtain l where "l < DENYFS_MAX_FILE_BLOCKS" "slot_of l = s" using slot_of_surj [OF s(1,2)] by blast
  with s show ?a by (intro bexI [of _ l]) (simp_all add: blocks_of_def file_block_def)
qed

lemma tree_ok_iff:
  "tree_ok f nd \<longleftrightarrow> unat (i_block_count nd) = card (blocks_of f nd) \<and> no_empty_table f nd"
proof -
  let ?t = "\<lambda>s. sval f nd s \<noteq> DENYFS_INVALID_BLOCK"
  let ?r = "\<lambda>q. \<exists>s. slot_ok s \<and> data_slot s \<and> ?t s \<and> q \<in> tables_of s"
  have single: "?r Single \<longleftrightarrow> live (table f (i_indirect nd)) \<noteq> []"
  proof
    assume "?r Single"
    then obtain s where s: "slot_ok s" "data_slot s" "?t s" "Single \<in> tables_of s" by blast
    then show "live (table f (i_indirect nd)) \<noteq> []" by (cases s) (auto simp: live_nonempty)
  next
    assume "live (table f (i_indirect nd)) \<noteq> []"
    then obtain k where "k < DENYFS_POINTERS_PER_BLOCK" "table f (i_indirect nd) ! k \<noteq> DENYFS_INVALID_BLOCK"
      by (auto simp: live_nonempty)
    then show "?r Single" by (intro exI [of _ "Entry k"]) simp
  qed
  have child: "?r (Child c) \<longleftrightarrow> live (table f (table f (i_double nd) ! c)) \<noteq> []" if "c < DENYFS_POINTERS_PER_BLOCK" for c
  proof
    assume "?r (Child c)"
    then obtain s where s: "slot_ok s" "data_slot s" "?t s" "Child c \<in> tables_of s" by blast
    then show "live (table f (table f (i_double nd) ! c)) \<noteq> []" by (cases s) (auto simp: live_nonempty)
  next
    assume "live (table f (table f (i_double nd) ! c)) \<noteq> []"
    then obtain k where "k < DENYFS_POINTERS_PER_BLOCK" "table f (table f (i_double nd) ! c) ! k \<noteq> DENYFS_INVALID_BLOCK"
      by (auto simp: live_nonempty)
    then show "?r (Child c)" using that by (intro exI [of _ "Leaf c k"]) simp
  qed
  have double: "?r Double \<longleftrightarrow> (\<exists>c < DENYFS_POINTERS_PER_BLOCK. ?r (Child c))"
  proof
    assume "?r Double"
    then obtain s where s: "slot_ok s" "data_slot s" "?t s" "Double \<in> tables_of s" by blast
    then obtain c j where "s = Leaf c j" by (cases s) auto
    with s show "\<exists>c < DENYFS_POINTERS_PER_BLOCK. ?r (Child c)"
      by (intro exI [of _ c] exI [of _ s] conjI) simp_all
  next
    assume "\<exists>c < DENYFS_POINTERS_PER_BLOCK. ?r (Child c)"
    then obtain c s where s: "slot_ok s" "data_slot s" "?t s" "Child c \<in> tables_of s" by blast
    then have "Double \<in> tables_of s" by (cases s) auto
    with s show "?r Double" by blast
  qed
  have up: "table f (i_double nd) ! c \<noteq> DENYFS_INVALID_BLOCK"
    if "live (table f (table f (i_double nd) ! c)) \<noteq> []" for c
    using that by auto
  have "(\<forall>q. slot_ok q \<longrightarrow> \<not> data_slot q \<longrightarrow> ?t q \<longrightarrow> ?r q) \<longleftrightarrow>
    (?t Single \<longrightarrow> ?r Single) \<and> (?t Double \<longrightarrow> ?r Double) \<and> (\<forall>c < DENYFS_POINTERS_PER_BLOCK. ?t (Child c) \<longrightarrow> ?r (Child c))"
    (is "?a \<longleftrightarrow> ?b")
  proof
    assume ?a
    from this [rule_format, of Single] this [rule_format, of Double] this [rule_format, of "Child c" for c]
    show ?b by simp
  next
    assume b: ?b
    show ?a
    proof (intro allI impI)
      fix q assume q: "slot_ok q" "\<not> data_slot q" "?t q"
      then consider "q = Single" | "q = Double" | c where "q = Child c" "c < DENYFS_POINTERS_PER_BLOCK" by (cases q) auto
      then show "?r q" using b q(3) by cases auto
    qed
  qed
  also have "\<dots> \<longleftrightarrow> no_empty_table f nd"
  proof -
    let ?l = "\<lambda>c. live (table f (table f (i_double nd) ! c)) \<noteq> []"
    let ?cs = "\<forall>c < DENYFS_POINTERS_PER_BLOCK. table f (i_double nd) ! c \<noteq> DENYFS_INVALID_BLOCK \<longrightarrow> ?l c"
    have c: "(\<forall>c < DENYFS_POINTERS_PER_BLOCK. ?t (Child c) \<longrightarrow> ?r (Child c)) \<longleftrightarrow> ?cs"
      using child by auto
    have "?r Double \<longleftrightarrow> (\<exists>c < DENYFS_POINTERS_PER_BLOCK. ?l c)" unfolding double using child by blast
    moreover have "(\<exists>c < DENYFS_POINTERS_PER_BLOCK. ?l c) \<longleftrightarrow>
        (\<exists>c < DENYFS_POINTERS_PER_BLOCK. table f (i_double nd) ! c \<noteq> DENYFS_INVALID_BLOCK)" if ?cs
      using that up by blast
    moreover have "live (table f (i_double nd)) \<noteq> [] \<longleftrightarrow>
        (\<exists>c < DENYFS_POINTERS_PER_BLOCK. table f (i_double nd) ! c \<noteq> DENYFS_INVALID_BLOCK)"
      by (simp add: live_nonempty)
    ultimately have d: "?cs \<Longrightarrow> ?r Double \<longleftrightarrow> live (table f (i_double nd)) \<noteq> []" by blast
    have "?t Single \<longleftrightarrow> i_indirect nd \<noteq> DENYFS_INVALID_BLOCK" "?t Double \<longleftrightarrow> i_double nd \<noteq> DENYFS_INVALID_BLOCK"
      by simp_all
    then show ?thesis unfolding no_empty_table_def c single using d by blast
  qed
  finally show ?thesis unfolding tree_ok_def reach_iff by simp
qed

lemma less_blocks: "l < (n + SECTOR_SIZE - 1) div SECTOR_SIZE \<longleftrightarrow> l * SECTOR_SIZE < n"
proof -
  have "l < (n + SECTOR_SIZE - 1) div SECTOR_SIZE \<longleftrightarrow> Suc l * SECTOR_SIZE \<le> n + SECTOR_SIZE - 1"
    using less_eq_div_iff_mult_less_eq [of SECTOR_SIZE "Suc l"] by (simp add: Suc_le_eq SECTOR_SIZE_def)
  then show ?thesis by (auto simp: SECTOR_SIZE_def)
qed

lemma file_ok_iff:
  assumes d: "length (i_direct nd) = DENYFS_DIRECT_BLOCKS"
  shows "file_ok f nd \<longleftrightarrow> i_type nd = DENYFS_ITYPE_FILE \<and> unat (i_size nd) \<le> DENYFS_MAX_FILE_SIZE \<and> tree_ok f nd \<and>
    (\<forall>l < DENYFS_MAX_FILE_BLOCKS. file_block f nd l \<noteq> DENYFS_INVALID_BLOCK \<longrightarrow> l * SECTOR_SIZE < unat (i_size nd))"
proof -
  let ?fb = "(unat (i_size nd) + SECTOR_SIZE - 1) div SECTOR_SIZE"
  let ?w = "\<lambda>c. within ?fb (child_start c) (table f (table f (i_double nd) ! c))"
  have start: "child_start c < ?fb" if "?w c" "live (table f (table f (i_double nd) ! c)) \<noteq> []" for c
  proof -
    note h = that
    obtain k where k: "k < DENYFS_POINTERS_PER_BLOCK" "table f (table f (i_double nd) ! c) ! k \<noteq> DENYFS_INVALID_BLOCK"
      using h(2) by (auto simp: live_nonempty)
    then have "child_start c + k < ?fb" using h(1) unfolding within_iff by simp
    then show ?thesis by simp
  qed
  have none: "within ?fb b empty_table" for b by (simp add: within_iff)
  have tree: "single_ok f ?fb (i_indirect nd) \<and> double_ok f ?fb (i_double nd) \<longleftrightarrow>
      within ?fb DENYFS_DIRECT_BLOCKS (table f (i_indirect nd)) \<and>
      (\<forall>c < DENYFS_POINTERS_PER_BLOCK. ?w c) \<and> no_empty_table f nd"
  proof -
    have "single_ok f ?fb (i_indirect nd) \<longleftrightarrow> within ?fb DENYFS_DIRECT_BLOCKS (table f (i_indirect nd)) \<and>
        (i_indirect nd \<noteq> DENYFS_INVALID_BLOCK \<longrightarrow> live (table f (i_indirect nd)) \<noteq> [])"
      using none by (auto simp: single_ok_def)
    moreover have "double_ok f ?fb (i_double nd) \<longleftrightarrow> (\<forall>c < DENYFS_POINTERS_PER_BLOCK. ?w c) \<and>
        (i_double nd \<noteq> DENYFS_INVALID_BLOCK \<longrightarrow> live (table f (i_double nd)) \<noteq> []) \<and>
        (\<forall>c < DENYFS_POINTERS_PER_BLOCK. table f (i_double nd) ! c \<noteq> DENYFS_INVALID_BLOCK \<longrightarrow>
          live (table f (table f (i_double nd) ! c)) \<noteq> [])"
    proof (cases "i_double nd = DENYFS_INVALID_BLOCK")
      case True
      then show ?thesis using none by (simp add: double_ok_def)
    next
      case False
      have "(table f (i_double nd) ! c \<noteq> DENYFS_INVALID_BLOCK \<longrightarrow> child_start c < ?fb \<and> ?w c \<and>
            live (table f (table f (i_double nd) ! c)) \<noteq> []) \<longleftrightarrow> ?w c \<and>
          (table f (i_double nd) ! c \<noteq> DENYFS_INVALID_BLOCK \<longrightarrow> live (table f (table f (i_double nd) ! c)) \<noteq> [])" for c
        using none start [of c] by (cases "table f (i_double nd) ! c = DENYFS_INVALID_BLOCK") auto
      with False show ?thesis by (auto simp: double_ok_def children_ok_iff)
    qed
    ultimately show ?thesis unfolding no_empty_table_def by blast
  qed
  have range: "(\<forall>l < DENYFS_MAX_FILE_BLOCKS. file_block f nd l \<noteq> DENYFS_INVALID_BLOCK \<longrightarrow> l * SECTOR_SIZE < unat (i_size nd)) \<longleftrightarrow>
      within ?fb 0 (i_direct nd) \<and> within ?fb DENYFS_DIRECT_BLOCKS (table f (i_indirect nd)) \<and>
      (\<forall>c < DENYFS_POINTERS_PER_BLOCK. ?w c)"
    unfolding within_blocks [OF d, symmetric] less_blocks ..
  show ?thesis
    unfolding file_ok_def Let_def tree_ok_iff data_count_blocks [OF d] range using tree card_blocks_of [of f nd] by auto
qed

lemma free_inode_blank:
  assumes d: "length (i_direct nd) = DENYFS_DIRECT_BLOCKS"
  shows "free_inode_ok i nd \<longleftrightarrow> i \<noteq> 0 \<and> blank f nd"
proof
  assume a: "free_inode_ok i nd"
  have "i_direct nd ! k = DENYFS_INVALID_BLOCK" if "k < DENYFS_DIRECT_BLOCKS" for k
    using a that d by (simp add: free_inode_ok_def list_all_length)
  then have "sval f nd s = DENYFS_INVALID_BLOCK" if "slot_ok s" for s
    using that a by (cases s) (simp_all add: free_inode_ok_def)
  then show "i \<noteq> 0 \<and> blank f nd" using a by (simp add: blank_def free_inode_ok_def)
next
  assume a: "i \<noteq> 0 \<and> blank f nd"
  then have v: "\<And>s. slot_ok s \<Longrightarrow> sval f nd s = DENYFS_INVALID_BLOCK" by (simp add: blank_def)
  have "i_direct nd ! k = DENYFS_INVALID_BLOCK" if "k < DENYFS_DIRECT_BLOCKS" for k using v [of "Direct k"] that by simp
  then show "free_inode_ok i nd"
    using a v [of Single] v [of Double] d by (simp add: free_inode_ok_def list_all_length blank_def)
qed

section \<open>The checks and the invariant\<close>

lemma loadable_inode:
  assumes "loadable E v"
  shows "length (v_inodes v) = DENYFS_MAX_INODES"
    and "i < DENYFS_MAX_INODES \<Longrightarrow> length (i_direct (inode_at v i)) = DENYFS_DIRECT_BLOCKS"
proof -
  show l: "length (v_inodes v) = DENYFS_MAX_INODES" using assms by (simp add: loadable_def wf_def)
  show "i < DENYFS_MAX_INODES \<Longrightarrow> length (i_direct (inode_at v i)) = DENYFS_DIRECT_BLOCKS"
    using assms l by (simp add: loadable_def wf_def inodes_ok_def inode_ok_def inode_at_def)
qed

lemma file_checks:
  assumes l: "loadable E v" and i: "0 < i" "i < DENYFS_MAX_INODES"
  shows "inode_checks E v i \<longleftrightarrow> i_type (inode_at v i) = DENYFS_ITYPE_FREE \<and> blank (cells E v) (inode_at v i) \<or>
    i_type (inode_at v i) = DENYFS_ITYPE_FILE \<and> unat (i_size (inode_at v i)) \<le> DENYFS_MAX_FILE_SIZE \<and>
    tree_ok (cells E v) (inode_at v i) \<and> fits E v i"
proof -
  note d = loadable_inode(2) [OF l i(2)]
  have "DENYFS_ITYPE_FREE \<noteq> DENYFS_ITYPE_FILE" by (simp add: DENYFS_ITYPE_FREE_def DENYFS_ITYPE_FILE_def)
  then show ?thesis
    using i(1) by (auto simp: inode_checks_def free_inode_blank [OF d, where f = "cells E v"] file_ok_iff [OF d] fits_def)
qed

lemma root_checks:
  assumes l: "loadable E v" and r: "root_inode_ok (inode_at v 0)"
  shows "inode_checks E v 0 \<longleftrightarrow> (\<forall>k < DENYFS_DIRECT_BLOCKS.
      i_direct (inode_at v 0) ! k \<noteq> DENYFS_INVALID_BLOCK \<longleftrightarrow> k < unat (i_block_count (inode_at v 0)))"
    and "inode_checks E v 0 \<Longrightarrow> tree_ok (cells E v) (inode_at v 0)"
    and "inode_ptrs E v 0 = tree_ptrs (cells E v) (inode_at v 0)"
proof -
  let ?nd = "inode_at v 0"
  have d: "length (i_direct ?nd) = DENYFS_DIRECT_BLOCKS" by (rule loadable_inode(2) [OF l]) (simp add: layout_sizes)
  have t: "i_type ?nd = DENYFS_ITYPE_DIR" "DENYFS_ITYPE_DIR \<noteq> DENYFS_ITYPE_FREE" "unat (i_block_count ?nd) \<le> DENYFS_DIRECT_BLOCKS"
    "i_size ?nd = 0" "i_indirect ?nd = DENYFS_INVALID_BLOCK" "i_double ?nd = DENYFS_INVALID_BLOCK"
    using r by (simp_all add: root_inode_ok_def DENYFS_ITYPE_DIR_def DENYFS_ITYPE_FREE_def)
  show c: "inode_checks E v 0 \<longleftrightarrow> (\<forall>k < DENYFS_DIRECT_BLOCKS.
      i_direct ?nd ! k \<noteq> DENYFS_INVALID_BLOCK \<longleftrightarrow> k < unat (i_block_count ?nd))"
    using t d by (auto simp: inode_checks_def dir_ok_def DENYFS_MAX_FILE_BLOCKS_def)
  show "inode_ptrs E v 0 = tree_ptrs (cells E v) ?nd"
    using t by (simp add: inode_ptrs_def tree_ptrs_def single_ptrs_def double_ptrs_def)
  assume k0: "inode_checks E v 0"
  have "k < length (i_direct ?nd) \<and> i_direct ?nd ! k \<noteq> DENYFS_INVALID_BLOCK \<longleftrightarrow> k < unat (i_block_count ?nd)" for k
    using k0 c d t(3) by (cases "k < DENYFS_DIRECT_BLOCKS") simp_all
  then have "{k. k < length (i_direct ?nd) \<and> i_direct ?nd ! k \<noteq> DENYFS_INVALID_BLOCK} = {..<unat (i_block_count ?nd)}"
    by auto
  then have "length (live (i_direct ?nd)) = unat (i_block_count ?nd)" by (simp add: length_live)
  then show "tree_ok (cells E v) ?nd"
    using t by (simp add: tree_ok_iff data_count_blocks [OF d, symmetric] data_count_def no_empty_table_def)
qed

lemma blank_ptrs:
  assumes "blank f nd" "length (i_direct nd) = DENYFS_DIRECT_BLOCKS"
  shows "tree_ptrs f nd = []"
  unfolding tree_ptrs_slots [OF assms(2)] using assms(1)
  by (auto simp: live_def filter_empty_conv set_slots blank_def)

lemma checked_ptrs:
  assumes l: "loadable E v" and r: "root_inode_ok (inode_at v 0)"
    and c: "\<And>i. i < DENYFS_MAX_INODES \<Longrightarrow> inode_checks E v i"
  shows "map (inode_ptrs E v) [0..<DENYFS_MAX_INODES] =
    map (\<lambda>i. tree_ptrs (cells E v) (v_inodes v ! i)) [0..<length (v_inodes v)]"
proof -
  have "inode_ptrs E v i = tree_ptrs (cells E v) (inode_at v i)" if i: "i < DENYFS_MAX_INODES" for i
  proof (cases "i = 0")
    case True
    then show ?thesis using root_checks(3) [OF l r] by simp
  next
    case False
    then have p: "0 < i" by simp
    show ?thesis
    proof (cases "i_type (inode_at v i) = DENYFS_ITYPE_FREE")
      case True
      then have "blank (cells E v) (inode_at v i)"
        using file_checks [OF l p i] c [OF i] by (auto simp: DENYFS_ITYPE_FREE_def DENYFS_ITYPE_FILE_def)
      then show ?thesis using True blank_ptrs loadable_inode(2) [OF l i] by (simp add: inode_ptrs_def)
    qed (use False in \<open>simp add: inode_ptrs_def\<close>)
  qed
  then show ?thesis unfolding loadable_inode(1) [OF l] by (intro map_cong) (simp_all add: inode_at_def)
qed

lemma used_list: "used v = set (filter (bitmap_test (v_bitmap v)) [data_start v..<total_blocks v])"
  by (auto simp: used_def pool_def)

lemma used_count: "length (filter (bitmap_test (v_bitmap v)) [data_start v..<total_blocks v]) = card (used v)"
  unfolding used_list by (rule distinct_card [symmetric]) simp

lemma counters_iff:
  assumes "data_start v \<le> total_blocks v"
  shows "counters_ok v k a \<longleftrightarrow> a \<noteq> 0 \<and> unat (sb_free_inodes (v_sb v)) = DENYFS_MAX_INODES - a \<and>
    (\<forall>b < data_start v. bitmap_test (v_bitmap v) b) \<and> card (used v) = k \<and>
    unat (sb_free_blocks (v_sb v)) = card (pool v - used v)"
proof -
  have "card (pool v - used v) = card (pool v) - card (used v)"
    by (rule card_Diff_subset [OF finite_used used_subset_pool])
  then show ?thesis by (auto simp: counters_ok_def Let_def used_count list_all_iff pool_def)
qed

text \<open>What a clean remount needs of the state, beyond \<open>sound\<close>.\<close>

definition consistent :: "env \<Rightarrow> volume \<Rightarrow> bool" where
  "consistent E v \<longleftrightarrow> sound E v \<and> (\<forall>i \<in> ran (dir E v). fits E v (unat i)) \<and>
     (\<forall>b < data_start v. bitmap_test (v_bitmap v) b)"

lemma of_nat_u32: "i < DENYFS_MAX_INODES \<Longrightarrow> (of_nat i :: u32) = u \<longleftrightarrow> i = unat u"
  by (auto simp: DENYFS_MAX_INODES_def unsigned_of_nat take_bit_nat_eq_self)

lemma listed_iff: "i < DENYFS_MAX_INODES \<Longrightarrow> of_nat i \<in> snd ` set l \<longleftrightarrow> i \<in> unat ` snd ` set (l :: (bytes \<times> u32) list)"
  by (auto simp: image_iff of_nat_u32)

text \<open>The number of allocated inodes.\<close>

lemma occupied_count:
  fixes l :: "(bytes \<times> u32) list"
  assumes t: "\<And>i. i < DENYFS_MAX_INODES \<Longrightarrow> occupied v i \<longleftrightarrow> i = 0 \<or> i \<in> unat ` snd ` set l"
    and r: "\<And>a i. (a, i) \<in> set l \<Longrightarrow> 0 < unat i \<and> unat i < DENYFS_MAX_INODES" and d: "distinct (map snd l)"
  shows "length (filter (occupied v) [0..<DENYFS_MAX_INODES]) = 1 + length l" and "1 + length l \<le> DENYFS_MAX_INODES"
proof -
  let ?os = "filter (occupied v) [0..<DENYFS_MAX_INODES]" and ?ns = "unat ` snd ` set l"
  have lt: "i < DENYFS_MAX_INODES" if "i \<in> ?ns" for i using that r by auto
  have "i \<in> set ?os \<longleftrightarrow> i \<in> insert 0 ?ns" for i
    using t [of i] lt [of i] by (cases "i < DENYFS_MAX_INODES") (auto simp: DENYFS_MAX_INODES_def)
  then have "set ?os = insert 0 ?ns" by blast
  moreover have "0 \<notin> ?ns" using r by force
  moreover have "card ?ns = length l"
  proof -
    have "card ?ns = card (snd ` set l)" by (rule card_image) (auto simp: inj_on_def dest: unsigned_word_eqI)
    also have "\<dots> = length l" using distinct_card [OF d] by simp
    finally show ?thesis .
  qed
  moreover have "length ?os = card (set ?os)" by (rule distinct_card [symmetric]) simp
  ultimately show n: "length ?os = 1 + length l" by simp
  show "1 + length l \<le> DENYFS_MAX_INODES"
    using length_filter_le [of "occupied v" "[0..<DENYFS_MAX_INODES]"] unfolding n by simp
qed

lemma valid_live:
  assumes "list_all valid_dirent es" "(a, i) \<in> set (listing_of es)"
  shows "0 < unat i \<and> unat i < DENYFS_MAX_INODES"
proof -
  obtain e where "e \<in> set es" "\<not> entry_free e" "de_inode e = i"
    using assms(2) by (auto simp: listing_of_def pair_of_def)
  then show ?thesis
    using assms(1) by (auto simp: list_all_iff valid_dirent_def entry_free_def unat_gt_0 split: if_splits)
qed

lemma ptr_bound: "b \<in> set (live (i_direct nd)) \<Longrightarrow> length (i_direct nd) = DENYFS_DIRECT_BLOCKS \<Longrightarrow> b \<in> set (tree_ptrs f nd)"
  by (simp add: tree_ptrs_def)

lemma accepts_sound:
  assumes l: "loadable E v" and sm: "small_volume v" and cs: "clean_synced E v" and a: "accepts E v"
  shows "consistent E v"
proof -
  let ?f = "cells E v" and ?n = "v_inodes v" and ?is = "[0..<DENYFS_MAX_INODES]" and ?r = "inode_at v 0"
  let ?l = "listing ?f ?r" and ?ptrs = "concat (map (inode_ptrs E v) ?is)"
  have ac: "root_inode_ok ?r" "list_all (inode_checks E v) ?is" "distinct ?ptrs" "unat ` set ?ptrs \<subseteq> used v"
    "counters_ok v (length ?ptrs) (length (filter (occupied v) ?is))"
    "list_all valid_dirent (block_entries ?f (i_direct ?r))" "listed_ok v ?l ([], [])"
    "\<And>i. 0 < i \<Longrightarrow> i < DENYFS_MAX_INODES \<Longrightarrow> (i_type (inode_at v i) = DENYFS_ITYPE_FILE) = (i \<in> unat ` snd ` set ?l)"
    using a unfolding accepts_def Let_def by simp_all
  note len = loadable_inode(1) [OF l] and wf = wf_facts [of v]
  have w: "wf v" "ready E v" using l by (simp_all add: loadable_def)
  have c: "inode_checks E v i" if "i < DENYFS_MAX_INODES" for i using ac(2) that by (simp add: list_all_iff)
  have z: "0 < DENYFS_MAX_INODES" by (simp add: layout_sizes)
  note rc = root_checks [OF l ac(1)] and fc = file_checks [OF l]
  have pt: "?ptrs = concat (map (\<lambda>i. tree_ptrs ?f (?n ! i)) [0..<length ?n])"
    by (rule arg_cong [where f = concat]) (rule checked_ptrs [OF l ac(1) c])
  have cnt: "length (filter (occupied v) ?is) \<noteq> 0"
    "unat (sb_free_inodes (v_sb v)) = DENYFS_MAX_INODES - length (filter (occupied v) ?is)"
    "\<forall>b < data_start v. bitmap_test (v_bitmap v) b" "card (used v) = length ?ptrs"
    "unat (sb_free_blocks (v_sb v)) = card (pool v - used v)"
    using ac(5) wf(2,7) [OF w(1)] by (subst (asm) counters_iff; simp)+
  have "card (unat ` set ?ptrs) = card (set ?ptrs)"
    by (rule card_image) (auto simp: inj_on_def dest: unsigned_word_eqI)
  also have "\<dots> = card (used v)" unfolding cnt(4) by (rule distinct_card [OF ac(3)])
  finally have us: "unat ` set ?ptrs = used v" using card_subset_eq [OF finite_used ac(4)] by blast
  have dl: "length (i_direct (?n ! i)) = DENYFS_DIRECT_BLOCKS" if "i < length ?n" for i
    using loadable_inode(2) [OF l, of i] that by (simp add: len inode_at_def)
  have own: "owned ?f ?n (used v)"
  proof -
    have "owned ?f ?n (used v) \<longleftrightarrow> distinct ?ptrs \<and> unat ` set ?ptrs = used v"
      unfolding pt by (rule owned_list) (rule dl)
    then show ?thesis using ac(3) us by blast
  qed
  have ty: "DENYFS_ITYPE_FREE \<noteq> DENYFS_ITYPE_FILE" "DENYFS_ITYPE_DIR \<noteq> DENYFS_ITYPE_FREE"
    by (simp_all add: DENYFS_ITYPE_FREE_def DENYFS_ITYPE_FILE_def DENYFS_ITYPE_DIR_def)
  have tr: "trees ?f ?n"
    unfolding trees_def
  proof (intro allI impI)
    fix j assume "j < length ?n"
    then have j: "j < DENYFS_MAX_INODES" by (simp add: len)
    have "tree_ok ?f (inode_at v j)"
      using rc(2) [OF c [OF z]] fc [OF _ j] c [OF j] blank_tree by (cases "j = 0") auto
    then show "tree_ok ?f (?n ! j)" by (simp add: inode_at_def)
  qed
  have lok: "distinct (map snd ?l)" "distinct (map fst ?l)" using ac(7) by (simp_all add: listed_ok_def)
  have rng: "\<And>a i. (a, i) \<in> set ?l \<Longrightarrow> 0 < unat i \<and> unat i < DENYFS_MAX_INODES"
    using valid_live [OF ac(6)] by (simp add: listing_def)
  have rd: "length (i_direct ?r) = DENYFS_DIRECT_BLOCKS" by (rule loadable_inode(2) [OF l z])
  have rt: "root_ok ?f (used v) ?r"
  proof -
    have "unat b \<in> used v" if b: "b \<in> set (live (i_direct ?r))" for b
    proof -
      have "b \<in> set (inode_ptrs E v 0)" using ptr_bound [OF b rd] by (simp add: rc(3))
      moreover have "0 \<in> set ?is" using z by simp
      ultimately have "b \<in> set ?ptrs" by auto
      then show ?thesis using ac(4) by blast
    qed
    then show ?thesis
      using ac(1,6) lok rc(1) c [OF z] by (simp add: root_ok_def dir_blocks_ok_def list_all_iff)
  qed
  have sz: "unat (i_size (?n ! i)) \<le> DENYFS_MAX_FILE_SIZE" if "i < length ?n" for i
  proof (cases "i = 0")
    case True
    then show ?thesis using ac(1) by (simp add: root_inode_ok_def inode_at_def)
  next
    case False
    then show ?thesis using fc [of i] c [of i] that by (auto simp: len inode_at_def blank_def)
  qed
  have ino: "if of_nat i \<in> snd ` set ?l then i_type (inode_at v i) = DENYFS_ITYPE_FILE
      else i_type (inode_at v i) = DENYFS_ITYPE_FREE \<and> blank ?f (inode_at v i)"
    if "0 < i" "i < DENYFS_MAX_INODES" for i
    using ac(8) [OF that] fc [OF that] c [OF that(2)] unfolding listed_iff [OF that(2)] by auto
  have oc: "occupied v i \<longleftrightarrow> i = 0 \<or> i \<in> unat ` snd ` set ?l" if i: "i < DENYFS_MAX_INODES" for i
  proof (cases "i = 0")
    case True
    then show ?thesis using ac(1) ty by (simp add: occupied_def root_inode_ok_def)
  next
    case False
    then have "if i \<in> unat ` snd ` set ?l then i_type (inode_at v i) = DENYFS_ITYPE_FILE
        else i_type (inode_at v i) = DENYFS_ITYPE_FREE"
      using ino [of i, unfolded listed_iff [OF i]] i by (cases "i \<in> unat ` snd ` set ?l") simp_all
    then show ?thesis using False ty unfolding occupied_def by presburger
  qed
  have n: "length (filter (occupied v) ?is) = 1 + length ?l" "1 + length ?l \<le> DENYFS_MAX_INODES"
    by (rule occupied_count [OF oc rng lok(1)]; assumption)+
  have "bitmap_inv v" unfolding bitmap_inv_def using cnt(5) wf(9) [OF w(1)] by simp
  then have "core E v" unfolding core_def using w sm cs by simp
  moreover have "fsys ?f ?n (used v)"
    unfolding fsys_def using own tr rt sz ino unfolding inode_at_def len by blast
  moreover have "unat (sb_free_inodes (v_sb v)) + length ?l + 1 = DENYFS_MAX_INODES" using cnt(2) n by simp
  ultimately have so: "sound E v" by (simp add: sound_def)
  have "fits E v (unat i)" if "i \<in> ran (dir E v)" for i
  proof -
    note h = that
    obtain name where "dir E v name = Some i" using h by (auto simp: ran_def)
    note df = dir_file [OF so this]
    then show ?thesis using fc [OF df(1,2)] c [OF df(2)] ty by auto
  qed
  with so cnt(3) show ?thesis by (simp add: consistent_def)
qed

lemma consistent_accepts:
  assumes a: "consistent E v"
  shows "accepts E v"
proof -
  let ?f = "cells E v" and ?n = "v_inodes v" and ?is = "[0..<DENYFS_MAX_INODES]" and ?r = "inode_at v 0"
  let ?l = "listing ?f ?r" and ?ptrs = "concat (map (inode_ptrs E v) ?is)"
  have so: "sound E v" and fi: "\<And>i. i \<in> ran (dir E v) \<Longrightarrow> fits E v (unat i)"
    and re: "\<forall>b < data_start v. bitmap_test (v_bitmap v) b" using a by (simp_all add: consistent_def)
  have l: "loadable E v" using so by (simp add: sound_def core_def loadable_def)
  note len = loadable_inode(1) [OF l] and wf = wf_facts [of v] and rt = sound_root [OF so] and ds = sound_distinct [OF so]
  have w: "wf v" "bitmap_inv v" using so by (simp_all add: sound_def core_def)
  have fs: "owned ?f ?n (used v)" "trees ?f ?n" "\<And>i. i < length ?n \<Longrightarrow> unat (i_size (?n ! i)) \<le> DENYFS_MAX_FILE_SIZE"
    using so by (simp_all add: sound_def fsys_def)
  have z: "0 < DENYFS_MAX_INODES" by (simp add: layout_sizes)
  have ty: "DENYFS_ITYPE_FREE \<noteq> DENYFS_ITYPE_FILE" "DENYFS_ITYPE_DIR \<noteq> DENYFS_ITYPE_FREE"
    by (simp_all add: DENYFS_ITYPE_FREE_def DENYFS_ITYPE_FILE_def DENYFS_ITYPE_DIR_def)
  have r: "root_inode_ok ?r" using rt by (simp add: root_ok_def)
  have ino: "if i \<in> unat ` snd ` set ?l then i_type (inode_at v i) = DENYFS_ITYPE_FILE
      else i_type (inode_at v i) = DENYFS_ITYPE_FREE \<and> blank ?f (inode_at v i)"
    if "0 < i" "i < DENYFS_MAX_INODES" for i
    using so that unfolding listed_iff [OF that(2), symmetric] sound_def fsys_def inode_at_def len by blast
  have ran: "of_nat i \<in> ran (dir E v)" if "i \<in> unat ` snd ` set ?l" for i
  proof -
    note h = that
    obtain name u where u: "(name, u) \<in> set ?l" "i = unat u" using h by auto
    then have "dir E v name = Some u" using ds(1) by (simp add: dir_def)
    with u(2) show ?thesis by (auto simp: ran_def)
  qed
  have c: "inode_checks E v i" if i: "i < DENYFS_MAX_INODES" for i
  proof (cases "i = 0")
    case True
    then show ?thesis using root_checks(1) [OF l r] rt by (simp add: root_ok_def)
  next
    case False
    then have p: "0 < i" by simp
    have t: "tree_ok ?f (inode_at v i)" "unat (i_size (inode_at v i)) \<le> DENYFS_MAX_FILE_SIZE"
      using fs(2,3) i by (simp_all add: trees_def len inode_at_def)
    show ?thesis
    proof (cases "i \<in> unat ` snd ` set ?l")
      case True
      have "unat (of_nat i :: u32) = i" using of_nat_u32 [OF i, of "of_nat i"] by simp
      then have "fits E v i" using fi [OF ran [OF True]] by simp
      then show ?thesis using ino [OF p i] True t file_checks [OF l p i] by simp
    next
      case False
      then show ?thesis using ino [OF p i] file_checks [OF l p i] by simp
    qed
  qed
  have pt: "?ptrs = concat (map (\<lambda>i. tree_ptrs ?f (?n ! i)) [0..<length ?n])"
    by (rule arg_cong [where f = concat]) (rule checked_ptrs [OF l r c])
  have dl: "length (i_direct (?n ! i)) = DENYFS_DIRECT_BLOCKS" if "i < length ?n" for i
    using loadable_inode(2) [OF l, of i] that by (simp add: len inode_at_def)
  have "owned ?f ?n (used v) \<longleftrightarrow> distinct ?ptrs \<and> unat ` set ?ptrs = used v"
    unfolding pt by (rule owned_list) (rule dl)
  then have ps: "distinct ?ptrs" "unat ` set ?ptrs = used v" using fs(1) by blast+
  have "card (unat ` set ?ptrs) = card (set ?ptrs)"
    by (rule card_image) (auto simp: inj_on_def dest: unsigned_word_eqI)
  then have cu: "card (used v) = length ?ptrs" using ps distinct_card [OF ps(1)] by simp
  have va: "list_all valid_dirent (block_entries ?f (i_direct ?r))"
    using rt by (simp add: root_ok_def dir_blocks_ok_def list_all_iff)
  have rng: "\<And>a i. (a, i) \<in> set ?l \<Longrightarrow> 0 < unat i \<and> unat i < DENYFS_MAX_INODES"
    using valid_live [OF va] by (simp add: listing_def)
  have oc: "occupied v i \<longleftrightarrow> i = 0 \<or> i \<in> unat ` snd ` set ?l" if i: "i < DENYFS_MAX_INODES" for i
  proof (cases "i = 0")
    case True
    then show ?thesis using r ty by (simp add: occupied_def root_inode_ok_def)
  next
    case False
    then have "if i \<in> unat ` snd ` set ?l then i_type (inode_at v i) = DENYFS_ITYPE_FILE
        else i_type (inode_at v i) = DENYFS_ITYPE_FREE"
      using ino [of i] i by (cases "i \<in> unat ` snd ` set ?l") simp_all
    then show ?thesis using False ty unfolding occupied_def by presburger
  qed
  have n: "length (filter (occupied v) ?is) = 1 + length ?l" "1 + length ?l \<le> DENYFS_MAX_INODES"
    by (rule occupied_count [OF oc rng ds(2)]; assumption)+
  have ft: "unat (sb_free_inodes (v_sb v)) + length ?l + 1 = DENYFS_MAX_INODES" using so by (simp add: sound_def)
  have "counters_ok v (length ?ptrs) (length (filter (occupied v) ?is))"
    using re w(2) cu n ft wf(2,7) [OF w(1)] by (subst counters_iff) (simp_all add: bitmap_inv_def)
  moreover have "listed_ok v ?l ([], [])"
  proof -
    have "i_type (inode_at v (unat i)) = DENYFS_ITYPE_FILE" if e: "(name, i) \<in> set ?l" for name i
    proof -
      have "unat i \<in> unat ` snd ` set ?l" using e by force
      then show ?thesis using ino rng [OF e] by presburger
    qed
    then show ?thesis using ds n(2) by (auto simp: listed_ok_def list_all_iff)
  qed
  moreover have "(i_type (inode_at v i) = DENYFS_ITYPE_FILE) = (i \<in> unat ` snd ` set ?l)"
    if "0 < i" "i < DENYFS_MAX_INODES" for i
    using ino [OF that] ty by presburger
  ultimately show ?thesis
    unfolding accepts_def Let_def using r c ps va by (simp add: list_all_iff)
qed

text \<open>Both directions, for the program.\<close>

theorem validate_consistent:
  assumes "ready E v" "wf v" "small_volume v" "clean_synced E v" "e_alloc E Claimed_buffer"
  shows "validate_loaded_metadata E v = (consistent E v, v)"
proof -
  have l: "loadable E v" using assms(1,2) by (simp add: loadable_def)
  have "accepts E v = consistent E v"
    using accepts_sound [OF l assms(3,4)] consistent_accepts by blast
  then show ?thesis using validate_accepts [OF l assms(5)] by simp
qed

end
