(* ===== verification/Loading.thy ===== *)
theory Loading
  imports Census
begin

text \<open>
  Loading a volume (\<open>load_volume\<close>, the part of \<open>denyfs_vol_open\<close> of \<open>src/src/fs.c\<close> after a header has been
  chosen) only reads, so the protection that an outer mount has already been given makes no difference:
  \<open>bare v\<close> is \<open>v\<close> without it, and every step commutes with \<open>bare\<close>. The last section traces a mount back to the
  header that AES-GCM has authenticated.
\<close>

definition bare :: "volume \<Rightarrow> volume" where
  "bare v = v\<lparr>v_protect := False\<rparr>"

lemma bare_fields [simp]:
  "v_file (bare v) = v_file v" "v_key (bare v) = v_key v" "v_hkey (bare v) = v_hkey v" "v_size (bare v) = v_size v"
  "v_sb (bare v) = v_sb v" "v_bitmap (bare v) = v_bitmap v" "v_dirty (bare v) = v_dirty v"
  "v_inodes (bare v) = v_inodes v" "v_start (bare v) = v_start v" "\<not> v_protect (bare v)"
  by (simp_all add: bare_def)

lemma bare_updates [simp]:
  "(bare v)\<lparr>v_file := f\<rparr> = bare (v\<lparr>v_file := f\<rparr>)" "(bare v)\<lparr>v_sb := sb\<rparr> = bare (v\<lparr>v_sb := sb\<rparr>)"
  "(bare v)\<lparr>v_bitmap := bm\<rparr> = bare (v\<lparr>v_bitmap := bm\<rparr>)" "(bare v)\<lparr>v_dirty := d\<rparr> = bare (v\<lparr>v_dirty := d\<rparr>)"
  "(bare v)\<lparr>v_inodes := n\<rparr> = bare (v\<lparr>v_inodes := n\<rparr>)"
  by (simp_all add: bare_def)

lemma bare_views [simp]:
  "inode_at (bare v) i = inode_at v i" "cells E (bare v) = cells E v" "used (bare v) = used v" "pool (bare v) = pool v"
  "vol_blocks (bare v) = vol_blocks v" "\<not> blocked (bare v) b"
  by (simp_all add: inode_at_def cells_def used_def pool_def vol_blocks_def blocked_def fun_eq_iff)

lemma bare_preds [simp]:
  "wf (bare v) = wf v" "small_volume (bare v) = small_volume v" "clean_synced E (bare v) = clean_synced E v"
  "synced E (bare v) = synced E v" "bitmap_inv (bare v) = bitmap_inv v" "fits E (bare v) i = fits E v i"
  "dir E (bare v) = dir E v" "vol_geom (bare v) = vol_geom v"
  by (simp_all add: wf_def inodes_ok_def small_volume_def clean_synced_def synced_def bitmap_on_disk_def
      inodes_on_disk_def bitmap_inv_def fits_def dir_def vol_geom_def)

lemma bare_read_block: "read_block E (bare v) b = map_prod id bare (read_block E v b)"
  by (simp add: read_block_def Let_def split: prod.split option.split)

lemma bare_read_sectors: "read_sectors E (bare v) base buf is = map_prod id bare (read_sectors E v base buf is)"
  by (induction "is" arbitrary: v buf) (simp_all add: bare_read_block split: prod.split sum.split)

lemma bare_read_table: "read_pointer_table E (bare v) t = map_prod id bare (read_pointer_table E v t)"
  by (simp add: read_pointer_table_def bare_read_block split: prod.split sum.split)

lemma bare_claim_block [simp]: "claim_metadata_block (bare v) c b = claim_metadata_block v c b"
  by (simp add: claim_metadata_block_def)

lemma bare_claim_direct [simp]: "claim_direct (bare v) ino n i bs st = claim_direct v ino n i bs st"
  by (induction v ino n i bs st rule: claim_direct.induct) (auto split: option.split)

lemma bare_claim_pointers [simp]: "claim_pointers (bare v) n l bs st = claim_pointers v n l bs st"
  by (induction v n l bs st rule: claim_pointers.induct) (auto split: option.split)

lemma bare_claim_table: "claim_table E (bare v) n l t c = map_prod id bare (claim_table E v n l t c)"
  by (simp add: claim_table_def bare_read_table split: prod.split sum.split option.split)

lemma bare_claim_children: "claim_children E (bare v) n i cs st = map_prod id bare (claim_children E v n i cs st)"
proof (induction cs arbitrary: v i st)
  case (Cons x cs)
  obtain a b d where st: "st = (a, b, d)" by (cases st)
  show ?case unfolding st using Cons by (simp add: Let_def bare_claim_table split: prod.split option.split)
qed simp

lemma bare_claim_single: "claim_single E (bare v) ino n st = map_prod id bare (claim_single E v ino n st)"
  by (simp add: claim_single_def Let_def bare_claim_table split: prod.split option.split)

lemma bare_claim_double: "claim_double E (bare v) ino n st = map_prod id bare (claim_double E v ino n st)"
  by (simp add: claim_double_def Let_def bare_read_table bare_claim_children split: prod.split option.split sum.split)

lemma bare_validate_inode: "validate_inode E (bare v) ino c = map_prod id bare (validate_inode E v ino c)"
  by (simp add: validate_inode_def Let_def bare_claim_single bare_claim_double split: prod.split option.split)

lemma bare_validate_inodes: "validate_inodes E (bare v) is st = map_prod id bare (validate_inodes E v is st)"
proof (induction "is" arbitrary: v st)
  case (Cons i "is")
  obtain a b where st: "st = (a, b)" by (cases st)
  show ?case unfolding st using Cons by (simp add: bare_validate_inode split: prod.split option.split)
qed simp

lemma bare_check_entries [simp]: "check_entries (bare v) es st = check_entries v es st"
  by (induction v es st rule: check_entries.induct) (simp_all add: Let_def)

lemma bare_check_dir_blocks: "check_dir_blocks E (bare v) bs st = map_prod id bare (check_dir_blocks E v bs st)"
  by (induction bs arbitrary: v st) (simp_all add: bare_read_block split: prod.split sum.split option.split)

lemma bare_validate: "validate_loaded_metadata E (bare v) = map_prod id bare (validate_loaded_metadata E v)"
  by (simp add: validate_loaded_metadata_def Let_def bare_validate_inodes bare_check_dir_blocks counters_ok_def
      split: prod.split option.split)

lemma bare_load_bitmap: "load_bitmap E (bare v) = map_option bare (load_bitmap E v)"
  by (simp add: load_bitmap_def Let_def bare_read_sectors split: prod.split option.split)

lemma bare_load_inodes: "load_inodes E (bare v) = map_option bare (load_inodes E v)"
  by (simp add: load_inodes_def bare_read_sectors split: prod.split option.split)

lemma bare_load_volume: "load_volume E (bare v) = map_option bare (load_volume E v)"
  by (simp add: load_volume_def Let_def bare_read_block bare_load_bitmap bare_load_inodes bare_validate
      split: prod.split option.split sum.split)

section \<open>The header behind a mount\<close>

text \<open>The header of the mounted volume, and the bytes of it that the library has authenticated.\<close>

definition header_of :: "bytes \<Rightarrow> bool \<Rightarrow> header_disk" where
  "header_of bs hidden = (if hidden then hidden_header_of bs else header_dec (slice 0 HEADER_SIZE bs))"

lemma vol_open_header:
  assumes v: "vol_open E (Some f) pw hpw prot = Some v"
  obtains p where "container_ok (length (f_bytes f))" "try_header E (header_of (f_bytes f) (v_hidden v))
      (trial_key E pw (hd_salt (header_of (f_bytes f) (v_hidden v)))) = Some p"
    "v_size v = hp_volume_size p" "v_key v = hp_volume_key p" "v_hkey v = hp_hmac_key p"
proof -
  obtain ok0 f0 ok1 f1 ob f2 ok3 f3 hb f4 where s: "fseek f = (ok0, f0)" "fseek f0 = (ok1, f1)"
    "fread f1 0 HEADER_SIZE = (ob, f2)" "fseek f2 = (ok3, f3)"
    "fread f3 (unat (hidden_header_pos (length (f_bytes f0)))) HEADER_SIZE = (hb, f4)"
    by (metis prod.exhaust)
  have b: "f_bytes f0 = f_bytes f" "f_bytes f1 = f_bytes f" "f_bytes f3 = f_bytes f"
    using fseek_bytes [OF s(1)] fseek_bytes [OF s(2)] fread_bytes [OF s(3)] fseek_bytes [OF s(4)] by simp_all
  from v s b have l: "container_ok (length (f_bytes f))" "length ob = HEADER_SIZE" "length hb = HEADER_SIZE"
    by (auto simp: vol_open_def Let_def container_ok_def split: if_splits)
  have h: "header_dec ob = header_of (f_bytes f) False" "header_dec hb = header_of (f_bytes f) True"
    using fread_full [OF s(3) l(2)] fread_full [OF s(5) l(3)]
    by (simp_all add: b header_of_def hidden_header_of_def unat_hidden_header_pos [OF l(1)])
  let ?hdr = "\<lambda>d. try_header E d (trial_key E pw (hd_salt d))"
  obtain x y where x: "select_volume E f4 (hidden_header_pos (length (f_bytes f0))) (?hdr (header_of (f_bytes f) False))
      (?hdr (header_of (f_bytes f) True)) = Some x" "load_volume E y = Some v"
    "y = x \<or> protect_volume E x (header_dec hb) (length (f_bytes f0)) hpw = Some y"
    using v s l by (auto simp: vol_open_def Let_def h [symmetric] split: if_splits option.splits)
  obtain p where p: "?hdr (header_of (f_bytes f) (v_hidden x)) = Some p" "v_size x = hp_volume_size p"
    "v_key x = hp_volume_key p" "v_hkey x = hp_hmac_key p"
    using x(1) by (auto simp: select_volume_def blank_volume_def Let_def split: option.splits if_splits)
  have "v_size v = v_size x" "v_key v = v_key x" "v_hkey v = v_hkey x" "v_hidden v = v_hidden x"
    using x(3) load_volume_place [OF x(2)]
    by (auto simp: same_place_def same_config_def protect_volume_def split: option.splits if_splits)
  with p l(1) that show ?thesis by simp
qed

lemma length_header_ciphertext:
  "container_ok (length bs) \<Longrightarrow> length (hd_ciphertext (header_of bs hidden)) = CIPHERTEXT_SIZE"
  by (simp add: container_ok_def header_of_def hidden_header_of_def header_dec_def crypto_sizes
      DENYFS_HIDDEN_HEADER_OFFSET_FROM_EOF_def min_def)

text \<open>Documented behaviour: GCM is a stream mode, the plaintext is as long as the ciphertext.\<close>

definition gcm_keeps_length :: "env \<Rightarrow> bool" where
  "gcm_keeps_length E \<longleftrightarrow> (\<forall>key iv ct tag pt ok. e_gcm_decrypt E key iv ct tag = Some (pt, ok) \<longrightarrow> length pt = length ct)"

lemma plain_keeps_length: "gcm_keeps_length plain_env"
  by (simp add: gcm_keeps_length_def)

lemma mount_header:
  assumes v: "vol_open E (Some f) pw hpw prot = Some v" and len: "gcm_keeps_length E"
  defines "d \<equiv> header_of (f_bytes f) (v_hidden v)"
  shows "\<exists>pt. e_gcm_decrypt E (trial_key E pw (hd_salt d)) (hd_iv d) (hd_ciphertext d) (hd_tag d) = Some (pt, True) \<and>
    le_dec (slice 0 8 pt) = DENYFS_HEADER_MAGIC \<and> v_size v = le_dec (slice 8 8 pt) \<and>
    v_key v = slice 32 64 pt \<and> v_hkey v = slice 96 32 pt"
proof -
  obtain p where p: "container_ok (length (f_bytes f))" "try_header E d (trial_key E pw (hd_salt d)) = Some p"
    "v_size v = hp_volume_size p" "v_key v = hp_volume_key p" "v_hkey v = hp_hmac_key p"
    using vol_open_header [OF v] unfolding d_def by blast
  obtain pt where pt: "e_gcm_decrypt E (trial_key E pw (hd_salt d)) (hd_iv d) (hd_ciphertext d) (hd_tag d) = Some (pt, True)"
    "p = payload_dec (overwrite 0 pt (payload_enc zero_payload))" "hp_magic p = DENYFS_HEADER_MAGIC"
    using p(2) by (auto simp: try_header_def decrypt_header_def split: option.splits if_splits prod.splits)
  have "length pt = CIPHERTEXT_SIZE"
    using len pt(1) length_header_ciphertext [OF p(1)] unfolding d_def gcm_keeps_length_def by metis
  then have "slice a n (overwrite 0 pt y) = slice a n pt" if "a + n \<le> 128" for a n and y :: bytes
    using that by (simp add: overwrite_def slice_append_left crypto_sizes)
  then show ?thesis using pt p(3-5) by (intro exI [of _ pt]) (simp add: payload_dec_def)
qed


end
