(* ===== verification/Durable.thy ===== *)
theory Durable
  imports Loading
begin

text \<open>
  Unmounting and mounting again: \<open>destroy\<close> of \<open>src/src/fuse_ops.c\<close> flushes and closes the volume, and
  \<open>denyfs_vol_open\<close> of \<open>src/src/fs.c\<close> on the file that is left finds the same files under the same
  passwords, or nothing at all when a write was cut short. Every volume that opens is consistent. A block that no
  file uses can be overwritten without harm. The metadata region stays marked in the bitmap, which is what \<open>consistent\<close> asks beyond the
  invariant.
\<close>

section \<open>The reserved blocks stay reserved\<close>

definition keeps_reserved :: "volume \<Rightarrow> volume \<Rightarrow> bool" where
  "keeps_reserved v w \<longleftrightarrow> data_start w = data_start v \<and>
     (\<forall>b < data_start v. bitmap_test (v_bitmap v) b \<longrightarrow> bitmap_test (v_bitmap w) b)"

lemma bitmap_set_keeps: "bitmap_test bm j \<Longrightarrow> bitmap_test (bitmap_set bm i) j"
proof (cases "i < 8 * length bm")
  case False
  then have "\<not> i div 8 < length bm" by simp
  then have "bitmap_set bm i = bm" by (simp add: bitmap_set_def list_update_beyond)
  then show "bitmap_test bm j \<Longrightarrow> bitmap_test (bitmap_set bm i) j" by simp
qed (simp add: bitmap_test_set)

lemma bitmap_clear_keeps: "bitmap_test bm j \<Longrightarrow> j \<noteq> i \<Longrightarrow> bitmap_test (bitmap_clear bm i) j"
proof (cases "i < 8 * length bm")
  case False
  then have "\<not> i div 8 < length bm" by simp
  then have "bitmap_clear bm i = bm" by (simp add: bitmap_clear_def list_update_beyond)
  then show "bitmap_test bm j \<Longrightarrow> bitmap_test (bitmap_clear bm i) j" by simp
qed (simp add: bitmap_test_clear)

lemma keeps_reserved_same:
  "v_sb w = v_sb v \<Longrightarrow> v_bitmap w = v_bitmap v \<Longrightarrow> keeps_reserved v w"
  by (simp add: keeps_reserved_def)

interpretation rs: vol_frame E keeps_reserved for E
proof
  fix u v w show "keeps_reserved u v \<Longrightarrow> keeps_reserved v w \<Longrightarrow> keeps_reserved u w"
    by (auto simp: keeps_reserved_def)
next
  fix v b d
  show "keeps_reserved v (snd (read_block E v b))"
    using ro.R_read [of v E b] by (intro keeps_reserved_same) (auto simp: unchanged_def)
  show "keeps_reserved v (snd (write_block E v b d))"
    by (intro keeps_reserved_same) (simp_all add: write_block_def Let_def split: prod.split option.split)
next
  fix v show "keeps_reserved v (snd (alloc_block v))"
    by (auto simp: keeps_reserved_def alloc_block_def bitmap_set_keeps split: option.split)
next
  fix v b show "keeps_reserved v (free_block v b)"
    by (auto simp: keeps_reserved_def free_block_def word_le_nat_alt bitmap_clear_keeps)
qed (auto simp: keeps_reserved_def upd_inode_def)

section \<open>Sessions\<close>

lemma serve_run: "serve E now v q = (r, w) \<Longrightarrow> fuse_run E v w"
proof (cases q)
  case (MkFile x)
  then show "serve E now v q = (r, w) \<Longrightarrow> fuse_run E v w"
    by (auto split: prod.splits sum.splits intro: f_more f_create f_stop)
next
  case (RmFile x)
  then show "serve E now v q = (r, w) \<Longrightarrow> fuse_run E v w"
    by (auto split: prod.splits sum.splits intro: f_more f_unlink f_stop)
next
  case (GetData x n off)
  then show "serve E now v q = (r, w) \<Longrightarrow> fuse_run E v w"
    by (auto split: prod.splits sum.splits intro: f_more f_read f_stop)
next
  case (PutData x b off)
  then show "serve E now v q = (r, w) \<Longrightarrow> fuse_run E v w"
    by (auto split: prod.splits sum.splits intro: f_more f_write f_stop)
next
  case (SetSize x n)
  then show "serve E now v q = (r, w) \<Longrightarrow> fuse_run E v w"
    by (auto split: prod.splits sum.splits intro: f_more f_truncate f_stop)
next
  case (GetSize x)
  then show "serve E now v q = (r, w) \<Longrightarrow> fuse_run E v w"
    by (auto split: prod.splits sum.splits intro: f_more f_getattr f_stop)
qed

lemma fuse_run_trans: "fuse_run E u v \<Longrightarrow> fuse_run E v w \<Longrightarrow> fuse_run E u w"
  by (induction rule: fuse_run.induct) (auto intro: f_more)

lemma served_run: "runs (served E) v xs w \<Longrightarrow> fuse_run E v w"
proof (induction xs arbitrary: v)
  case Nil
  then show ?case by (simp add: f_stop)
next
  case (Cons x xs)
  then obtain u where u: "served E v x u" "runs (served E) u xs w" by auto
  then have "fuse_run E v u" by (auto simp: served_def serve_run split: prod.splits)
  then show ?case using fuse_run_trans Cons.IH [OF u(2)] by blast
qed

lemma fuse_run_frames:
  assumes "fuse_run E v w"
  shows "keeps v w" "keeps_reserved v w"
proof -
  obtain cs where "vol_run E v cs w" using fuse_run_run [OF assms] by blast
  then show "keeps v w" "keeps_reserved v w" by (rule kp.run, rule rs.run)
qed

section \<open>Unmounting\<close>

text \<open>A volume whose memory is on disk: what \<open>load_volume\<close> reads back.\<close>

definition settled :: "env \<Rightarrow> volume \<Rightarrow> bool" where
  "settled E u \<longleftrightarrow> ready E u \<and> wf u \<and> small_volume u \<and> clean_synced E u \<and> synced E u \<and> consistent E u \<and>
     v_dirty u = replicate (length (v_dirty u)) 0 \<and>
     compute_hmac E (v_hkey u) (v_bitmap u) = Some (sb_bitmap_hmac (v_sb u))"

lemma settledI:
  "sound E u \<Longrightarrow> synced E u \<Longrightarrow> v_dirty u = replicate (length (v_dirty u)) 0 \<Longrightarrow>
   compute_hmac E (v_hkey u) (v_bitmap u) = Some (sb_bitmap_hmac (v_sb u)) \<Longrightarrow> consistent E u \<Longrightarrow> settled E u"
  by (simp add: settled_def sound_def core_def)

lemma unmount_sound:
  assumes s: "sound E v" and h: "hmac_works E"
  obtains u where "vol_flush E v = (Inr (), u)" "sound E u" "synced E u" "dir E u = dir E v" "others_same E v u {}"
    "v_dirty u = replicate (length (v_dirty u)) 0" "v_bitmap u = v_bitmap v" "data_start u = data_start v"
    "compute_hmac E (v_hkey u) (v_bitmap u) = Some (sb_bitmap_hmac (v_sb u))"
    "\<forall>j < DENYFS_MAX_INODES. \<forall>l < DENYFS_MAX_FILE_BLOCKS.
       file_block (cells E u) (inode_at u j) l = file_block (cells E v) (inode_at v j) l"
proof -
  obtain u where u: "vol_flush E v = (Inr (), u)" "sound E u" "synced E u" "dir E u = dir E v" "others_same E v u {}"
    "\<forall>j < DENYFS_MAX_INODES. \<forall>l < DENYFS_MAX_FILE_BLOCKS.
       file_block (cells E u) (inode_at u j) l = file_block (cells E v) (inode_at v j) l"
    using flush_sound [OF s h] by blast
  have cr: "ready E v" "wf v" "clean_synced E v" using s by (simp_all add: sound_def core_def)
  obtain hm where hm: "compute_hmac E (v_hkey v) (v_bitmap v) = Some hm" using h by (auto simp: hmac_works_def)
  obtain f where f: "u = v\<lparr>v_file := f, v_sb := (v_sb v)\<lparr>sb_bitmap_hmac := hm\<rparr>, v_dirty := replicate (length (v_dirty v)) 0\<rparr>"
    using flush_synced [OF cr hm] u(1) by auto
  have "v_dirty u = replicate (length (v_dirty u)) 0" "v_bitmap u = v_bitmap v" "data_start u = data_start v"
    "compute_hmac E (v_hkey u) (v_bitmap u) = Some (sb_bitmap_hmac (v_sb u))"
    using hm by (simp_all add: f)
  with u that show ?thesis by blast
qed

lemma unmount_settled:
  assumes v: "store E v" and h: "hmac_works E" and r: "\<forall>b < data_start v. bitmap_test (v_bitmap v) b"
  shows "\<exists>u. vol_flush E v = (Inr (), u) \<and> store E u \<and> settled E u \<and> files E u = files E v"
proof -
  note s = store_sound [OF v]
  obtain u where u: "vol_flush E v = (Inr (), u)" "sound E u" "synced E u" "dir E u = dir E v" "others_same E v u {}"
    "v_dirty u = replicate (length (v_dirty u)) 0" "v_bitmap u = v_bitmap v" "data_start u = data_start v"
    "compute_hmac E (v_hkey u) (v_bitmap u) = Some (sb_bitmap_hmac (v_sb u))"
    "\<forall>j < DENYFS_MAX_INODES. \<forall>l < DENYFS_MAX_FILE_BLOCKS.
       file_block (cells E u) (inode_at u j) l = file_block (cells E v) (inode_at v j) l"
    by (rule unmount_sound [OF s h])
  have o: "same_file E v u (unat j)" if "dir E v a = Some j" for a j
    using u(5) dir_file(2) [OF s that] by (simp add: others_same_def)
  have d: "dir E u = (dir E v)(name := dir E v name)" for name using u(4) by simp
  have st: "store E u"
  proof (rule store_change [OF v u(2) d])
    show "\<And>i. dir E v [] = Some i \<Longrightarrow> tail_zero E u (unat i) \<and> fits E u (unat i)"
      using same_file_facts(1,2) [OF o] store_file [OF v] by simp
  qed (use o in blast)
  have fl: "files E u = files E v"
  proof
    fix a show "files E u a = files E v a"
      using sound_same_contents [OF s dir_file(2) [OF s] o] by (cases "dir E v a") (simp_all add: files_def u(4))
  qed
  have "\<forall>b < data_start u. bitmap_test (v_bitmap u) b" using r by (simp add: u(7,8))
  then have "consistent E u" using st by (auto simp: consistent_def store_def)
  then have "settled E u" using settledI [OF u(2,3,6,9)] by blast
  then show ?thesis using u(1) st fl by blast
qed

text \<open>What \<open>denyfs_vol_open\<close> makes of a flushed volume: it is mounted exactly when it is consistent.\<close>

lemma load_flushed:
  assumes u: "sound E u" "synced E u" "v_dirty u = replicate (length (v_dirty u)) 0"
    "compute_hmac E (v_hkey u) (v_bitmap u) = Some (sb_bitmap_hmac (v_sb u))"
    and k: "skeleton u s" and al: "e_alloc E Bitmap_buffer" "e_alloc E Dirty_buffer" "e_alloc E Claimed_buffer"
  shows "load_volume E s = (if consistent E u then Some u else None)"
proof -
  have e: "ready E u" "wf u" "small_volume u" "clean_synced E u" using u(1) by (simp_all add: sound_def core_def)
  have z: "u\<lparr>v_dirty := replicate (length (v_dirty u)) 0\<rparr> = u" using u(3) by (metis volume.surjective volume.update_convs(7))
  show ?thesis using load_synced [OF e(1,2) u(2) k u(4) al(1,2)] validate_consistent [OF e al(3)] by (simp add: z)
qed

section \<open>Opening again\<close>

text \<open>Selecting a volume does not look at the contents of the stream.\<close>

lemma select_volume_file:
  "select_volume E g p a b = map_option (\<lambda>v. v\<lparr>v_file := g\<rparr>) (select_volume E f p a b)"
  by (auto simp: select_volume_def blank_volume_def Let_def split: option.split)

lemma protect_volume_file:
  "protect_volume E (v\<lparr>v_file := g\<rparr>) disk c hpw = map_option (\<lambda>w. w\<lparr>v_file := g\<rparr>) (protect_volume E v disk c hpw)"
  by (simp add: protect_volume_def split: option.split)

lemma select_volume_blank:
  "select_volume E f p a b = Some v \<Longrightarrow> v_file v = f \<and> length (inodes_enc (v_inodes v)) = 2 * SECTOR_SIZE"
  by (auto simp: select_volume_def blank_volume_def Let_def inodes_zero_length split: option.splits if_splits)

lemma protect_volume_blank:
  "protect_volume E v disk c hpw = Some w \<Longrightarrow> v_file w = v_file v \<and> v_inodes w = v_inodes v"
  by (auto simp: protect_volume_def split: option.splits if_splits)

text \<open>The volume struct just before its metadata is loaded.\<close>

definition before_load :: "env \<Rightarrow> cfile \<Rightarrow> bytes \<Rightarrow> bytes option \<Rightarrow> bool \<Rightarrow> volume option" where
  "before_load E f pw hpw protect =
    (let c = length (f_bytes f); outer = header_dec (slice 0 HEADER_SIZE (f_bytes f));
         hidden = hidden_header_of (f_bytes f) in
     case select_volume E f (hidden_header_pos c) (try_header E outer (trial_key E pw (hd_salt outer)))
        (try_header E hidden (trial_key E pw (hd_salt hidden))) of
       None \<Rightarrow> None
     | Some v \<Rightarrow> if protect \<and> \<not> v_hidden v then protect_volume E v hidden c hpw else Some v)"

lemma vol_open_before:
  assumes "libs_work E" "f_faults f = []" "container_ok (length (f_bytes f))"
  shows "vol_open E (Some f) pw hpw protect =
    (case before_load E f pw hpw protect of None \<Rightarrow> None | Some w \<Rightarrow> load_volume E w)"
  unfolding vol_open_steps [OF assms] before_load_def Let_def by (auto split: option.split)

lemma before_load_blank:
  "before_load E f pw hpw protect = Some v0 \<Longrightarrow> v_file v0 = f \<and> length (inodes_enc (v_inodes v0)) = 2 * SECTOR_SIZE"
  by (auto simp: before_load_def Let_def dest!: select_volume_blank protect_volume_blank split: option.splits if_splits)

lemma before_load_file:
  assumes "length (f_bytes g) = length (f_bytes f)" "slice 0 HEADER_SIZE (f_bytes g) = slice 0 HEADER_SIZE (f_bytes f)"
    and "hidden_header_of (f_bytes g) = hidden_header_of (f_bytes f)"
  shows "before_load E g pw hpw protect = map_option (\<lambda>v. v\<lparr>v_file := g\<rparr>) (before_load E f pw hpw protect)"
proof -
  show ?thesis
    unfolding before_load_def Let_def assms select_volume_file [of E g _ _ _ f]
    by (auto simp: protect_volume_file split: option.split)
qed

text \<open>The container after a session: what \<open>denyfs_vol_open\<close> makes of it.\<close>

lemma open_elsewhere:
  assumes libs: "libs_work E" and f: "f_faults f = []" and v: "vol_open E (Some f) pw hpw protect = Some v"
    and u: "ready E u" "same_config v u" and len: "length (f_bytes (v_file u)) = length (f_bytes f)"
    and h1: "slice 0 HEADER_SIZE (f_bytes (v_file u)) = slice 0 HEADER_SIZE (f_bytes f)"
    and h2: "hidden_header_of (f_bytes (v_file u)) = hidden_header_of (f_bytes f)"
  shows "\<exists>s. skeleton u s \<and> vol_open E (Some (v_file u)) pw hpw protect = load_volume E s"
proof -
  let ?c = "length (f_bytes f)" and ?g = "v_file u"
  from v obtain x where x: "container_ok ?c" by (rule vol_open_SomeE)
  obtain v0 where v0: "before_load E f pw hpw protect = Some v0" "load_volume E v0 = Some v"
    using v unfolding vol_open_before [OF libs f x, of pw hpw protect] by (auto split: option.splits)
  note b = before_load_blank [OF v0(1)]
  have "same_config v0 v" using load_volume_place [OF v0(2)] by (simp add: same_place_def)
  then have "v0\<lparr>v_file := ?g\<rparr> =
      u\<lparr>v_sb := v_sb v0, v_bitmap := v_bitmap v0, v_dirty := v_dirty v0, v_inodes := v_inodes v0\<rparr>"
    using u(2) by (simp add: same_config_def)
  with b have sk: "skeleton u (v0\<lparr>v_file := ?g\<rparr>)" unfolding skeleton_def by blast
  have gf: "f_faults ?g = []" "container_ok (length (f_bytes ?g))" using u(1) x len by (simp_all add: ready_def)
  show ?thesis
    unfolding vol_open_before [OF libs gf] before_load_file [OF len h1 h2] v0(1) using sk by (intro exI) simp
qed

lemma hidden_header_cong:
  assumes "length bs = length cs"
    and "slice (length cs - DENYFS_HIDDEN_HEADER_OFFSET_FROM_EOF) HEADER_SIZE bs =
      slice (length cs - DENYFS_HIDDEN_HEADER_OFFSET_FROM_EOF) HEADER_SIZE cs"
  shows "hidden_header_of bs = hidden_header_of cs"
  using assms by (simp add: hidden_header_of_def)

text \<open>The headers lie outside the region of the volume, so a session does not change them.\<close>

lemma keeps_headers:
  assumes v: "vol_open E (Some f) pw hpw protect = Some v" and k: "keeps v u"
  shows "length (f_bytes (v_file u)) = length (f_bytes f)"
    "slice 0 HEADER_SIZE (f_bytes (v_file u)) = slice 0 HEADER_SIZE (f_bytes f)"
    "hidden_header_of (f_bytes (v_file u)) = hidden_header_of (f_bytes f)"
proof -
  let ?c = "length (f_bytes f)" and ?g = "v_file u"
  from v obtain x where x: "container_ok ?c" "placed ?c x" "consumes f (v_file x)" "load_volume E x = Some v"
    by (rule vol_open_SomeE)
  have pl: "placed ?c v" by (rule load_placed [OF x(4,2)])
  have sp: "f_bytes (v_file v) = f_bytes f"
    using load_volume_place [OF x(4)] x(3) by (auto simp: same_place_def dest!: consumes_bytes)
  have gm: "vol_geom v" and rg: "HEADER_SIZE \<le> unat (v_start v)"
    "unat (v_start v) + unat (v_size v) \<le> ?c - DENYFS_HIDDEN_HEADER_OFFSET_FROM_EOF"
    using pl by (auto simp: placed_def split: if_splits)
  have co: "DENYFS_HIDDEN_HEADER_OFFSET_FROM_EOF + HEADER_SIZE \<le> ?c" using x(1) by (simp add: container_ok_def)
  show len: "length (f_bytes ?g) = ?c"
    using k gm rg(2) by (auto simp: keeps_def extends_def sp)
  show "slice 0 HEADER_SIZE (f_bytes ?g) = slice 0 HEADER_SIZE (f_bytes f)"
    using keeps_slice [OF k gm, of 0 HEADER_SIZE] co rg by (simp add: sp volume_region_def)
  have hh: "HEADER_SIZE \<le> DENYFS_HIDDEN_HEADER_OFFSET_FROM_EOF"
    by (simp add: HEADER_SIZE_def DENYFS_HIDDEN_HEADER_OFFSET_FROM_EOF_def)
  have "slice (?c - DENYFS_HIDDEN_HEADER_OFFSET_FROM_EOF) HEADER_SIZE (f_bytes ?g) =
      slice (?c - DENYFS_HIDDEN_HEADER_OFFSET_FROM_EOF) HEADER_SIZE (f_bytes f)"
    using keeps_slice [OF k gm, of "?c - DENYFS_HIDDEN_HEADER_OFFSET_FROM_EOF" HEADER_SIZE] co rg hh
    by (simp add: sp volume_region_def)
  then show "hidden_header_of (f_bytes ?g) = hidden_header_of (f_bytes f)"
    by (rule hidden_header_cong [OF len])
qed

lemma open_loads:
  assumes "libs_work E" "f_faults f = []" "vol_open E (Some f) pw hpw protect = Some v" "keeps v u" "ready E u"
  shows "\<exists>s. skeleton u s \<and> vol_open E (Some (v_file u)) pw hpw protect = load_volume E s"
  using open_elsewhere [OF assms(1-3,5) _ keeps_headers [OF assms(3,4)]] assms(4) by (simp add: keeps_def)

lemma open_again:
  assumes libs: "libs_work E" and f: "f_faults f = []" and v: "vol_open E (Some f) pw hpw protect = Some v"
    and k: "keeps v u" and u: "settled E u"
  shows "vol_open E (Some (v_file u)) pw hpw protect = Some u"
proof -
  have e: "ready E u" "sound E u" "synced E u" "v_dirty u = replicate (length (v_dirty u)) 0"
    "compute_hmac E (v_hkey u) (v_bitmap u) = Some (sb_bitmap_hmac (v_sb u))" "consistent E u"
    using u by (auto simp: settled_def consistent_def)
  have al: "e_alloc E z" for z using libs by (simp add: libs_work_def)
  show ?thesis using open_loads [OF libs f v k e(1)] load_flushed [OF e(2-5) _ al al al] e(6) by auto
qed

text \<open>
  After the final flush: the container opens again exactly when the volume is consistent, in particular only
  if no listed file has a block beyond its end.
\<close>

lemma reopen_decides:
  assumes libs: "libs_work E" and f: "f_faults f = []" and v: "vol_open E (Some f) pw hpw protect = Some v"
    and k: "keeps v w" and s: "sound E w"
  obtains u where "vol_flush E w = (Inr (), u)" "dir E u = dir E w" "others_same E w u {}"
    "\<forall>j < DENYFS_MAX_INODES. \<forall>l < DENYFS_MAX_FILE_BLOCKS.
       file_block (cells E u) (inode_at u j) l = file_block (cells E w) (inode_at w j) l"
    "vol_open E (Some (fuse_destroy E w)) pw hpw protect = (if consistent E u then Some u else None)"
proof -
  obtain u where u: "vol_flush E w = (Inr (), u)" "sound E u" "synced E u" "dir E u = dir E w" "others_same E w u {}"
    "v_dirty u = replicate (length (v_dirty u)) 0" "v_bitmap u = v_bitmap w" "data_start u = data_start w"
    "compute_hmac E (v_hkey u) (v_bitmap u) = Some (sb_bitmap_hmac (v_sb u))"
    "\<forall>j < DENYFS_MAX_INODES. \<forall>l < DENYFS_MAX_FILE_BLOCKS.
       file_block (cells E u) (inode_at u j) l = file_block (cells E w) (inode_at w j) l"
    by (rule unmount_sound [OF s hmac_libs [OF libs]])
  have al: "e_alloc E z" for z using libs by (simp add: libs_work_def)
  have "ready E u" using u(2) by (simp add: sound_def core_def)
  from open_loads [OF libs f v kp.chain_flush [OF u(1) k] this]
  have "vol_open E (Some (v_file u)) pw hpw protect = (if consistent E u then Some u else None)"
    using load_flushed [OF u(2,3,6,9) _ al al al] by auto
  with u(1,4,5,10) that show ?thesis by (simp add: fuse_destroy_def vol_close_def)
qed

text \<open>A mounted volume lies inside its container.\<close>

lemma opened_inside:
  assumes "vol_open E (Some f) pw hpw protect = Some v"
  shows "unat (v_start v) + unat (v_size v) \<le> length (f_bytes f)"
proof -
  from assms obtain x where "placed (length (f_bytes f)) x" "load_volume E x = Some v" by (rule vol_open_SomeE)
  then have "placed (length (f_bytes f)) v" using load_placed by blast
  then show ?thesis by (auto simp: placed_def split: if_splits)
qed

section \<open>Every opened volume is consistent\<close>

text \<open>Blocks that were read are written back unchanged.\<close>

lemma slice_join:
  "b = a + m \<Longrightarrow> slice a m xs @ slice b n xs = slice a (m + n) xs"
  "b = a + m \<Longrightarrow> slice a m xs @ slice b n xs @ r = slice a (m + n) xs @ r"
  by (simp_all add: slice_slice_append [symmetric])

lemma sb_enc_dec: "length bs = SECTOR_SIZE \<Longrightarrow> sb_enc (sb_dec bs) = bs"
  by (simp add: sb_enc_def sb_dec_def layout_sizes slice_join)

lemma inode_enc_dec: "length bs = DENYFS_INODE_SIZE \<Longrightarrow> inode_enc (inode_dec bs) = bs"
  by (simp add: inode_enc_def inode_dec_def layout_sizes slice_join)

lemma inodes_enc_dec: "length bs = DENYFS_INODE_SIZE * DENYFS_MAX_INODES \<Longrightarrow> inodes_enc (inodes_dec bs) = bs"
  unfolding inodes_dec_def inodes_enc_def by (rule concat_map_chunks) (simp_all add: inode_enc_dec)

text \<open>What \<open>load_volume\<close> makes of the cells.\<close>

definition sectors_of :: "env \<Rightarrow> volume \<Rightarrow> u32 \<Rightarrow> nat \<Rightarrow> bytes" where
  "sectors_of E v base n = concat (map (\<lambda>i. cells E v (base + of_nat i)) [0..<n])"

definition loaded :: "env \<Rightarrow> volume \<Rightarrow> volume" where
  "loaded E v = (let sb = sb_dec (cells E v 0); n = unat (sb_bitmap_blocks sb) in
     v\<lparr>v_sb := sb, v_bitmap := sectors_of E v (sb_bitmap_start sb) n, v_dirty := replicate n 0,
       v_inodes := inodes_dec (sectors_of E v (sb_inode_start sb) (unat (sb_inode_blocks sb)))\<rparr>)"

lemma sectors_of_length:
  assumes "\<And>i. i < n \<Longrightarrow> length (cells E v (base + of_nat i)) = SECTOR_SIZE"
  shows "length (sectors_of E v base n) = n * SECTOR_SIZE"
    and "i < n \<Longrightarrow> slice (i * SECTOR_SIZE) SECTOR_SIZE (sectors_of E v base n) = cells E v (base + of_nat i)"
proof -
  have l: "\<forall>i \<in> set [0..<n]. length (cells E v (base + of_nat i)) = SECTOR_SIZE" using assms by simp
  show "length (sectors_of E v base n) = n * SECTOR_SIZE"
    unfolding sectors_of_def using length_concat_map_const [OF l] by (simp add: mult.commute)
  show "i < n \<Longrightarrow> slice (i * SECTOR_SIZE) SECTOR_SIZE (sectors_of E v base n) = cells E v (base + of_nat i)"
    unfolding sectors_of_def using slice_concat_map [OF l, of i] by (simp add: mult.commute)
qed

lemma loaded_wf:
  assumes r: "ready E v" and vs: "validate_superblock (sb_dec (cells E v 0)) (v_size v)"
  shows "wf (loaded E v)" "synced E (loaded E v)" "clean_synced E (loaded E v)" "ready E (loaded E v)"
proof -
  let ?sb = "sb_dec (cells E v 0)" and ?w = "loaded E v"
  let ?n = "unat (sb_bitmap_blocks ?sb)"
  note f = validate_superblock_facts [OF vs]
  have vb: "vol_blocks v = unat (sb_total_blocks ?sb)" using f by (simp add: vol_blocks_def)
  have i2: "unat (sb_inode_blocks ?sb) = 2" using f by (simp add: inode_table_blocks_def layout_sizes DENYFS_MAX_INODES_def)
  have small: "unat (sb_total_blocks ?sb) < 2 ^ 32" using unat_less_2p [of "sb_total_blocks ?sb"] by simp
  have c0: "length (cells E v 0) = SECTOR_SIZE" using f vb by (intro bs.cells_length [OF r]) simp
  have up: "unat (x + of_nat i) = unat x + i" if "unat x + i < unat (sb_total_blocks ?sb)" "i < 2 ^ 20" for x :: u32 and i
    using that small by (intro unat_block_plus) linarith+
  have n18: "?n < 2 ^ 20"
    using f small by (simp add: SECTOR_SIZE_def)
  have ds: "unat (sb_data_start ?sb) = 1 + ?n + inode_table_blocks" "unat (sb_data_start ?sb) < unat (sb_total_blocks ?sb)"
    "sb_bitmap_start ?sb = 1" "unat (sb_inode_start ?sb) = 1 + ?n"
    using f by blast+
  have g: "1 + ?n + 2 < unat (sb_total_blocks ?sb)" "sb_bitmap_start ?sb = 1" "unat (sb_inode_start ?sb) = 1 + ?n"
    using ds by (simp_all only: inode_table_blocks_eq)
  have cb: "length (cells E v (sb_bitmap_start ?sb + of_nat i)) = SECTOR_SIZE" if i: "i < ?n" for i
  proof (rule bs.cells_length [OF r])
    have "unat ((1 :: u32) + of_nat i) = 1 + i" using up [of 1 i] i n18 g(1) by simp
    then show "unat (sb_bitmap_start ?sb + of_nat i) < vol_blocks v" unfolding vb g(2) using i g(1) by linarith
  qed
  have ci: "length (cells E v (sb_inode_start ?sb + of_nat i)) = SECTOR_SIZE" if i: "i < 2" for i
  proof (rule bs.cells_length [OF r])
    have "unat (sb_inode_start ?sb + of_nat i) = 1 + ?n + i" using up [of "sb_inode_start ?sb" i] i g by simp
    then show "unat (sb_inode_start ?sb + of_nat i) < vol_blocks v" unfolding vb using i g(1) by linarith
  qed
  note lb = sectors_of_length [of ?n E v "sb_bitmap_start ?sb", OF cb]
    and li = sectors_of_length [of 2 E v "sb_inode_start ?sb", OF ci]
  let ?buf = "sectors_of E v (sb_inode_start ?sb) 2"
  have bl: "length ?buf = DENYFS_INODE_SIZE * DENYFS_MAX_INODES" using li(1) by (simp add: layout_sizes DENYFS_MAX_INODES_def DENYFS_INODE_SIZE_def)
  have flds: "v_sb ?w = ?sb" "v_bitmap ?w = sectors_of E v (sb_bitmap_start ?sb) ?n" "v_dirty ?w = replicate ?n 0"
    "v_inodes ?w = inodes_dec ?buf" "v_size ?w = v_size v"
    by (simp_all add: loaded_def Let_def i2)
  have cl: "cells E ?w = cells E v" "vol_blocks ?w = vol_blocks v" "ready E ?w = ready E v"
    by (simp_all add: loaded_def Let_def)
  show "ready E ?w" using r cl by simp
  show "wf ?w"
    unfolding wf_def flds inodes_ok_def using vs sb_dec_ok [OF c0] lb(1) inodes_dec_ok [OF bl]
    by (simp add: inodes_dec_def)
  have bd: "bitmap_on_disk E ?w i" if "i < ?n" for i
    using lb(2) [OF _ that] that by (simp add: bitmap_on_disk_def flds cl)
  then show "clean_synced E ?w" by (simp add: clean_synced_def flds)
  have "inodes_on_disk E ?w i" if "i < 2" for i
    using li(2) [OF _ that] that by (simp add: inodes_on_disk_def flds cl inodes_enc_dec [OF bl])
  then show "synced E ?w" using bd sb_enc_dec [OF c0] by (simp add: synced_def flds cl i2)
qed

lemma load_loaded:
  assumes r: "ready E v" and i: "length (inodes_enc (v_inodes v)) = 2 * SECTOR_SIZE" and w: "load_volume E v = Some w"
    and al: "e_alloc E Bitmap_buffer" "e_alloc E Dirty_buffer" "e_alloc E Claimed_buffer"
    and sm: "vol_blocks v \<le> 2 ^ 31"
  shows "w = loaded E v" "consistent E w" "settled E w"
proof -
  from w obtain d u1 u2 u3 where l: "read_block E v 0 = (Inr d, u1)" "validate_superblock (sb_dec d) (v_size v)"
    "load_bitmap E (u1\<lparr>v_sb := sb_dec d\<rparr>) = Some u2" by (rule load_volume_SomeE)
  have "0 < vol_blocks v" using validate_superblock_facts [OF l(2)] by (simp add: vol_blocks_def)
  then have "read_block E v 0 = (Inr (cells E v 0), v)" by (intro bs.rd_ok [OF r]) simp
  then have "(Inr d :: bytes res, u1) = (Inr (cells E v 0), v)" unfolding l(1) .
  then have d: "d = cells E v 0" "u1 = v" by simp_all
  let ?sb = "sb_dec (cells E v 0)" and ?x = "loaded E v"
  note lw = loaded_wf [OF r l(2) [unfolded d(1)]]
  let ?v1 = "v\<lparr>v_sb := ?sb\<rparr>" and ?n = "unat (sb_bitmap_blocks ?sb)"
  have fl: "v_sb ?x = ?sb" "v_dirty ?x = replicate ?n 0" "v_hkey ?x = v_hkey v" "vol_blocks ?x = vol_blocks v"
    "cells E ?x = cells E v"
    by (simp_all add: loaded_def Let_def)
  from l(3) [unfolded d] obtain bm u where bm: "read_sectors E ?v1 (sb_bitmap_start (v_sb ?v1))
      (replicate (unat (sb_bitmap_blocks (v_sb ?v1)) * SECTOR_SIZE) 0) [0..<unat (sb_bitmap_blocks (v_sb ?v1))] = (Some bm, u)"
    "compute_hmac E (v_hkey ?v1) bm = Some (sb_bitmap_hmac (v_sb ?v1))"
    by (rule load_bitmap_SomeE)
  have len: "length (v_bitmap ?x) = ?n * SECTOR_SIZE" using lw(1) by (simp add: wf_def fl(1))
  have so: "sectors_ok ?x (sb_bitmap_start ?sb) (v_bitmap ?x) [0..<?n]"
    using wf_sectors_ok(1) [OF lw(1)] by (simp add: fl(1))
  have "read_sectors E ?v1 (sb_bitmap_start ?sb) (replicate (?n * SECTOR_SIZE) 0) [0..<?n] = (Some (v_bitmap ?x), ?v1)"
  proof (rule read_sectors_all)
    show "ready E ?v1" using r by simp
    show "sectors_ok ?v1 (sb_bitmap_start ?sb) (v_bitmap ?x) [0..<?n]"
      using so by (simp add: sectors_ok_def fl(4))
    show "cells E ?v1 (sb_bitmap_start ?sb + of_nat i) = slice (i * SECTOR_SIZE) SECTOR_SIZE (v_bitmap ?x)" if "i < ?n" for i
      using lw(2) that by (simp add: synced_def bitmap_on_disk_def fl)
  qed (use len in simp_all)
  then have "bm = v_bitmap ?x" using bm(1) by simp
  then have h: "compute_hmac E (v_hkey ?x) (v_bitmap ?x) = Some (sb_bitmap_hmac (v_sb ?x))" using bm(2) by (simp add: fl)
  have sk: "skeleton ?x v"
    unfolding skeleton_def
    by (intro exI [of _ "v_sb v"] exI [of _ "v_bitmap v"] exI [of _ "v_dirty v"] exI [of _ "v_inodes v"])
      (simp add: loaded_def Let_def i)
  have z: "?x\<lparr>v_dirty := replicate (length (v_dirty ?x)) 0\<rparr> = ?x" by (simp add: loaded_def Let_def)
  have sv: "small_volume ?x" using wf_facts(2) [OF lw(1)] sm by (simp add: small_volume_def fl)
  note ld = load_synced [OF lw(4,1,2) sk h al(1,2)]
  show e: "w = ?x"
    using w unfolding ld z validate_consistent [OF lw(4,1) sv lw(3) al(3)] by (simp split: if_splits)
  show c: "consistent E w"
    using w unfolding ld z validate_consistent [OF lw(4,1) sv lw(3) al(3)] e by (simp split: if_splits)
  show "settled E w"
    using lw sv h c z unfolding e settled_def by (metis volume.select_convs(7) volume.surjective volume.update_convs(7))
qed

lemma bare_settled:
  assumes "settled E (bare v)" "\<forall>b. unat b < vol_blocks v \<longrightarrow> \<not> blocked v b"
  shows "settled E v"
proof -
  have "ready E v" using assms by (simp add: settled_def ready_def)
  then show ?thesis
    using assms(1)
    by (simp add: settled_def consistent_def sound_def core_def)
qed

text \<open>
  Whatever \<open>denyfs_vol_open\<close> mounts from a working stream is consistent, however the container came about and
  whatever is protected.
\<close>

lemma opened_bare:
  assumes libs: "libs_work E" and f: "f_faults f = []" and v: "vol_open E (Some f) pw hpw protect = Some v"
    and sm: "vol_blocks v \<le> 2 ^ 31"
  shows "settled E (bare v)" "v_file v = f"
proof -
  let ?c = "length (f_bytes f)"
  from v obtain x where x: "container_ok ?c" "placed ?c x" "load_volume E x = Some v" by (rule vol_open_SomeE)
  obtain v0 where v0: "before_load E f pw hpw protect = Some v0" "load_volume E v0 = Some v"
    using v unfolding vol_open_before [OF libs f x(1), of pw hpw protect] by (auto split: option.splits)
  note bl = before_load_blank [OF v0(1)]
  have sc: "same_config v0 v" using load_volume_place [OF v0(2)] by (simp add: same_place_def)
  have pl: "placed ?c v" by (rule load_placed [OF x(3,2)])
  have p: "vol_geom v" "length (v_key v) = KEY_SIZE_XTS" "unat (v_start v) + unat (v_size v) \<le> ?c"
    using pl x(1) by (auto simp: placed_def container_ok_def split: if_splits)
  have vb: "vol_blocks v0 = vol_blocks v" using sc by (simp add: vol_blocks_def same_config_def)
  have "ready E (bare v0)"
    using p libs f bl sc by (simp add: ready_def libs_work_def same_config_geom [OF sc]) (simp add: same_config_def)
  moreover have "load_volume E (bare v0) = Some (bare v)" by (simp add: bare_load_volume v0(2))
  moreover have "vol_blocks (bare v0) \<le> 2 ^ 31" using sm by (simp add: vb)
  moreover have "e_alloc E z" for z using libs by (simp add: libs_work_def)
  moreover have "length (inodes_enc (v_inodes (bare v0))) = 2 * SECTOR_SIZE" using bl by simp
  ultimately have l: "bare v = loaded E (bare v0)" "settled E (bare v)" using load_loaded by blast+
  show "settled E (bare v)" by (rule l(2))
  have "v_file (bare v) = v_file v0" unfolding l(1) by (simp add: loaded_def Let_def)
  then show "v_file v = f" using bl by simp
qed

lemma opened_settled:
  assumes "libs_work E" "f_faults f = []" "vol_open E (Some f) pw hpw protect = Some v"
    and "\<forall>b. unat b < vol_blocks v \<longrightarrow> \<not> blocked v b" "vol_blocks v \<le> 2 ^ 31"
  shows "settled E v" "v_file v = f"
  using opened_bare [OF assms(1-3,5)] bare_settled assms(4) by blast+

section \<open>A whole session\<close>

lemma settled_reserved: "settled E v \<Longrightarrow> \<forall>b < data_start v. bitmap_test (v_bitmap v) b"
  by (simp add: settled_def consistent_def)

lemma store_opened:
  assumes "libs_work E" "f_faults f = []" "vol_open E (Some f) pw hpw protect = Some v" "store E v"
  shows "settled E v" "v_file v = f"
proof -
  have c: "core E v" using assms(4) by (simp add: store_def sound_def)
  have "vol_blocks v \<le> 2 ^ 31" using c wf_facts(2) [of v] by (simp add: core_def small_volume_def)
  moreover have "\<forall>b. unat b < vol_blocks v \<longrightarrow> \<not> blocked v b" using c by (simp add: core_def ready_def)
  ultimately show "settled E v" "v_file v = f" using opened_settled [OF assms(1-3)] by blast+
qed

lemma session_reopens:
  assumes libs: "libs_work E" and f: "f_faults f = []" and v: "vol_open E (Some f) pw hpw protect = Some v"
    and st: "store E v" and rs: "runs (served E) v xs w"
  shows "\<exists>u. fuse_destroy E w = v_file u \<and> vol_open E (Some (fuse_destroy E w)) pw hpw protect = Some u \<and>
    store E u \<and> files E u = files E w"
proof -
  note h = hmac_libs [OF libs]
  note run = served_run [OF rs]
  have sw: "store E w" using sess.runs_refine [of E v xs w] rs st h by simp
  have "\<forall>b < data_start w. bitmap_test (v_bitmap w) b"
    using fuse_run_frames(2) [OF run] settled_reserved [OF store_opened(1) [OF libs f v st]]
    by (simp add: keeps_reserved_def)
  then obtain u where u: "vol_flush E w = (Inr (), u)" "store E u" "settled E u" "files E u = files E w"
    using unmount_settled [OF sw h] by blast
  have k: "keeps v u" using keeps_session [OF run] u(1) by simp
  from open_again [OF libs f v k u(3)] have "vol_open E (Some (v_file u)) pw hpw protect = Some u" .
  moreover have "fuse_destroy E w = v_file u" using u(1) by (simp add: fuse_destroy_def vol_close_def)
  ultimately show ?thesis using u by auto
qed

section \<open>A write that runs out of space\<close>

text \<open>
  \<open>denyfs_vol_write\<close> returns in the middle of its loop when \<open>allocate_file_data_block\<close> fails, and leaves the
  blocks it has stored so far in the file, beyond the size it has not updated. The check at mount time refuses
  such a file: the container cannot be opened any more.
\<close>

lemma file_byte_mapped:
  assumes "file_byte c nd p \<noteq> 0"
  shows "file_block c nd (p div SECTOR_SIZE) \<noteq> DENYFS_INVALID_BLOCK"
proof
  assume "file_block c nd (p div SECTOR_SIZE) = DENYFS_INVALID_BLOCK"
  then have "file_byte c nd p = 0" by (simp add: file_byte_def block_bytes_def)
  with assms show False by simp
qed

lemma aborted_write_locks:
  assumes libs: "libs_work E" and f: "f_faults f = []" and v0: "vol_open E (Some f) pw hpw protect = Some v0" "store E v0"
    and rs: "runs (served E) v0 xs v" and i: "dir E v name = Some i"
    and w: "vol_write E now v (unat i) buf off = (Inl ENOSPC, w)" "used w \<noteq> used v"
    and past: "unat (i_size (inode_at v (unat i))) \<le> unat off div SECTOR_SIZE * SECTOR_SIZE"
  shows "vol_open E (Some (fuse_destroy E w)) pw hpw protect = None"
proof -
  let ?l = "unat off div SECTOR_SIZE"
  have v: "store E v" using sess.runs_refine [of E v0 xs v] rs v0(2) hmac_libs [OF libs] by simp
  have sz: "length buf \<le> INT_MAX" "unat off + length buf \<le> DENYFS_MAX_FILE_SIZE"
    using w by (auto simp: vol_write_def Let_def split: if_splits)
  obtain k where k: "k < length buf" "if k = 0 then used w = used v else SECTOR_SIZE dvd unat off + k"
    "i_size (inode_at w (unat i)) = i_size (inode_at v (unat i))" "wrote E v w (unat i) (unat off) (take k buf)"
    "sound E w" "dir E w = dir E v"
    using store_write [OF v hmac_libs [OF libs] i sz, of now] w(1) by auto
  have k0: "0 < k" using k(2) w(2) by (cases k) simp_all
  have o: "unat off < MAX_BYTES"
    using sz(2) k(1) by (simp add: DENYFS_MAX_FILE_SIZE_def MAX_BYTES_def DENYFS_MAX_FILE_BLOCKS_def layout_sizes)
  note l = MAX_BYTES_div [OF o]
  have j: "unat i < DENYFS_MAX_INODES" by (rule dir_file(2) [OF store_sound [OF v] i])
  have "file_block (cells E w) (inode_at w (unat i)) ?l \<noteq> DENYFS_INVALID_BLOCK"
    using k(4) k0 k(1) j l unfolding wrote_def by auto
  moreover have kp: "keeps v0 w" by (rule kp.chain_vol_write [OF w(1) fuse_run_frames(1) [OF served_run [OF rs]]])
  obtain u where u: "vol_flush E w = (Inr (), u)" "dir E u = dir E w" "others_same E w u {}"
    "\<forall>j < DENYFS_MAX_INODES. \<forall>l < DENYFS_MAX_FILE_BLOCKS.
       file_block (cells E u) (inode_at u j) l = file_block (cells E w) (inode_at w j) l"
    "vol_open E (Some (fuse_destroy E w)) pw hpw protect = (if consistent E u then Some u else None)"
    by (rule reopen_decides [OF libs f v0(1) kp k(5)])
  ultimately have "file_block (cells E u) (inode_at u (unat i)) ?l \<noteq> DENYFS_INVALID_BLOCK" using j l by simp
  moreover have "same_file E w u (unat i)" using u(3) j by (simp add: others_same_def)
  then have "unat (i_size (inode_at u (unat i))) = unat (i_size (inode_at v (unat i)))" using k(3) by (simp add: same_file_def)
  ultimately have "\<not> fits E u (unat i)" using past l by (auto simp: fits_def)
  moreover have "i \<in> ran (dir E u)" using i by (auto simp: u(2) k(6) ran_def)
  ultimately have "\<not> consistent E u" by (auto simp: consistent_def)
  then show ?thesis using u(5) by simp
qed

section \<open>What a volume depends on\<close>

text \<open>The volume only depends on the blocks that are used and on the metadata blocks.\<close>

lemma settled_agree:
  assumes u: "settled E v" and w: "ready E w" "meta w = meta v"
    and ag: "\<And>c. unat c \<in> used v \<Longrightarrow> cells E w c = cells E v c"
    and mt: "\<And>c. unat c < data_start v \<Longrightarrow> cells E w c = cells E v c"
  shows "settled E w" "store E v \<Longrightarrow> store E w \<and> files E w = files E v"
proof -
  have g: "wf v" "small_volume v" "clean_synced E v" "synced E v" "sound E v" "bitmap_inv v"
    using u by (simp_all add: settled_def consistent_def sound_def core_def)
  note wf = wf_facts [OF g(1)]
  have wv: "w = v\<lparr>v_file := v_file w\<rparr>" by (rule meta_eqD [OF w(2)])
  have fl: "v_sb w = v_sb v" "v_bitmap w = v_bitmap v" "v_dirty w = v_dirty v" "v_inodes w = v_inodes v"
    "v_size w = v_size v" "v_hkey w = v_hkey v" by (subst wv, simp)+
  have us: "used w = used v" "pool w = pool v" by (simp_all add: used_def pool_def fl)
  have ub: "unat (sb_bitmap_start (v_sb v) + of_nat i) < data_start v" if "i < unat (sb_bitmap_blocks (v_sb v))" for i
    using that wf by (simp add: unat_block_plus)
  have ui: "unat (sb_inode_start (v_sb v) + of_nat i) < data_start v" if "i < unat (sb_inode_blocks (v_sb v))" for i
    using that wf by (simp add: unat_block_plus)
  have bd: "bitmap_on_disk E w i = bitmap_on_disk E v i" if "i < unat (sb_bitmap_blocks (v_sb v))" for i
    using mt [OF ub [OF that]] by (simp add: bitmap_on_disk_def fl)
  have id: "inodes_on_disk E w i = inodes_on_disk E v i" if "i < unat (sb_inode_blocks (v_sb v))" for i
    using mt [OF ui [OF that]] by (simp add: inodes_on_disk_def fl)
  have sy: "synced E w" using g(4) bd id mt [of 0] wf by (simp add: synced_def fl)
  have cs: "clean_synced E w" using g(3) bd by (simp add: clean_synced_def fl)
  have ww: "wf w" using g(1) by (simp add: wf_def fl inodes_ok_def)
  have sm: "small_volume w" using g(2) by (simp add: small_volume_def fl)
  have co: "core E w" using ww sm cs w(1) g(6) by (simp add: core_def bitmap_inv_def us fl)
  have fs: "fsys (cells E v) (v_inodes v) (used v)" using g(5) by (simp add: sound_def)
  have ok: "\<forall>nd \<in> set (v_inodes v). inode_ok nd" "0 < length (v_inodes v)"
    using g(1) by (simp_all add: wf_def inodes_ok_def DENYFS_MAX_INODES_def)
  note fa = fsys_agree [OF fs ok(2) ok(1) ag]
  have so: "sound E w" using co fa g(5) by (simp add: sound_def inode_at_def fl us)
  have di: "dir E w = dir E v" using fa(2) by (simp add: dir_def inode_at_def fl)
  have sf: "same_file E v w j" if "j < DENYFS_MAX_INODES" for j
  proof -
    have j: "j < length (v_inodes v)" using that g(1) by (simp add: wf_def)
    have "owned (cells E v) (v_inodes v) (used v)" using fs by (simp add: fsys_def)
    note a = file_block_agree [OF this ag j]
    show ?thesis using a MAX_BYTES_div by (simp add: same_file_def inode_at_def fl file_byte_def)
  qed
  have o: "same_file E v w (unat j)" if "dir E v a = Some j" for a j
    by (rule sf, rule dir_file(2) [OF g(5) that])
  have cn: "consistent E w"
    using u so same_file_facts(1,2) [OF o] di
    by (auto simp: settled_def consistent_def fl ran_def)
  show "settled E w" using u w(1) ww sm cs sy cn by (simp add: settled_def fl)
  assume v: "store E v"
  have d: "dir E w = (dir E v)(name := dir E v name)" for name using di by simp
  have "store E w"
  proof (rule store_change [OF v so d])
    show "\<And>i. dir E v [] = Some i \<Longrightarrow> tail_zero E w (unat i) \<and> fits E w (unat i)"
      using same_file_facts(1,2) [OF o] store_file [OF v] by simp
  qed (use o in blast)
  moreover have "files E w a = files E v a" for a
    using sound_same_contents [OF g(5) dir_file(2) [OF g(5)] o] by (cases "dir E v a") (simp_all add: files_def di)
  ultimately show "store E w \<and> files E w = files E v" by blast
qed

section \<open>The hidden volume after a session of the outer one\<close>

text \<open>Opening without faults in the stream: the same bytes in a new stream.\<close>

definition reopened :: "cfile \<Rightarrow> cfile" where
  "reopened f = \<lparr>f_bytes = f_bytes f, f_faults = []\<rparr>"

lemma reopened_simps [simp]: "f_bytes (reopened f) = f_bytes f" "f_faults (reopened f) = []"
  by (simp_all add: reopened_def)

text \<open>The hidden volume that a password opens is what protection with that password locks.\<close>

lemma hidden_locked:
  assumes libs: "libs_work E" and v: "vol_open E (Some f) pw (Some hp) True = Some v" "\<not> v_hidden v"
    and x: "vol_open E (Some (reopened f)) hp None False = Some x" "v_hidden x"
  shows "unat (v_start x) + unat (v_size x) \<le> length (f_bytes f)"
    "i \<in> volume_region x \<Longrightarrow> i \<in> protected_region v"
proof -
  let ?c = "length (f_bytes f)" and ?h = "hidden_header_of (f_bytes f)"
  from v(1) obtain v0 where v0: "load_volume E v0 = Some v" "v_protect v0 \<longleftrightarrow> True \<and> \<not> v_hidden v0"
    "v_protect v0 \<longrightarrow> (\<exists>pw key p. Some hp = Some pw \<and> password_key E pw (hd_salt ?h) = Some key \<and>
       try_header E ?h key = Some p \<and> protected_region v0 = hidden_region (f_bytes f) p)"
    by (rule vol_open_SomeE)
  have sc: "same_config v0 v" using load_volume_place [OF v0(1)] by (simp add: same_place_def)
  then have "v_protect v0" using v0(2) v(2) by (simp add: same_config_def)
  then obtain key p where p: "password_key E hp (hd_salt ?h) = Some key" "try_header E ?h key = Some p"
    "protected_region v0 = hidden_region (f_bytes f) p" using v0(3) by auto
  have pr: "protected_region v = hidden_region (f_bytes f) p" using p(3) same_config_regions [OF sc] by simp
  obtain q where "try_header E ?h (trial_key E hp (hd_salt ?h)) = Some q" "v_size x = hp_volume_size q"
    using vol_open_header [OF x(1)] x(2) by (auto simp: header_of_def)
  then have sz: "v_size x = hp_volume_size p" using p libs_key [OF libs, of hp "hd_salt ?h"] by auto
  from x(1) obtain x0 where x0: "placed (length (f_bytes (reopened f))) x0" "load_volume E x0 = Some x" by (rule vol_open_SomeE)
  have "placed ?c x" using load_placed [OF x0(2,1)] by simp
  then have e: "unat (v_start x) + unat (v_size x) = ?c - DENYFS_HIDDEN_HEADER_OFFSET_FROM_EOF"
    using x(2) by (simp add: placed_def)
  then show "unat (v_start x) + unat (v_size x) \<le> ?c" by simp
  show "i \<in> protected_region v" if "i \<in> volume_region x"
    using that e unfolding pr by (auto simp: volume_region_def hidden_region_def sz [symmetric])
qed

lemma hidden_again:
  assumes libs: "libs_work E" and v: "vol_open E (Some f) pw (Some hp) True = Some v" "\<not> v_hidden v"
    and x: "vol_open E (Some (reopened f)) hp None False = Some x" "v_hidden x" "store E x" and r: "fuse_run E v w"
  shows "\<exists>u. vol_open E (Some (reopened (fuse_destroy E w))) hp None False = Some u \<and> v_hidden u \<and> store E u \<and>
    files E u = files E x"
proof -
  let ?g = "reopened (fuse_destroy E w)" and ?c = "length (f_bytes f)"
  let ?u = "x\<lparr>v_file := ?g\<rparr>"
  have k: "keeps v (snd (vol_flush E w))" by (rule keeps_session [OF r])
  note hd = keeps_headers [OF v(1) k, folded fuse_destroy_file]
  have sx: "settled E x" "v_file x = reopened f" using store_opened [OF libs _ x(1,3)] by simp_all
  have rx: "ready E x" using sx(1) by (simp add: settled_def)
  have ru: "ready E ?u" using rx hd(1) by (simp add: ready_def vol_geom_def vol_blocks_def blocked_def sx(2))
  from v(1) obtain v0 where v0: "placed ?c v0" "consumes f (v_file v0)" "load_volume E v0 = Some v" by (rule vol_open_SomeE)
  have gm: "vol_geom v" using load_placed [OF v0(3,1)] by (simp add: placed_def)
  have bs: "f_bytes (v_file v) = f_bytes f"
    using load_volume_place [OF v0(3)] v0(2) by (auto simp: same_place_def dest!: consumes_bytes)
  have same: "cells E ?u b = cells E x b" if b: "unat b < vol_blocks x" for b
  proof -
    have gx: "vol_geom x" using rx by (simp add: ready_def)
    let ?a = "unat (v_start x) + unat b * SECTOR_SIZE"
    have e: "unat b * SECTOR_SIZE + SECTOR_SIZE \<le> unat (v_size x)" using vol_blocks_bound [OF gx b] .
    have "slice ?a SECTOR_SIZE (f_bytes (v_file (snd (vol_flush E w)))) = slice ?a SECTOR_SIZE (f_bytes (v_file v))"
    proof (rule keeps_slice [OF k gm])
      show "?a + SECTOR_SIZE \<le> length (f_bytes (v_file v))" using e hidden_locked(1) [OF libs v x(1,2)] by (simp add: bs)
      show "i \<notin> volume_region v \<or> i \<in> protected_region v" if "?a \<le> i" "i < ?a + SECTOR_SIZE" for i
        using that e hidden_locked(2) [OF libs v x(1,2), of i] by (simp add: volume_region_def)
    qed
    then show ?thesis by (simp add: cells_def sx(2) bs fuse_destroy_file)
  qed
  have wx: "wf x" using sx(1) by (simp add: settled_def)
  have mt: "meta ?u = meta x" by (simp add: meta_def)
  have us: "unat c < vol_blocks x" if "unat c \<in> used x \<or> unat c < data_start x" for c
    using that wf_facts(2,7) [OF wx] by (auto simp: used_def pool_def)
  have "settled E ?u" "store E ?u \<and> files E ?u = files E x"
    using settled_agree [OF sx(1) ru mt] same us x(3) by blast+
  moreover have "vol_open E (Some (v_file ?u)) hp None False = Some ?u"
  proof -
    have al: "e_alloc E z" for z using libs by (simp add: libs_work_def)
    have c: "same_config x ?u" by (simp add: same_config_def)
    have su: "sound E ?u" "synced E ?u" "v_dirty ?u = replicate (length (v_dirty ?u)) 0"
      "compute_hmac E (v_hkey ?u) (v_bitmap ?u) = Some (sb_bitmap_hmac (v_sb ?u))" "consistent E ?u"
      using \<open>settled E ?u\<close> unfolding settled_def consistent_def by blast+
    have "\<exists>s. skeleton ?u s \<and> vol_open E (Some (v_file ?u)) hp None False = load_volume E s"
      by (rule open_elsewhere [OF libs _ x(1) ru c]) (use hd in simp_all)
    then show ?thesis using load_flushed [OF su(1-4) _ al al al] su(5) by auto
  qed
  ultimately show ?thesis using x(2) by (intro exI [of _ ?u]) simp
qed

section \<open>Writing a block that no file uses\<close>

lemma settled_free_write:
  assumes u: "settled E v" and b: "unat b \<in> pool v - used v" and d: "length d = SECTOR_SIZE"
  obtains w where "write_block E v b d = (Inr (), w)" "settled E w" "keeps v w" "cells E w b = d" "ready E w"
    "store E v \<Longrightarrow> store E w \<and> files E w = files E v"
proof -
  have g: "ready E v" "wf v" using u by (simp_all add: settled_def)
  note wf = wf_facts [OF g(2)]
  have bb: "data_start v \<le> unat b" "unat b < vol_blocks v" using b wf(2) by (simp_all add: pool_def)
  obtain w where w: "write_block E v b d = (Inr (), w)" "ready E w" "meta w = meta v"
    "\<And>c. unat c < vol_blocks v \<Longrightarrow> cells E w c = (if c = b then d else cells E v c)"
    using bs.wr_ok [OF g(1) bb(2) d] by blast
  have same: "cells E w c = cells E v c" if "unat c < vol_blocks v" "c \<noteq> b" for c using w(4) [OF that(1)] that(2) by simp
  have ag: "cells E w c = cells E v c" if "unat c \<in> used v" for c
    using that b wf(2) by (intro same) (auto simp: used_def pool_def)
  have mt: "cells E w c = cells E v c" if "unat c < data_start v" for c
    using that bb by (intro same) auto
  note sa = settled_agree [OF u w(2,3) ag mt]
  have "keeps v w" by (rule kp.chain_write [OF w(1) keeps_refl])
  moreover have "cells E w b = d" using w(4) bb by simp
  ultimately show ?thesis using that w(1,2) sa by blast
qed

end
