(* ===== verification/Host.thy ===== *)
theory Host
  imports Fuse
begin

text \<open>
  What \<open>src/src/main.c\<close> uses of the C library and the operating system: number parsing, the files, the
  descriptors and the terminal of the process, and the two ways a password is read
  (\<open>read_password_from_fd\<close>, \<open>get_password_interactive\<close>). The record \<open>host\<close> is the state of the process's
  surroundings that the commands read and change.
\<close>

section \<open>Strings and numbers\<close>

text \<open>A C string is the list of its bytes without the terminator.\<close>

definition cstr :: "string \<Rightarrow> bytes" where
  "cstr s = map of_char s"

definition isspace :: "u8 \<Rightarrow> bool" where
  "isspace c \<longleftrightarrow> c = 32 \<or> (9 \<le> c \<and> c \<le> 13)"

definition isdigit :: "u8 \<Rightarrow> bool" where
  "isdigit c \<longleftrightarrow> 48 \<le> c \<and> c \<le> 57"

definition digits_value :: "bytes \<Rightarrow> nat" where
  "digits_value ds = foldl (\<lambda>n d. 10 * n + (unat d - 48)) 0 ds"

text \<open>The common part of \<open>strtoull\<close> and \<open>strtol\<close> in base 10: blanks, a sign, digits; the rest is ignored.\<close>

definition parse_decimal :: "bytes \<Rightarrow> bool \<times> nat" where
  "parse_decimal s =
     (case dropWhile isspace s of
        [] \<Rightarrow> (False, 0)
      | c # cs \<Rightarrow>
          if c = of_char CHR ''-'' then (True, digits_value (takeWhile isdigit cs))
          else if c = of_char CHR ''+'' then (False, digits_value (takeWhile isdigit cs))
          else (False, digits_value (takeWhile isdigit (c # cs))))"

text \<open>A value out of range becomes \<open>ULLONG_MAX\<close>; a minus sign negates modulo \<open>2 ^ 64\<close>.\<close>

definition strtoull :: "bytes \<Rightarrow> u64" where
  "strtoull s = (case parse_decimal s of (neg, n) \<Rightarrow>
     if 2 ^ 64 \<le> n then - 1 else if neg then - of_nat n else of_nat n)"

text \<open>\<open>atoi\<close> is \<open>(int)strtol(s, NULL, 10)\<close>, which saturates at the 64-bit limits.\<close>

definition atoi :: "bytes \<Rightarrow> int" where
  "atoi s = (case parse_decimal s of (neg, n) \<Rightarrow>
     let l = (if neg then max (- (2 ^ 63)) (- int n) else min (2 ^ 63 - 1) (int n)) in
     sint (word_of_int l :: 32 word))"

text \<open>The decimal numeral of a number, the inverse of the parser.\<close>

fun decimal :: "nat \<Rightarrow> bytes" where
  "decimal n = (if n < 10 then [of_nat (48 + n)] else decimal (n div 10) @ [of_nat (48 + n mod 10)])"

declare decimal.simps [simp del]

section \<open>The surroundings of the process\<close>

text \<open>What is printed, on either stream; times and fixed formatting are left out.\<close>

datatype message =
    Text string
  | Missing string
  | Creating u64 bytes
  | Creating_hidden u64 bytes
  | Hidden_failed int
  | Report bool u64 u32 u32 u32 u32
  | Locked u64 u64
  | Authenticated bool
  | Banner bytes
  | Mounting bytes
  | Beyond u64 u64
  | Sector_written u64
  | Sector_read u64
  | Unknown bytes

text \<open>
  \<open>hs_files\<close>: the files the process may open, by name, each with the faults of the streams it will open on
  them; \<open>hs_create\<close>: whether a new file can be made under a name, with its faults; \<open>hs_fds\<close>: the bytes still
  to come from each descriptor (0 is the standard input, read without look-ahead); \<open>hs_tty\<close>: whether the
  standard input is a terminal whose attributes can be changed; \<open>hs_alloc\<close>: the results of the coming
  allocations of password buffers (all succeed when the list is exhausted); \<open>hs_crypto\<close>, \<open>hs_cores\<close>: whether
  \<open>denyfs_crypto_init\<close> and \<open>setrlimit\<close> succeed; \<open>hs_pos\<close>: where a stream stands when a seek on it fails.
\<close>

record host =
  hs_files :: "bytes \<Rightarrow> cfile option"
  hs_create :: "bytes \<Rightarrow> nat option list option"
  hs_fds :: "int \<Rightarrow> bytes"
  hs_tty :: bool
  hs_alloc :: "bool list"
  hs_crypto :: bool
  hs_cores :: bool
  hs_entropy :: entropy
  hs_now :: u64
  hs_pos :: nat
  hs_out :: "message list"

definition say :: "message \<Rightarrow> host \<Rightarrow> host" where
  "say m h = h\<lparr>hs_out := hs_out h @ [m]\<rparr>"

definition put_file :: "bytes \<Rightarrow> cfile option \<Rightarrow> host \<Rightarrow> host" where
  "put_file path f h = h\<lparr>hs_files := (hs_files h)(path := f)\<rparr>"

text \<open>\<open>open\<close> with \<open>O_CREAT | O_EXCL\<close>, and \<open>fopen\<close> with mode \<open>wb\<close>.\<close>

definition open_new :: "host \<Rightarrow> bytes \<Rightarrow> cfile option" where
  "open_new h path = (if hs_files h path = None
     then map_option (\<lambda>faults. \<lparr>f_bytes = [], f_faults = faults\<rparr>) (hs_create h path) else None)"

definition open_trunc :: "host \<Rightarrow> bytes \<Rightarrow> cfile option" where
  "open_trunc h path = (case hs_files h path of
     Some f \<Rightarrow> Some (f\<lparr>f_bytes := []\<rparr>)
   | None \<Rightarrow> open_new h path)"

definition secure_alloc :: "host \<Rightarrow> bool \<times> host" where
  "secure_alloc h = (case hs_alloc h of [] \<Rightarrow> (True, h) | ok # rest \<Rightarrow> (ok, h\<lparr>hs_alloc := rest\<rparr>))"

section \<open>Passwords\<close>

definition PASSWORD_MAX :: nat where "PASSWORD_MAX = 512"

text \<open>
  The loop: bytes up to the first line end or the end of the stream, of which the first \<open>max_len - 1\<close> are
  kept. The result is the buffer and what is left in the stream.
\<close>

fun read_line :: "bytes \<Rightarrow> bytes \<Rightarrow> bytes \<times> bytes" where
  "read_line sec_pass [] = (sec_pass, [])"
| "read_line sec_pass (ch # rest) =
     (if ch = 10 \<or> ch = 13 then (sec_pass, rest)
      else read_line (if length sec_pass < PASSWORD_MAX - 1 then sec_pass @ [ch] else sec_pass) rest)"

definition read_password_from_fd :: "int \<Rightarrow> host \<Rightarrow> bytes option \<times> host" where
  "read_password_from_fd fd h =
     (case secure_alloc h of (ok, h1) \<Rightarrow>
        if \<not> ok then (None, h1)
        else case read_line [] (hs_fds h1 fd) of (sec_pass, rest) \<Rightarrow>
          (Some sec_pass, h1\<lparr>hs_fds := (hs_fds h1)(fd := rest)\<rparr>))"

definition get_password_interactive :: "string \<Rightarrow> host \<Rightarrow> bytes option \<times> host" where
  "get_password_interactive prompt h =
     (let h0 = say (Text prompt) h in
      if \<not> hs_tty h0 then (None, h0)
      else case secure_alloc h0 of (ok, h1) \<Rightarrow>
        if \<not> ok then (None, h1)
        else case read_line [] (hs_fds h1 0) of (sec_pass, rest) \<Rightarrow>
          (Some sec_pass, say (Text [CHR 0x0A]) (h1\<lparr>hs_fds := (hs_fds h1)(0 := rest)\<rparr>)))"

text \<open>The variant for the Windows console, where the program itself handles the backspace key.\<close>

fun read_console :: "bytes \<Rightarrow> bytes \<Rightarrow> bytes \<times> bytes" where
  "read_console sec_pass [] = (sec_pass, [])"
| "read_console sec_pass (ch # rest) =
     (if ch = 13 \<or> ch = 10 then (sec_pass, rest)
      else read_console (if ch = 8 \<or> ch = 127 then butlast sec_pass
        else if length sec_pass < PASSWORD_MAX - 1 then sec_pass @ [ch] else sec_pass) rest)"

definition get_password_console :: "string \<Rightarrow> host \<Rightarrow> bytes option \<times> host" where
  "get_password_console prompt h =
     (case secure_alloc (say (Text prompt) h) of (ok, h1) \<Rightarrow>
        if \<not> ok then (None, h1)
        else case read_console [] (hs_fds h1 0) of (sec_pass, rest) \<Rightarrow>
          (Some sec_pass, say (Text [CHR 0x0A]) (h1\<lparr>hs_fds := (hs_fds h1)(0 := rest)\<rparr>)))"

text \<open>How every command obtains a password: from the descriptor if one was given.\<close>

definition obtain_password :: "int \<Rightarrow> string \<Rightarrow> host \<Rightarrow> bytes option \<times> host" where
  "obtain_password fd prompt h =
     (if 0 \<le> fd then read_password_from_fd fd h else get_password_interactive prompt h)"

end
