(* ===== verification/Cli.thy ===== *)
theory Cli
  imports Host
begin

text \<open>
  The command line of \<open>src/src/main.c\<close> and \<open>denyfs_fuse_run\<close> of \<open>src/src/fuse_ops.c\<close>: one handler per
  command, one option loop per command, and \<open>main\<close>. \<open>fuse_main\<close> of libfuse is the parameter \<open>fm\<close>: it gets
  the argument vector and the volume and returns the exit status and the container as it is left. Every
  function returns its C result and the surroundings (\<open>host\<close>).
\<close>

section \<open>Creating and opening\<close>

definition handle_create :: "env \<Rightarrow> host \<Rightarrow> bytes \<Rightarrow> u64 \<Rightarrow> bytes \<Rightarrow> int \<times> host" where
  "handle_create E h path size_mb raw_pass =
     (let h1 = say (Creating size_mb path) h in
      case container_create E (hs_entropy h1) (open_new h1 path) size_mb raw_pass (hs_now h1) of (ok, f) \<Rightarrow>
      if \<not> ok then (1, say (Text ''Error: Container creation failed.'') h1)
      else (0, say (Text ''Container created and formatted'') (put_file path f h1)))"

definition handle_create_hidden ::
  "env \<Rightarrow> host \<Rightarrow> bytes \<Rightarrow> bytes \<Rightarrow> bytes \<Rightarrow> u64 \<Rightarrow> int \<times> host" where
  "handle_create_hidden E h path outer_pass hidden_pass hidden_size_mb =
     (let h1 = say (Creating_hidden hidden_size_mb path) h in
      case container_create_hidden E (hs_entropy h1) (hs_files h1 path) outer_pass hidden_pass hidden_size_mb
        (hs_now h1) of (res, f) \<Rightarrow>
      let h2 = put_file path f h1 in
      case res of
        Inl e \<Rightarrow> (1, say (if e = ENOSPC
          then Text ''Error: Not enough free space inside container for hidden volume.''
          else Hidden_failed (errno e)) h2)
      | Inr _ \<Rightarrow> (0, say (Text ''Hidden volume successfully created and formatted'') h2))"

text \<open>\<open>denyfs_vol_close\<close>: the container goes back to its place.\<close>

definition close_at :: "bytes \<Rightarrow> volume \<Rightarrow> host \<Rightarrow> host" where
  "close_at path v h = put_file path (Some (vol_close v)) h"

definition handle_open :: "env \<Rightarrow> host \<Rightarrow> bytes \<Rightarrow> bytes \<Rightarrow> bytes option \<Rightarrow> bool \<Rightarrow> int \<times> host" where
  "handle_open E h path raw_pass hidden_pass protect_hidden =
     (case vol_open E (hs_files h path) raw_pass hidden_pass protect_hidden of
        None \<Rightarrow> (1, say (Text ''Error: invalid password.'') h)
      | Some v \<Rightarrow>
      let h1 = say (Report (v_hidden v) (v_size v) (sb_total_blocks (v_sb v)) (sb_free_blocks (v_sb v))
            (sb_free_inodes (v_sb v)) (sb_data_start (v_sb v))) h;
          h2 = say (if v_protect v then Locked (v_pstart v) (v_pend v) else Text ''Protection active: NO'') h1
      in (0, close_at path v h2))"

definition denyfs_fuse_run ::
  "(bytes list \<Rightarrow> volume \<Rightarrow> int \<times> cfile) \<Rightarrow> volume \<Rightarrow> bytes \<Rightarrow> int \<times> cfile" where
  "denyfs_fuse_run fm v mount_point = fm [cstr ''denyfs'', mount_point, cstr ''-f'', cstr ''-s''] v"

definition handle_mount ::
  "env \<Rightarrow> (bytes list \<Rightarrow> volume \<Rightarrow> int \<times> cfile) \<Rightarrow> host \<Rightarrow> bytes \<Rightarrow> bytes \<Rightarrow> bytes option \<Rightarrow> bool \<Rightarrow> bytes \<Rightarrow>
    int \<times> host" where
  "handle_mount E fm h path raw_pass hidden_pass protect_hidden mount_point =
     (case vol_open E (hs_files h path) raw_pass hidden_pass protect_hidden of
        None \<Rightarrow> (1, say (Text ''Error: invalid password.'') h)
      | Some v \<Rightarrow>
      let h1 = say (Mounting mount_point) (say (Banner mount_point) (say (Authenticated (v_hidden v)) h)) in
      case denyfs_fuse_run fm v mount_point of (ret, f) \<Rightarrow> (ret, put_file path (Some f) h1))"

section \<open>Raw sectors\<close>

text \<open>
  The results of the seeks, of the final \<open>fflush\<close> and of writing the output file are ignored by the code:
  after a failed seek the transfer happens where the stream stands.
\<close>

definition sector_pos :: "host \<Rightarrow> volume \<Rightarrow> u64 \<Rightarrow> bool \<Rightarrow> nat" where
  "sector_pos h v lba sought =
     (let offset = v_start v + lba * of_nat SECTOR_SIZE in
      if sought \<and> unat offset \<le> LONG_MAX then unat offset else hs_pos h)"

definition handle_write_sector :: "env \<Rightarrow> host \<Rightarrow> bytes \<Rightarrow> bytes \<Rightarrow> u64 \<Rightarrow> bytes \<Rightarrow> int \<times> host" where
  "handle_write_sector E h path raw_pass lba data_file =
     (case vol_open E (hs_files h path) raw_pass None False of
        None \<Rightarrow> (1, say (Text ''Error: invalid password.'') h)
      | Some v \<Rightarrow>
      let max_lba = v_size v div of_nat SECTOR_SIZE in
      if max_lba \<le> lba then (1, say (Beyond lba max_lba) (close_at path v h))
      else case hs_files h data_file of
        None \<Rightarrow> (1, say (Text ''Error opening data file'') (close_at path v h))
      | Some df \<Rightarrow>
      case fread df 0 SECTOR_SIZE of (data, df1) \<Rightarrow>
      let plain = data @ replicate (SECTOR_SIZE - length data) 0; h1 = put_file data_file (Some df1) h in
      case crypt_sector E plain lba (v_key v) True of
        None \<Rightarrow> (1, say (Text ''Error: Sector encryption failed.'') (close_at path v h1))
      | Some cipher \<Rightarrow>
      case fseek (v_file v) of (sought, f1) \<Rightarrow>
      case fwrite f1 (sector_pos h v lba sought) SECTOR_SIZE cipher of (n, f2) \<Rightarrow>
      if n \<noteq> SECTOR_SIZE then (1, say (Text ''Error writing sector'') (close_at path (v\<lparr>v_file := f2\<rparr>) h1))
      else case fflush f2 of (flushed, f3) \<Rightarrow>
        (0, say (Sector_written lba) (close_at path (v\<lparr>v_file := f3\<rparr>) h1)))"

definition handle_read_sector :: "env \<Rightarrow> host \<Rightarrow> bytes \<Rightarrow> bytes \<Rightarrow> u64 \<Rightarrow> bytes \<Rightarrow> int \<times> host" where
  "handle_read_sector E h path raw_pass lba out_file =
     (case vol_open E (hs_files h path) raw_pass None False of
        None \<Rightarrow> (1, say (Text ''Error: invalid password.'') h)
      | Some v \<Rightarrow>
      let max_lba = v_size v div of_nat SECTOR_SIZE in
      if max_lba \<le> lba then (1, say (Beyond lba max_lba) (close_at path v h))
      else case fseek (v_file v) of (sought, f1) \<Rightarrow>
      case fread f1 (sector_pos h v lba sought) SECTOR_SIZE of (cipher, f2) \<Rightarrow>
      let h1 = close_at path (v\<lparr>v_file := f2\<rparr>) h in
      if length cipher \<noteq> SECTOR_SIZE then (1, say (Text ''Error: Failed to read sector.'') h1)
      else case crypt_sector E cipher lba (v_key v) False of
        None \<Rightarrow> (1, say (Text ''Error: Sector decryption failed.'') h1)
      | Some plain \<Rightarrow>
      case open_trunc h1 out_file of
        None \<Rightarrow> (1, say (Text ''Error opening output file'') h1)
      | Some out \<Rightarrow>
      case fwrite out 0 SECTOR_SIZE plain of (written, out1) \<Rightarrow>
        (0, say (Sector_read lba) (put_file out_file (Some out1) h1)))"

section \<open>Options\<close>

text \<open>
  The loops over \<open>argv[3], argv[4], ...\<close>. An option that takes a value needs a following argument; the value
  itself is looked at again as an option, and the last occurrence of an option wins.
\<close>

abbreviation takes :: "bytes \<Rightarrow> string \<Rightarrow> bytes list \<Rightarrow> bool" where
  "takes arg opt rest \<equiv> arg = cstr opt \<and> rest \<noteq> []"

record options =
  o_size :: u64
  o_pwd_fd :: int
  o_hidden_fd :: int
  o_protect :: bool
  o_mount :: "bytes option"
  o_lba :: "u64 option"
  o_data :: "bytes option"

definition no_options :: options where
  "no_options = \<lparr>o_size = 0, o_pwd_fd = - 1, o_hidden_fd = - 1, o_protect = False, o_mount = None,
     o_lba = None, o_data = None\<rparr>"

fun create_options :: "bytes list \<Rightarrow> options \<Rightarrow> options" where
  "create_options [] o1 = o1"
| "create_options (a # rest) o1 = create_options rest
     (if takes a ''--size'' rest then o1\<lparr>o_size := strtoull (hd rest)\<rparr>
      else if takes a ''--password-fd'' rest then o1\<lparr>o_pwd_fd := atoi (hd rest)\<rparr>
      else o1)"

fun create_hidden_options :: "bytes list \<Rightarrow> options \<Rightarrow> options" where
  "create_hidden_options [] o1 = o1"
| "create_hidden_options (a # rest) o1 = create_hidden_options rest
     (if takes a ''--password-fd'' rest then o1\<lparr>o_pwd_fd := atoi (hd rest)\<rparr>
      else if takes a ''--hidden-password-fd'' rest then o1\<lparr>o_hidden_fd := atoi (hd rest)\<rparr>
      else if takes a ''--size'' rest then o1\<lparr>o_size := strtoull (hd rest)\<rparr>
      else o1)"

fun open_options :: "bytes list \<Rightarrow> options \<Rightarrow> options" where
  "open_options [] o1 = o1"
| "open_options (a # rest) o1 = open_options rest
     (if takes a ''--password-fd'' rest then o1\<lparr>o_pwd_fd := atoi (hd rest)\<rparr>
      else if takes a ''--hidden-password-fd'' rest then o1\<lparr>o_hidden_fd := atoi (hd rest)\<rparr>
      else if a = cstr ''--protect-hidden'' then o1\<lparr>o_protect := True\<rparr>
      else o1)"

fun mount_options :: "bytes list \<Rightarrow> options \<Rightarrow> options" where
  "mount_options [] o1 = o1"
| "mount_options (a # rest) o1 = mount_options rest
     (if takes a ''--password-fd'' rest then o1\<lparr>o_pwd_fd := atoi (hd rest)\<rparr>
      else if takes a ''--hidden-password-fd'' rest then o1\<lparr>o_hidden_fd := atoi (hd rest)\<rparr>
      else if a = cstr ''--protect-hidden'' then o1\<lparr>o_protect := True\<rparr>
      else if takes a ''--mountpoint'' rest then o1\<lparr>o_mount := Some (hd rest)\<rparr>
      else o1)"

text \<open>\<open>write-sector\<close> names its file with \<open>--data\<close>, \<open>read-sector\<close> with \<open>--output\<close>.\<close>

fun sector_options :: "string \<Rightarrow> bytes list \<Rightarrow> options \<Rightarrow> options" where
  "sector_options file_opt [] o1 = o1"
| "sector_options file_opt (a # rest) o1 = sector_options file_opt rest
     (if takes a ''--password-fd'' rest then o1\<lparr>o_pwd_fd := atoi (hd rest)\<rparr>
      else if takes a ''--lba'' rest then o1\<lparr>o_lba := Some (strtoull (hd rest))\<rparr>
      else if takes a file_opt rest then o1\<lparr>o_data := Some (hd rest)\<rparr>
      else o1)"

section \<open>Commands\<close>

text \<open>\<open>argv\<close> includes the program's name and the command.\<close>

definition main_create :: "env \<Rightarrow> host \<Rightarrow> bytes list \<Rightarrow> int \<times> host" where
  "main_create E h argv =
     (if length argv < 5 then (1, say (Missing ''create'') h)
      else let o1 = create_options (drop 3 argv) no_options in
      if o_size o1 = 0 then (1, say (Text ''Error: Invalid or missing size (--size).'') h)
      else case obtain_password (o_pwd_fd o1) ''Enter password: '' h of
        (None, h1) \<Rightarrow> (1, say (Text ''Error: Password required.'') h1)
      | (Some raw_pass, h1) \<Rightarrow> handle_create E h1 (argv ! 2) (o_size o1) raw_pass)"

definition main_create_hidden :: "env \<Rightarrow> host \<Rightarrow> bytes list \<Rightarrow> int \<times> host" where
  "main_create_hidden E h argv =
     (if length argv < 5 then (1, say (Missing ''create-hidden'') h)
      else let o1 = create_hidden_options (drop 3 argv) no_options in
      if o_size o1 = 0 then (1, say (Text ''Error: Invalid or missing size (--size).'') h)
      else case obtain_password (o_pwd_fd o1) ''Enter outer volume password: '' h of (outer_pass, h1) \<Rightarrow>
      case obtain_password (o_hidden_fd o1) ''Enter hidden volume password: '' h1 of (hidden_pass, h2) \<Rightarrow>
      if outer_pass = None \<or> hidden_pass = None
      then (1, say (Text ''Error: Both passwords are required.'') h2)
      else handle_create_hidden E h2 (argv ! 2) (the outer_pass) (the hidden_pass) (o_size o1))"

text \<open>The password for protection is only read when it is asked for; failing to get it is not an error here.\<close>

definition protect_password :: "options \<Rightarrow> host \<Rightarrow> bytes option \<times> host" where
  "protect_password o1 h =
     (if o_protect o1 then obtain_password (o_hidden_fd o1) ''Enter hidden volume password for protection: '' h
      else (None, h))"

definition main_open :: "env \<Rightarrow> host \<Rightarrow> bytes list \<Rightarrow> int \<times> host" where
  "main_open E h argv =
     (if length argv < 3 then (1, say (Missing ''open'') h)
      else let o1 = open_options (drop 3 argv) no_options in
      case obtain_password (o_pwd_fd o1) ''Enter volume password: '' h of (raw_pass, h1) \<Rightarrow>
      case protect_password o1 h1 of (hidden_pass, h2) \<Rightarrow>
      case raw_pass of
        None \<Rightarrow> (1, say (Text ''Error: Password required.'') h2)
      | Some pw \<Rightarrow> handle_open E h2 (argv ! 2) pw hidden_pass (o_protect o1))"

definition main_mount ::
  "env \<Rightarrow> (bytes list \<Rightarrow> volume \<Rightarrow> int \<times> cfile) \<Rightarrow> host \<Rightarrow> bytes list \<Rightarrow> int \<times> host" where
  "main_mount E fm h argv =
     (if length argv < 3 then (1, say (Missing ''mount'') h)
      else let o1 = mount_options (drop 3 argv) no_options in
      case o_mount o1 of
        None \<Rightarrow> (1, say (Text ''Error: Missing mountpoint (--mountpoint).'') h)
      | Some mount_point \<Rightarrow>
      case obtain_password (o_pwd_fd o1) ''Enter volume password: '' h of (raw_pass, h1) \<Rightarrow>
      case protect_password o1 h1 of (hidden_pass, h2) \<Rightarrow>
      case raw_pass of
        None \<Rightarrow> (1, say (Text ''Error: Password required.'') h2)
      | Some pw \<Rightarrow> handle_mount E fm h2 (argv ! 2) pw hidden_pass (o_protect o1) mount_point)"

definition main_write_sector :: "env \<Rightarrow> host \<Rightarrow> bytes list \<Rightarrow> int \<times> host" where
  "main_write_sector E h argv =
     (if length argv < 3 then (1, say (Missing ''write-sector'') h)
      else let o1 = sector_options ''--data'' (drop 3 argv) no_options in
      if o_lba o1 = None \<or> o_data o1 = None
      then (1, say (Text ''Error: Missing LBA or data file (--lba, --data).'') h)
      else case obtain_password (o_pwd_fd o1) ''Enter volume password: '' h of
        (None, h1) \<Rightarrow> (1, say (Text ''Error: Password required.'') h1)
      | (Some raw_pass, h1) \<Rightarrow>
          handle_write_sector E h1 (argv ! 2) raw_pass (the (o_lba o1)) (the (o_data o1)))"

definition main_read_sector :: "env \<Rightarrow> host \<Rightarrow> bytes list \<Rightarrow> int \<times> host" where
  "main_read_sector E h argv =
     (if length argv < 3 then (1, say (Missing ''read-sector'') h)
      else let o1 = sector_options ''--output'' (drop 3 argv) no_options in
      if o_lba o1 = None \<or> o_data o1 = None
      then (1, say (Text ''Error: Missing LBA or output file (--lba, --output).'') h)
      else case obtain_password (o_pwd_fd o1) ''Enter volume password: '' h of
        (None, h1) \<Rightarrow> (1, say (Text ''Error: Password required.'') h1)
      | (Some raw_pass, h1) \<Rightarrow>
          handle_read_sector E h1 (argv ! 2) raw_pass (the (o_lba o1)) (the (o_data o1)))"

section \<open>main\<close>

definition denyfs_main ::
  "env \<Rightarrow> (bytes list \<Rightarrow> volume \<Rightarrow> int \<times> cfile) \<Rightarrow> host \<Rightarrow> bytes list \<Rightarrow> int \<times> host" where
  "denyfs_main E fm h0 argv =
     (let h = (if hs_cores h0 then h0
        else say (Text ''Warning: could not disable core dumps on this system.'') h0) in
      if \<not> hs_crypto h then (1, say (Text ''Error: Cryptographic library initialization failed.'') h)
      else if length argv < 2 then (1, say (Text ''Usage:'') h)
      else if argv ! 1 = cstr ''create'' then main_create E h argv
      else if argv ! 1 = cstr ''create-hidden'' then main_create_hidden E h argv
      else if argv ! 1 = cstr ''open'' then main_open E h argv
      else if argv ! 1 = cstr ''mount'' then main_mount E fm h argv
      else if argv ! 1 = cstr ''write-sector'' then main_write_sector E h argv
      else if argv ! 1 = cstr ''read-sector'' then main_read_sector E h argv
      else (1, say (Unknown (argv ! 1)) h))"

end
