(* ===== verification/Commands.thy ===== *)
theory Commands
  imports Durable Cli
begin

text \<open>
  What the commands of the command line do: the numbers and passwords they read, the options of a whole
  argument vector, \<open>create\<close> and \<open>open\<close> from the arguments to the container, a raw sector written and read
  back, and the files a command leaves alone.
\<close>

section \<open>Numbers\<close>

lemma digits_value_snoc: "digits_value (ds @ [d]) = 10 * digits_value ds + (unat d - 48)"
  by (simp add: digits_value_def)

lemma digit_byte: "n < 10 \<Longrightarrow> isdigit (of_nat (48 + n)) \<and> unat (of_nat (48 + n) :: u8) = 48 + n"
proof -
  assume n: "n < 10"
  have "unat (of_nat (48 + n) :: u8) = 48 + n" using n by (simp add: unsigned_of_nat take_bit_nat_eq_self del: of_nat_add)
  with n show ?thesis by (simp add: isdigit_def word_le_nat_alt del: of_nat_add)
qed

lemma decimal_digits: "(\<forall>c \<in> set (decimal n). isdigit c) \<and> digits_value (decimal n) = n \<and> decimal n \<noteq> []"
proof (induction n rule: decimal.induct)
  case (1 n)
  show ?case
  proof (cases "n < 10")
    case True
    then show ?thesis using digit_byte [OF True] by (simp add: decimal.simps [of n] digits_value_def)
  next
    case False
    have m: "n mod 10 < 10" by simp
    have d: "decimal n = decimal (n div 10) @ [of_nat (48 + n mod 10)]" using False by (simp add: decimal.simps [of n])
    have "10 * (n div 10) + n mod 10 = n" by simp
    with 1 [OF False] digit_byte [OF m] show ?thesis unfolding d digits_value_snoc by auto
  qed
qed

lemma isdigit_other: "isdigit c \<Longrightarrow> \<not> isspace c \<and> c \<noteq> of_char CHR ''-'' \<and> c \<noteq> of_char CHR ''+''"
  by (auto simp: isdigit_def isspace_def word_le_nat_alt)

lemma parse_decimal_numeral: "parse_decimal (decimal n) = (False, n)"
proof -
  obtain c cs where d: "decimal n = c # cs" using decimal_digits by (cases "decimal n") auto
  have c: "isdigit c" "\<forall>x \<in> set cs. isdigit x" using decimal_digits [of n] by (simp_all add: d)
  have v: "digits_value (c # cs) = n" using decimal_digits [of n] by (simp add: d)
  have "takeWhile isdigit (c # cs) = c # cs" using c by (simp add: takeWhile_eq_all_conv)
  then show ?thesis using isdigit_other [OF c(1)] v by (simp add: parse_decimal_def d)
qed

lemma strtoull_numeral: "strtoull (decimal n) = (if 2 ^ 64 \<le> n then - 1 else of_nat n)"
  by (simp add: strtoull_def parse_decimal_numeral)

lemma atoi_numeral: "n < 2 ^ 31 \<Longrightarrow> atoi (decimal n) = int n"
  by (simp add: atoi_def parse_decimal_numeral sint_of_nat_u32)

text \<open>A numeral is not an option.\<close>

lemma decimal_no_option: "decimal n \<noteq> cstr (CHR ''-'' # s)"
proof
  assume "decimal n = cstr (CHR ''-'' # s)"
  then have "isdigit (of_char CHR ''-'')" using decimal_digits [of n] by (simp add: cstr_def)
  then show False using isdigit_other by blast
qed

section \<open>Passwords\<close>

definition line :: "bytes \<Rightarrow> bool" where
  "line pw \<longleftrightarrow> (\<forall>c \<in> set pw. c \<noteq> 10 \<and> c \<noteq> 13)"

lemma read_line_app:
  "line pw \<Longrightarrow> read_line p (pw @ rest) = read_line (p @ take (PASSWORD_MAX - 1 - length p) pw) rest"
proof (induction pw arbitrary: p)
  case (Cons c pw)
  then have c: "c \<noteq> 10" "c \<noteq> 13" "line pw" by (simp_all add: line_def)
  show ?case
  proof (cases "length p < PASSWORD_MAX - 1")
    case True
    then have "p @ take (PASSWORD_MAX - 1 - length p) (c # pw) =
        (p @ [c]) @ take (PASSWORD_MAX - 1 - length (p @ [c])) pw" by (simp add: take_Cons' )
    with True Cons.IH [OF c(3), of "p @ [c]"] c show ?thesis by simp
  next
    case False
    with Cons.IH [OF c(3), of p] c show ?thesis by simp
  qed
qed (simp add: line_def)

text \<open>The password is the line, cut to the buffer; the next line stays in the stream.\<close>

lemma read_line_ends:
  "line pw \<Longrightarrow> c = 10 \<or> c = 13 \<Longrightarrow> read_line [] (pw @ c # rest) = (take (PASSWORD_MAX - 1) pw, rest)"
  "line pw \<Longrightarrow> read_line [] pw = (take (PASSWORD_MAX - 1) pw, [])"
  using read_line_app [of pw "[]" "c # rest"] read_line_app [of pw "[]" "[]"] by auto

text \<open>Without the backspace key the two interactive readers agree.\<close>

lemma read_console_line: "8 \<notin> set s \<Longrightarrow> 127 \<notin> set s \<Longrightarrow> read_console p s = read_line p s"
  by (induction s arbitrary: p) auto

section \<open>Arguments\<close>

lemma unat_of_char: "unat (of_char c :: u8) = of_char c"
proof -
  have "unat (of_nat (of_char c) :: u8) = of_char c"
    using of_char_mod_256 [of c, where ?'a = nat] by (simp add: unsigned_of_nat take_bit_eq_mod )
  then show ?thesis by (simp only: of_nat_of_char)
qed

lemma cstr_eq [simp]: "cstr s = cstr t \<longleftrightarrow> s = t"
proof -
  have "inj (of_char :: char \<Rightarrow> u8)" by (rule injI) (metis unat_of_char of_char_eq_iff)
  then show ?thesis by (simp add: cstr_def inj_map_eq_map)
qed

lemma decimal_plain [simp]: "decimal n \<noteq> cstr (CHR ''-'' # s)" "cstr (CHR ''-'' # s) \<noteq> decimal n"
  using decimal_no_option [of n s] by auto

lemma create_arguments:
  "create_options [cstr ''--size'', decimal n, cstr ''--password-fd'', decimal fd] no_options =
     no_options\<lparr>o_size := strtoull (decimal n), o_pwd_fd := atoi (decimal fd)\<rparr>"
  by simp

lemma open_arguments:
  "open_options [cstr ''--password-fd'', decimal fd] no_options = no_options\<lparr>o_pwd_fd := atoi (decimal fd)\<rparr>"
  by simp


section \<open>Creating and opening a container\<close>

text \<open>A password that comes as a line of a descriptor.\<close>

lemma password_line:
  assumes "hs_alloc h = []" "line pw" "length pw < PASSWORD_MAX" "fd < 2 ^ 31" "hs_fds h (int fd) = pw @ 10 # rest"
  shows "obtain_password (atoi (decimal fd)) prompt h = (Some pw, h\<lparr>hs_fds := (hs_fds h)(int fd := rest)\<rparr>)"
  using assms read_line_ends(1) [of pw 10 rest]
  by (simp add: obtain_password_def read_password_from_fd_def secure_alloc_def atoi_numeral)

lemma say_fields [simp]:
  "hs_files (say m h) = hs_files h" "hs_create (say m h) = hs_create h" "hs_fds (say m h) = hs_fds h"
  "hs_tty (say m h) = hs_tty h" "hs_alloc (say m h) = hs_alloc h" "hs_crypto (say m h) = hs_crypto h"
  "hs_cores (say m h) = hs_cores h" "hs_entropy (say m h) = hs_entropy h" "hs_now (say m h) = hs_now h"
  "hs_pos (say m h) = hs_pos h" "hs_out (say m h) = hs_out h @ [m]"
  by (simp_all add: say_def)

lemma put_file_fields [simp]:
  "hs_files (put_file path f h) = (hs_files h)(path := f)" "hs_create (put_file path f h) = hs_create h"
  "hs_fds (put_file path f h) = hs_fds h" "hs_tty (put_file path f h) = hs_tty h"
  "hs_alloc (put_file path f h) = hs_alloc h" "hs_crypto (put_file path f h) = hs_crypto h"
  "hs_cores (put_file path f h) = hs_cores h" "hs_entropy (put_file path f h) = hs_entropy h"
  "hs_now (put_file path f h) = hs_now h" "hs_pos (put_file path f h) = hs_pos h"
  "hs_out (put_file path f h) = hs_out h"
  by (simp_all add: put_file_def)

text \<open>Which command \<open>main\<close> runs, once the library is up.\<close>

definition started :: "host \<Rightarrow> host" where
  "started h = (if hs_cores h then h
     else say (Text ''Warning: could not disable core dumps on this system.'') h)"

lemma started_fields [simp]:
  "hs_files (started h) = hs_files h" "hs_create (started h) = hs_create h" "hs_fds (started h) = hs_fds h"
  "hs_alloc (started h) = hs_alloc h" "hs_crypto (started h) = hs_crypto h"
  "hs_entropy (started h) = hs_entropy h" "hs_now (started h) = hs_now h" "hs_pos (started h) = hs_pos h"
  by (simp_all add: started_def)

lemma denyfs_main_runs:
  assumes "hs_crypto h"
  shows "denyfs_main E fm h (prog # cstr ''create'' # rest) = main_create E (started h) (prog # cstr ''create'' # rest)"
    and "denyfs_main E fm h (prog # cstr ''open'' # rest) = main_open E (started h) (prog # cstr ''open'' # rest)"
  using assms by (simp_all add: denyfs_main_def Let_def started_def)

lemma create_command_run:
  assumes libs: "libs_work E" and en: "entropy_ok (hs_entropy h)" and h: "hs_crypto h" "hs_alloc h = []"
    and new: "hs_files h path = None" "hs_create h path = Some []"
    and pw: "line pw" "pw \<noteq> []" "length pw < PASSWORD_MAX" "fd < 2 ^ 31" "hs_fds h (int fd) = pw @ 10 # rest"
    and n: "n < 2 ^ 64" "size_ok (of_nat n)"
  shows "\<exists>g h1 m. denyfs_main E fm h [prog, cstr ''create'', path, cstr ''--size'', decimal n, cstr ''--password-fd'',
      decimal fd] = (0, h1) \<and> hs_files h1 = (hs_files h)(path \<mapsto> g) \<and> hs_fds h1 = (hs_fds h)(int fd := rest) \<and>
    hs_alloc h1 = [] \<and> hs_crypto h1 \<and> length (f_bytes g) = container_bytes (of_nat n) \<and>
    holds_outer E (hs_entropy h) pw g (of_nat n * 1024 * 1024 div 2) (hs_now h) m"
proof -
  let ?h = "(started h)\<lparr>hs_fds := (hs_fds h)(int fd := rest)\<rparr>"
  obtain g m where g: "container_create E (hs_entropy h) (Some empty_file) (of_nat n) pw (hs_now h) = (True, Some g)"
    "length (f_bytes g) = container_bytes (of_nat n)"
    "holds_outer E (hs_entropy h) pw g (of_nat n * 1024 * 1024 div 2) (hs_now h) m"
    using create_holds_outer [OF libs en pw(2) n(2)] by blast
  have p: "obtain_password (atoi (decimal fd)) x (started h) = (Some pw, ?h)" for x
    using password_line [of "started h" pw fd rest x] h pw by simp
  have o: "open_new (say (Creating (of_nat n) path) ?h) path = Some empty_file"
    using new by (simp add: open_new_def empty_file_def)
  have nz: "(of_nat n :: u64) \<noteq> 0" using n(2) by (simp add: size_ok_def)
  have "\<exists>h1. handle_create E ?h path (of_nat n) pw = (0, h1) \<and> hs_files h1 = (hs_files h)(path \<mapsto> g) \<and>
      hs_fds h1 = (hs_fds h)(int fd := rest) \<and> hs_alloc h1 = [] \<and> hs_crypto h1"
    unfolding handle_create_def Let_def o using h by (simp add: g(1))
  moreover have "denyfs_main E fm h [prog, cstr ''create'', path, cstr ''--size'', decimal n, cstr ''--password-fd'',
      decimal fd] = handle_create E ?h path (of_nat n) pw"
    using n(1) nz p by (simp add: denyfs_main_runs [OF h(1)] main_create_def strtoull_numeral no_options_def)
  ultimately show ?thesis using g(2,3) by metis
qed

lemma open_command_run:
  assumes h: "hs_crypto h" "hs_alloc h = []"
    and pw: "line pw" "length pw < PASSWORD_MAX" "fd < 2 ^ 31" "hs_fds h (int fd) = pw @ 10 # rest"
    and v: "vol_open E (hs_files h path) pw None False = Some v"
  shows "\<exists>h1. denyfs_main E fm h [prog, cstr ''open'', path, cstr ''--password-fd'', decimal fd] = (0, h1) \<and>
    hs_files h1 = (hs_files h)(path \<mapsto> v_file v) \<and>
    Report (v_hidden v) (v_size v) (sb_total_blocks (v_sb v)) (sb_free_blocks (v_sb v)) (sb_free_inodes (v_sb v))
      (sb_data_start (v_sb v)) \<in> set (hs_out h1)"
proof -
  let ?h = "(started h)\<lparr>hs_fds := (hs_fds h)(int fd := rest)\<rparr>"
  have p: "obtain_password (atoi (decimal fd)) x (started h) = (Some pw, ?h)" for x
    using password_line [of "started h" pw fd rest x] h pw by simp
  have "denyfs_main E fm h [prog, cstr ''open'', path, cstr ''--password-fd'', decimal fd] =
      handle_open E ?h path pw None False"
    by (simp add: denyfs_main_runs [OF h(1)] main_open_def p protect_password_def no_options_def)
  then show ?thesis by (auto simp: handle_open_def v Let_def close_at_def vol_close_def)
qed


section \<open>A raw sector written and read back\<close>

text \<open>On a working stream the two handlers do what \<open>write_block\<close> and \<open>read_block\<close> do.\<close>

lemma write_block_cipher:
  assumes r: "ready E v" and b: "unat b < vol_blocks v" and w: "write_block E v b d = (Inr (), w)"
  obtains y where "crypt_sector E d (ucast b) (v_key v) True = Some y"
    "fwrite (v_file v) (unat (block_offset (v_start v) b)) SECTOR_SIZE y = (SECTOR_SIZE, v_file w)"
    "w = v\<lparr>v_file := v_file w\<rparr>" "f_faults (v_file w) = []" "unat (block_offset (v_start v) b) \<le> LONG_MAX"
proof -
  have g: "f_faults (v_file v) = []" "vol_geom v" "\<not> blocked v b" using r b by (simp_all add: ready_def)
  note l = block_offset_le_LONG_MAX [OF g(2) b]
  obtain y where y: "crypt_sector E d (ucast b) (v_key v) True = Some y"
    using w b g by (auto simp: write_block_def split: option.splits)
  obtain n f where f: "fwrite (v_file v) (unat (block_offset (v_start v) b)) SECTOR_SIZE y = (n, f)" by fastforce
  have "n = SECTOR_SIZE" "w = v\<lparr>v_file := f\<rparr>"
    using w b g l by (simp_all add: write_block_def y f Let_def split: if_splits)
  moreover have "f_faults f = []" using f g(1) by (auto simp: fwrite_def Let_def split: if_splits)
  ultimately show ?thesis using that y f l by simp
qed

lemma sector_pos_block:
  assumes "ucast b = lba" "unat (block_offset (v_start v) b) \<le> LONG_MAX"
  shows "sector_pos h v lba True = unat (block_offset (v_start v) b)"
  using assms by (auto simp: sector_pos_def block_offset_def)

lemma write_sector_run:
  assumes v: "vol_open E (hs_files h path) pw None False = Some v" and r: "ready E v"
    and b: "unat b < vol_blocks v" "ucast b = lba"
    and d: "hs_files h data_file = Some df" "f_faults df = []" "data_file \<noteq> path"
    and w: "write_block E v b (pad SECTOR_SIZE (f_bytes df)) = (Inr (), w)"
  shows "\<exists>h1. handle_write_sector E h path pw lba data_file = (0, h1) \<and>
    hs_files h1 = (hs_files h)(path \<mapsto> v_file w) \<and> hs_create h1 = hs_create h"
proof -
  obtain y where y: "crypt_sector E (pad SECTOR_SIZE (f_bytes df)) lba (v_key v) True = Some y"
    "fwrite (v_file v) (unat (block_offset (v_start v) b)) SECTOR_SIZE y = (SECTOR_SIZE, v_file w)"
    "w = v\<lparr>v_file := v_file w\<rparr>" "f_faults (v_file w) = []" "unat (block_offset (v_start v) b) \<le> LONG_MAX"
    using write_block_cipher [OF r b(1) w] b(2) by metis
  have lt: "\<not> v_size v div of_nat SECTOR_SIZE \<le> lba"
    using b by (auto simp: vol_blocks_def word_le_nat_alt unat_div SECTOR_SIZE_def)
  have p: "slice 0 SECTOR_SIZE (f_bytes df) @ replicate (SECTOR_SIZE - length (slice 0 SECTOR_SIZE (f_bytes df))) 0 =
      pad SECTOR_SIZE (f_bytes df)"
    by (simp add: pad_def slice_def)
  have fv: "f_faults (v_file v) = []" using r by (simp add: ready_def)
  have "hs_files h = (hs_files h)(data_file \<mapsto> df)" using d(1) by auto
  then have same: "(hs_files h)(data_file \<mapsto> df, path \<mapsto> x) = (hs_files h)(path \<mapsto> x)" for x by simp
  show ?thesis
    unfolding handle_write_sector_def v option.case Let_def if_not_P [OF lt] d(1) fread_none [OF d(2)] prod.case p y(1)
      fseek_none [OF fv] sector_pos_block [OF b(2) y(5)] y(2)
    using y(4) same by (simp add: close_at_def vol_close_def)
qed

lemma read_sector_run:
  assumes v: "vol_open E (hs_files h path) pw None False = Some v" and r: "ready E v"
    and b: "unat b < vol_blocks v" "ucast b = lba"
    and out: "open_trunc h out_file = Some empty_file" "out_file \<noteq> path"
  shows "\<exists>h1. handle_read_sector E h path pw lba out_file = (0, h1) \<and>
    hs_files h1 = (hs_files h)(path \<mapsto> v_file v, out_file \<mapsto> \<lparr>f_bytes = cells E v b, f_faults = []\<rparr>)"
proof -
  have g: "f_faults (v_file v) = []" "vol_geom v" "xts_correct E" "length (v_key v) = KEY_SIZE_XTS"
    using r by (simp_all add: ready_def)
  note l = block_offset_le_LONG_MAX [OF g(2) b(1)]
  let ?c = "slice (unat (block_offset (v_start v) b)) SECTOR_SIZE (f_bytes (v_file v))"
  have uo: "unat (block_offset (v_start v) b) = unat (v_start v) + unat b * SECTOR_SIZE"
    using unat_block_offset [OF g(2) b(1)] .
  have len: "length ?c = SECTOR_SIZE" using sector_in_file [OF r b(1)] by (simp add: uo)
  obtain z where z: "crypt_sector E ?c lba (v_key v) False = Some z" "length z = SECTOR_SIZE"
    using crypt_sector_dec [OF g(3,4) len] by blast
  have cz: "cells E v b = z" using z(1) by (simp add: cells_def uo b(2))
  have lt: "\<not> v_size v div of_nat SECTOR_SIZE \<le> lba"
    using b by (auto simp: vol_blocks_def word_le_nat_alt unat_div SECTOR_SIZE_def)
  have o: "open_trunc (close_at path (v\<lparr>v_file := v_file v\<rparr>) h) out_file = Some empty_file"
    using out by (simp add: open_trunc_def open_new_def close_at_def split: option.splits)
  have fw: "fwrite empty_file 0 SECTOR_SIZE z = (SECTOR_SIZE, \<lparr>f_bytes = z, f_faults = []\<rparr>)"
    using z(2) by (simp add: empty_file_def fwrite_none overwrite_def)
  show ?thesis
    unfolding handle_read_sector_def v option.case Let_def if_not_P [OF lt] fseek_none [OF g(1)] prod.case
      sector_pos_block [OF b(2) l] fread_none [OF g(1)] len z(1) o fw cz
    by (simp add: close_at_def vol_close_def)
qed

lemma sector_again:
  assumes libs: "libs_work E" and f: "hs_files h path = Some f" "f_faults f = []"
    and v: "vol_open E (Some f) pw None False = Some v" "store E v"
    and b: "unat lba \<in> pool v - used v"
    and d: "hs_files h data_file = Some df" "f_faults df = []" "data_file \<noteq> path"
    and out: "open_trunc h out_file = Some empty_file" "out_file \<noteq> path"
  shows "\<exists>h1 h2 w. handle_write_sector E h path pw lba data_file = (0, h1) \<and>
    handle_read_sector E h1 path pw lba out_file = (0, h2) \<and>
    map_option f_bytes (hs_files h2 out_file) = Some (pad SECTOR_SIZE (f_bytes df)) \<and>
    vol_open E (hs_files h2 path) pw None False = Some w \<and> store E w \<and> files E w = files E v"
proof -
  let ?b = "ucast lba :: u32"
  have c: "core E v" using v(2) by (simp add: store_def sound_def)
  have r: "ready E v" and wv: "wf v" using c by (simp_all add: core_def)
  have lt: "unat lba < vol_blocks v" using b wf_facts(2) [OF wv] by (simp add: pool_def)
  have "vol_blocks v \<le> 2 ^ 31" using c wf_facts(2) [OF wv] by (simp add: core_def small_volume_def)
  then have s: "unat lba < 2 ^ 32" using lt by simp
  have ub: "unat ?b = unat lba" using s by (simp add: unsigned_ucast_eq take_bit_nat_eq_self)
  have ul: "ucast ?b = lba" by (simp only: word_unat_eq_iff unat_ucast_32_64 ub)
  have len: "length (pad SECTOR_SIZE (f_bytes df)) = SECTOR_SIZE" by (simp add: pad_def)
  have bb: "unat ?b \<in> pool v - used v" using b by (simp only: ub)
  obtain w where w: "write_block E v ?b (pad SECTOR_SIZE (f_bytes df)) = (Inr (), w)" "settled E w" "keeps v w"
    "cells E w ?b = pad SECTOR_SIZE (f_bytes df)" "ready E w" "store E w \<and> files E w = files E v"
    using settled_free_write [OF store_opened(1) [OF libs f(2) v] bb len] v(2) by metis
  have lb: "unat ?b < vol_blocks v" using lt by (simp only: ub)
  have vo: "vol_open E (hs_files h path) pw None False = Some v" using v(1) f(1) by simp
  obtain h1 where h1: "handle_write_sector E h path pw lba data_file = (0, h1)"
    "hs_files h1 = (hs_files h)(path \<mapsto> v_file w)" "hs_create h1 = hs_create h"
    using write_sector_run [OF vo r lb ul d w(1)] by blast
  have again: "vol_open E (Some (v_file w)) pw None False = Some w" by (rule open_again [OF libs f(2) v(1) w(3,2)])
  have vo1: "vol_open E (hs_files h1 path) pw None False = Some w" using again by (simp add: h1(2))
  have lw: "unat ?b < vol_blocks w" using w(3) lb by (simp add: keeps_def same_config_def vol_blocks_def)
  have o1: "open_trunc h1 out_file = Some empty_file"
    using out by (simp add: open_trunc_def open_new_def h1 split: option.splits)
  obtain h2 where h2: "handle_read_sector E h1 path pw lba out_file = (0, h2)"
    "hs_files h2 = (hs_files h1)(path \<mapsto> v_file w, out_file \<mapsto> \<lparr>f_bytes = cells E w ?b, f_faults = []\<rparr>)"
    using read_sector_run [OF vo1 w(5) lw ul o1 out(2)] by blast
  have "hs_files h2 path = Some (v_file w)" using out(2) by (simp add: h2(2))
  with h1(1) h2 w(4,6) again show ?thesis by (intro exI [of _ h1] exI [of _ h2] exI [of _ w]) simp
qed


section \<open>What a command leaves alone\<close>

text \<open>A file has the same contents, or does not exist, before and after.\<close>

definition same_bytes :: "bytes \<Rightarrow> host \<Rightarrow> host \<Rightarrow> bool" where
  "same_bytes p h h' \<longleftrightarrow> map_option f_bytes (hs_files h' p) = map_option f_bytes (hs_files h p)"

text \<open>
  The files a command line may change: the container it names, except that \<open>create\<close> only makes a new file
  and \<open>open\<close> and \<open>read-sector\<close> only read it, and the output file of \<open>read-sector\<close>.
\<close>

definition may_write :: "host \<Rightarrow> bytes list \<Rightarrow> bytes \<Rightarrow> bool" where
  "may_write h argv p \<longleftrightarrow>
     (let command = argv ! 1 in
      p = argv ! 2 \<and> (command = cstr ''create'' \<and> hs_files h p = None \<or> command = cstr ''create-hidden'' \<or>
        command = cstr ''mount'' \<or> command = cstr ''write-sector'') \<or>
      command = cstr ''read-sector'' \<and> o_data (sector_options ''--output'' (drop 3 argv) no_options) = Some p)"

lemma same_bytes_simps [simp]:
  "same_bytes p h h" "same_bytes p h (say m h') = same_bytes p h h'"
  "p \<noteq> path \<Longrightarrow> same_bytes p h (put_file path f h') = same_bytes p h h'"
  by (simp_all add: same_bytes_def)

lemma same_bytes_put:
  "same_bytes p h h' \<Longrightarrow> hs_files h path = Some g \<Longrightarrow> f_bytes f = f_bytes g \<Longrightarrow> same_bytes p h (put_file path (Some f) h')"
  by (simp add: same_bytes_def)

lemma vol_open_bytes: "vol_open E f pw hpw protect = Some v \<Longrightarrow> \<exists>g. f = Some g \<and> f_bytes (v_file v) = f_bytes g"
proof -
  assume v: "vol_open E f pw hpw protect = Some v"
  then obtain g where g: "f = Some g" by (cases f) (simp_all add: vol_open_def)
  from v [unfolded g] obtain x where "consumes g (v_file x)" "load_volume E x = Some v" by (rule vol_open_SomeE)
  then have "f_bytes (v_file v) = f_bytes g"
    using load_volume_place [of E x v] by (auto simp: same_place_def dest!: consumes_bytes)
  with g show ?thesis by simp
qed

lemma secure_alloc_files: "secure_alloc h = (ok, h1) \<Longrightarrow> hs_files h1 = hs_files h"
  by (auto simp: secure_alloc_def split: list.splits)

lemma obtain_password_files: "obtain_password fd prompt h = (x, h1) \<Longrightarrow> hs_files h1 = hs_files h"
  by (auto simp: obtain_password_def read_password_from_fd_def get_password_interactive_def Let_def
      dest: secure_alloc_files split: if_splits prod.splits)

lemma same_bytes_files: "hs_files h1 = hs_files h \<Longrightarrow> same_bytes p h1 h' = same_bytes p h h'"
  by (simp add: same_bytes_def)

lemma handle_create_frame:
  "handle_create E h path sz pw = (r, h') \<Longrightarrow> p \<noteq> path \<or> hs_files h p \<noteq> None \<Longrightarrow> same_bytes p h h'"
  by (cases "p = path")
    (auto simp: handle_create_def Let_def open_new_def container_create_def split: prod.splits if_splits option.splits)

lemma handle_create_hidden_frame:
  "handle_create_hidden E h path pw hpw sz = (r, h') \<Longrightarrow> p \<noteq> path \<Longrightarrow> same_bytes p h h'"
  by (auto simp: handle_create_hidden_def Let_def split: prod.splits if_splits sum.splits)

lemma close_frame:
  assumes "vol_open E (hs_files h path) pw hpw protect = Some v" "f_bytes (v_file w) = f_bytes (v_file v)"
    "same_bytes p h h'"
  shows "same_bytes p h (close_at path w h')"
  using vol_open_bytes [OF assms(1)] assms(2,3) by (auto simp: close_at_def vol_close_def intro!: same_bytes_put)

lemma handle_open_frame: "handle_open E h path pw hpw protect = (r, h') \<Longrightarrow> same_bytes p h h'"
  unfolding handle_open_def Let_def by (auto elim!: close_frame split: option.splits)

lemma handle_mount_frame:
  "handle_mount E fm h path pw hpw protect mp = (r, h') \<Longrightarrow> p \<noteq> path \<Longrightarrow> same_bytes p h h'"
  by (auto simp: handle_mount_def Let_def split: prod.splits option.splits)

lemma handle_write_sector_frame:
  "handle_write_sector E h path pw lba df = (r, h') \<Longrightarrow> p \<noteq> path \<Longrightarrow> same_bytes p h h'"
  by (auto simp: handle_write_sector_def Let_def close_at_def intro!: same_bytes_put dest: fread_bytes
      split: prod.splits option.splits if_splits)

lemma handle_read_sector_frame:
  "handle_read_sector E h path pw lba out = (r, h') \<Longrightarrow> p \<noteq> out \<Longrightarrow> same_bytes p h h'"
  unfolding handle_read_sector_def Let_def
  by (auto dest!: fseek_bytes fread_bytes elim!: close_frame split: prod.splits option.splits if_splits)

lemma protect_password_files: "protect_password o1 h = (x, h1) \<Longrightarrow> hs_files h1 = hs_files h"
  by (auto simp: protect_password_def dest: obtain_password_files split: if_splits)

lemmas password_files = obtain_password_files protect_password_files

lemma main_create_frame:
  "main_create E h argv = (r, h') \<Longrightarrow> p \<noteq> argv ! 2 \<or> hs_files h p \<noteq> None \<Longrightarrow> same_bytes p h h'"
proof -
  assume h': "main_create E h argv = (r, h')" and p: "p \<noteq> argv ! 2 \<or> hs_files h p \<noteq> None"
  obtain x h1 where o: "obtain_password (o_pwd_fd (create_options (drop 3 argv) no_options)) ''Enter password: '' h = (x, h1)"
    by fastforce
  note f = obtain_password_files [OF o]
  have "same_bytes p h1 h'" if "handle_create E h1 (argv ! 2) sz pw = (r, h')" for sz pw
    using handle_create_frame [OF that] p f by simp
  then show ?thesis using h' o f
    by (auto simp: main_create_def Let_def same_bytes_files [OF f] split: if_splits option.splits)
      (simp_all add: same_bytes_def)
qed


lemma obtained:
  obtains x h1 where "obtain_password fd prompt h = (x, h1)" "hs_files h1 = hs_files h"
  using obtain_password_files by (cases "obtain_password fd prompt h") blast

lemma main_create_hidden_frame:
  assumes h': "main_create_hidden E h argv = (r, h')" and p: "p \<noteq> argv ! 2"
  shows "same_bytes p h h'"
proof -
  let ?o = "create_hidden_options (drop 3 argv) no_options"
  obtain x h1 where 1: "obtain_password (o_pwd_fd ?o) ''Enter outer volume password: '' h = (x, h1)"
    "hs_files h1 = hs_files h" by (rule obtained)
  obtain y h2 where 2: "obtain_password (o_hidden_fd ?o) ''Enter hidden volume password: '' h1 = (y, h2)"
    "hs_files h2 = hs_files h1" by (rule obtained)
  have f: "hs_files h2 = hs_files h" using 1 2 by simp
  have "same_bytes p h2 h'" if "handle_create_hidden E h2 (argv ! 2) a b c = (r, h')" for a b c
    using handle_create_hidden_frame [OF that p] .
  then show ?thesis using h'
    by (auto simp: main_create_hidden_def Let_def 1(1) 2(1) same_bytes_files [OF f] split: if_splits)
      (simp_all add: same_bytes_def f)
qed

lemma main_open_frame:
  assumes h': "main_open E h argv = (r, h')"
  shows "same_bytes p h h'"
proof -
  let ?o = "open_options (drop 3 argv) no_options"
  obtain x h1 where 1: "obtain_password (o_pwd_fd ?o) ''Enter volume password: '' h = (x, h1)"
    "hs_files h1 = hs_files h" by (rule obtained)
  obtain y h2 where 2: "protect_password ?o h1 = (y, h2)" "hs_files h2 = hs_files h1"
    using protect_password_files by (cases "protect_password ?o h1") blast
  have f: "hs_files h2 = hs_files h" using 1 2 by simp
  show ?thesis using h'
    by (auto simp: main_open_def Let_def 1(1) 2(1) split: if_splits option.splits dest!: handle_open_frame [where p = p])
      (simp_all add: same_bytes_def f)
qed

lemma main_mount_frame:
  assumes h': "main_mount E fm h argv = (r, h')" and p: "p \<noteq> argv ! 2"
  shows "same_bytes p h h'"
proof -
  let ?o = "mount_options (drop 3 argv) no_options"
  obtain x h1 where 1: "obtain_password (o_pwd_fd ?o) ''Enter volume password: '' h = (x, h1)"
    "hs_files h1 = hs_files h" by (rule obtained)
  obtain y h2 where 2: "protect_password ?o h1 = (y, h2)" "hs_files h2 = hs_files h1"
    using protect_password_files by (cases "protect_password ?o h1") blast
  have f: "hs_files h2 = hs_files h" using 1 2 by simp
  show ?thesis using h'
    by (auto simp: main_mount_def Let_def 1(1) 2(1) split: if_splits option.splits dest!: handle_mount_frame [OF _ p])
      (simp_all add: same_bytes_def f)
qed

lemma main_write_sector_frame:
  assumes h': "main_write_sector E h argv = (r, h')" and p: "p \<noteq> argv ! 2"
  shows "same_bytes p h h'"
proof -
  obtain x h1 where 1: "obtain_password (o_pwd_fd (sector_options ''--data'' (drop 3 argv) no_options))
      ''Enter volume password: '' h = (x, h1)" "hs_files h1 = hs_files h" by (rule obtained)
  show ?thesis using h'
    by (auto simp: main_write_sector_def Let_def 1(1) split: if_splits option.splits dest!: handle_write_sector_frame [OF _ p])
      (simp_all add: same_bytes_def 1(2))
qed

lemma main_read_sector_frame:
  assumes h': "main_read_sector E h argv = (r, h')"
    and p: "o_data (sector_options ''--output'' (drop 3 argv) no_options) \<noteq> Some p"
  shows "same_bytes p h h'"
proof -
  let ?o = "sector_options ''--output'' (drop 3 argv) no_options"
  obtain x h1 where 1: "obtain_password (o_pwd_fd ?o) ''Enter volume password: '' h = (x, h1)" "hs_files h1 = hs_files h"
    by (rule obtained)
  have q: "p \<noteq> the (o_data ?o)" if "o_data ?o \<noteq> None" using p that by auto
  have "same_bytes p h1 h'" if "handle_read_sector E h1 (argv ! 2) pw lba (the (o_data ?o)) = (r, h')" "o_data ?o \<noteq> None" for pw lba
    using handle_read_sector_frame [OF that(1) q [OF that(2)]] .
  then show ?thesis using h'
    by (auto simp: main_read_sector_def Let_def 1(1) split: if_splits option.splits)
      (simp_all add: same_bytes_def 1(2))
qed

lemma main_frame:
  assumes h': "denyfs_main E fm h argv = (r, h')" and p: "\<not> may_write h argv p"
  shows "same_bytes p h h'"
proof -
  have m: "denyfs_main E fm h argv =
     (if \<not> hs_crypto h then (1, say (Text ''Error: Cryptographic library initialization failed.'') (started h))
      else if length argv < 2 then (1, say (Text ''Usage:'') (started h))
      else if argv ! 1 = cstr ''create'' then main_create E (started h) argv
      else if argv ! 1 = cstr ''create-hidden'' then main_create_hidden E (started h) argv
      else if argv ! 1 = cstr ''open'' then main_open E (started h) argv
      else if argv ! 1 = cstr ''mount'' then main_mount E fm (started h) argv
      else if argv ! 1 = cstr ''write-sector'' then main_write_sector E (started h) argv
      else if argv ! 1 = cstr ''read-sector'' then main_read_sector E (started h) argv
      else (1, say (Unknown (argv ! 1)) (started h)))"
    by (simp add: denyfs_main_def Let_def started_def)
  have "same_bytes p (started h) h'"
  proof (cases "argv ! 1 \<in> {cstr ''create'', cstr ''create-hidden'', cstr ''mount'', cstr ''write-sector'', cstr ''read-sector''}")
    case True
    then show ?thesis using h' p unfolding m may_write_def Let_def
      by (auto split: if_splits dest: main_create_frame [of _ _ _ _ _ p] main_create_hidden_frame [of _ _ _ _ _ p]
          main_mount_frame [of _ _ _ _ _ _ p] main_write_sector_frame [of _ _ _ _ _ p] main_read_sector_frame [of _ _ _ _ _ p])
  next
    case False
    then show ?thesis using h' unfolding m by (auto split: if_splits dest: main_open_frame [of _ _ _ _ _ p])
  qed
  then show ?thesis by (simp add: same_bytes_def)
qed


end
