(* ===== verification/Samples.thy ===== *)
theory Samples
  imports Commands
begin

text \<open>
  Concrete volumes for the witnesses: the freshly formatted \<open>demo\<close>, the same after the file \<open>/a\<close> has been
  created through FUSE (\<open>demo_a\<close>), and after six bytes have been written to it (\<open>demo_w\<close>). \<open>demo_mounted\<close> and
  \<open>mounted_a\<close> are the same for the container \<open>demo_outer\<close>, and \<open>demo_host\<close> is a host with that container.
\<close>

lemma plain_works: "hmac_works plain_env"
  by (simp add: hmac_works_def plain_hmac)

lemma demo_core: "core plain_env demo"
  using demo_ready demo_wf demo_clean demo_bitmap_inv by (simp add: core_def)

lemma demo_sound: "sound plain_env demo" "dir plain_env demo = Map.empty"
proof -
  have "cells plain_env demo 4 = empty_dir" by (simp add: demo_cells demo_blocks_def empty_dir_def)
  from first_sound [OF demo_core _ _ this, of 0] show "sound plain_env demo" "dir plain_env demo = Map.empty"
    by (simp_all add: demo_used) 
qed

lemma demo_store: "store plain_env demo" "files plain_env demo = Map.empty"
  using demo_sound by (auto simp: store_def files_def)

definition a_name :: bytes where "a_name = map of_char ''a''"

lemma a_good: "good_name a_name"
  by (simp add: good_name_def a_name_def layout_sizes)

definition demo_a :: volume where
  "demo_a = snd (vol_create plain_env 0 demo a_name)"

lemma demo_room: "used demo \<noteq> pool demo" "\<not> i_type (inode_at demo 1) = DENYFS_ITYPE_FILE"
proof -
  have "5 \<in> pool demo" "5 \<notin> used demo" by (simp_all add: demo_pool demo_used)
  then show "used demo \<noteq> pool demo" by metis
  show "\<not> i_type (inode_at demo 1) = DENYFS_ITYPE_FILE"
    by (simp add: inode_at_def fmt_inodes_nth blank_inode_def DENYFS_MAX_INODES_def DENYFS_ITYPE_FILE_def DENYFS_ITYPE_FREE_def)
qed

lemma demo_free_entry:
  "\<exists>e \<in> set (block_entries (cells plain_env demo) (i_direct (inode_at demo 0))). entry_free e"
proof -
  have c: "cells plain_env demo 4 = empty_dir" by (simp add: demo_cells demo_blocks_def empty_dir_def)
  have "block_entries (cells plain_env demo) (i_direct (inode_at demo 0)) = replicate DENYFS_DIRENTS_PER_BLOCK free_entry"
    by (simp add: inode_at_def fmt_root block_entries_def live_def DENYFS_INVALID_BLOCK_def c dirents_empty_dir)
  then show ?thesis by (simp add: layout_sizes)
qed

lemma demo_a_made:
  "\<exists>i. vol_create plain_env 0 demo a_name = (Inr i, demo_a) \<and> created plain_env demo demo_a a_name i \<and> used demo_a = {4}"
proof -
  have d: "dir plain_env demo a_name = None" by (simp add: demo_sound(2))
  have b: "1 < DENYFS_MAX_INODES" by (simp add: DENYFS_MAX_INODES_def)
  obtain w i where "vol_create plain_env 0 demo a_name = (Inr i, w)" "created plain_env demo w a_name i" "used w = {4}"
    using vol_create_new [OF demo_sound(1) plain_works a_good d, of 0] demo_room b demo_free_entry zero_less_one
    unfolding demo_used by metis
  then show ?thesis by (simp add: demo_a_def)
qed

definition a_ino :: u32 where
  "a_ino = the (dir plain_env demo_a a_name)"

lemma demo_a_store: "store plain_env demo_a" "files plain_env demo_a = [a_name \<mapsto> []]"
  "dir plain_env demo_a a_name = Some a_ino" "used demo_a = {4}" "pool demo_a = {4..<8}"
  "vol_create plain_env 0 demo a_name = (Inr a_ino, demo_a)"
proof -
  obtain i where i: "created plain_env demo demo_a a_name i" "used demo_a = {4}"
    "vol_create plain_env 0 demo a_name = (Inr i, demo_a)" using demo_a_made by blast
  show "store plain_env demo_a" "files plain_env demo_a = [a_name \<mapsto> []]"
    using created_store [OF demo_store(1) i(1)] demo_store(2) by simp_all
  have ai: "dir plain_env demo_a a_name = Some i" using i(1) by (simp add: created_def)
  then show "dir plain_env demo_a a_name = Some a_ino" by (simp add: a_ino_def)
  with ai i(3) show "vol_create plain_env 0 demo a_name = (Inr a_ino, demo_a)" by simp
  show "used demo_a = {4}" by (rule i(2))
  have "same_shape demo demo_a" using sh.chain_create [OF i(3) sh.R_refl] .
  then have "sb_const (v_sb demo_a) = sb_const (v_sb demo)" by (simp add: same_shape_def)
  note f = sb_const_fields [OF this]
  have "pool demo_a = pool demo" unfolding pool_def by (simp only: f)
  then show "pool demo_a = {4..<8}" using demo_pool by simp
qed

section \<open>A file with data\<close>

definition hello :: bytes where "hello = map of_char ''hello!''"

lemma length_hello [simp]: "length hello = 6"
  by (simp add: hello_def)

definition demo_w :: volume where
  "demo_w = snd (vol_write plain_env 0 demo_a (unat a_ino) hello 0)"

lemma demo_w_made: "vol_write plain_env 0 demo_a (unat a_ino) hello 0 = (Inr 6, demo_w)"
  "store plain_env demo_w" "files plain_env demo_w = [a_name \<mapsto> hello]" "synced plain_env demo_w"
proof -
  have sz: "length hello \<le> INT_MAX" "unat (0 :: u64) + length hello \<le> DENYFS_MAX_FILE_SIZE"
    by (simp_all add: INT_MAX_def DENYFS_MAX_FILE_SIZE_def)
  have ns: "\<not> scarce demo_a {4}"
  proof -
    have "pool demo_a - {4} = {5, 6, 7}" unfolding demo_a_store by auto
    then show ?thesis by (simp add: scarce_def)
  qed
  have "vol_write plain_env 0 demo_a (unat a_ino) hello 0 = (Inr 6, demo_w) \<and> store plain_env demo_w \<and> synced plain_env demo_w \<and>
      files plain_env demo_w = [a_name \<mapsto> overwrite 0 hello []]"
    using store_write [OF demo_a_store(1) plain_works demo_a_store(3) sz, of 0]
  proof (elim disjE exE conjE)
    fix w k assume a: "k < length hello" "scarce demo_a (used w)" "if k = 0 then used w = used demo_a else SECTOR_SIZE dvd unat (0 :: u64) + k"
    have "k = 0"
    proof (rule ccontr)
      assume "k \<noteq> 0"
      then have "SECTOR_SIZE dvd k" using a(3) by simp
      then have "SECTOR_SIZE \<le> k" using \<open>k \<noteq> 0\<close> by (simp add: dvd_imp_le)
      then show False using a(1) by (simp add: SECTOR_SIZE_def)
    qed
    then show ?thesis using a(2,3) ns by (simp add: demo_a_store)
  next
    fix w assume "vol_write plain_env 0 demo_a (unat a_ino) hello 0 = (Inr (length hello), w)" "store plain_env w" "synced plain_env w"
      "files plain_env w = (files plain_env demo_a)(a_name \<mapsto> overwrite (unat (0 :: u64)) hello (the (files plain_env demo_a a_name)))"
    then show ?thesis by (simp add: demo_w_def demo_a_store)
  qed
  then show "vol_write plain_env 0 demo_a (unat a_ino) hello 0 = (Inr 6, demo_w)"
    "store plain_env demo_w" "files plain_env demo_w = [a_name \<mapsto> hello]" "synced plain_env demo_w"
    by (simp_all add: overwrite_def)
qed

section \<open>A short session\<close>

lemma demo_run:
  "runs (served plain_env) demo [(0, MkFile a_name, Done), (0, PutData a_name hello 0, Done),
     (0, GetData a_name 100 2, Data (drop 2 hello))] demo_w"
proof -
  note p = path_of_name [OF a_good]
  have lk: "vol_lookup plain_env demo_a a_name = (Inr a_ino, demo_a)"
    using lookup_name [OF store_sound [OF demo_a_store(1)] a_good] by (simp add: demo_a_store)
  have 1: "served plain_env demo (0, MkFile a_name, Done) demo_a"
    using p by (simp add: served_def a_good fuse_create_def demo_a_store)
  have 2: "served plain_env demo_a (0, PutData a_name hello 0, Done) demo_w"
    using p by (simp add: served_def a_good fuse_write_def lk demo_w_made)
  obtain i where i: "dir plain_env demo_w a_name = Some i"
    using demo_w_made(3) files_None [of plain_env demo_w a_name] by auto
  have lw: "vol_lookup plain_env demo_w a_name = (Inr i, demo_w)"
    using lookup_name [OF store_sound [OF demo_w_made(2)] a_good] i by simp
  have "(100 :: nat) \<le> INT_MAX" by (simp add: INT_MAX_def)
  from store_read [OF demo_w_made(2) i this, of 2]
  have "vol_read plain_env demo_w (unat i) 100 2 = (Inr (drop 2 hello), demo_w)"
    by (simp add: demo_w_made slice_def)
  then have 3: "served plain_env demo_w (0, GetData a_name 100 2, Data (drop 2 hello)) demo_w"
    using p by (simp add: served_def a_good fuse_read_def lw)
  from 1 2 3 show ?thesis by auto
qed

section \<open>A container on the host\<close>

text \<open>The container \<open>demo_outer\<close> opened: 512 blocks, the root directory in block 4.\<close>

definition demo_mounted :: volume where
  "demo_mounted = the (vol_open plain_env (Some demo_outer) outer_pw None False)"

lemma demo_outer_opens:
  "vol_open plain_env (Some demo_outer) outer_pw None False = Some demo_mounted" "store plain_env demo_mounted"
  "files plain_env demo_mounted = Map.empty" "f_faults demo_outer = []" "pool demo_mounted = {4..<512}"
  "used demo_mounted = {4}" "v_inodes demo_mounted = fmt_inodes 4 0" "cells plain_env demo_mounted 4 = empty_dir"
proof -
  obtain h where h: "holds_outer plain_env demo_entropy outer_pw demo_outer outer_size 0 h" using demo_outer_ok by blast
  let ?b = "blank_volume demo_outer (clipped (new_payload demo_entropy outer_size)) False (of_nat HEADER_SIZE)"
  have hv: "has_volume plain_env demo_entropy demo_outer outer_size (of_nat HEADER_SIZE) 0 h" using h by (simp add: holds_outer_def)
  have sm: "unat outer_size \<le> 2 ^ 43" by (simp add: demo_sizes)
  have t: "fmt_total_blocks outer_size = 512"
    by (simp add: fmt_total_blocks_def SECTOR_SIZE_def outer_size_def)
  have "fmt_bitmap_blocks 512 = 1"
    by (rule word_unat_eq_iff [THEN iffD2]) (simp add: unat_fmt_bitmap_blocks UINT32_MAX_def SECTOR_SIZE_def)
  then have d: "fmt_data_start 512 = 4" by (simp add: fmt_data_start_def inode_table_blocks_eq)
  have ok: "fmt_ok 512" by (simp add: fmt_ok_def d UINT32_MAX_def)
  have "vol_open plain_env (Some demo_outer) outer_pw None False = Some (fresh h 0 ?b)"
    using open_outer(1) [OF plain_libs h, of None] by (simp add: opened_def)
  then have m: "demo_mounted = fresh h 0 ?b" by (simp add: demo_mounted_def)
  then show "vol_open plain_env (Some demo_outer) outer_pw None False = Some demo_mounted"
    using open_outer(1) [OF plain_libs h, of None] by (simp add: opened_def)
  show "store plain_env demo_mounted" "files plain_env demo_mounted = Map.empty"
    using opened_store [OF plain_libs hv sm, of False] by (simp_all add: m opened_def)
  show "f_faults demo_outer = []" using h by (simp add: holds_outer_def)
  have f: "v_sb demo_mounted = fmt_superblock 512 h" "v_bitmap demo_mounted = fmt_bitmap 512"
    by (simp_all add: m fresh_def t blank_volume_def)
  show p: "pool demo_mounted = {4..<512}" by (simp add: pool_def f fmt_superblock_def d)
  show "used demo_mounted = {4}"
    using fmt_bitmap_test [OF ok] unfolding used_def p by (auto simp: f d)
  show "v_inodes demo_mounted = fmt_inodes 4 0" by (simp add: m fresh_def t d blank_volume_def)
  have "cells plain_env demo_mounted = cells plain_env ?b" by (simp add: m cells_def)
  then show "cells plain_env demo_mounted 4 = empty_dir"
    using hv sits_blank [of demo_outer demo_entropy outer_size "of_nat HEADER_SIZE" False]
    unfolding has_volume_def t d by metis
qed

text \<open>The same with an empty file \<open>/a\<close>.\<close>

definition mounted_a :: volume where
  "mounted_a = snd (vol_create plain_env 0 demo_mounted a_name)"

lemma mounted_a_made:
  "\<exists>i. vol_create plain_env 0 demo_mounted a_name = (Inr i, mounted_a) \<and>
     created plain_env demo_mounted mounted_a a_name i \<and> used mounted_a = {4}"
proof -
  note m = demo_outer_opens
  have d: "dir plain_env demo_mounted a_name = None" using m(3) files_None [of plain_env demo_mounted a_name] by simp
  have r: "inode_at demo_mounted i = fmt_inodes 4 0 ! i" for i by (simp add: inode_at_def m(7))
  have ty: "\<not> i_type (inode_at demo_mounted 1) = DENYFS_ITYPE_FILE"
    by (simp add: r fmt_inodes_nth blank_inode_def DENYFS_MAX_INODES_def DENYFS_ITYPE_FILE_def DENYFS_ITYPE_FREE_def)
  have "block_entries (cells plain_env demo_mounted) (i_direct (inode_at demo_mounted 0)) =
      replicate DENYFS_DIRENTS_PER_BLOCK free_entry"
    by (simp add: r fmt_root block_entries_def live_def DENYFS_INVALID_BLOCK_def m(8) dirents_empty_dir)
  then have e: "\<exists>e \<in> set (block_entries (cells plain_env demo_mounted) (i_direct (inode_at demo_mounted 0))). entry_free e"
    by (simp add: layout_sizes)
  have "(5 :: nat) \<in> {4..<512}" "(5 :: nat) \<notin> {4}" by simp_all
  then have ne: "used demo_mounted \<noteq> pool demo_mounted" unfolding m(5,6) by metis
  have b: "1 < DENYFS_MAX_INODES" by (simp add: DENYFS_MAX_INODES_def)
  obtain w i where "vol_create plain_env 0 demo_mounted a_name = (Inr i, w)" "created plain_env demo_mounted w a_name i"
    "used w = {4}"
    using vol_create_new [OF store_sound [OF m(2)] plain_works a_good d, of 0] ne b ty e zero_less_one
    unfolding m(6) by metis
  then show ?thesis by (simp add: mounted_a_def)
qed

text \<open>A host with that container and a data file.\<close>

definition demo_host :: host where
  "demo_host = \<lparr>hs_files = [cstr ''disk'' \<mapsto> demo_outer, cstr ''data'' \<mapsto> \<lparr>f_bytes = hello, f_faults = []\<rparr>],
     hs_create = (\<lambda>p. Some []), hs_fds = (\<lambda>fd. if fd = 3 then outer_pw @ 10 # outer_pw @ [10] else []),
     hs_tty = False, hs_alloc = [], hs_crypto = True, hs_cores = True, hs_entropy = demo_entropy, hs_now = 0,
     hs_pos = 0, hs_out = []\<rparr>"

lemma demo_consistent: "consistent plain_env demo"
  using demo_store fmt_bitmap_test [OF demo_geometry(3)]
  by (auto simp: consistent_def store_def demo_geometry dest: fun_cong)

section \<open>A write that does not fit\<close>

text \<open>Blocks with data are different used blocks.\<close>

lemma data_blocks_bound:
  assumes s: "sound E w" and i: "ino < DENYFS_MAX_INODES" and n: "n \<le> DENYFS_MAX_FILE_BLOCKS"
    and b: "\<And>l. l < n \<Longrightarrow> file_byte (cells E w) (inode_at w ino) (l * SECTOR_SIZE) \<noteq> 0"
  shows "n \<le> card (used w)"
proof -
  let ?f = "\<lambda>l. unat (file_block (cells E w) (inode_at w ino) l)"
  have o: "owned (cells E w) (v_inodes w) (used w)" using s by (simp add: sound_def fsys_def)
  have j: "ino < length (v_inodes w)" using i by (simp add: sound_length [OF s])
  have m: "file_block (cells E w) (inode_at w ino) l \<noteq> DENYFS_INVALID_BLOCK" if "l < n" for l
    using file_byte_mapped [OF b [OF that]] by simp
  have sl: "slot_ok (slot_of l)" if "l < n" for l using that n by (intro slot_of_ok) simp
  have "inj_on ?f {..<n}"
  proof (rule inj_onI)
    fix x y assume a: "x \<in> {..<n}" "y \<in> {..<n}" "?f x = ?f y"
    then have "file_block (cells E w) (inode_at w ino) x = file_block (cells E w) (inode_at w ino) y"
      by (auto dest: unsigned_word_eqI)
    then have "slot_of x = slot_of y"
      using owned_inj [OF o j j sl [of x] sl [of y]] a m [of x] by (simp add: file_block_def inode_at_def)
    then show "x = y" by (rule slot_of_inj)
  qed
  moreover have "?f ` {..<n} \<subseteq> used w"
    using o j m sl by (auto simp: owned_def file_block_def inode_at_def)
  moreover have "finite (used w)" by (simp add: used_def pool_def)
  ultimately show ?thesis using card_inj_on_le [of ?f "{..<n}" "used w"] by simp
qed

definition big :: bytes where "big = replicate (600 * SECTOR_SIZE) 1"

lemma mounted_a_full:
  "\<exists>i w. dir plain_env mounted_a a_name = Some i \<and> i_size (inode_at mounted_a (unat i)) = 0 \<and>
     vol_write plain_env 0 mounted_a (unat i) big 0 = (Inl ENOSPC, w) \<and> used w \<noteq> used mounted_a"
proof -
  note m = demo_outer_opens
  obtain i where i: "vol_create plain_env 0 demo_mounted a_name = (Inr i, mounted_a)"
    "created plain_env demo_mounted mounted_a a_name i" "used mounted_a = {4}" using mounted_a_made by blast
  have st: "store plain_env mounted_a" "files plain_env mounted_a = [a_name \<mapsto> []]"
    using created_store [OF m(2) i(2)] m(3) by simp_all
  have d: "dir plain_env mounted_a a_name = Some i" using i(2) by (simp add: created_def)
  have "contents plain_env mounted_a (unat i) = []" using i(2) by (simp add: created_def)
  then have z: "i_size (inode_at mounted_a (unat i)) = 0" by (simp add: contents_def unat_eq_zero)
  have "same_shape demo_mounted mounted_a" using sh.chain_create [OF i(1) sh.R_refl] .
  then have c: "sb_const (v_sb mounted_a) = sb_const (v_sb demo_mounted)" by (simp add: same_shape_def)
  have "pool mounted_a = pool demo_mounted" unfolding pool_def by (simp only: sb_const_fields [OF c])
  then have p: "pool mounted_a = {4..<512}" by (simp add: m(5))
  have sz: "length big \<le> INT_MAX" "unat (0 :: u64) + length big \<le> DENYFS_MAX_FILE_SIZE"
    by (simp_all add: big_def INT_MAX_def DENYFS_MAX_FILE_SIZE_def SECTOR_SIZE_def)
  from store_write [OF st(1) plain_works d sz, of 0] show ?thesis
  proof (elim disjE exE conjE)
    fix w assume w: "store plain_env w" "files plain_env w = (files plain_env mounted_a)(a_name \<mapsto>
        overwrite (unat (0 :: u64)) big (the (files plain_env mounted_a a_name)))"
      "vol_write plain_env 0 mounted_a (unat i) big 0 = (Inr (length big), w)"
    then obtain j where j: "dir plain_env w a_name = Some j" "contents plain_env w (unat j) = big"
    proof -
      have "files plain_env w a_name = Some big" using w(2) by (simp add: st(2) overwrite_def)
      then show ?thesis using that by (auto simp: files_def)
    qed
    note sw = store_sound [OF w(1)]
    have "file_byte (cells plain_env w) (inode_at w (unat j)) (l * SECTOR_SIZE) \<noteq> 0" if "l < 600" for l
    proof -
      have l: "l * SECTOR_SIZE < length big" using that by (simp add: big_def SECTOR_SIZE_def)
      then have "contents plain_env w (unat j) ! (l * SECTOR_SIZE) = 1" by (simp add: j(2)) (simp add: big_def)
      moreover have "length (contents plain_env w (unat j)) = length big" by (simp add: j(2))
      ultimately show ?thesis using l by (simp add: contents_def)
    qed
    then have "600 \<le> card (used w)"
      by (intro data_blocks_bound [OF sw dir_file(2) [OF sw j(1)]]) (simp_all add: DENYFS_MAX_FILE_BLOCKS_def layout_sizes)
    moreover have "used w \<subseteq> {..<512}"
    proof -
      have "same_shape mounted_a w" using sh.chain_vol_write [OF w(3) sh.R_refl] .
      then have c: "sb_const (v_sb w) = sb_const (v_sb mounted_a)" by (simp add: same_shape_def)
      have "pool w = pool mounted_a" unfolding pool_def by (simp only: sb_const_fields [OF c])
      then show ?thesis by (auto simp: used_def p)
    qed
    then have "card (used w) \<le> 512" using card_mono [of "{..<512 :: nat}" "used w"] by simp
    ultimately show ?thesis by simp
  next
    fix w k assume w: "vol_write plain_env 0 mounted_a (unat i) big 0 = (Inl ENOSPC, w)" "scarce mounted_a (used w)"
    have "pool mounted_a - used mounted_a = {5..<512}" by (auto simp: p i(3))
    then have "used w \<noteq> used mounted_a" using w(2) by (auto simp: scarce_def)
    with w(1) d z show ?thesis by blast
  qed
qed


section \<open>A container with a hidden volume\<close>

text \<open>The hidden volume of \<open>demo_both\<close>, opened by its own password.\<close>

lemma demo_hidden_opens:
  "\<exists>x. vol_open plain_env (Some (reopened demo_both)) hidden_pw None False = Some x \<and> v_hidden x \<and> store plain_env x"
proof -
  obtain h h2 where o: "holds_outer plain_env demo_entropy outer_pw demo_both outer_size 0 h"
    "holds_hidden plain_env demo_entropy hidden_pw demo_both hidden_size 0 h2" using demo_both_ok by blast
  obtain d where d: "header_dec (slice 0 HEADER_SIZE (f_bytes demo_both)) = d"
    "try_header plain_env d (trial_key plain_env outer_pw (hd_salt d)) = Some (clipped (new_payload demo_entropy outer_size))"
    using o(1) by (auto simp: holds_outer_def header_dec_enc)
  have ne: "pad TAG_SIZE (pad 32 (pad 32 outer_pw)) \<noteq> pad TAG_SIZE (pad 32 (pad 32 hidden_pw))"
    by (simp add: pad_def TAG_SIZE_def outer_pw_def hidden_pw_def)
  have no: "try_header plain_env d (trial_key plain_env hidden_pw (hd_salt d)) = None"
    using plain_try_other [OF d(2) ne] by (simp add: plain_trial)
  let ?x = "opened demo_both demo_entropy hidden_size (hidden_header_pos (length (f_bytes demo_both)) - hidden_size) True h2 0"
  have op: "vol_open plain_env (Some demo_both) hidden_pw None False = Some ?x"
    using open_hidden [OF plain_libs o(2)] no by (simp add: d(1))
  have hv: "has_volume plain_env demo_entropy demo_both hidden_size
      (hidden_header_pos (length (f_bytes demo_both)) - hidden_size) 0 h2" using o(2) by (simp add: holds_hidden_def)
  have "unat hidden_size \<le> 2 ^ 43" by (simp add: demo_sizes)
  from opened_store(1) [OF plain_libs hv this, of True] have "store plain_env ?x" .
  moreover have "v_hidden ?x" by (simp add: opened_def fresh_def blank_volume_def Let_def)
  moreover have "reopened demo_both = demo_both" using o(2) by (simp add: reopened_def holds_hidden_def)
  ultimately show ?thesis using op by auto
qed


end
