(* ===== verification/Spec2Isabelle.thy ===== *)
theory Spec2Isabelle
  imports Samples
begin

text \<open>
  DenyFS: an encrypted file system in one container file, with an outer volume and, hidden in its unused
  space, an optional second one. This development models the C program under \<open>src/src\<close> and proves what makes
  it correct; this theory holds the main properties, the others the model and the library under them.

  The program. \<open>crypto.c\<close> wraps libsodium and OpenSSL. \<open>fs.c\<close> is the file system, from encrypted 4096-byte
  blocks up: an allocation bitmap, 64 inodes with direct, single- and double-indirect pointers, a flat
  directory, the five file operations, the metadata flush, the check at mount time, and the creation and
  opening of containers. \<open>fuse_ops.c\<close> maps the FUSE callbacks to it, \<open>main.c\<close> the command line.

  The model, bottom up, with the source it follows:
  \<^item> \<open>Prelude\<close>: bytes, words, errors, the constants of \<open>fs.h\<close> and \<open>crypto.h\<close>, little-endian numbers, slices.
  \<^item> \<open>Crypto\<close> (\<open>crypto.c\<close>, \<open>crypto.h\<close>): key derivation, header encryption, sector encryption, HMAC. The
    primitives of the libraries are the fields of the record \<open>env\<close>; \<open>xts_correct\<close>, \<open>gcm_correct\<close> and
    \<open>libs_work\<close> state their documented behaviour, and \<open>plain_env\<close> is an instance.
  \<^item> \<open>Layout\<close> (\<open>fs.h\<close>): superblock, inode and directory entry and their images on disk.
  \<^item> \<open>Volume\<close> (\<open>fs.h\<close>, \<open>fs.c\<close>): the stdio stream, with a schedule of faults so that every failing call is a
    branch, \<open>denyfs_volume_t\<close> as the record \<open>volume\<close>, and \<open>read_block\<close>, \<open>write_block\<close>, \<open>write_block_raw\<close>.
  \<^item> \<open>Bitmap\<close>, \<open>BlockMap\<close>, \<open>Directory\<close>, \<open>Inodes\<close>, \<open>FileOps\<close> (\<open>fs.c\<close>): allocation, block trees, directory,
    inode table, truncation and flush, then \<open>denyfs_vol_create\<close>, \<open>unlink\<close>, \<open>read\<close>, \<open>write\<close>, \<open>truncate\<close>.
  \<^item> \<open>Metadata\<close>, \<open>Container\<close> (\<open>fs.c\<close>): \<open>validate_superblock\<close>, \<open>validate_loaded_metadata\<close>, \<open>format_volume\<close>,
    \<open>denyfs_container_create\<close>, \<open>denyfs_container_create_hidden\<close>, \<open>denyfs_vol_open\<close>.
  \<^item> \<open>Session\<close>, \<open>Fuse\<close> (\<open>fuse_ops.c\<close>): a mount as a state machine over the public functions, the callbacks, and
    \<open>fuse_run\<close>, any sequence of callbacks.
  \<^item> \<open>Host\<close>, \<open>Cli\<close> (\<open>main.c\<close>): the surroundings of the process (files, descriptors, terminal), the readers of
    passwords, the handlers, the option loops and \<open>denyfs_main\<close>. \<open>fuse_main\<close> is a parameter.

  An operation takes the volume and returns its C result, as an \<open>error\<close> or a value, with the volume it leaves.
  A C pointer into \<open>vol->inodes\<close> is the number of the inode. Block numbers, sizes and counters have the width
  of the code. All loops are structural or bounded by the number of bytes or blocks left, so that every
  function is total; no fuel is used.

  The lemmas, in layers:
  \<^item> \<open>Frame\<close>: the locales \<open>read_frame\<close> and \<open>vol_frame\<close> carry a relation on volumes through every operation. They
    are interpreted for confinement (\<open>keeps\<close>), the shape of the tables (\<open>same_shape\<close>), the free counter
    (\<open>counts_blocks\<close>), usability (\<open>stays_ready\<close>) and the reserved blocks (\<open>keeps_reserved\<close>).
  \<^item> \<open>Opening\<close>, \<open>Format\<close>, \<open>Sync\<close>, \<open>Fresh\<close>, \<open>Create\<close>: what a successful open establishes, what formatting writes,
    flush and load as inverses, and containers from their creation to the first mount.
  \<^item> \<open>Slots\<close>, \<open>FileMap\<close>, \<open>FileIO\<close>, \<open>Shrink\<close>, \<open>Resize\<close>, \<open>Release\<close>, \<open>Names\<close>: the trees as a flat set of slots, each
    block owned by one slot; reading, writing, truncating and freeing files and the directory over the
    plaintext of the blocks (\<open>cells\<close>).
  \<^item> \<open>FileSys\<close>, \<open>Newborn\<close>, \<open>Store\<close>: the invariant \<open>sound\<close> of the whole file system, and the refinement of a map
    from names to byte strings (\<open>files\<close>, \<open>answers\<close>, locale \<open>simulation\<close>).
  \<^item> \<open>Accept\<close>, \<open>Census\<close>, \<open>Loading\<close>, \<open>Durable\<close>: the loops of the mount-time check as conditions, \<open>consistent\<close> as
    what they amount to, the header behind a mount, loading with and without protection, unmounting and mounting
    again, and the hidden volume after a session of the outer one.
  \<^item> \<open>Commands\<close>: the numbers, passwords and options of an argument vector and the effect of the commands.
  \<^item> \<open>Demo\<close>, \<open>Story\<close>, \<open>Samples\<close>: the concrete volumes and containers of the witnesses.

  Bounds. Properties of the whole file system are for volumes of at most \<open>2 ^ 31\<close> blocks (8 TiB), because
  \<open>alloc_block\<close> returns its block number as an \<open>int\<close> (see \<open>alloc_block_int_cast\<close>). Where a stream without faults
  is assumed, this is the hypothesis \<open>f_faults f = []\<close> or \<open>ready\<close>; the confinement properties hold for any faults.

  Not modelled: the primitives of libsodium, OpenSSL and libfuse (parameters); the wiping of buffers and other
  measures against leaks through memory; \<open>denyfs_secure_free\<close>, \<open>denyfs_crypto_init\<close> beyond its result, and
  \<open>O_NOATIME\<close>; elapsed times and the wording of most messages; the Windows file calls; a crash between two
  writes (the program keeps no journal); the tests under \<open>src/tests\<close> and the Python and JavaScript dashboard.
\<close>

section \<open>Confinement\<close>

text \<open>
  C11. Protected sectors never change. On a volume with outer-mount protection, whatever FUSE callbacks
  run, with whatever arguments, I/O faults, clock and library behaviour, and after the final flush,
  every byte of the sectors from \<open>protect_start_sector\<close> to \<open>protect_end_sector\<close> is as it was.
\<close>

theorem protected_sectors_untouched:
  assumes "vol_geom v" "v_protect v" "fuse_run E v w"
    and "i < length (f_bytes (v_file v))"
    and "unat (v_pstart v) \<le> i div SECTOR_SIZE" "i div SECTOR_SIZE \<le> unat (v_pend v)"
  shows "f_bytes (fuse_destroy E w) ! i = f_bytes (v_file v) ! i"
proof -
  have "i \<in> protected_region v" using assms(2,5,6) by (simp add: protected_region_iff)
  with keeps_session [OF assms(3)] assms(1,4) show ?thesis by (simp add: keeps_def fuse_destroy_file)
qed

theorem protected_sectors_untouched_witness:
  "f_bytes (fuse_destroy plain_env (snd (fuse_create plain_env 0 demo (map of_char ''/a'')))) ! 36864 =
     f_bytes demo_file ! 36864"
  using protected_sectors_untouched [OF demo_geom(1) _ create_run, of 36864]
  by (simp add: demo_file_length SECTOR_SIZE_def)

text \<open>
  C12. A hidden volume survives the use of the outer volume. If \<open>denyfs_vol_open\<close> mounts the outer volume
  with protection, then the hidden password it was given opens the container's hidden header, and after
  any FUSE session every byte from the start of that hidden volume to the end of the container, its
  header included, is as it was before the mount.
\<close>

theorem hidden_volume_survives:
  assumes "vol_open E (Some f) pw hpw True = Some v" "\<not> v_hidden v" "fuse_run E v w"
  shows "\<exists>hp key p. hpw = Some hp \<and>
    password_key E hp (hd_salt (hidden_header_of (f_bytes f))) = Some key \<and>
    try_header E (hidden_header_of (f_bytes f)) key = Some p \<and>
    (\<forall>i \<in> hidden_region (f_bytes f) p. f_bytes (fuse_destroy E w) ! i = f_bytes f ! i)"
proof -
  from assms(1) obtain v0 where v0: "placed (length (f_bytes f)) v0" "consumes f (v_file v0)"
    "load_volume E v0 = Some v" "v_protect v0 \<longleftrightarrow> \<not> v_hidden v0"
    "v_protect v0 \<longrightarrow> (\<exists>pw key p. hpw = Some pw \<and>
       password_key E pw (hd_salt (hidden_header_of (f_bytes f))) = Some key \<and>
       try_header E (hidden_header_of (f_bytes f)) key = Some p \<and>
       protected_region v0 = hidden_region (f_bytes f) p)"
    by (rule vol_open_SomeE) simp
  note sp = load_volume_place [OF v0(3), unfolded same_place_def]
  have "v_hidden v = v_hidden v0" "f_bytes (v_file v) = f_bytes f" "vol_geom v"
    using sp v0(1,2) same_config_geom [of v0 v] by (simp_all add: same_config_def consumes_def placed_def)
  moreover have "protected_region v = protected_region v0" using same_config_regions sp by blast
  ultimately have "\<forall>i \<in> protected_region v0. i < length (f_bytes f) \<longrightarrow>
      f_bytes (fuse_destroy E w) ! i = f_bytes f ! i"
    using keeps_session [OF assms(3)] by (simp add: keeps_def fuse_destroy_file)
  moreover have "v_protect v0" using v0(4) \<open>v_hidden v = _\<close> assms(2) by simp
  ultimately show ?thesis using v0(5) by (auto simp: hidden_region_def)
qed

theorem hidden_volume_survives_witness:
  "\<exists>v. vol_open plain_env (Some demo_both) outer_pw (Some hidden_pw) True = Some v \<and>
     (\<exists>key p. try_header plain_env (hidden_header_of (f_bytes demo_both)) key = Some p \<and>
       (\<forall>i \<in> hidden_region (f_bytes demo_both) p.
         f_bytes (fuse_destroy plain_env (snd (fuse_create plain_env 0 v (map of_char ''/a'')))) ! i =
         f_bytes demo_both ! i))"
proof -
  obtain v where v: "vol_open plain_env (Some demo_both) outer_pw (Some hidden_pw) True = Some v" "\<not> v_hidden v"
    using demo_both_protected by blast
  from hidden_volume_survives [OF this create_run] v(1) show ?thesis by blast
qed

text \<open>
  C13. A mount stays inside its volume. Whatever is mounted (outer or hidden, protected or not) and
  whatever callbacks run, the container keeps its length, and no byte outside the volume's own region
  changes; that region lies between the container's two headers.
\<close>

theorem mount_confined:
  assumes "vol_open E (Some f) pw hpw prot = Some v" "fuse_run E v w"
  shows "length (f_bytes (fuse_destroy E w)) = length (f_bytes f) \<and>
    HEADER_SIZE \<le> unat (v_start v) \<and>
    unat (v_start v) + unat (v_size v) \<le> length (f_bytes f) - DENYFS_HIDDEN_HEADER_OFFSET_FROM_EOF \<and>
    (\<forall>i < length (f_bytes f). i < unat (v_start v) \<or> unat (v_start v) + unat (v_size v) \<le> i \<longrightarrow>
       f_bytes (fuse_destroy E w) ! i = f_bytes f ! i)"
proof -
  from assms(1) obtain v0 where v0: "container_ok (length (f_bytes f))" "placed (length (f_bytes f)) v0"
    "consumes f (v_file v0)" "load_volume E v0 = Some v"
    by (rule vol_open_SomeE)
  have pl: "placed (length (f_bytes f)) v" by (rule load_placed [OF v0(4) v0(2)])
  have b: "f_bytes (v_file v) = f_bytes f"
    using load_volume_place [OF v0(4)] v0(3) by (simp add: same_place_def consumes_def)
  have g: "vol_geom v" "HEADER_SIZE \<le> unat (v_start v)"
    "unat (v_start v) + unat (v_size v) \<le> length (f_bytes f) - DENYFS_HIDDEN_HEADER_OFFSET_FROM_EOF"
    using pl by (auto simp: placed_def split: if_splits)
  have k: "keeps v (snd (vol_flush E w))" by (rule keeps_session [OF assms(2)])
  then show ?thesis
    using g b by (auto simp: keeps_def extends_def volume_region_def fuse_destroy_file)
qed

theorem mount_confined_witness:
  "\<exists>v. vol_open plain_env (Some demo_both) outer_pw (Some hidden_pw) True = Some v \<and>
     f_bytes (fuse_destroy plain_env (snd (fuse_create plain_env 0 v (map of_char ''/a'')))) ! 0 =
       f_bytes demo_both ! 0"
proof -
  obtain v where v: "vol_open plain_env (Some demo_both) outer_pw (Some hidden_pw) True = Some v"
    using demo_both_protected by blast
  from mount_confined [OF v create_run, of 0 "map of_char ''/a''"] v demo_both_ok show ?thesis
    by (auto simp: HEADER_SIZE_def)
qed

section \<open>Invariants of a mount\<close>

text \<open>
  C14. The free-block counter is exact. From a successful \<open>denyfs_vol_open\<close> on, after any callbacks with
  any I/O faults, \<open>sb.free_blocks\<close> is the number of data blocks whose bitmap bit is clear.
\<close>

theorem free_counter_exact:
  assumes "vol_open E (Some f) pw hpw prot = Some v" "fuse_run E v w"
  shows "unat (sb_free_blocks (v_sb w)) =
    card {i. data_start w \<le> i \<and> i < total_blocks w \<and> \<not> bitmap_test (v_bitmap w) i}"
proof -
  from assms(1) obtain v0 where "load_volume E v0 = Some v" by (rule vol_open_SomeE)
  then have "bitmap_inv v" by (rule load_volume_inv)
  with assms(2) have "bitmap_inv w"
    using fuse_run_run [OF assms(2)] cb.chain_run [of E v _ w v] by (auto simp: counts_blocks_def)
  moreover have "pool w - used w = {i. data_start w \<le> i \<and> i < total_blocks w \<and> \<not> bitmap_test (v_bitmap w) i}"
    by (auto simp: pool_def used_def)
  ultimately show ?thesis by (simp add: bitmap_inv_def)
qed

theorem free_counter_exact_witness:
  "\<exists>v w. vol_open plain_env (Some demo_both) outer_pw (Some hidden_pw) True = Some v \<and>
     fuse_create plain_env 0 v (map of_char ''/a'') = w \<and>
     unat (sb_free_blocks (v_sb (snd w))) = card {i. data_start (snd w) \<le> i \<and> i < total_blocks (snd w) \<and>
       \<not> bitmap_test (v_bitmap (snd w)) i}"
proof -
  obtain v where v: "vol_open plain_env (Some demo_both) outer_pw (Some hidden_pw) True = Some v"
    using demo_both_protected by blast
  from free_counter_exact [OF v create_run, of 0 "map of_char ''/a''"] v show ?thesis by blast
qed

text \<open>
  C15. The in-memory tables keep the shape \<open>denyfs_vol_open\<close> gave them: after any callbacks the geometry
  fields of the superblock are those that were loaded and validated, the inode table has 64 entries of
  the fixed layout, and the bitmap covers every block.
\<close>

theorem tables_keep_shape:
  assumes "vol_open E (Some f) pw hpw prot = Some v" "fuse_run E v w"
  shows "validate_superblock (v_sb v) (v_size v) \<and> sb_const (v_sb w) = sb_const (v_sb v) \<and>
    v_size w = v_size v \<and> length (v_inodes w) = DENYFS_MAX_INODES \<and>
    length (v_dirty w) = unat (sb_bitmap_blocks (v_sb w)) \<and>
    total_blocks w \<le> 8 * length (v_bitmap w)"
proof -
  from assms(1) obtain v0 where l: "load_volume E v0 = Some v" by (rule vol_open_SomeE)
  note f = load_volume_loaded [OF l] and i = load_volume_inv [OF l]
  obtain cs where cs: "vol_run E v cs w" using fuse_run_run [OF assms(2)] by blast
  have s: "same_shape v w" "keeps v w" "counts_blocks v w"
    using cs by (blast intro: sh.chain_run kp.chain_run cb.chain_run sh.R_refl kp.R_refl cb.R_refl)+
  then have "sb_bitmap_blocks (v_sb w) = sb_bitmap_blocks (v_sb v)"
    using sb_const_fields [of "v_sb w" "v_sb v"] by (simp add: same_shape_def)
  with f i s show ?thesis
    by (simp add: same_shape_def keeps_def same_config_def counts_blocks_def bitmap_inv_def)
qed

theorem tables_keep_shape_witness:
  "\<exists>v. vol_open plain_env (Some demo_both) outer_pw (Some hidden_pw) True = Some v \<and>
     length (v_inodes (snd (fuse_create plain_env 0 v (map of_char ''/a'')))) = DENYFS_MAX_INODES"
proof -
  obtain v where v: "vol_open plain_env (Some demo_both) outer_pw (Some hidden_pw) True = Some v"
    using demo_both_protected by blast
  from tables_keep_shape [OF v create_run, of 0 "map of_char ''/a''"] v show ?thesis by blast
qed

text \<open>
  C16. The four reading callbacks change nothing: neither the container's bytes nor any field of the
  volume, whatever they return; only the stream moves on.
\<close>

theorem reading_changes_nothing:
  "f_bytes (v_file (snd (fuse_getattr E v path))) = f_bytes (v_file v) \<and>
   meta (snd (fuse_getattr E v path)) = meta v \<and>
   f_bytes (v_file (snd (fuse_open E v path))) = f_bytes (v_file v) \<and>
   meta (snd (fuse_open E v path)) = meta v \<and>
   f_bytes (v_file (snd (fuse_read E v path sz off))) = f_bytes (v_file v) \<and>
   meta (snd (fuse_read E v path sz off)) = meta v \<and>
   f_bytes (v_file (snd (fuse_readdir E v path filler s))) = f_bytes (v_file v) \<and>
   meta (snd (fuse_readdir E v path filler s)) = meta v"
proof -
  have "unchanged v (snd (fuse_getattr E v path))" "unchanged v (snd (fuse_open E v path))"
    "unchanged v (snd (fuse_read E v path sz off))" "unchanged v (snd (fuse_readdir E v path filler s))"
    by (auto simp: fuse_getattr_def fuse_open_def fuse_read_def fuse_readdir_def Let_def
        split: option.split prod.split sum.split)
      (metis prod.collapse unchanged_refl ro.chain_lookup ro.chain_vol_read ro.chain_readdir)+
  then show ?thesis using unchanged_fields by blast
qed

section \<open>Blocks\<close>

text \<open>
  C25. A block write is a write: on a usable volume \<open>write_block\<close> of a sector to a block inside the
  volume succeeds, a read of that block then returns the sector, every other block reads as before, and
  nothing in memory changes.
\<close>

theorem block_write_read:
  assumes "ready E v" "unat b < vol_blocks v" "length d = SECTOR_SIZE"
  shows "\<exists>w. write_block E v b d = (Inr (), w) \<and> meta w = meta v \<and> read_block E w b = (Inr d, w) \<and>
    (\<forall>c. unat c < vol_blocks v \<and> c \<noteq> b \<longrightarrow> read_block E w c = (fst (read_block E v c), w))"
proof -
  obtain w where w: "write_block E v b d = (Inr (), w)" "meta w = meta v"
    using bs.wr_ok [OF assms] by blast
  with bs.write_then_read [OF assms w(1)] bs.write_then_read_other [OF assms w(1)] show ?thesis by blast
qed

theorem block_write_read_witness:
  "\<exists>w. write_block plain_env demo 6 (replicate SECTOR_SIZE 7) = (Inr (), w) \<and>
     read_block plain_env w 6 = (Inr (replicate SECTOR_SIZE 7), w) \<and>
     read_block plain_env w 4 = (fst (read_block plain_env demo 4), w)"
  using block_write_read [OF demo_ready, of 6 "replicate SECTOR_SIZE 7"] by (auto simp: demo_geom)

text \<open>
  \<open>write_block_raw\<close>, which formats a volume that is not mounted yet, has the effect of the mounted
  volume's \<open>write_block\<close> followed by a flush of the stream, wherever the block lies in the volume and
  is not protected.
\<close>

theorem raw_write_is_write:
  assumes "unat b < vol_blocks v" "\<not> blocked v b"
  shows "write_block_raw E (v_file v) (v_key v) (v_start v) b d =
    (case write_block E v b d of (Inl e, w) \<Rightarrow> (False, v_file w) | (Inr _, w) \<Rightarrow> fflush (v_file w))"
  by (rule write_block_raw_eq [OF assms])

theorem raw_write_is_write_instance:
  "write_block_raw plain_env demo_file (v_key demo) 4096 6 [1] =
    (case write_block plain_env demo 6 [1] of (Inl e, w) \<Rightarrow> (False, v_file w) | (Inr _, w) \<Rightarrow> fflush (v_file w)) \<and>
   write_block_raw plain_env demo_file (v_key demo) 4096 5 [] =
    (case write_block plain_env demo 5 [] of (Inl e, w) \<Rightarrow> (False, v_file w) | (Inr _, w) \<Rightarrow> fflush (v_file w))"
  using raw_write_is_write [of 6 demo plain_env "[1]"] raw_write_is_write [of 5 demo plain_env "[]"]
  by (simp add: demo_geom blocked_def SECTOR_SIZE_def)

text \<open>
  C26. Protection refuses, and refuses only what it must: a write to a block inside the volume is rejected
  with \<open>-ENOSPC\<close> exactly when the block's sector of the container lies between the first and the last
  protected sector, and then nothing changes.
\<close>

theorem protection_refuses:
  assumes "unat b < vol_blocks v" "v_protect v"
  defines "pos \<equiv> unat (v_start v) + unat b * SECTOR_SIZE"
  shows "(fst (write_block E v b d) = Inl ENOSPC \<longleftrightarrow> pos \<in> protected_region v) \<and>
    (write_block E v b d = (Inl ENOSPC, v) \<longleftrightarrow> pos \<in> protected_region v)"
proof -
  have "pos div SECTOR_SIZE = unat (v_start v) div SECTOR_SIZE + unat b"
    by (simp add: pos_def)
  then have bl: "blocked v b \<longleftrightarrow> pos \<in> protected_region v"
    using assms(2) by (simp add: protected_region_iff blocked_def Let_def)
  have "fst (write_block E v b d) \<noteq> Inl ENOSPC" if "\<not> blocked v b"
    using that assms(1) by (auto simp: write_block_def Let_def split: option.split prod.split)
  moreover have "write_block E v b d = (Inl ENOSPC, v)" if "blocked v b"
    using that assms(1) by (simp add: write_block_def)
  ultimately show ?thesis unfolding bl [symmetric] by (metis fst_conv)
qed

theorem protection_refuses_witness:
  "write_block plain_env (demo\<lparr>v_pstart := 6\<rparr>) 6 [] = (Inl ENOSPC, demo\<lparr>v_pstart := 6\<rparr>) \<and>
   fst (write_block plain_env (demo\<lparr>v_pstart := 6\<rparr>) 4 []) \<noteq> Inl ENOSPC"
  using protection_refuses [of 6 "demo\<lparr>v_pstart := 6\<rparr>" plain_env "[]"]
    protection_refuses [of 4 "demo\<lparr>v_pstart := 6\<rparr>" plain_env "[]"] demo_geom
  by (simp add: vol_blocks_def protected_region_def SECTOR_SIZE_def)

section \<open>The allocator\<close>

text \<open>
  C27. Allocation returns a free block. With an exact free counter on a volume below 8 TiB,
  \<open>alloc_block\<close> returns \<open>-1\<close> and changes nothing when every data block is taken; otherwise it returns the
  lowest data block whose bit is clear, sets exactly that bit and lowers the free counter by one.
\<close>

theorem alloc_block_lowest_free:
  assumes "bitmap_inv v" "small_volume v"
  shows "case alloc_block v of (r, w) \<Rightarrow>
    if used v = pool v then r = - 1 \<and> w = v
    else r = int (Min (pool v - used v)) \<and> used w = insert (nat r) (used v) \<and>
      unat (sb_free_blocks (v_sb w)) + 1 = unat (sb_free_blocks (v_sb v)) \<and> bitmap_inv w"
proof (cases v rule: alloc_block_cases)
  case full
  then show ?thesis by simp
next
  case (found i)
  then have ne: "used v \<noteq> pool v" by auto
  obtain r w where rw: "alloc_block v = (r, w)" by fastforce
  have r: "r = int i"
    using found assms(2) rw by (simp add: sint_of_nat_u32 pool_def small_volume_def)
  have "Min (pool v - used v) = i"
    using found(1-3) by (rule lowest_free)
  moreover have inv: "bitmap_inv v \<and> small_volume v" using assms by simp
  moreover have "0 \<le> r" using r by simp
  note ba.alloc_fresh [OF inv rw this] ba.alloc_card [OF inv rw this]
  ultimately show ?thesis using rw r ne assms by (auto simp: bitmap_inv_def)
qed

theorem alloc_block_lowest_free_witness:
  "case alloc_block demo of (r, w) \<Rightarrow> r = 5 \<and> used w = {5, 4}"
  using alloc_block_lowest_free [OF demo_bitmap_inv] demo_free
  by (auto simp: demo_used split: prod.splits if_splits)

text \<open>
  C28. Freeing undoes allocating, and freeing twice is freeing once: after \<open>alloc_block\<close> has returned a
  block, \<open>free_block\<close> of it restores the set of used blocks and the free counter; a block that is not
  in use, or not a data block, is left alone.
\<close>

theorem free_undoes_alloc:
  assumes "bitmap_inv v" "small_volume v" "alloc_block v = (r, w)" "0 \<le> r"
  shows "used (free_block w (of_int r)) = used v \<and>
    sb_free_blocks (v_sb (free_block w (of_int r))) = sb_free_blocks (v_sb v) \<and>
    free_block (free_block w b) b = free_block w b"
proof -
  have inv: "bitmap_inv v \<and> small_volume v" using assms by simp
  note f = ba.alloc_fresh [OF inv assms(3,4)]
  note t = ba.alloc_then_free [OF inv assms(3,4)]
  then have "unat (sb_free_blocks (v_sb (free_block w (of_int r)))) = unat (sb_free_blocks (v_sb v))"
    using assms(1) by (simp add: bitmap_inv_def)
  with t f show ?thesis using ba.double_free [of w b] by (simp add: word_unat_eq_iff)
qed

theorem free_undoes_alloc_witness:
  "used (free_block (snd (alloc_block demo)) 5) = used demo"
proof -
  have "alloc_block demo = (5, snd (alloc_block demo))" using demo_alloc by (simp add: prod_eq_iff)
  from free_undoes_alloc [OF demo_bitmap_inv this] show ?thesis by simp
qed

text \<open>
  C29. The \<open>int\<close> result of \<open>alloc_block\<close> cannot carry every block number: on a volume of more than
  $2^{31}$ blocks whose first free block is at or above $2^{31}$, the result is negative, so the callers
  report \<open>-ENOSPC\<close>, although the bit has been set and the free counter lowered.
\<close>

theorem alloc_block_int_cast:
  assumes "bitmap_inv v" "used v \<noteq> pool v" "2 ^ 31 \<le> Min (pool v - used v)"
  shows "fst (alloc_block v) < 0 \<and>
    used (snd (alloc_block v)) = insert (Min (pool v - used v)) (used v) \<and>
    fst (allocate_pointer_table E v) = Inl ENOSPC"
proof (cases v rule: alloc_block_cases)
  case full
  with assms(2) show ?thesis by simp
next
  case (found i)
  have m: "Min (pool v - used v) = i"
    using found(1-3) by (rule lowest_free)
  have b: "2 ^ 31 \<le> i" "i < 2 ^ 32" using assms(3) m pool_bound [OF found(1)] by simp_all
  have "sint (of_nat i :: u32) < 0"
  proof -
    have "i div 2 ^ 31 = 1" using b by simp
    then have "bit i 31" by (simp add: bit_iff_odd)
    then have "bit (of_nat i :: u32) 31" by (simp add: bit_of_nat_iff)
    then show ?thesis by (simp add: sint_uint bit_uint_iff)
  qed
  with found m used_set [OF assms(1) found(1)] show ?thesis
    by (simp add: allocate_pointer_table_def)
qed

theorem alloc_block_int_cast_witness:
  "fst (alloc_block huge) < 0 \<and> used (snd (alloc_block huge)) = insert (2 ^ 31) {65540..<2 ^ 31}"
proof -
  have m: "Min (pool huge - used huge) = 2 ^ 31" unfolding huge_free by (rule Min_eqI) auto
  have "used huge \<noteq> pool huge" using huge_free by auto
  from alloc_block_int_cast [OF huge_inv this, of plain_env] m huge_used show ?thesis by simp
qed

section \<open>Disk formats and cryptography\<close>

text \<open>
  C30. Every metadata structure survives its trip to disk: superblock, inode table, directory block and
  pointer table are read back as written, and each fills its blocks exactly.
\<close>

theorem metadata_roundtrip:
  assumes "sb_ok sb" "\<forall>nd \<in> set nds. inode_ok nd" "length nds = DENYFS_MAX_INODES"
    and "\<forall>e \<in> set es. dirent_ok e" "length es = DENYFS_DIRENTS_PER_BLOCK"
    and "length ps = DENYFS_POINTERS_PER_BLOCK"
  shows "sb_dec (sb_enc sb) = sb \<and> length (sb_enc sb) = SECTOR_SIZE \<and>
    inodes_dec (inodes_enc nds) = nds \<and> length (inodes_enc nds) = inode_table_blocks * SECTOR_SIZE \<and>
    dirents_dec (dirents_enc es) = es \<and> length (dirents_enc es) = SECTOR_SIZE \<and>
    ptrs_dec (ptrs_enc ps) = ps \<and> length (ptrs_enc ps) = SECTOR_SIZE"
  using assms
  by (simp add: sb_dec_enc length_sb_enc inodes_dec_enc length_inodes_enc dirents_dec_enc
      length_dirents_enc inode_table_blocks_eq) (simp add: layout_sizes)

theorem metadata_roundtrip_witness:
  "sb_dec (sb_enc (fmt_superblock 8 (replicate 32 9))) = fmt_superblock 8 (replicate 32 9) \<and>
   inodes_dec (inodes_enc (fmt_inodes 4 77)) = fmt_inodes 4 77 \<and>
   dirents_dec (dirents_enc (replicate 16 free_entry)) = replicate 16 free_entry \<and>
   ptrs_dec (ptrs_enc empty_table) = empty_table"
  using metadata_roundtrip [of "fmt_superblock 8 (replicate 32 9)" "fmt_inodes 4 77"
      "replicate 16 free_entry" empty_table] fmt_inodes_ok [of 4 77]
  by (simp add: fmt_superblock_ok empty_table_def layout_sizes)

text \<open>
  No two blocks of a volume share a tweak, so none is encrypted like another: the 16 tweak bytes of
  two sectors agree only when the sector numbers do.
\<close>

theorem tweaks_distinct: "lba_iv (ucast (a :: u32)) = lba_iv (ucast (b :: u32)) \<longleftrightarrow> a = b"
  by (simp add: lba_iv_inj unsigned_ucast_eq word_unat_eq_iff take_bit_nat_eq_self)

text \<open>
  C32. The payload struct is 8 bytes longer than the ciphertext field of the header: its padding counts
  three of its four 8-byte integers. The last 8 reserved bytes are never encrypted.
\<close>

theorem payload_size:
  assumes "payload_ok p"
  shows "length (payload_enc p) = CIPHERTEXT_SIZE + 8 \<and>
    encrypt_header E iv p key out = encrypt_header E iv (p\<lparr>hp_reserved :=
      take 3924 (hp_reserved p) @ replicate 8 x\<rparr>) key out"
  using assms
  by (simp add: payload_enc_length encrypt_header_def)
    (simp add: payload_enc_def payload_ok_def crypto_sizes)

theorem payload_size_witness:
  "length (payload_enc zero_payload) = CIPHERTEXT_SIZE + 8"
  using payload_size [of zero_payload] by (simp add: payload_ok_def zero_payload_def crypto_sizes)

text \<open>
  C33. A header decrypts to the payload that was encrypted under the same key, with the salt in clear;
  only the 8 bytes beyond the ciphertext come back as zeros.
\<close>

theorem header_decrypts:
  assumes "gcm_correct E" "payload_ok p" "length key = KEY_SIZE_GCM" "length iv = IV_SIZE"
    and "length (hd_salt out) = SALT_SIZE"
  shows "\<exists>d. encrypt_header E iv p key out = Some d \<and> hd_salt d = hd_salt out \<and>
    length (header_enc d) = HEADER_SIZE \<and> header_dec (header_enc d) = d \<and>
    decrypt_header E d key zero_payload =
      (True, p\<lparr>hp_reserved := take 3924 (hp_reserved p) @ replicate 8 0\<rparr>)"
  using header_roundtrip [OF assms] length_header_enc header_dec_enc unfolding clipped_def by blast

theorem header_decrypts_witness:
  "\<exists>d. encrypt_header plain_env (replicate 12 1) (new_payload demo_entropy 8192) (replicate 32 2) zero_header =
     Some d \<and> hp_volume_size (snd (decrypt_header plain_env d (replicate 32 2) zero_payload)) = 8192"
proof -
  have 1: "length (replicate 32 (2 :: u8)) = KEY_SIZE_GCM" by (simp add: crypto_sizes)
  have 2: "length (replicate 12 (1 :: u8)) = IV_SIZE" by (simp add: crypto_sizes)
  have 3: "length (hd_salt zero_header) = SALT_SIZE" by (simp add: crypto_sizes zero_header_def)
  from header_decrypts [OF plain_env_correct(2) new_payload_ok [OF demo_entropy_ok] 1 2 3, of 8192]
  show ?thesis by (auto simp: new_payload_def)
qed

section \<open>Containers\<close>

text \<open>
  C34. The 32-bit offset \<open>i * SECTOR_SIZE\<close> of the flush and load loops never wraps: for every bitmap
  or inode sector of a superblock that passes \<open>validate_superblock\<close> it is the exact product.
\<close>

theorem sector_offset_exact:
  assumes "validate_superblock sb sz" "i < unat (sb_bitmap_blocks sb) \<or> i < unat (sb_inode_blocks sb)"
  shows "sector_off i = i * SECTOR_SIZE"
proof -
  note f = validate_superblock_facts [OF assms(1)]
  then have n: "unat (sb_bitmap_blocks sb) =
      ((unat (sb_total_blocks sb) + 7) div 8 + SECTOR_SIZE - 1) div SECTOR_SIZE"
    and m: "unat (sb_inode_blocks sb) = 2"
    by (simp_all only: inode_table_blocks_eq)
  have "unat (sb_total_blocks sb) < 2 ^ 32" using unat_less_2p [of "sb_total_blocks sb"] by simp
  then have "unat (sb_bitmap_blocks sb) < 2 ^ 18" unfolding n SECTOR_SIZE_def by simp
  with assms(2) m have "i < 2 ^ 20" by (elim disjE) simp_all
  then show ?thesis by (rule sector_off_eq)
qed

theorem sector_offset_exact_witness: "sector_off 1 = 4096"
proof -
  have "validate_superblock (fmt_superblock (fmt_total_blocks (8 * 4096)) []) (8 * 4096)"
    using demo_geometry(3)
    by (intro fmt_superblock_valid) (simp_all add: fmt_total_blocks_def SECTOR_SIZE_def UINT32_MAX_def)
  from sector_offset_exact [OF this, of 1] show ?thesis by (simp add: SECTOR_SIZE_def)
qed

text \<open>
  C35. Flushing makes the memory durable: on a usable volume whose clean bitmap sectors are on disk,
  \<open>denyfs_vol_flush\<close> succeeds, leaves the data blocks alone, and what \<open>denyfs_vol_open\<close> then loads from
  the volume is the flushed state, provided the consistency check accepts it.
\<close>

theorem flush_then_load:
  assumes "ready E v" "wf v" "clean_synced E v" "compute_hmac E (v_hkey v) (v_bitmap v) = Some h"
    and "e_alloc E Bitmap_buffer" "e_alloc E Dirty_buffer"
  shows "\<exists>w. vol_flush E v = (Inr (), w) \<and> v_inodes w = v_inodes v \<and> v_bitmap w = v_bitmap v \<and>
    (\<forall>c. data_start v \<le> unat c \<and> unat c < vol_blocks v \<longrightarrow> cells E w c = cells E v c) \<and>
    load_volume E (w\<lparr>v_sb := sb0, v_bitmap := [], v_dirty := [],
        v_inodes := replicate DENYFS_MAX_INODES blank_inode\<rparr>) =
      (case validate_loaded_metadata E w of (ok, x) \<Rightarrow> if ok then Some x else None)"
proof -
  obtain w f where w: "vol_flush E v = (Inr (), w)" "ready E w" "synced E w"
    "w = v\<lparr>v_file := f, v_sb := (v_sb v)\<lparr>sb_bitmap_hmac := h\<rparr>, v_dirty := replicate (length (v_dirty v)) 0\<rparr>"
    "\<forall>c. data_start v \<le> unat c \<and> unat c < vol_blocks v \<longrightarrow> cells E w c = cells E v c"
    using flush_synced [OF assms(1-4)] by blast
  have "length h = DENYFS_HMAC_SIZE" using assms(4) by (rule compute_hmac_length)
  then have wf: "wf w"
    using assms(2) unfolding w(4) by (intro wf_flushed) simp_all
  have hm: "compute_hmac E (v_hkey w) (v_bitmap w) = Some (sb_bitmap_hmac (v_sb w))"
    using assms(4) by (simp add: w(4))
  have sk: "skeleton w (w\<lparr>v_sb := sb0, v_bitmap := [], v_dirty := [],
      v_inodes := replicate DENYFS_MAX_INODES blank_inode\<rparr>)"
    unfolding skeleton_def
    by (rule exI [of _ sb0], rule exI, rule exI, rule exI [of _ "replicate DENYFS_MAX_INODES blank_inode"])
      (simp add: length_inodes_enc inode_ok_def blank_inode_def layout_sizes)
  have dirty: "w\<lparr>v_dirty := replicate (length (v_dirty w)) 0\<rparr> = w" by (simp add: w(4))
  note load = load_synced [OF w(2) wf w(3) sk hm assms(5,6), unfolded dirty]
  have "v_inodes w = v_inodes v" "v_bitmap w = v_bitmap v" by (simp_all add: w(4))
  with w(1,5) load show ?thesis by blast
qed

theorem flush_then_load_witness:
  "\<exists>w. vol_flush plain_env demo = (Inr (), w) \<and> v_inodes w = fmt_inodes 4 0 \<and>
     load_volume plain_env (w\<lparr>v_sb := v_sb demo, v_bitmap := [], v_dirty := [],
       v_inodes := replicate DENYFS_MAX_INODES blank_inode\<rparr>) =
     (case validate_loaded_metadata plain_env w of (ok, x) \<Rightarrow> if ok then Some x else None)"
  using flush_then_load [OF demo_ready demo_wf demo_clean plain_hmac, of "v_sb demo"] by auto

text \<open>
  C36. A new container opens: when the libraries work, \<open>denyfs_container_create\<close> with a password and an
  accepted size succeeds, the file has exactly that size, and \<open>denyfs_vol_open\<close> with the same password
  mounts the outer volume with half that size, usable, with an empty root directory and no file.
\<close>

theorem create_then_open:
  assumes "libs_work E" "entropy_ok en" "pw \<noteq> []" "size_ok size_mb"
  shows "\<exists>g v. container_create E en (Some empty_file) size_mb pw now = (True, Some g) \<and>
    length (f_bytes g) = unat size_mb * 2 ^ 20 \<and>
    vol_open E (Some g) pw hpw False = Some v \<and> \<not> v_hidden v \<and> unat (v_start v) = HEADER_SIZE \<and>
    v_size v = size_mb * 1024 * 1024 div 2 \<and> ready E v \<and>
    cells E v (sb_data_start (v_sb v)) = empty_dir \<and>
    (\<forall>i < DENYFS_MAX_INODES. i \<noteq> 0 \<longrightarrow> i_type (inode_at v i) = DENYFS_ITYPE_FREE)"
proof -
  let ?sz = "size_mb * 1024 * 1024 div 2"
  obtain g h where g: "container_create E en (Some empty_file) size_mb pw now = (True, Some g)"
    "length (f_bytes g) = container_bytes size_mb" "holds_outer E en pw g ?sz now h"
    using create_holds_outer [OF assms] by blast
  let ?v = "opened g en ?sz (of_nat HEADER_SIZE) False h now"
  have hv: "has_volume E en g ?sz (of_nat HEADER_SIZE) now h" using g(3) by (simp add: holds_outer_def)
  have "ready E ?v" "cells E ?v (fmt_data_start (fmt_total_blocks ?sz)) = empty_dir"
    using hv sits_blank [of g en ?sz "of_nat HEADER_SIZE" False] by (simp_all add: has_volume_def opened_def)
  moreover have "i_type (inode_at ?v i) = DENYFS_ITYPE_FREE" if "i < DENYFS_MAX_INODES" "i \<noteq> 0" for i
    using that by (simp add: opened_def fresh_inode_Suc blank_inode_def)
  moreover have "v_size ?v = ?sz" "v_start ?v = of_nat HEADER_SIZE" "\<not> v_hidden ?v"
    "sb_data_start (v_sb ?v) = fmt_data_start (fmt_total_blocks ?sz)"
    by (simp_all add: opened_def fresh_def Let_def blank_volume_def new_payload_def clipped_def)
  ultimately show ?thesis
    using g(1,2) open_outer(1) [OF assms(1) g(3)] by (auto simp: container_bytes_def unat_HEADER_SIZE)
qed

theorem create_then_open_witness:
  "\<exists>g v. container_create plain_env demo_entropy (Some empty_file) 4 outer_pw 0 = (True, Some g) \<and>
     length (f_bytes g) = 4194304 \<and> vol_open plain_env (Some g) outer_pw None False = Some v \<and>
     ready plain_env v"
  using create_then_open [OF plain_libs demo_entropy_ok demo_pws(1) demo_size_ok(1), of 0 None] by fastforce

text \<open>
  C37. A hidden volume is created beside a new outer volume and both can be mounted: when the hidden
  size leaves room for the outer volume, \<open>denyfs_container_create_hidden\<close> succeeds and keeps the length
  of the container; the outer password still mounts the outer volume, with protection when the hidden
  password is given as well; and the hidden password mounts the hidden volume of exactly the requested
  size, ending where its header starts (unless it also decrypts the outer header).
\<close>

theorem create_hidden_then_open:
  assumes "libs_work E" "entropy_ok en" "entropy_ok en2" "pw \<noteq> []" "hpw \<noteq> []" "pw \<noteq> hpw" "size_ok size_mb"
    and "hmb \<noteq> 0" "unat hmb * 256 \<le> UINT32_MAX - 8"
    and "HEADER_SIZE + unat size_mb * 2 ^ 19 + unat hmb * 2 ^ 20 \<le>
      unat size_mb * 2 ^ 20 - DENYFS_HIDDEN_HEADER_OFFSET_FROM_EOF"
  shows "\<exists>f g v p. container_create E en (Some empty_file) size_mb pw now = (True, Some f) \<and>
    container_create_hidden E en2 (Some f) pw hpw hmb now2 = (Inr (), Some g) \<and>
    length (f_bytes g) = length (f_bytes f) \<and>
    vol_open E (Some g) pw None False = Some v \<and> \<not> v_hidden v \<and>
    vol_open E (Some g) pw (Some hpw) True = Some p \<and> v_protect p \<and> ready E p \<and>
    (try_header E (header_dec (slice 0 HEADER_SIZE (f_bytes g)))
       (trial_key E hpw (hd_salt (header_dec (slice 0 HEADER_SIZE (f_bytes g))))) = None \<longrightarrow>
     (\<exists>h. vol_open E (Some g) hpw None False = Some h \<and> v_hidden h \<and>
        unat (v_size h) = unat hmb * 2 ^ 20 \<and>
        unat (v_start h) + unat (v_size h) = length (f_bytes g) - DENYFS_HIDDEN_HEADER_OFFSET_FROM_EOF))"
proof -
  let ?sz = "size_mb * 1024 * 1024 div 2" and ?hsz = "hmb * 1024 * 1024"
  obtain f h where f: "container_create E en (Some empty_file) size_mb pw now = (True, Some f)"
    "length (f_bytes f) = container_bytes size_mb" "holds_outer E en pw f ?sz now h"
    using create_holds_outer [OF assms(1,2,4,7)] by blast
  have sz: "unat ?sz = unat size_mb * 2 ^ 19" using size_ok_facts(2) [OF assms(7)] by simp
  have room: "HEADER_SIZE + unat ?sz + unat hmb * 2 ^ 20 \<le>
      length (f_bytes f) - DENYFS_HIDDEN_HEADER_OFFSET_FROM_EOF"
    using assms(10) unfolding sz f(2) container_bytes_def .
  obtain g h2 where g: "container_create_hidden E en2 (Some f) pw hpw hmb now2 = (Inr (), Some g)"
    "unat ?hsz = unat hmb * 2 ^ 20" "length (f_bytes g) = length (f_bytes f)"
    "holds_outer E en pw g ?sz now h" "holds_hidden E en2 hpw g ?hsz now2 h2"
    using create_hidden_ok [OF assms(1,3) f(3) assms(4-6,8,9) room] by blast
  have "HEADER_SIZE + unat ?sz + unat ?hsz \<le> length (f_bytes g) - DENYFS_HIDDEN_HEADER_OFFSET_FROM_EOF"
    using room by (simp only: g(2,3))
  from open_protected [OF assms(1) g(4,5) this] obtain p where p:
    "vol_open E (Some g) pw (Some hpw) True = Some p" "v_protect p" "ready E p" by blast
  let ?hv = "opened g en2 ?hsz (hidden_header_pos (length (f_bytes g)) - ?hsz) True h2 now2"
  have "placed (length (f_bytes g)) ?hv" if "vol_open E (Some g) hpw None False = Some ?hv"
    using that by (auto elim!: vol_open_SomeE dest: load_placed)
  moreover have "v_hidden ?hv" "unat (v_size ?hv) = unat hmb * 2 ^ 20"
    using g(2) by (simp_all add: opened_def fresh_def Let_def blank_volume_def)
  moreover note open_hidden [OF assms(1) g(5)]
  moreover have "\<not> v_hidden (opened g en ?sz (of_nat HEADER_SIZE) False h now)"
    by (simp add: opened_def fresh_def Let_def blank_volume_def)
  ultimately show ?thesis
    using f(1) g(1,3) p open_outer(1) [OF assms(1) g(4)] unfolding placed_def by metis
qed

theorem create_hidden_then_open_witness:
  "\<exists>f g v. container_create plain_env demo_entropy (Some empty_file) 4 outer_pw 0 = (True, Some f) \<and>
     container_create_hidden plain_env demo_entropy (Some f) outer_pw hidden_pw 1 0 = (Inr (), Some g) \<and>
     vol_open plain_env (Some g) outer_pw (Some hidden_pw) True = Some v \<and> v_protect v \<and> ready plain_env v"
  using create_hidden_then_open [OF plain_libs demo_entropy_ok demo_entropy_ok demo_pws demo_size_ok(1),
      of 1 0 0]
  by (force simp: UINT32_MAX_def HEADER_SIZE_def DENYFS_HIDDEN_HEADER_OFFSET_FROM_EOF_def)

text \<open>
  C38. Creating a hidden volume leaves the outer volume alone, even when it fails half-way: whatever
  \<open>denyfs_container_create_hidden\<close> returns, no byte of the outer header or of the outer volume changes.
\<close>

theorem create_hidden_keeps_outer:
  assumes "vol_open E (Some f) pw None False = Some v"
    and "container_create_hidden E en (Some f) pw hpw mb now = (r, Some g)"
  shows "\<forall>i < unat (v_start v) + unat (v_size v). f_bytes g ! i = f_bytes f ! i"
  using create_hidden_frame [OF assms] by blast

theorem create_hidden_keeps_outer_witness:
  "\<exists>v. vol_open plain_env (Some demo_outer) outer_pw None False = Some v \<and>
     (\<forall>i < unat (v_start v) + unat (v_size v). f_bytes demo_both ! i = f_bytes demo_outer ! i)"
proof -
  obtain h where "holds_outer plain_env demo_entropy outer_pw demo_outer outer_size 0 h"
    using demo_outer_ok by blast
  then obtain v where v: "vol_open plain_env (Some demo_outer) outer_pw None False = Some v"
    using open_outer(1) [OF plain_libs] by blast
  moreover obtain r where "container_create_hidden plain_env demo_entropy (Some demo_outer) outer_pw
      hidden_pw 1 0 = (r, Some demo_both)" using demo_both_ok by blast
  ultimately show ?thesis using create_hidden_keeps_outer by blast
qed

text \<open>
  C39. Only an authenticated header leads to a mount. Whatever the container holds and whatever fails, if
  \<open>denyfs_vol_open\<close> returns a volume, then AES-GCM has verified the tag of that volume's header (the one in the
  first sector, or the one near the end for a hidden volume) under the key derived from the password and the
  header's salt, the plaintext starts with the magic number, and the volume's size, its sector key and its HMAC key
  are the fields of that plaintext. So no password mounts anything unless a header authenticates under it. The
  hypothesis is that GCM decryption keeps the length of the text.
\<close>

theorem mount_authenticated:
  assumes "vol_open E (Some f) pw hpw prot = Some v" "gcm_keeps_length E"
  shows "\<exists>d pt. d = (if v_hidden v then hidden_header_of (f_bytes f) else header_dec (slice 0 HEADER_SIZE (f_bytes f))) \<and>
    e_gcm_decrypt E (trial_key E pw (hd_salt d)) (hd_iv d) (hd_ciphertext d) (hd_tag d) = Some (pt, True) \<and>
    le_dec (slice 0 8 pt) = DENYFS_HEADER_MAGIC \<and> v_size v = le_dec (slice 8 8 pt) \<and>
    v_key v = slice 32 64 pt \<and> v_hkey v = slice 96 32 pt"
  using mount_header [OF assms] unfolding header_of_def by blast

theorem mount_authenticated_witness:
  "\<exists>v (d :: header_disk) pt. vol_open plain_env (Some demo_both) outer_pw (Some hidden_pw) True = Some v \<and>
     e_gcm_decrypt plain_env (trial_key plain_env outer_pw (hd_salt d)) (hd_iv d) (hd_ciphertext d) (hd_tag d) =
       Some (pt, True) \<and> v_key v = slice 32 64 pt"
proof -
  obtain v where v: "vol_open plain_env (Some demo_both) outer_pw (Some hidden_pw) True = Some v"
    using demo_both_protected by blast
  from mount_authenticated [OF v plain_keeps_length] v show ?thesis by blast
qed

section \<open>The FUSE front end\<close>

text \<open>
  The FUSE callbacks add nothing to the volume's interface: any sequence of callbacks has the effect
  of a sequence of calls of the public volume functions with definite results, and such a sequence of
  calls determines the final state.
\<close>

theorem callbacks_are_calls:
  assumes "fuse_run E v w"
  shows "\<exists>cs. vol_run E v cs w \<and> (\<forall>u. vol_run E v cs u \<longrightarrow> u = w)"
  using fuse_run_run [OF assms] vol_run_fun by blast

theorem callbacks_are_calls_instance:
  "\<exists>cs. vol_run plain_env demo cs (snd (fuse_create plain_env 0 demo (map of_char ''/a''))) \<and>
     (\<forall>u. vol_run plain_env demo cs u \<longrightarrow> u = snd (fuse_create plain_env 0 demo (map of_char ''/a'')))"
  by (rule callbacks_are_calls [OF create_run])

text \<open>
  C40. A usable volume stays usable: with a stream that injects no fault, correct ciphers and no protected
  block, after any callbacks every block of the volume can still be read and written.
\<close>

theorem usable_stays_usable:
  assumes "ready E v" "fuse_run E v w" "unat b < vol_blocks v" "length d = SECTOR_SIZE"
  shows "ready E w \<and> (\<exists>p. read_block E w b = (Inr p, w) \<and> length p = SECTOR_SIZE) \<and>
    fst (write_block E w b d) = Inr ()"
proof -
  obtain cs where cs: "vol_run E v cs w" using fuse_run_run [OF assms(2)] by blast
  have r: "ready E w" using sr.chain_run [OF cs sr.R_refl] assms(1) by (simp add: stays_ready_def)
  have "keeps v w" using kp.chain_run [OF cs kp.R_refl] .
  then have b: "unat b < vol_blocks w" using assms(3) by (simp add: keeps_def same_config_def vol_blocks_def)
  show ?thesis using r bs.rd_ok [OF r b] bs.cells_length [OF r b] bs.wr_ok [OF r b assms(4)] by auto
qed

theorem usable_stays_usable_witness:
  "ready plain_env (snd (fuse_create plain_env 0 demo (map of_char ''/a''))) \<and>
   fst (write_block plain_env (snd (fuse_create plain_env 0 demo (map of_char ''/a''))) 7 (replicate SECTOR_SIZE 1)) =
     Inr ()"
  using usable_stays_usable [OF demo_ready create_run, of 7 "replicate SECTOR_SIZE 1"] by (simp add: demo_geom)

section \<open>The file system\<close>

text \<open>
  C1. A mounted volume is a map from names to byte strings. In any sequence of FUSE requests on files of
  the root directory, every reply and every change is what the specification \<open>answers\<close> allows: create adds
  an empty file or refuses, unlink removes exactly that file, read returns the bytes in range, write
  overwrites (filling a gap with zeros), truncate cuts or extends with zeros, getattr gives the length, and
  errors change nothing; writes that run out of blocks half-way are excluded here and described by \<open>write_exact\<close>.
\<close>

theorem session_refines:
  assumes "store E v" "hmac_works E" "runs (served E) v xs w"
  shows "runs answered (files E v) xs (files E w) \<and> store E w"
  using sess.runs_refine [of E v xs w] assms by simp

theorem session_refines_witness:
  "runs answered Map.empty [(0, MkFile a_name, Done), (0, PutData a_name hello 0, Done),
     (0, GetData a_name 100 2, Data (drop 2 hello))] [a_name \<mapsto> hello] \<and> store plain_env demo_w"
  using session_refines [OF demo_store(1) plain_works demo_run] by (simp add: demo_store(2) demo_w_made(3))

text \<open>
  C6. A write is all it says or stops at a block boundary. On a file of a consistent volume,
  \<open>denyfs_vol_write\<close> within the size limits either returns the full length, with the file overwritten and
  everything on disk, or returns \<open>-ENOSPC\<close> when fewer than three blocks are free: then a prefix of whole
  blocks is in the file's blocks, its size is unchanged, and no other file has changed.
\<close>

theorem write_exact:
  assumes "store E v" "hmac_works E" "dir E v name = Some i"
    and "length buf \<le> INT_MAX" "unat off + length buf \<le> DENYFS_MAX_FILE_SIZE"
  shows "(\<exists>w. vol_write E now v (unat i) buf off = (Inr (length buf), w) \<and> store E w \<and> synced E w \<and>
      files E w = (files E v)(name \<mapsto> overwrite (unat off) buf (the (files E v name)))) \<or>
    (\<exists>w k. vol_write E now v (unat i) buf off = (Inl ENOSPC, w) \<and> k < length buf \<and>
      card (pool v - used w) < 3 \<and> (if k = 0 then used w = used v else SECTOR_SIZE dvd unat off + k) \<and>
      i_size (inode_at w (unat i)) = i_size (inode_at v (unat i)) \<and>
      (\<forall>p < MAX_BYTES. file_byte (cells E w) (inode_at w (unat i)) p =
         (if unat off \<le> p \<and> p < unat off + k then buf ! (p - unat off)
          else file_byte (cells E v) (inode_at v (unat i)) p)) \<and>
      sound E w \<and> dir E w = dir E v \<and> (\<forall>a. a \<noteq> name \<longrightarrow> files E w a = files E v a))"
  using store_write [OF assms, of now]
proof (elim disjE exE conjE)
  fix w k
  assume a: "vol_write E now v (unat i) buf off = (Inl ENOSPC, w)" "k < length buf" "scarce v (used w)"
    "if k = 0 then used w = used v else SECTOR_SIZE dvd unat off + k"
    "i_size (inode_at w (unat i)) = i_size (inode_at v (unat i))"
    "wrote E v w (unat i) (unat off) (take k buf)" "sound E w" "dir E w = dir E v" "others_same E v w {unat i}"
  note s = store_sound [OF assms(1)]
  have b: "file_byte (cells E w) (inode_at w (unat i)) p = (if unat off \<le> p \<and> p < unat off + k then buf ! (p - unat off)
      else file_byte (cells E v) (inode_at v (unat i)) p)" if "p < MAX_BYTES" for p
    using wrote_byte [OF a(6) dir_file(2) [OF s assms(3)] that] a(2) by auto
  have o: "files E w x = files E v x" if "x \<noteq> name" for x
    by (rule other_file_same [OF s assms(3) a(8,9) that])
  show ?thesis
    by (intro disjI2 exI [of _ w] exI [of _ k]) (use a b o in \<open>simp add: scarce_def\<close>)
qed blast

theorem write_exact_witness:
  "(\<exists>w. vol_write plain_env 0 demo_a (unat a_ino) hello 0 = (Inr 6, w) \<and> files plain_env w = [a_name \<mapsto> hello])"
  using write_exact [OF demo_a_store(1) plain_works demo_a_store(3), of hello 0 0] demo_w_made(1,3)
  by (simp add: INT_MAX_def DENYFS_MAX_FILE_SIZE_def)

text \<open>
  C7. A read returns exactly the bytes asked for: \<open>denyfs_vol_read\<close> on a file of a consistent volume returns
  the bytes from the offset on, cut at the end of the file, with holes as zeros, and changes nothing.
\<close>

theorem read_exact:
  assumes "store E v" "dir E v name = Some i" "sz \<le> INT_MAX"
  shows "vol_read E v (unat i) sz off = (Inr (take sz (drop (unat off) (the (files E v name)))), v)"
  using store_read [OF assms] by (simp add: slice_def)

theorem read_exact_witness:
  "\<exists>i :: u32. vol_read plain_env demo_w (unat i) 3 2 = (Inr (map of_char ''llo''), demo_w)"
proof -
  obtain i where "dir plain_env demo_w a_name = Some i"
    using demo_w_made(3) files_None [of plain_env demo_w a_name] by auto
  from read_exact [OF demo_w_made(2) this, of 3 2] show ?thesis
    by (auto simp: INT_MAX_def demo_w_made(3) hello_def)
qed

text \<open>
  C8. Truncation cuts or extends with zeros: \<open>denyfs_vol_truncate\<close> on a file of a consistent volume succeeds
  for every size up to the limit, the file is then the old one cut to that size or extended with zero bytes,
  and no block lies beyond the new end.
\<close>

theorem truncate_exact:
  assumes "store E v" "hmac_works E" "dir E v name = Some i" "unat n \<le> DENYFS_MAX_FILE_SIZE"
  shows "\<exists>w. vol_truncate E now v (unat i) n = (Inr (), w) \<and> store E w \<and>
    files E w = (files E v)(name \<mapsto> take (unat n) (the (files E v name)) @
      replicate (unat n - length (the (files E v name))) 0) \<and> fits E w (unat i)"
proof -
  obtain w where w: "vol_truncate E now v (unat i) n = (Inr (), w)" "store E w" "dir E w = dir E v"
    "files E w = (files E v)(name \<mapsto> take (unat n) (the (files E v name)) @
      replicate (unat n - length (the (files E v name))) 0)"
    using store_truncate [OF assms, of now] by blast
  then have "dir E w name = Some i" using assms(3) by simp
  then show ?thesis using w store_file(2) [OF w(2)] by blast
qed

theorem truncate_exact_witness:
  "\<exists>(i :: u32) w. vol_truncate plain_env 0 demo_w (unat i) 4 = (Inr (), w) \<and>
     files plain_env w = [a_name \<mapsto> map of_char ''hell'']"
proof -
  obtain i where "dir plain_env demo_w a_name = Some i"
    using demo_w_made(3) files_None [of plain_env demo_w a_name] by auto
  from truncate_exact [OF demo_w_made(2) plain_works this, of 4 0] show ?thesis
    by (auto simp: DENYFS_MAX_FILE_SIZE_def demo_w_made(3) hello_def)
qed

text \<open>
  C9. Unlinking gives every block back: \<open>denyfs_vol_unlink\<close> of an existing name succeeds, removes that name
  only, and the used blocks are then the old ones without the blocks of the file's tree, pointer tables
  included; the inode is free again and the other files are unchanged.
\<close>

theorem unlink_frees_all:
  assumes "store E v" "hmac_works E" "dir E v name = Some i"
  shows "\<exists>w. vol_unlink E v name = (Inr (), w) \<and> store E w \<and> dir E w = (dir E v)(name := None) \<and>
    files E w = (files E v)(name := None) \<and>
    used w = used v - {unat (sval (cells E v) (inode_at v (unat i)) s) | s.
      slot_ok s \<and> sval (cells E v) (inode_at v (unat i)) s \<noteq> DENYFS_INVALID_BLOCK} \<and>
    i_type (inode_at w (unat i)) = DENYFS_ITYPE_FREE"
proof -
  note s = store_sound [OF assms(1)]
  obtain w where w: "vol_unlink E v name = (Inr (), w)" "unlinked E v w name i"
    using vol_unlink_name [OF s assms(2,3)] by blast
  have u: "sound E w" "dir E w = (dir E v)(name := None)" "used w = used v - tree_blocks E v (unat i)"
    using w(2) by (simp_all add: unlinked_def)
  have "i \<notin> ran (dir E w)" using u(2) dir_inj [OF s _ assms(3)] by (auto simp: ran_def split: if_split_asm)
  then have "i_type (inode_at w (unat i)) = DENYFS_ITYPE_FREE"
    by (rule unlisted_free [OF u(1) _ dir_file(1,2) [OF s assms(3)]])
  then show ?thesis
    using w(1) u unlinked_store [OF assms(1) w(2) assms(3)] by (simp add: tree_blocks_def vals_def)
qed

theorem unlink_frees_all_witness:
  "\<exists>w. vol_unlink plain_env demo_w a_name = (Inr (), w) \<and> files plain_env w = Map.empty"
proof -
  obtain i where "dir plain_env demo_w a_name = Some i"
    using demo_w_made(3) files_None [of plain_env demo_w a_name] by auto
  from unlink_frees_all [OF demo_w_made(2) plain_works this] show ?thesis by (auto simp: demo_w_made(3))
qed

text \<open>
  C2. The invariant of the file system: from any state where directory, inode table, block trees, bitmap and
  counters agree (\<open>sound\<close>), every sequence of FUSE requests on C-string names, valid or not, succeeding or
  failing, ends in such a state. In particular no block is ever shared by two files or lost.
\<close>

theorem requests_keep_sound:
  assumes "sound E v" "hmac_works E"
    and "runs (\<lambda>v (now, q, r) w. 0 \<notin> set (req_name q) \<and> serve E now v q = (r, w)) v xs w"
  shows "sound E w \<and> (\<forall>b \<in> used w. \<exists>!(i, s). i < DENYFS_MAX_INODES \<and> slot_ok s \<and>
    sval (cells E w) (inode_at w i) s \<noteq> DENYFS_INVALID_BLOCK \<and> unat (sval (cells E w) (inode_at w i) s) = b)"
proof -
  have s: "sound E w"
    using assms(1,3)
  proof (induction xs arbitrary: v)
    case (Cons x xs)
    obtain now q r where x: "x = (now, q, r)" by (cases x)
    obtain u where u: "0 \<notin> set (req_name q)" "serve E now v q = (r, u)"
      "runs (\<lambda>v (now, q, r) w. 0 \<notin> set (req_name q) \<and> serve E now v q = (r, w)) u xs w"
      using Cons.prems(2) by (auto simp: x)
    show ?case by (rule Cons.IH [OF serve_sound [OF Cons.prems(1) assms(2) u(1,2)] u(3)])
  qed simp
  have "\<exists>!(i, s). i < DENYFS_MAX_INODES \<and> slot_ok s \<and> sval (cells E w) (inode_at w i) s \<noteq> DENYFS_INVALID_BLOCK \<and>
      unat (sval (cells E w) (inode_at w i) s) = b" if "b \<in> used w" for b
    using one_owner [OF sound_goes(2) [OF s] that] by (simp add: sound_length [OF s] inode_at_def)
  with s show ?thesis by blast
qed

theorem requests_keep_sound_witness:
  "sound plain_env (snd (serve plain_env 0 demo_w (SetSize a_name 1)))"
proof -
  obtain r w where w: "serve plain_env 0 demo_w (SetSize a_name 1) = (r, w)" by (cases "serve plain_env 0 demo_w (SetSize a_name 1)")
  have "runs (\<lambda>v (now, q, r) w. 0 \<notin> set (req_name q) \<and> serve plain_env now v q = (r, w)) demo_w [(0, SetSize a_name 1, r)] w"
    using w by (simp add: a_name_def)
  from requests_keep_sound [OF store_sound [OF demo_w_made(2)] plain_works this] show ?thesis unfolding w by simp
qed

text \<open>
  C21. A new container starts with a consistent, empty file system: the outer volume that
  \<open>denyfs_vol_open\<close> mounts from a file just made by \<open>denyfs_container_create\<close> satisfies the invariant and
  holds no file (for volumes of at most 8 TiB, see \<open>alloc_block_int_cast\<close>).
\<close>

theorem new_container_empty:
  assumes "libs_work E" "entropy_ok en" "pw \<noteq> []" "size_ok size_mb" "unat size_mb \<le> 2 ^ 24"
  shows "\<exists>g v. container_create E en (Some empty_file) size_mb pw now = (True, Some g) \<and>
    vol_open E (Some g) pw hpw False = Some v \<and> store E v \<and> files E v = Map.empty"
proof -
  let ?sz = "size_mb * 1024 * 1024 div 2"
  obtain g h where g: "container_create E en (Some empty_file) size_mb pw now = (True, Some g)"
    "holds_outer E en pw g ?sz now h"
    using create_holds_outer [OF assms(1-4)] by blast
  have hv: "has_volume E en g ?sz (of_nat HEADER_SIZE) now h" using g(2) by (simp add: holds_outer_def)
  have "unat ?sz \<le> 2 ^ 43" using size_ok_facts(2) [OF assms(4)] assms(5) by simp
  note o = opened_store [OF assms(1) hv this]
  show ?thesis using g(1) open_outer(1) [OF assms(1) g(2)] o by blast
qed

theorem new_container_empty_witness:
  "\<exists>g v. container_create plain_env demo_entropy (Some empty_file) 4 outer_pw 0 = (True, Some g) \<and>
     vol_open plain_env (Some g) outer_pw None False = Some v \<and> store plain_env v \<and> files plain_env v = Map.empty"
  using new_container_empty [OF plain_libs demo_entropy_ok demo_pws(1) demo_size_ok(1), of 0 None] by simp

section \<open>The directory\<close>

text \<open>
  C17. The directory is a map from names to distinct files: \<open>denyfs_vol_lookup\<close> returns the inode number of
  the name, \<open>-ENOENT\<close> for any other name and \<open>-EINVAL\<close> for an empty or overlong one, without changing
  anything; a number it returns is that of a file, and no other name has it.
\<close>

theorem lookup_exact:
  assumes "sound E v"
  shows "vol_lookup E v name = (if name = [] \<or> DENYFS_MAX_NAME_LEN \<le> length name then Inl EINVAL
      else case dir E v name of None \<Rightarrow> Inl ENOENT | Some i \<Rightarrow> Inr i, v) \<and>
    (\<forall>i. dir E v name = Some i \<longrightarrow> unat i < DENYFS_MAX_INODES \<and>
      i_type (inode_at v (unat i)) = DENYFS_ITYPE_FILE \<and> (\<forall>a. dir E v a = Some i \<longrightarrow> a = name))"
  using vol_lookup_dir [OF assms, of name] dir_file(2,3) [OF assms, of name] dir_inj [OF assms] by auto

theorem lookup_exact_witness:
  "fst (vol_lookup plain_env demo_w a_name) \<noteq> Inl ENOENT \<and> fst (vol_lookup plain_env demo_w (map of_char ''b'')) = Inl ENOENT"
proof -
  have "dir plain_env demo_w a_name \<noteq> None" "dir plain_env demo_w (map of_char ''b'') = None"
    unfolding files_None [symmetric] demo_w_made(3) by (simp_all add: a_name_def)
  then obtain i where d: "dir plain_env demo_w a_name = Some i" "dir plain_env demo_w (map of_char ''b'') = None" by auto
  show ?thesis
    using conjunct1 [OF lookup_exact [OF store_sound [OF demo_w_made(2)], of a_name]]
      conjunct1 [OF lookup_exact [OF store_sound [OF demo_w_made(2)], of "map of_char ''b''"]]
    unfolding d by (simp add: a_name_def layout_sizes)
qed

text \<open>
  C18. \<open>readdir\<close> lists every file once: with a filler that never asks to stop, the callback succeeds and
  reports \<open>.\<close>, \<open>..\<close> and then the names of the files, each exactly once, and nothing changes.
\<close>

theorem readdir_exact:
  assumes "sound E v"
  shows "\<exists>names. fuse_readdir E v root_path (\<lambda>n s. (False, s @ [n])) [] =
      ((Inr (), [map of_char ''.'', map of_char ''..''] @ names), v) \<and>
    distinct names \<and> set names = dom (files E v)"
proof -
  have st: "\<And>name i s. \<not> fst (fill_cb (\<lambda>n s. (False, s @ [n])) name i s)" by (simp add: fill_cb_def)
  have fold: "fold (\<lambda>(name, i) s. snd (fill_cb (\<lambda>n s. (False, s @ [n])) name i s)) xs s = s @ map fst xs" for xs s
    by (induction xs arbitrary: s) (auto simp: fill_cb_def)
  show ?thesis
    using vol_readdir_listing [OF assms st, where s = "[map of_char ''.'', map of_char ''..'']"] sound_distinct(1) [OF assms]
    by (intro exI [of _ "map fst (listing (cells E v) (inode_at v 0))"])
      (simp add: fuse_readdir_def fold dom_dir)
qed

theorem readdir_exact_witness:
  "fuse_readdir plain_env demo_w root_path (\<lambda>n s. (False, s @ [n])) [] =
     ((Inr (), [map of_char ''.'', map of_char ''..'', a_name]), demo_w)"
proof -
  obtain names where n: "fuse_readdir plain_env demo_w root_path (\<lambda>n s. (False, s @ [n])) [] =
      ((Inr (), [map of_char ''.'', map of_char ''..''] @ names), demo_w)" "distinct names" "set names = {a_name}"
    using readdir_exact [OF store_sound [OF demo_w_made(2)]] by (auto simp: demo_w_made(3) simp del: dom_files)
  have "names = [a_name]"
  proof (cases names)
    case (Cons x xs)
    then have x: "x = a_name" "a_name \<notin> set xs" "set xs \<subseteq> {a_name}" using n(2,3) by auto
    then have "set xs = {}" using subset_singletonD [OF x(3)] by fastforce
    then show ?thesis using Cons x(1) by simp
  qed (use n(3) in simp)
  with n(1) show ?thesis by simp
qed

section \<open>The block map\<close>

text \<open>
  C19. \<open>get_file_data_block\<close> follows the block tree: for every logical block of a file it returns what the
  direct pointer, the single-indirect table or the two levels of the double-indirect tree hold for it, with
  an absent table read as empty, and changes nothing.
\<close>

theorem block_map_exact:
  assumes "mounted E v" "ino < DENYFS_MAX_INODES" "lb < DENYFS_MAX_FILE_BLOCKS"
  shows "get_file_data_block E v ino lb = (Inr (
    if lb < DENYFS_DIRECT_BLOCKS then i_direct (inode_at v ino) ! lb
    else if lb - DENYFS_DIRECT_BLOCKS < DENYFS_POINTERS_PER_BLOCK then
      table (cells E v) (i_indirect (inode_at v ino)) ! (lb - DENYFS_DIRECT_BLOCKS)
    else let k = lb - DENYFS_DIRECT_BLOCKS - DENYFS_POINTERS_PER_BLOCK in
      table (cells E v) (table (cells E v) (i_double (inode_at v ino)) ! (k div DENYFS_POINTERS_PER_BLOCK)) !
        (k mod DENYFS_POINTERS_PER_BLOCK)), v)"
proof -
  note g = mounted_goes [OF assms(1)]
  have "get_file_data_block E v ino lb = (Inr (file_block (cells E v) (v_inodes v ! ino) lb), v)"
    using get_block [of E v _ "cells E v" "v_inodes v" v ino lb] g assms(2,3) by metis
  then show ?thesis by (simp add: file_block_def slot_of_def inode_at_def Let_def)
qed

theorem block_map_exact_witness:
  "get_file_data_block plain_env demo 0 0 = (Inr 4, demo)"
  using block_map_exact [OF sound_mounted [OF demo_sound(1)], of 0 0]
  by (simp add: layout_sizes DENYFS_MAX_FILE_BLOCKS_def inode_at_def fmt_inodes_nth)

text \<open>
  C20. Allocating a block of a file is all or nothing: for a logical block that is a hole,
  \<open>allocate_file_data_block\<close> either returns a block that was free, now zeroed and in place, with the inode's
  block count raised and every other block of every file as before, or returns \<open>-ENOSPC\<close> when fewer than
  three blocks are free, with the bitmap, the inodes and the used blocks as before.
\<close>

theorem allocation_all_or_nothing:
  assumes "mounted E v" "ino < DENYFS_MAX_INODES" "lb < DENYFS_MAX_FILE_BLOCKS"
    and "file_block (cells E v) (inode_at v ino) lb = DENYFS_INVALID_BLOCK"
  shows "(\<exists>w. allocate_file_data_block E v ino lb = (Inl ENOSPC, w) \<and> card (pool v - used v) < 3 \<and>
      used w = used v \<and> v_inodes w = v_inodes v \<and> (\<forall>c. unat c \<in> used v \<longrightarrow> cells E w c = cells E v c)) \<or>
    (\<exists>w d. allocate_file_data_block E v ino lb = (Inr d, w) \<and> unat d \<in> used w - used v \<and> used v \<subseteq> used w \<and>
      owned (cells E w) (v_inodes w) (used w) \<and> cells E w d = replicate SECTOR_SIZE 0 \<and>
      i_block_count (inode_at w ino) = i_block_count (inode_at v ino) + 1 \<and>
      (\<forall>j < DENYFS_MAX_INODES. \<forall>l < DENYFS_MAX_FILE_BLOCKS. file_block (cells E w) (inode_at w j) l =
         (if j = ino \<and> l = lb then d else file_block (cells E v) (inode_at v j) l) \<and>
         block_bytes (cells E w) (file_block (cells E v) (inode_at v j) l) =
         block_bytes (cells E v) (file_block (cells E v) (inode_at v j) l)))"
proof -
  note g = mounted_goes [OF assms(1)]
  have l: "length (v_inodes v) = DENYFS_MAX_INODES" and i: "ino < length (v_inodes v)" using g assms(2) by simp_all
  have g1: "goes E v (used v) (cells E v) (v_inodes v) v" and o: "owned (cells E v) (v_inodes v) (used v)" using g by blast+
  from allocate_block [OF g1 o i assms(3) assms(4) [unfolded inode_at_def]] show ?thesis
  proof (elim disjE exE conjE)
    fix w h assume "allocate_file_data_block E v ino lb = (Inl ENOSPC, w)" "scarce v (used v)"
      "goes E v (used v) h (v_inodes v) w" "\<forall>c. unat c \<in> used v \<longrightarrow> h c = cells E v c"
    then show ?thesis by (intro disjI1 exI [of _ w]) (simp add: scarce_def goes_def)
  next
    fix w h m U d assume a: "allocate_file_data_block E v ino lb = (Inr d, w)" "goes E v U h m w" "owned h m U"
      "unat d \<notin> used v" "insert (unat d) (used v) \<subseteq> U" "extends_file ino lb d (cells E v) (v_inodes v) h m"
    have w: "used w = U" "cells E w = h" "v_inodes w = m" using a(2) by (simp_all add: goes_def)
    have e: "\<forall>j < DENYFS_MAX_INODES. \<forall>k < DENYFS_MAX_FILE_BLOCKS. file_block h (m ! j) k =
        (if j = ino \<and> k = lb then d else file_block (cells E v) (v_inodes v ! j) k) \<and>
        (file_block (cells E v) (v_inodes v ! j) k \<noteq> DENYFS_INVALID_BLOCK \<longrightarrow>
          h (file_block (cells E v) (v_inodes v ! j) k) = cells E v (file_block (cells E v) (v_inodes v ! j) k))"
      "h d = replicate SECTOR_SIZE 0" "i_block_count (m ! ino) = i_block_count (v_inodes v ! ino) + 1"
      using a(6) unfolding extends_file_def l by blast+
    show ?thesis
      by (intro disjI2 exI [of _ w] exI [of _ d])
        (use a(1,3-5) e in \<open>auto simp: w inode_at_def block_bytes_def\<close>)
  qed
qed

theorem allocation_all_or_nothing_witness:
  "\<exists>d w. allocate_file_data_block plain_env demo 0 1 = (Inr d, w) \<and> cells plain_env w d = replicate SECTOR_SIZE 0"
proof -
  have "card (pool demo - used demo) = 3" unfolding demo_free by simp
  moreover have "file_block (cells plain_env demo) (inode_at demo 0) 1 = DENYFS_INVALID_BLOCK"
    by (simp add: file_block_direct inode_at_def fmt_inodes_nth layout_sizes)
  ultimately show ?thesis
    using allocation_all_or_nothing [OF sound_mounted [OF demo_sound(1)], of 0 1]
    by (auto simp: layout_sizes DENYFS_MAX_FILE_BLOCKS_def)
qed

section \<open>Mounting again\<close>

text \<open>
  C3. The check at mount time is exact: \<open>validate_loaded_metadata\<close> accepts the loaded tables if and only if the
  volume is consistent (no block shared, lost, or beyond the end of a file, bitmap, counters, directory and
  inode table in agreement, the metadata blocks reserved), and it changes nothing.
\<close>

theorem validator_exact:
  assumes "ready E v" "wf v" "small_volume v" "clean_synced E v" "e_alloc E Claimed_buffer"
  shows "validate_loaded_metadata E v = (consistent E v, v)"
  by (rule validate_consistent [OF assms])

theorem validator_exact_witness:
  "validate_loaded_metadata plain_env demo = (True, demo)"
proof -
  have "e_alloc plain_env Claimed_buffer" using plain_libs by (simp add: libs_work_def)
  from validator_exact [OF demo_ready demo_wf demo_bitmap_inv(2) demo_clean this] show ?thesis by (simp add: demo_consistent)
qed

text \<open>
  C4. Only consistent volumes are mounted. Whatever bytes the container holds and whatever is protected, if
  \<open>denyfs_vol_open\<close> succeeds on a stream without faults, and the volume has at most \<open>2 ^ 31\<close> blocks (8 TiB), then
  the superblock and the tables have their shape, every used block belongs to exactly one slot of one file's
  tree, the directory lists exactly the inodes in use, bitmap and both counters agree with the trees, no file
  has a block beyond its end, the metadata blocks are reserved, memory and disk agree, the bitmap has the HMAC
  stored for it, and opening has not written to the container.
\<close>

theorem opened_is_consistent:
  assumes "libs_work E" "f_faults f = []" "vol_open E (Some f) pw hpw protect = Some v" "vol_blocks v \<le> 2 ^ 31"
  shows "wf v \<and> fsys (cells E v) (v_inodes v) (used v) \<and> bitmap_inv v \<and>
    unat (sb_free_inodes (v_sb v)) + length (listing (cells E v) (inode_at v 0)) + 1 = DENYFS_MAX_INODES \<and>
    (\<forall>i \<in> ran (dir E v). fits E v (unat i)) \<and> (\<forall>b < data_start v. bitmap_test (v_bitmap v) b) \<and>
    synced E v \<and> v_file v = f \<and> compute_hmac E (v_hkey v) (v_bitmap v) = Some (sb_bitmap_hmac (v_sb v))"
  using opened_bare [OF assms] by (simp add: settled_def consistent_def sound_def core_def)

theorem opened_is_consistent_witness:
  "\<exists>v. vol_open plain_env (Some demo_both) outer_pw (Some hidden_pw) True = Some v \<and> v_protect v \<and>
     fsys (cells plain_env v) (v_inodes v) (used v) \<and> v_file v = demo_both"
proof -
  obtain h where o: "holds_outer plain_env demo_entropy outer_pw demo_both outer_size 0 h"
    using demo_both_ok by blast
  then have f: "f_faults demo_both = []" "length (f_bytes demo_both) \<le> LONG_MAX"
    by (simp_all add: holds_outer_def container_ok_def)
  obtain v where v: "vol_open plain_env (Some demo_both) outer_pw (Some hidden_pw) True = Some v" "v_protect v"
    using demo_both_protected by blast
  have "unat (v_start v) + unat (v_size v) \<le> length (f_bytes demo_both)" using opened_inside [OF v(1)] .
  then have "vol_blocks v \<le> 2 ^ 31" using demo_both_ok div_le_mono [of "unat (v_size v)" 4194304 SECTOR_SIZE]
    by (auto simp: vol_blocks_def SECTOR_SIZE_def)
  with opened_is_consistent [OF plain_libs f(1) v(1)] v show ?thesis by blast
qed

text \<open>
  C5. A session survives the unmount. Whatever requests a mount of a consistent volume has served, in any
  number and order, the container that the final flush of \<open>denyfs_fuse_destroy\<close> leaves opens again with the
  same passwords, and holds exactly the files of the moment of the unmount.
\<close>

theorem reopen_after_session:
  assumes "libs_work E" "f_faults f = []" "vol_open E (Some f) pw hpw protect = Some v" "store E v"
    and "runs (served E) v xs w"
  shows "\<exists>u. vol_open E (Some (fuse_destroy E w)) pw hpw protect = Some u \<and> store E u \<and> files E u = files E w"
  using session_reopens [OF assms] by blast

theorem reopen_after_session_witness:
  "\<exists>w u. vol_open plain_env (Some demo_outer) outer_pw None False = Some demo_mounted \<and>
     w = snd (fuse_create plain_env 0 demo_mounted (path_of a_name)) \<and>
     vol_open plain_env (Some (fuse_destroy plain_env w)) outer_pw None False = Some u \<and>
     files plain_env u = files plain_env w"
proof -
  note v = demo_outer_opens(1,2,4)
  let ?w = "snd (fuse_create plain_env 0 demo_mounted (path_of a_name))"
  have "serve plain_env 0 demo_mounted (MkFile a_name) = (fst (serve plain_env 0 demo_mounted (MkFile a_name)), ?w)"
    by (simp split: prod.splits sum.splits)
  then have "served plain_env demo_mounted (0, MkFile a_name, fst (serve plain_env 0 demo_mounted (MkFile a_name))) ?w"
    by (simp add: served_def a_good ran_out.simps)
  then have "runs (served plain_env) demo_mounted [(0, MkFile a_name, fst (serve plain_env 0 demo_mounted (MkFile a_name)))] ?w" by auto
  from reopen_after_session [OF plain_libs v(3,1,2) this] v(1) show ?thesis by blast
qed

text \<open>
  C10. A write that runs out of space half-way locks the user out. On a stream without faults, a consistent
  volume is mounted and serves any requests; then \<open>denyfs_vol_write\<close> is called with any data at an offset whose
  block lies wholly past the end of a file, and returns \<open>-ENOSPC\<close> with blocks that it has allocated and not given
  back. Those blocks stay in the file beyond its unchanged size: after the unmount, \<open>denyfs_vol_open\<close> refuses the
  container under the same passwords.
\<close>

theorem aborted_write_locks_out:
  assumes "libs_work E" "f_faults f = []" "vol_open E (Some f) pw hpw protect = Some v0" "store E v0"
    and "runs (served E) v0 xs v" "dir E v name = Some i"
    and "vol_write E now v (unat i) buf off = (Inl ENOSPC, w)" "used w \<noteq> used v"
    and "unat (i_size (inode_at v (unat i))) \<le> unat off div SECTOR_SIZE * SECTOR_SIZE"
  shows "vol_open E (Some (fuse_destroy E w)) pw hpw protect = None"
  by (rule aborted_write_locks [OF assms])

theorem aborted_write_locks_out_witness:
  "\<exists>(i :: u32) w. vol_write plain_env 0 mounted_a (unat i) big 0 = (Inl ENOSPC, w) \<and>
     vol_open plain_env (Some (fuse_destroy plain_env w)) outer_pw None False = None"
proof -
  note m = demo_outer_opens
  obtain i w where w: "dir plain_env mounted_a a_name = Some i" "i_size (inode_at mounted_a (unat i)) = 0"
    "vol_write plain_env 0 mounted_a (unat i) big 0 = (Inl ENOSPC, w)" "used w \<noteq> used mounted_a"
    using mounted_a_full by blast
  have r: "runs (served plain_env) demo_mounted [(0, MkFile a_name, Done)] mounted_a"
    using mounted_a_made path_of_name [OF a_good] by (auto simp: served_def a_good fuse_create_def)
  have z: "unat (i_size (inode_at mounted_a (unat i))) \<le> unat (0 :: u64) div SECTOR_SIZE * SECTOR_SIZE" by (simp add: w(2))
  from aborted_write_locks_out [OF plain_libs m(4,1,2) r w(1,3,4) z] w(3) show ?thesis by blast
qed

text \<open>
  C31. The hidden files survive. A container is mounted as the outer volume, protected with the hidden password,
  and any FUSE callbacks run, with any I/O faults, up to the final flush. If the hidden password opened a
  consistent hidden volume before, it opens one after it, with exactly the same files.
\<close>

theorem hidden_files_survive:
  assumes "libs_work E" "vol_open E (Some f) pw (Some hp) True = Some v" "\<not> v_hidden v" "fuse_run E v w"
    and "vol_open E (Some (reopened f)) hp None False = Some x" "v_hidden x" "store E x"
  shows "\<exists>y. vol_open E (Some (reopened (fuse_destroy E w))) hp None False = Some y \<and> v_hidden y \<and> store E y \<and>
    files E y = files E x"
  by (rule hidden_again [OF assms(1-3,5-7,4)])

theorem hidden_files_survive_witness:
  "\<exists>v x y. vol_open plain_env (Some demo_both) outer_pw (Some hidden_pw) True = Some v \<and>
     vol_open plain_env (Some (reopened demo_both)) hidden_pw None False = Some x \<and>
     vol_open plain_env (Some (reopened (fuse_destroy plain_env (snd (fuse_create plain_env 0 v (path_of a_name))))))
       hidden_pw None False = Some y \<and> files plain_env y = files plain_env x"
proof -
  obtain v where v: "vol_open plain_env (Some demo_both) outer_pw (Some hidden_pw) True = Some v" "\<not> v_hidden v"
    using demo_both_protected by blast
  obtain x where x: "vol_open plain_env (Some (reopened demo_both)) hidden_pw None False = Some x" "v_hidden x" "store plain_env x"
    using demo_hidden_opens by blast
  from hidden_files_survive [OF plain_libs v create_run x, of 0 "path_of a_name"] v(1) x(1) show ?thesis by blast
qed

section \<open>The command line\<close>

text \<open>
  C22. \<open>create\<close> and then \<open>open\<close>, from the argument vectors on: with a size in decimal and a password line on a
  descriptor, a new file of that many MiB appears under the given name, both commands exit with 0, the report is
  that of the outer volume, which is consistent and empty, and nothing else on the host changes.
\<close>

theorem create_command:
  assumes "libs_work E" "entropy_ok (hs_entropy h)" "hs_crypto h" "hs_alloc h = []"
    and "hs_files h path = None" "hs_create h path = Some []"
    and "line pw" "pw \<noteq> []" "length pw < PASSWORD_MAX" "fd < 2 ^ 31" "hs_fds h (int fd) = pw @ 10 # pw @ 10 # rest"
    and "n \<le> 2 ^ 24" "size_ok (of_nat n)"
  shows "\<exists>g v h1 h2. denyfs_main E fm h
      [prog, cstr ''create'', path, cstr ''--size'', decimal n, cstr ''--password-fd'', decimal fd] = (0, h1) \<and>
    denyfs_main E fm h1 [prog, cstr ''open'', path, cstr ''--password-fd'', decimal fd] = (0, h2) \<and>
    hs_files h1 = (hs_files h)(path \<mapsto> g) \<and> hs_files h2 = hs_files h1 \<and> length (f_bytes g) = n * 2 ^ 20 \<and>
    vol_open E (Some g) pw None False = Some v \<and> store E v \<and> files E v = Map.empty \<and>
    Report False (v_size v) (sb_total_blocks (v_sb v)) (sb_free_blocks (v_sb v)) (sb_free_inodes (v_sb v))
      (sb_data_start (v_sb v)) \<in> set (hs_out h2)"
proof -
  let ?sz = "of_nat n * 1024 * 1024 div 2 :: u64"
  have un: "unat (of_nat n :: u64) = n" using assms(12) by (simp add: unsigned_of_nat take_bit_nat_eq_self)
  have n: "n < 2 ^ 64" using assms(12) by simp
  obtain g h1 m where g: "denyfs_main E fm h [prog, cstr ''create'', path, cstr ''--size'', decimal n,
      cstr ''--password-fd'', decimal fd] = (0, h1)" "hs_files h1 = (hs_files h)(path \<mapsto> g)"
    "hs_fds h1 = (hs_fds h)(int fd := pw @ 10 # rest)" "hs_alloc h1 = []" "hs_crypto h1"
    "length (f_bytes g) = container_bytes (of_nat n)" "holds_outer E (hs_entropy h) pw g ?sz (hs_now h) m"
    using create_command_run [OF assms(1-11) n assms(13)] by blast
  have hv: "has_volume E (hs_entropy h) g ?sz (of_nat HEADER_SIZE) (hs_now h) m" using g(7) by (simp add: holds_outer_def)
  have "unat ?sz \<le> 2 ^ 43" using size_ok_facts(2) [OF assms(13)] assms(12) by (simp add: un)
  note st = opened_store [OF assms(1) hv this, of False]
  let ?v = "opened g (hs_entropy h) ?sz (of_nat HEADER_SIZE) False m (hs_now h)"
  have v: "vol_open E (hs_files h1 path) pw None False = Some ?v" using open_outer(1) [OF assms(1) g(7)] by (simp add: g(2))
  have fl: "\<not> v_hidden ?v" "v_file ?v = g" by (simp_all add: opened_def fresh_def blank_volume_def Let_def)
  have "hs_fds h1 (int fd) = pw @ 10 # rest" by (simp add: g(3))
  from open_command_run [OF g(5,4) assms(7,9,10) this v, of fm prog] g(1,2,6) v st fl show ?thesis
    by (auto simp: container_bytes_def un)
qed

theorem create_command_witness:
  "\<exists>g v h1 h2. denyfs_main plain_env (\<lambda>args v. (0, v_file v)) demo_host
      [cstr ''denyfs'', cstr ''create'', cstr ''new'', cstr ''--size'', decimal 4, cstr ''--password-fd'', decimal 3] = (0, h1) \<and>
    denyfs_main plain_env (\<lambda>args v. (0, v_file v)) h1 [cstr ''denyfs'', cstr ''open'', cstr ''new'', cstr ''--password-fd'', decimal 3] = (0, h2) \<and>
    hs_files h2 (cstr ''new'') = Some g \<and> vol_open plain_env (Some g) outer_pw None False = Some v \<and>
    files plain_env v = Map.empty"
proof -
  have "demo_entropy = hs_entropy demo_host" "hs_crypto demo_host" "hs_alloc demo_host = []"
    "hs_files demo_host (cstr ''new'') = None" "hs_create demo_host (cstr ''new'') = Some []"
    "hs_fds demo_host (int 3) = outer_pw @ 10 # outer_pw @ 10 # []"
    by (simp_all add: demo_host_def)
  moreover have "line outer_pw" "length outer_pw < PASSWORD_MAX" by (simp_all add: line_def outer_pw_def PASSWORD_MAX_def)
  moreover have "size_ok (of_nat 4)" using demo_size_ok(1) by simp
  ultimately show ?thesis
    using create_command [OF plain_libs, of demo_host "cstr ''new''" outer_pw 3 "[]" 4 "\<lambda>args v. (0, v_file v)" "cstr ''denyfs''"]
      demo_entropy_ok demo_pws(1) by auto
qed

text \<open>
  C23. A raw sector comes back. \<open>write-sector\<close> into a block that no file uses and then \<open>read-sector\<close> exit with 0 and
  give the first 4096 bytes of the data file, padded with zeros; the container still opens, with the same files.
\<close>

theorem sector_roundtrip:
  assumes "libs_work E" "hs_files h path = Some f" "f_faults f = []" "vol_open E (Some f) pw None False = Some v" "store E v"
    and "unat lba \<in> pool v - used v" "hs_files h data_file = Some df" "f_faults df = []" "data_file \<noteq> path"
    and "open_trunc h out_file = Some empty_file" "out_file \<noteq> path"
  shows "\<exists>h1 h2 w. handle_write_sector E h path pw lba data_file = (0, h1) \<and>
    handle_read_sector E h1 path pw lba out_file = (0, h2) \<and>
    map_option f_bytes (hs_files h2 out_file) = Some (pad SECTOR_SIZE (f_bytes df)) \<and>
    vol_open E (hs_files h2 path) pw None False = Some w \<and> store E w \<and> files E w = files E v"
  by (rule sector_again [OF assms])

theorem sector_roundtrip_witness:
  "\<exists>h1 h2. handle_write_sector plain_env demo_host (cstr ''disk'') outer_pw 5 (cstr ''data'') = (0, h1) \<and>
     handle_read_sector plain_env h1 (cstr ''disk'') outer_pw 5 (cstr ''out'') = (0, h2) \<and>
     map_option f_bytes (hs_files h2 (cstr ''out'')) = Some (hello @ replicate 4090 0)"
proof -
  note v = demo_outer_opens(1,2,4)
  have five: "5 \<in> pool demo_mounted - used demo_mounted" by (simp add: demo_outer_opens)
  have p: "pad SECTOR_SIZE (f_bytes \<lparr>f_bytes = hello, f_faults = []\<rparr>) = hello @ replicate 4090 0"
    by (simp add: pad_def SECTOR_SIZE_def)
  show ?thesis
    using sector_roundtrip [OF plain_libs _ v(3,1,2), of demo_host "cstr ''disk''" 5 "cstr ''data''"
      "\<lparr>f_bytes = hello, f_faults = []\<rparr>" "cstr ''out''"] five
    unfolding p by (auto simp: demo_host_def open_trunc_def open_new_def empty_file_def)
qed

text \<open>
  C24. A command only writes where it says. Whatever the arguments, faults and libraries, every file other than the
  container named by \<open>argv[2]\<close> and the output of \<open>read-sector\<close> keeps its bytes; \<open>create\<close> never overwrites an existing
  file, and \<open>open\<close> and \<open>read-sector\<close> do not change the container unless it is named as the output.
\<close>

theorem commands_frame:
  assumes "denyfs_main E fm h argv = (r, h')" "\<not> may_write h argv p"
  shows "map_option f_bytes (hs_files h' p) = map_option f_bytes (hs_files h p)"
  using main_frame [OF assms] by (simp add: same_bytes_def)

theorem commands_frame_witness:
  "map_option f_bytes (hs_files (snd (denyfs_main plain_env (\<lambda>args v. (0, v_file v)) demo_host
     [cstr ''denyfs'', cstr ''create'', cstr ''disk'', cstr ''--size'', decimal 4])) (cstr ''disk'')) = Some (f_bytes demo_outer)"
proof -
  let ?a = "[cstr ''denyfs'', cstr ''create'', cstr ''disk'', cstr ''--size'', decimal 4]"
  have "\<not> may_write demo_host ?a (cstr ''disk'')" by (simp add: may_write_def demo_host_def)
  from commands_frame [OF surjective_pairing this, of plain_env "\<lambda>args v. (0, v_file v)"] show ?thesis
    by (simp add: demo_host_def)
qed

end
